(* ===== verification/C_Prelude.thy ===== *)
theory C_Prelude
  imports Main "HOL-Library.Word"
begin

text \<open>
  Vocabulary shared by the component theories: the widths of the C integer types, the outcome
  of an operation that may run into undefined behaviour, bounds-checked array access, and
  generic facts about lists, words and bit strings that several components use.
\<close>

section \<open>C integers\<close>

type_synonym u8 = "8 word"
type_synonym u16 = "16 word"
type_synonym u32 = "32 word"

lemma unat_u32_lt: "unat (w :: u32) < 2 ^ 32"
  using unsigned_less [of w] by simp

lemma unat_u8_lt: "unat (w :: u8) < 256"
  using unsigned_less [of w] by simp

lemma unat_of_nat_u32: "n < 2 ^ 32 \<Longrightarrow> unat (of_nat n :: u32) = n"
  by (simp add: unat_of_nat)

lemma unat_of_nat_u16: "n < 2 ^ 16 \<Longrightarrow> unat (of_nat n :: u16) = n"
  by (simp add: unat_of_nat)

section \<open>Outcomes\<close>

text \<open>
  An operation that can leave the defined part of C returns a value of a sum type. The left
  injection names what went wrong: an array or buffer access outside the object, a dereference
  of a null pointer, a call that never returns (\<^verbatim>\<open>my_assert\<close> spins forever when its
  argument is false), or the conversion of an infinite floating-point value to an integer.
\<close>

datatype fault = Out_Of_Bounds | Null_Dereference | Assert_Hang | Bad_Conversion

type_synonym 'a result = "fault + 'a"

fun bindR :: "'a result \<Rightarrow> ('a \<Rightarrow> 'b result) \<Rightarrow> 'b result" where
  "bindR (Inl f) k = Inl f"
| "bindR (Inr x) k = k x"

definition rd :: "'a list \<Rightarrow> nat \<Rightarrow> 'a result" where
  "rd xs i = (if i < length xs then Inr (xs ! i) else Inl Out_Of_Bounds)"

definition wr :: "'a list \<Rightarrow> nat \<Rightarrow> 'a \<Rightarrow> 'a list result" where
  "wr xs i v = (if i < length xs then Inr (xs[i := v]) else Inl Out_Of_Bounds)"

named_theorems c_simps \<open>unfolding rules for the checked array accesses and the outcome monad\<close>

lemma rd_in [c_simps]: "i < length xs \<Longrightarrow> rd xs i = Inr (xs ! i)"
  by (simp add: rd_def)

lemma rd_out [c_simps]: "length xs \<le> i \<Longrightarrow> rd xs i = Inl Out_Of_Bounds"
  by (simp add: rd_def)

lemma wr_in [c_simps]: "i < length xs \<Longrightarrow> wr xs i v = Inr (xs[i := v])"
  by (simp add: wr_def)

lemma wr_out [c_simps]: "length xs \<le> i \<Longrightarrow> wr xs i v = Inl Out_Of_Bounds"
  by (simp add: wr_def)

lemma bindR_eq_Inr_iff: "bindR r k = Inr y \<longleftrightarrow> (\<exists>x. r = Inr x \<and> k x = Inr y)"
  by (cases r) auto

lemma bindR_eq_Inl_iff: "bindR r k = Inl f \<longleftrightarrow> r = Inl f \<or> (\<exists>x. r = Inr x \<and> k x = Inl f)"
  by (cases r) auto

lemma bindR_assoc: "bindR (bindR r k) l = bindR r (\<lambda>x. bindR (k x) l)"
  by (cases r) auto

lemma bindR_Inr [simp]: "bindR r Inr = r"
  by (cases r) auto

lemma wr_eq_Inr_iff: "wr xs i v = Inr ys \<longleftrightarrow> i < length xs \<and> ys = xs[i := v]"
  by (auto simp: wr_def)

lemma rd_eq_Inr_iff: "rd xs i = Inr y \<longleftrightarrow> i < length xs \<and> y = xs ! i"
  by (auto simp: rd_def)

text \<open>
  \<open>write_bytes xs k vs\<close> stores the bytes \<open>vs\<close> from index \<open>k\<close> on, which is what
  \<^verbatim>\<open>strcpy\<close> and \<^verbatim>\<open>memcpy\<close> do to a destination inside \<open>xs\<close>.
\<close>

definition write_bytes :: "'a list \<Rightarrow> nat \<Rightarrow> 'a list \<Rightarrow> 'a list result" where
  "write_bytes xs k vs =
     (if k + length vs \<le> length xs
      then Inr (take k xs @ vs @ drop (k + length vs) xs) else Inl Out_Of_Bounds)"

lemma write_bytes_in [c_simps]:
  "k + length vs \<le> length xs \<Longrightarrow>
     write_bytes xs k vs = Inr (take k xs @ vs @ drop (k + length vs) xs)"
  by (simp add: write_bytes_def)

lemma write_bytes_out [c_simps]:
  "length xs < k + length vs \<Longrightarrow> write_bytes xs k vs = Inl Out_Of_Bounds"
  by (simp add: write_bytes_def)

lemma write_bytes_nth:
  assumes "write_bytes xs k vs = Inr ys"
  shows "length ys = length xs"
    and "i < length xs \<Longrightarrow>
      ys ! i = (if k \<le> i \<and> i < k + length vs then vs ! (i - k) else xs ! i)"
  using assms by (auto simp: write_bytes_def nth_append split: if_splits)

lemma write_bytes_Nil: "k \<le> length xs \<Longrightarrow> write_bytes xs k [] = Inr xs"
  by (simp add: write_bytes_def)

lemma write_bytes_Cons:
  "write_bytes xs k (v # vs) = bindR (wr xs k v) (\<lambda>ys. write_bytes ys (Suc k) vs)"
proof (cases "k < length xs")
  case True
  have "take (Suc k) (xs[k := v]) = take k xs @ [v]"
    using True by (simp add: take_Suc_conv_app_nth)
  with True show ?thesis by (simp add: write_bytes_def wr_def)
qed (simp add: write_bytes_def wr_def)

lemma write_bytes_single: "write_bytes xs k [v] = wr xs k v"
  by (cases "k < length xs") (simp_all add: write_bytes_Cons write_bytes_Nil wr_def)

lemma write_bytes_append:
  "write_bytes xs k (vs @ ws) =
     bindR (write_bytes xs k vs) (\<lambda>ys. write_bytes ys (k + length vs) ws)"
proof (induction vs arbitrary: xs k)
  case Nil
  show ?case by (cases "k \<le> length xs") (simp_all add: write_bytes_Nil write_bytes_out)
next
  case (Cons v vs)
  then show ?case by (simp add: write_bytes_Cons bindR_assoc)
qed

text \<open>Running a fallible step over a list of inputs stops at the first fault.\<close>

fun foldR :: "('e \<Rightarrow> 's \<Rightarrow> 's result) \<Rightarrow> 'e list \<Rightarrow> 's \<Rightarrow> 's result" where
  "foldR step [] s = Inr s"
| "foldR step (e # es) s = bindR (step e s) (foldR step es)"

lemma foldR_Nil_fun: "foldR step [] = Inr"
  by (rule ext) simp

lemma foldR_cong:
  "(\<And>e s. e \<in> set es \<Longrightarrow> f e s = g (h e) s) \<Longrightarrow> foldR f es s = foldR g (map h es) s"
proof (induction es arbitrary: s)
  case (Cons e es)
  then show ?case by (cases "g (h e) s") simp_all
qed simp

lemma foldR_append: "foldR step (xs @ ys) s = bindR (foldR step xs s) (foldR step ys)"
proof (induction xs arbitrary: s)
  case (Cons x xs)
  then show ?case by (cases "step x s") simp_all
qed simp

lemma foldR_invariant:
  assumes "foldR step es s = Inr t" and "P s"
    and "\<And>e s s'. e \<in> set es \<Longrightarrow> P s \<Longrightarrow> step e s = Inr s' \<Longrightarrow> P s'"
  shows "P t"
  using assms
proof (induction es arbitrary: s)
  case (Cons e es)
  from Cons.prems(1) obtain s' where "step e s = Inr s'" and "foldR step es s' = Inr t"
    by (auto simp: bindR_eq_Inr_iff)
  with Cons show ?case by (metis list.set_intros(1) list.set_intros(2))
qed simp

lemma foldR_Inl:
  "foldR step es s = Inl f \<Longrightarrow>
     \<exists>xs e ys t. es = xs @ e # ys \<and> foldR step xs s = Inr t \<and> step e t = Inl f"
proof (induction es arbitrary: s)
  case (Cons e es)
  show ?case
  proof (cases "step e s")
    case (Inl g)
    with Cons.prems show ?thesis
      by (intro exI [of _ "[]"] exI [of _ e] exI [of _ es] exI [of _ s]) simp
  next
    case (Inr u)
    with Cons.prems have "foldR step es u = Inl f" by simp
    from Cons.IH [OF this] obtain xs e' ys t
      where "es = xs @ e' # ys" "foldR step xs u = Inr t" "step e' t = Inl f" by blast
    with Inr show ?thesis
      by (intro exI [of _ "e # xs"] exI [of _ e'] exI [of _ ys] exI [of _ t]) simp
  qed
qed simp

text \<open>A fallible function applied along a list.\<close>

fun mapR :: "('a \<Rightarrow> 'b result) \<Rightarrow> 'a list \<Rightarrow> 'b list result" where
  "mapR f [] = Inr []"
| "mapR f (x # xs) = bindR (f x) (\<lambda>y. bindR (mapR f xs) (\<lambda>ys. Inr (y # ys)))"

lemma mapR_Inr: "(\<And>x. x \<in> set xs \<Longrightarrow> f x = Inr (g x)) \<Longrightarrow> mapR f xs = Inr (map g xs)"
  by (induction xs) auto

lemma mapR_nth:
  assumes "mapR f xs = Inr ys"
  shows "length ys = length xs" and "k < length xs \<Longrightarrow> f (xs ! k) = Inr (ys ! k)"
proof -
  have "length ys = length xs \<and> (\<forall>k < length xs. f (xs ! k) = Inr (ys ! k))"
    using assms
    by (induction xs arbitrary: ys) (auto simp: bindR_eq_Inr_iff less_Suc_eq_0_disj)
  then show "length ys = length xs" and "k < length xs \<Longrightarrow> f (xs ! k) = Inr (ys ! k)" by auto
qed

section \<open>Bytes and characters\<close>

definition bytes_of :: "string \<Rightarrow> u8 list" where
  "bytes_of s = map of_char s"

lemma length_bytes_of [simp]: "length (bytes_of s) = length s"
  by (simp add: bytes_of_def)

lemma bytes_of_append: "bytes_of (s @ t) = bytes_of s @ bytes_of t"
  by (simp add: bytes_of_def)

text \<open>The bytes of a C string stored at the head of a buffer: everything before the first NUL.\<close>

definition c_str :: "u8 list \<Rightarrow> u8 list" where
  "c_str xs = takeWhile (\<lambda>b. b \<noteq> 0) xs"

lemma c_str_append_nul: "0 \<notin> set xs \<Longrightarrow> c_str (xs @ 0 # ys) = xs"
  by (induction xs) (auto simp: c_str_def)

section \<open>Bit strings\<close>

text \<open>The \<open>n\<close> low bits of a number, most significant first, and back.\<close>

fun bits_msb :: "nat \<Rightarrow> 'a::len word \<Rightarrow> bool list" where
  "bits_msb 0 w = []"
| "bits_msb (Suc n) w = bit w n # bits_msb n w"

lemma length_bits_msb [simp]: "length (bits_msb n w) = n"
  by (induction n) auto

lemma nth_bits_msb: "i < n \<Longrightarrow> bits_msb n w ! i = bit w (n - Suc i)"
  by (induction n arbitrary: i) (auto simp: nth_Cons split: nat.splits)

lemma bits_msb_cong: "(\<And>i. i < n \<Longrightarrow> bit v i = bit w i) \<Longrightarrow> bits_msb n v = bits_msb n w"
  by (induction n) auto

section \<open>One-time initialisation\<close>

text \<open>
  Most drivers guard their set-up with a flag so that only the first call has an effect. The
  contract of such an operation: once the flag is up a further call changes nothing, and a call
  always leaves the flag up.
\<close>

locale init_once =
  fixes init :: "'s \<Rightarrow> 's"
    and inited :: "'s \<Rightarrow> bool"
  assumes init_skip: "inited s \<Longrightarrow> init s = s"
    and init_sets: "inited (init s)"
begin

lemma init_idem: "init (init s) = init s"
  by (rule init_skip) (rule init_sets)

lemma init_many: "0 < n \<Longrightarrow> (init ^^ n) s = init s"
proof (induction n)
  case (Suc n)
  then show ?case by (cases n) (simp_all add: init_idem)
qed simp

end

end
