(* ===== verification/Gpio.thy ===== *)
theory Gpio
  imports C_Prelude
begin

unbundle bit_operations_syntax

text \<open>
  The pin services of \<^verbatim>\<open>source/gpio.c\<close>: configuration, output, input and the interrupt
  dispatch of the five ports. The registers are words; the interrupt flag of a pin control
  register is cleared by writing a one to it, the toggle register reads as zero. A pin number
  whose port does not exist indexes the tables of the module out of bounds.
\<close>

section \<open>Pins, modes and register fields\<close>

type_synonym pin_t = u8

definition PORTNUM2PIN :: "nat \<Rightarrow> nat \<Rightarrow> pin_t" where
  "PORTNUM2PIN p n = push_bit 5 (of_nat p) + of_nat n"

definition PIN2PORT :: "pin_t \<Rightarrow> nat" where
  "PIN2PORT p = unat (drop_bit 5 p AND 0x07)"

definition PIN2NUM :: "pin_t \<Rightarrow> nat" where
  "PIN2NUM p = unat (p AND 0x1F)"

definition INPUT :: u8 where "INPUT = 0"
definition OUTPUT :: u8 where "OUTPUT = 1"
definition INPUT_PULLUP :: u8 where "INPUT_PULLUP = 2"
definition INPUT_PULLDOWN :: u8 where "INPUT_PULLDOWN = 3"

text \<open>Each option has a default, a value that switches it on and one that switches it off.\<close>

definition MODE_DEFAULT :: u8 where "MODE_DEFAULT = 0"
definition MODE_ON :: u8 where "MODE_ON = 1"
definition MODE_OFF :: u8 where "MODE_OFF = 2"

definition PORT_PCR_IRQC_MASK :: u32 where "PORT_PCR_IRQC_MASK = 0xF0000"
definition PORT_PCR_ISF_MASK :: u32 where "PORT_PCR_ISF_MASK = 0x1000000"

definition PORT_PCR_PS :: "u32 \<Rightarrow> u32" where "PORT_PCR_PS x = x AND 0x1"
definition PORT_PCR_PE :: "u32 \<Rightarrow> u32" where "PORT_PCR_PE x = push_bit 1 x AND 0x2"
definition PORT_PCR_SRE :: "u32 \<Rightarrow> u32" where "PORT_PCR_SRE x = push_bit 2 x AND 0x4"
definition PORT_PCR_PFE :: "u32 \<Rightarrow> u32" where "PORT_PCR_PFE x = push_bit 4 x AND 0x10"
definition PORT_PCR_ODE :: "u32 \<Rightarrow> u32" where "PORT_PCR_ODE x = push_bit 5 x AND 0x20"
definition PORT_PCR_DSE :: "u32 \<Rightarrow> u32" where "PORT_PCR_DSE x = push_bit 6 x AND 0x40"
definition PORT_PCR_MUX :: "u32 \<Rightarrow> u32" where "PORT_PCR_MUX x = push_bit 8 x AND 0x700"
definition PORT_PCR_IRQC :: "u32 \<Rightarrow> u32" where
  "PORT_PCR_IRQC x = push_bit 16 x AND PORT_PCR_IRQC_MASK"
definition PORT_DFER_DFE :: "u32 \<Rightarrow> u32" where "PORT_DFER_DFE x = x"
definition PORT_DFWR_FILT :: "u32 \<Rightarrow> u32" where "PORT_DFWR_FILT x = x AND 0x1F"

definition SIM_SCGC5_PORT_MASKS :: "u32 list" where
  "SIM_SCGC5_PORT_MASKS = [0x200, 0x400, 0x800, 0x1000, 0x2000]"

definition DFWR_MAX :: u8 where "DFWR_MAX = 32"

section \<open>State\<close>

record port_regs =
  PCR :: "nat \<Rightarrow> u32"
  DFER :: u32
  DFWR :: u32
  PDDR :: u32
  PDOR :: u32
  PDIR :: u32

record 'c gpio_state =
  PORT_SELECT :: "nat \<Rightarrow> port_regs"
  SCGC5 :: u32
  port_pin_interrupt :: "nat \<Rightarrow> nat \<Rightarrow> 'c option"
  pin_irq_configured :: "nat \<Rightarrow> nat \<Rightarrow> u32"
  nvic_enabled :: "nat \<Rightarrow> bool"

definition upd_port :: "nat \<Rightarrow> (port_regs \<Rightarrow> port_regs) \<Rightarrow> 'c gpio_state \<Rightarrow> 'c gpio_state" where
  "upd_port p f s = s\<lparr>PORT_SELECT := (PORT_SELECT s)(p := f (PORT_SELECT s p))\<rparr>"

definition write_PCR :: "nat \<Rightarrow> u32 \<Rightarrow> port_regs \<Rightarrow> port_regs" where
  "write_PCR n v r = r\<lparr>PCR := (PCR r)(n := (v AND NOT PORT_PCR_ISF_MASK) OR
     (PCR r n AND NOT v AND PORT_PCR_ISF_MASK))\<rparr>"

definition or_PCR :: "nat \<Rightarrow> u32 \<Rightarrow> port_regs \<Rightarrow> port_regs" where
  "or_PCR n v r = write_PCR n (PCR r n OR v) r"

definition and_PCR :: "nat \<Rightarrow> u32 \<Rightarrow> port_regs \<Rightarrow> port_regs" where
  "and_PCR n v r = write_PCR n (PCR r n AND v) r"

section \<open>Services\<close>

definition gpioCG :: "pin_t \<Rightarrow> bool \<Rightarrow> 'c gpio_state \<Rightarrow> 'c gpio_state result" where
  "gpioCG pin on s =
     bindR (rd SIM_SCGC5_PORT_MASKS (PIN2PORT pin)) (\<lambda>m.
     Inr (s\<lparr>SCGC5 := (if on then SCGC5 s OR m else SCGC5 s AND NOT m)\<rparr>))"

definition mode_output :: "nat \<Rightarrow> u8 \<Rightarrow> u8 \<Rightarrow> u8 \<Rightarrow> port_regs \<Rightarrow> port_regs" where
  "mode_output n DSE_mode ODE_mode SRE_mode r =
     (let num = of_nat n;
          r1 = r\<lparr>PDDR := PDDR r OR push_bit n 1\<rparr>;
          r2 = (if DSE_mode = MODE_ON then or_PCR n (PORT_PCR_DSE num) r1
                else if DSE_mode = MODE_OFF then and_PCR n (NOT (PORT_PCR_DSE num)) r1 else r1);
          r3 = (if ODE_mode = MODE_ON then or_PCR n (PORT_PCR_ODE num) r2
                else if ODE_mode = MODE_OFF then and_PCR n (NOT (PORT_PCR_ODE num)) r2 else r2)
      in if SRE_mode = MODE_ON then or_PCR n (PORT_PCR_SRE num) r3
         else if SRE_mode = MODE_OFF then and_PCR n (NOT (PORT_PCR_SRE num)) r3 else r3)"

definition mode_input :: "nat \<Rightarrow> u8 \<Rightarrow> u8 \<Rightarrow> u8 \<Rightarrow> u8 \<Rightarrow> port_regs \<Rightarrow> port_regs" where
  "mode_input n mode PFE_mode DFE_mode DFW_width r =
     (let num = of_nat n;
          r1 = r\<lparr>PDDR := PDDR r AND NOT (push_bit n 1)\<rparr>;
          r2 = (if mode = INPUT_PULLUP then or_PCR n (PORT_PCR_PS 1) (or_PCR n (PORT_PCR_PE num) r1)
                else if mode = INPUT_PULLDOWN
                then or_PCR n (PORT_PCR_PS 0) (or_PCR n (PORT_PCR_PE num) r1) else r1);
          r3 = (if DFW_width \<noteq> 0
                then if 0 < DFW_width \<and> DFW_width \<le> DFWR_MAX
                     then r2\<lparr>DFWR := DFWR r2 OR PORT_DFWR_FILT (ucast DFW_width)\<rparr>
                     else if DFWR_MAX < DFW_width
                     then r2\<lparr>DFWR := DFWR r2 OR PORT_DFWR_FILT (ucast DFWR_MAX)\<rparr> else r2
                else r2);
          r4 = (if PFE_mode = MODE_ON then or_PCR n (PORT_PCR_PFE num) r3
                else if PFE_mode = MODE_OFF then and_PCR n (NOT (PORT_PCR_PFE num)) r3 else r3)
      in if DFE_mode = MODE_ON then r4\<lparr>DFER := DFER r4 OR PORT_DFER_DFE num\<rparr>
         else if DFE_mode = MODE_OFF then r4\<lparr>DFER := DFER r4 AND NOT (PORT_DFER_DFE num)\<rparr> else r4)"

definition gpioMode ::
    "pin_t \<Rightarrow> u8 \<Rightarrow> u8 \<Rightarrow> u8 \<Rightarrow> u8 \<Rightarrow> u8 \<Rightarrow> u8 \<Rightarrow> u8 \<Rightarrow> 'c gpio_state \<Rightarrow> 'c gpio_state result" where
  "gpioMode pin mode DSE_mode ODE_mode SRE_mode PFE_mode DFE_mode DFW_width s =
     bindR (gpioCG pin True s) (\<lambda>s1.
       let n = PIN2NUM pin;
           clear = or_PCR n (PORT_PCR_IRQC 0) \<circ> or_PCR n (PORT_PCR_MUX 1) \<circ> write_PCR n 0
       in Inr (upd_port (PIN2PORT pin)
            ((if mode = OUTPUT then mode_output n DSE_mode ODE_mode SRE_mode
              else mode_input n mode PFE_mode DFE_mode DFW_width) \<circ> clear) s1))"

definition port_ok :: "pin_t \<Rightarrow> bool" where
  "port_ok pin \<longleftrightarrow> PIN2PORT pin < 5"

definition gpioWrite :: "pin_t \<Rightarrow> bool \<Rightarrow> 'c gpio_state \<Rightarrow> 'c gpio_state result" where
  "gpioWrite pin v s =
     (if \<not> port_ok pin then Inl Out_Of_Bounds
      else Inr (upd_port (PIN2PORT pin) (\<lambda>r. r\<lparr>PDOR :=
        (if v then PDOR r OR push_bit (PIN2NUM pin) 1
         else PDOR r AND NOT (push_bit (PIN2NUM pin) 1))\<rparr>) s))"

definition gpioToggle :: "pin_t \<Rightarrow> 'c gpio_state \<Rightarrow> 'c gpio_state result" where
  "gpioToggle pin s =
     (if \<not> port_ok pin then Inl Out_Of_Bounds
      else Inr (upd_port (PIN2PORT pin)
        (\<lambda>r. r\<lparr>PDOR := PDOR r XOR (0 OR push_bit (PIN2NUM pin) 1)\<rparr>) s))"

definition gpioRead :: "pin_t \<Rightarrow> 'c gpio_state \<Rightarrow> bool result" where
  "gpioRead pin s =
     (if \<not> port_ok pin then Inl Out_Of_Bounds
      else Inr (PDIR (PORT_SELECT s (PIN2PORT pin)) AND push_bit (PIN2NUM pin) 1 \<noteq> 0))"

section \<open>Interrupts\<close>

definition interrupt_init :: "nat \<Rightarrow> 'c gpio_state \<Rightarrow> 'c gpio_state" where
  "interrupt_init port s =
     (if \<not> nvic_enabled s port then s\<lparr>nvic_enabled := (nvic_enabled s)(port := True)\<rparr> else s)"

definition set_IRQC :: "nat \<Rightarrow> u8 \<Rightarrow> port_regs \<Rightarrow> port_regs" where
  "set_IRQC n IRQMode = or_PCR n (PORT_PCR_IRQC (ucast IRQMode)) \<circ> and_PCR n (NOT PORT_PCR_IRQC_MASK)"

definition gpioIRQ ::
    "pin_t \<Rightarrow> u8 \<Rightarrow> 'c option \<Rightarrow> 'c gpio_state \<Rightarrow> (bool \<times> 'c gpio_state) result" where
  "gpioIRQ pin IRQMode f s =
     (let p = PIN2PORT pin; n = PIN2NUM pin in
      if \<not> port_ok pin then Inl Out_Of_Bounds
      else
        let conf = (\<lambda>q m. if q = p \<and> m = n then (if IRQMode = 0 then 0 else 1)
                          else pin_irq_configured s q m);
            s1 = s\<lparr>pin_irq_configured := conf,
                   port_pin_interrupt := (port_pin_interrupt s)(p := (port_pin_interrupt s p)(n := f))\<rparr>;
            s2 = upd_port p (set_IRQC n IRQMode) s1
        in Inr (True, interrupt_init p s2))"

definition gpioDMA :: "pin_t \<Rightarrow> u8 \<Rightarrow> 'c gpio_state \<Rightarrow> (bool \<times> 'c gpio_state) result" where
  "gpioDMA pin IRQMode s =
     (if \<not> port_ok pin then Inl Out_Of_Bounds
      else Inr (True, interrupt_init (PIN2PORT pin)
             (upd_port (PIN2PORT pin) (set_IRQC (PIN2NUM pin) IRQMode) s)))"

text \<open>
  The handler of a port looks for the first configured pin whose flag is up, clears the flag,
  calls the pin's function, and leaves. The function called is returned.
\<close>

function isr_scan ::
    "nat \<Rightarrow> nat \<Rightarrow> 'c gpio_state \<Rightarrow> ('c gpio_state \<times> 'c option) result" where
  "isr_scan port i s =
     (if 32 \<le> i then Inr (s, None)
      else if pin_irq_configured s port i = 1 \<and>
              PCR (PORT_SELECT s port) i AND PORT_PCR_ISF_MASK = PORT_PCR_ISF_MASK
      then
        let s1 = upd_port port (or_PCR i PORT_PCR_ISF_MASK) s in
        (case port_pin_interrupt s1 port i of
           None \<Rightarrow> Inl Null_Dereference | Some f \<Rightarrow> Inr (s1, Some f))
      else isr_scan port (i + 1) s)"
  by pat_completeness auto
termination by (relation "measure (\<lambda>(p, i, s). 32 - i)") auto

declare isr_scan.simps [simp del]

definition PORTA_IRQHandler :: "'c gpio_state \<Rightarrow> ('c gpio_state \<times> 'c option) result" where
  "PORTA_IRQHandler = isr_scan 0 0"
definition PORTB_IRQHandler :: "'c gpio_state \<Rightarrow> ('c gpio_state \<times> 'c option) result" where
  "PORTB_IRQHandler = isr_scan 1 0"
definition PORTC_IRQHandler :: "'c gpio_state \<Rightarrow> ('c gpio_state \<times> 'c option) result" where
  "PORTC_IRQHandler = isr_scan 2 0"
definition PORTD_IRQHandler :: "'c gpio_state \<Rightarrow> ('c gpio_state \<times> 'c option) result" where
  "PORTD_IRQHandler = isr_scan 3 0"
definition PORTE_IRQHandler :: "'c gpio_state \<Rightarrow> ('c gpio_state \<times> 'c option) result" where
  "PORTE_IRQHandler = isr_scan 4 0"

definition PORT_IRQHandler :: "nat \<Rightarrow> 'c gpio_state \<Rightarrow> ('c gpio_state \<times> 'c option) result" where
  "PORT_IRQHandler p = (if p = 0 then PORTA_IRQHandler else if p = 1 then PORTB_IRQHandler
     else if p = 2 then PORTC_IRQHandler else if p = 3 then PORTD_IRQHandler
     else PORTE_IRQHandler)"

section \<open>Single bits\<close>

lemma PIN2NUM_less: "PIN2NUM p < 32"
proof -
  have "p AND 0x1F \<le> (0x1F :: u8)" by (rule word_and_le1)
  then have "unat (p AND 0x1F) \<le> unat (0x1F :: u8)" by (simp only: word_le_nat_alt)
  then show ?thesis by (simp add: PIN2NUM_def)
qed

lemma pin_inject:
  assumes "PIN2PORT p = PIN2PORT q" and "PIN2NUM p = PIN2NUM q"
  shows "p = q"
proof (rule bit_word_eqI)
  have hi: "drop_bit 5 p AND 0x07 = drop_bit 5 q AND (0x07 :: u8)"
    and lo: "p AND 0x1F = q AND (0x1F :: u8)"
    using assms by (simp_all add: PIN2PORT_def PIN2NUM_def word_unat_eq_iff)
  fix n
  assume "n < LENGTH(8)"
  then consider "n = 0" | "n = 1" | "n = 2" | "n = 3" | "n = 4" | "n = 5" | "n = 6" | "n = 7"
    by fastforce
  then show "bit p n = bit q n"
  proof cases
    case 6
    with arg_cong [OF hi, of "\<lambda>w. bit w 0"] show ?thesis by (simp add: bit_simps bit_numeral_rec)
  next
    case 7
    with arg_cong [OF hi, of "\<lambda>w. bit w 1"] show ?thesis by (simp add: bit_simps bit_numeral_rec)
  next
    case 8
    with arg_cong [OF hi, of "\<lambda>w. bit w 2"] show ?thesis by (simp add: bit_simps bit_numeral_rec)
  qed (use arg_cong [OF lo, of "\<lambda>w. bit w n"] in \<open>simp_all add: bit_simps bit_numeral_rec\<close>)
qed

lemma bit_pos: "n < 32 \<Longrightarrow> bit (2 ^ n :: u32) m = (m = n)"
  by (auto simp: bit_simps)

definition level :: "'c gpio_state \<Rightarrow> pin_t \<Rightarrow> bool" where
  "level s p = bit (PDOR (PORT_SELECT s (PIN2PORT p))) (PIN2NUM p)"

lemma level_write:
  assumes "gpioWrite p v s = Inr t"
  shows "level t q = (if q = p then v else level s q)"
proof -
  have t: "t = upd_port (PIN2PORT p) (\<lambda>r. r\<lparr>PDOR :=
        (if v then PDOR r OR push_bit (PIN2NUM p) 1
         else PDOR r AND NOT (push_bit (PIN2NUM p) 1))\<rparr>) s"
    using assms by (simp add: gpioWrite_def split: if_splits)
  have ne: "PIN2NUM q \<noteq> PIN2NUM p" if "q \<noteq> p" "PIN2PORT q = PIN2PORT p"
    using that pin_inject by blast
  show ?thesis
    using ne PIN2NUM_less [of p] PIN2NUM_less [of q]
    by (auto simp: t level_def upd_port_def bit_pos bit_or_iff bit_and_iff bit_not_iff)
qed

lemma level_toggle:
  assumes "gpioToggle p s = Inr t"
  shows "level t q = (if q = p then \<not> level s p else level s q)"
proof -
  have t: "t = upd_port (PIN2PORT p) (\<lambda>r. r\<lparr>PDOR := PDOR r XOR (0 OR push_bit (PIN2NUM p) 1)\<rparr>) s"
    using assms by (simp add: gpioToggle_def split: if_splits)
  have ne: "PIN2NUM q \<noteq> PIN2NUM p" if "q \<noteq> p" "PIN2PORT q = PIN2PORT p"
    using that pin_inject by blast
  show ?thesis
    using ne PIN2NUM_less [of p] PIN2NUM_less [of q]
    by (auto simp: t level_def upd_port_def bit_pos bit_or_iff bit_xor_iff)
qed

section \<open>The contract of a digital output\<close>

locale digital_out =
  fixes write_pin :: "'p \<Rightarrow> bool \<Rightarrow> 's \<Rightarrow> 's result"
    and out_level :: "'s \<Rightarrow> 'p \<Rightarrow> bool"
    and usable :: "'p \<Rightarrow> bool"
  assumes write_returns: "usable p \<Longrightarrow> \<exists>t. write_pin p v s = Inr t"
    and write_level: "write_pin p v s = Inr t \<Longrightarrow> out_level t q = (if q = p then v else out_level s q)"
begin

text \<open>Writing several pins one after the other, in the order of the list.\<close>

lemma write_all:
  assumes "\<forall>pv \<in> set pvs. usable (fst pv)"
  shows "\<exists>t. foldR (\<lambda>(p, v). write_pin p v) pvs s = Inr t \<and>
    (\<forall>q. out_level t q = (case map_of (rev pvs) q of Some v \<Rightarrow> v | None \<Rightarrow> out_level s q))"
  using assms
proof (induction pvs arbitrary: s)
  case (Cons pv pvs)
  obtain p v where pv: "pv = (p, v)" by (cases pv)
  with Cons.prems obtain u where u: "write_pin p v s = Inr u" using write_returns [of p v s] by auto
  from Cons obtain t where t: "foldR (\<lambda>(p, v). write_pin p v) pvs u = Inr t"
    "\<forall>q. out_level t q = (case map_of (rev pvs) q of Some v \<Rightarrow> v | None \<Rightarrow> out_level u q)"
    by fastforce
  then show ?case
    using u write_level [OF u] by (auto simp: pv map_add_def split: option.splits)
qed simp

end

interpretation gpio: digital_out gpioWrite level port_ok
  by unfold_locales (simp add: gpioWrite_def, rule level_write)

section \<open>Pending pins\<close>

definition pending :: "'c gpio_state \<Rightarrow> nat \<Rightarrow> nat \<Rightarrow> bool" where
  "pending s p i \<longleftrightarrow> pin_irq_configured s p i = 1 \<and> bit (PCR (PORT_SELECT s p) i) 24"

definition clear_flag :: "nat \<Rightarrow> nat \<Rightarrow> 'c gpio_state \<Rightarrow> 'c gpio_state" where
  "clear_flag p i s = upd_port p (or_PCR i PORT_PCR_ISF_MASK) s"

lemma bit_isf: "bit PORT_PCR_ISF_MASK n \<longleftrightarrow> n = 24"
proof -
  have "PORT_PCR_ISF_MASK = 2 ^ 24" by (simp add: PORT_PCR_ISF_MASK_def)
  then show ?thesis using bit_pos [of 24 n] by simp
qed

lemma isf_test: "(w AND PORT_PCR_ISF_MASK = PORT_PCR_ISF_MASK) = bit w 24"
proof
  assume "w AND PORT_PCR_ISF_MASK = PORT_PCR_ISF_MASK"
  from arg_cong [OF this, of "\<lambda>v. bit v 24"] show "bit w 24" by (simp add: bit_and_iff bit_isf)
next
  assume "bit w 24"
  then show "w AND PORT_PCR_ISF_MASK = PORT_PCR_ISF_MASK"
    by (intro bit_word_eqI) (auto simp: bit_and_iff bit_isf)
qed

lemma PCR_clear_flag:
  "PCR (PORT_SELECT (clear_flag p i s) q) j =
     (if q = p \<and> j = i then PCR (PORT_SELECT s p) i AND NOT PORT_PCR_ISF_MASK
      else PCR (PORT_SELECT s q) j)"
proof -
  have "(w OR m) AND NOT m OR (w AND NOT (w OR m) AND m) = w AND NOT m" for w m :: u32
    by (rule bit_word_eqI) (auto simp: bit_simps)
  then show ?thesis
    by (simp add: clear_flag_def upd_port_def or_PCR_def write_PCR_def)
qed

lemma clear_flag_simps [simp]:
  "pin_irq_configured (clear_flag p i s) = pin_irq_configured s"
  "port_pin_interrupt (clear_flag p i s) = port_pin_interrupt s"
  by (simp_all add: clear_flag_def upd_port_def)

lemma pending_clear_flag:
  "pending (clear_flag p i s) q j = (pending s q j \<and> \<not> (q = p \<and> j = i))"
  by (auto simp: pending_def PCR_clear_flag bit_and_iff bit_not_iff bit_isf)

lemma isr_scan_first:
  "i \<le> 32 \<Longrightarrow> isr_scan p i s = (case filter (pending s p) [i..<32] of
      [] \<Rightarrow> Inr (s, None)
    | j # _ \<Rightarrow> (case port_pin_interrupt s p j of
        None \<Rightarrow> Inl Null_Dereference | Some f \<Rightarrow> Inr (clear_flag p j s, Some f)))"
proof (induction "32 - i" arbitrary: i)
  case 0
  then show ?case by (subst isr_scan.simps) simp
next
  case (Suc n)
  then have i: "i < 32" by simp
  then have split: "[i..<32] = i # [Suc i..<32]" by (simp add: upt_conv_Cons)
  show ?case
  proof (cases "pending s p i")
    case True
    then show ?thesis
      using i by (subst isr_scan.simps)
        (simp add: split pending_def isf_test clear_flag_def [symmetric] Let_def)
  next
    case False
    then have "isr_scan p i s = isr_scan p (Suc i) s"
      using i by (subst isr_scan.simps) (auto simp: pending_def isf_test)
    with Suc False show ?thesis by (simp add: split)
  qed
qed

text \<open>Every further run of the handler serves the next pending pin.\<close>

definition isr_again ::
    "nat \<Rightarrow> 'c gpio_state \<times> 'c list \<Rightarrow> ('c gpio_state \<times> 'c list) result" where
  "isr_again p = (\<lambda>(s, fs). bindR (PORT_IRQHandler p s) (\<lambda>(t, f).
     Inr (t, fs @ (case f of None \<Rightarrow> [] | Some g \<Rightarrow> [g]))))"

lemma handler_scan: "p < 5 \<Longrightarrow> PORT_IRQHandler p = isr_scan p 0"
proof -
  assume "p < 5"
  then consider "p = 0" | "p = 1" | "p = 2" | "p = 3" | "p = 4" by linarith
  then show ?thesis
    by cases (simp_all add: PORT_IRQHandler_def PORTA_IRQHandler_def PORTB_IRQHandler_def
        PORTC_IRQHandler_def PORTD_IRQHandler_def PORTE_IRQHandler_def)
qed

lemma isr_serves_all:
  assumes "p < 5" and "\<forall>i < 32. pending s p i \<longrightarrow> port_pin_interrupt s p i = Some (g i)"
    and "filter (pending s p) [0..<32] = is"
  shows "\<exists>t. foldR (\<lambda>_. isr_again p) (replicate (length is) ()) (s, fs) = Inr (t, fs @ map g is) \<and>
    (\<forall>q j. j < 32 \<longrightarrow> pending t q j = (pending s q j \<and> q \<noteq> p))"
  using assms(2,3)
proof (induction "is" arbitrary: s fs)
  case Nil
  then have "\<forall>j < 32. \<not> pending s p j" by (simp add: filter_empty_conv)
  then show ?case by auto
next
  case (Cons i rest)
  let ?u = "clear_flag p i s"
  have i: "i < 32" "pending s p i"
  proof -
    have "i \<in> set (filter (pending s p) [0..<32])" using Cons.prems(2) by simp
    then show "i < 32" "pending s p i" by auto
  qed
  have "isr_scan p 0 s = Inr (?u, Some (g i))"
    using Cons.prems i isr_scan_first [of 0 p s] by simp
  then have step: "isr_again p (s, fs) = Inr (?u, fs @ [g i])"
    by (simp add: isr_again_def handler_scan [OF assms(1)])
  have "distinct (i # rest)" using Cons.prems(2) by (metis distinct_filter distinct_upt)
  have "pending ?u p = (\<lambda>j. pending s p j \<and> j \<noteq> i)"
    by (rule ext) (simp add: pending_clear_flag)
  then have "filter (pending ?u p) [0..<32] = filter (\<lambda>j. j \<noteq> i) (filter (pending s p) [0..<32])"
    by (simp add: conj_commute)
  also have "\<dots> = rest"
    using \<open>distinct (i # rest)\<close> unfolding Cons.prems(2) by (simp add: filter_id_conv) metis
  finally have rest: "filter (pending ?u p) [0..<32] = rest" .
  have "\<forall>i<32. pending ?u p i \<longrightarrow> port_pin_interrupt ?u p i = Some (g i)"
    using Cons.prems(1) by (simp add: pending_clear_flag)
  from Cons.IH [OF this rest, of "fs @ [g i]"] obtain t where
    t: "foldR (\<lambda>_. isr_again p) (replicate (length rest) ()) (?u, fs @ [g i]) =
        Inr (t, (fs @ [g i]) @ map g rest)"
      "\<forall>q j. j < 32 \<longrightarrow> pending t q j = (pending ?u q j \<and> q \<noteq> p)"
    by blast
  then show ?case using step by (auto simp: pending_clear_flag)
qed

section \<open>Bits of the pin control register\<close>

lemma bit_write_PCR:
  "bit (PCR (write_PCR n v r) m) b =
     (if m = n then (if b = 24 then bit (PCR r n) 24 \<and> \<not> bit v 24 else bit v b)
      else bit (PCR r m) b)"
  using bit_imp_le_length [of v b]
  by (auto simp: write_PCR_def bit_or_iff bit_and_iff bit_not_iff bit_isf)

lemma bit_or_PCR:
  "b \<noteq> 24 \<Longrightarrow> bit (PCR (or_PCR n v r) m) b = (bit (PCR r m) b \<or> m = n \<and> bit v b)"
  by (auto simp: or_PCR_def bit_write_PCR bit_or_iff)

lemma bit_and_PCR:
  "b \<noteq> 24 \<Longrightarrow> bit (PCR (and_PCR n v r) m) b = (bit (PCR r m) b \<and> (m = n \<longrightarrow> bit v b))"
  by (auto simp: and_PCR_def bit_write_PCR bit_and_iff)

lemma PCR_op_simps [simp]:
  "PDDR (write_PCR n v r) = PDDR r" "PDDR (or_PCR n v r) = PDDR r" "PDDR (and_PCR n v r) = PDDR r"
  by (simp_all add: or_PCR_def and_PCR_def write_PCR_def)

lemma bit_fields:
  fixes v :: u32
  shows "bit (PORT_PCR_PS v) b = (b = 0 \<and> bit v 0)" "bit (PORT_PCR_PE v) b = (b = 1 \<and> bit v 0)"
    "bit (PORT_PCR_SRE v) b = (b = 2 \<and> bit v 0)" "bit (PORT_PCR_PFE v) b = (b = 4 \<and> bit v 0)"
    "bit (PORT_PCR_ODE v) b = (b = 5 \<and> bit v 0)" "bit (PORT_PCR_DSE v) b = (b = 6 \<and> bit v 0)"
proof -
  have one: "bit (push_bit k v AND 2 ^ k) b = (b = k \<and> bit v 0)" if "k < 32" for k
    using that by (auto simp: bit_and_iff bit_push_bit_iff bit_pos)
  show "bit (PORT_PCR_PS v) b = (b = 0 \<and> bit v 0)" "bit (PORT_PCR_PE v) b = (b = 1 \<and> bit v 0)"
    "bit (PORT_PCR_SRE v) b = (b = 2 \<and> bit v 0)" "bit (PORT_PCR_PFE v) b = (b = 4 \<and> bit v 0)"
    "bit (PORT_PCR_ODE v) b = (b = 5 \<and> bit v 0)" "bit (PORT_PCR_DSE v) b = (b = 6 \<and> bit v 0)"
    using one [of 0] one [of 1] one [of 2] one [of 4] one [of 5] one [of 6]
    by (simp_all add: PORT_PCR_PS_def PORT_PCR_PE_def PORT_PCR_SRE_def PORT_PCR_PFE_def
        PORT_PCR_ODE_def PORT_PCR_DSE_def)
qed

lemma bit_mux_irqc: "b < 8 \<Longrightarrow> \<not> bit (PORT_PCR_MUX v) b" "b < 16 \<Longrightarrow> \<not> bit (PORT_PCR_IRQC v) b"
  by (auto simp: PORT_PCR_MUX_def PORT_PCR_IRQC_def bit_and_iff bit_push_bit_iff)

lemma gpioMode_port:
  assumes "port_ok pin"
  shows "\<exists>t. gpioMode pin mode dse ode sre pfe dfe dfw s = Inr t \<and>
    PORT_SELECT t = (PORT_SELECT s)(PIN2PORT pin :=
      (let n = PIN2NUM pin; r = or_PCR n (PORT_PCR_IRQC 0) (or_PCR n (PORT_PCR_MUX 1)
             (write_PCR n 0 (PORT_SELECT s (PIN2PORT pin)))) in
       if mode = OUTPUT then mode_output n dse ode sre r else mode_input n mode pfe dfe dfw r))"
  using assms
  by (simp add: gpioMode_def gpioCG_def port_ok_def rd_def SIM_SCGC5_PORT_MASKS_def upd_port_def
      Let_def)

section \<open>Properties\<close>

text \<open>Writing a pin of an existing port sets the output of exactly that pin, toggling it
  inverts exactly that pin; all the other outputs keep their level. A pin whose port does not
  exist makes both access the port table out of bounds.\<close>

theorem gpio_output_exact:
  "if port_ok p
   then (\<exists>t. gpioWrite p v s = Inr t \<and> level t = (level s)(p := v)) \<and>
        (\<exists>t. gpioToggle p s = Inr t \<and> level t = (level s)(p := \<not> level s p))
   else gpioWrite p v s = Inl Out_Of_Bounds \<and> gpioToggle p s = Inl Out_Of_Bounds"
proof (cases "port_ok p")
  case True
  then obtain t u where "gpioWrite p v s = Inr t" "gpioToggle p s = Inr u"
    by (auto simp: gpioWrite_def gpioToggle_def)
  then show ?thesis
    using True level_write [of p v s t] level_toggle [of p s u]
    by (auto simp: fun_eq_iff)
qed (simp add: gpioWrite_def gpioToggle_def)

text \<open>The interrupt handler of a port serves one pin per run, the pending pin with the
  lowest number: it clears the flag of that pin and of no other, and calls its function; run as
  many times as pins are pending it has served all of them in the order of their numbers.\<close>

theorem gpio_isr_in_order:
  assumes "p < 5" and "\<forall>i < 32. pending s p i \<longrightarrow> port_pin_interrupt s p i = Some (g i)"
  shows "let is = filter (pending s p) [0..<32] in
    (\<exists>t. foldR (\<lambda>_. isr_again p) (replicate (length is) ()) (s, []) = Inr (t, map g is) \<and>
      (\<forall>q j. j < 32 \<longrightarrow> pending t q j = (pending s q j \<and> q \<noteq> p)))"
  using isr_serves_all [OF assms, of _ "[]"] by (simp add: Let_def)

text \<open>Configuring a pin sets its direction as asked and keeps the direction of the other
  pins of the port; but the option fields are written from the number of the pin instead of from
  the option: drive strength, open drain, slew rate and the enabling of the pull resistor take
  effect on pins with an odd number only. On an even pin a pull-up is selected and not enabled.\<close>

theorem gpio_mode_options:
  assumes "port_ok pin"
  shows "\<exists>t. gpioMode pin mode dse ode sre pfe dfe dfw s = Inr t \<and>
    (let n = PIN2NUM pin; r = PORT_SELECT t (PIN2PORT pin); r0 = PORT_SELECT s (PIN2PORT pin) in
     (\<forall>m < 32. bit (PDDR r) m = (if m = n then mode = OUTPUT else bit (PDDR r0) m)) \<and>
     (if mode = OUTPUT
      then bit (PCR r n) 6 = (dse = MODE_ON \<and> odd n) \<and> bit (PCR r n) 5 = (ode = MODE_ON \<and> odd n) \<and>
           bit (PCR r n) 2 = (sre = MODE_ON \<and> odd n)
      else bit (PCR r n) 0 = (mode = INPUT_PULLUP) \<and>
           bit (PCR r n) 1 = ((mode = INPUT_PULLUP \<or> mode = INPUT_PULLDOWN) \<and> odd n)))"
proof -
  let ?n = "PIN2NUM pin"
  note less = PIN2NUM_less [of pin]
  obtain t where t: "gpioMode pin mode dse ode sre pfe dfe dfw s = Inr t"
    "PORT_SELECT t = (PORT_SELECT s)(PIN2PORT pin :=
      (let n = ?n; r = or_PCR n (PORT_PCR_IRQC 0) (or_PCR n (PORT_PCR_MUX 1)
             (write_PCR n 0 (PORT_SELECT s (PIN2PORT pin)))) in
       if mode = OUTPUT then mode_output n dse ode sre r else mode_input n mode pfe dfe dfw r))"
    using gpioMode_port [OF assms] by blast
  have odd: "bit (of_nat ?n :: u32) 0 = odd ?n" by (simp add: bit_0)
  have one: "bit (1 :: u32) 0" by simp
  define r0 where "r0 = or_PCR ?n (PORT_PCR_IRQC 0) (or_PCR ?n (PORT_PCR_MUX 1)
    (write_PCR ?n 0 (PORT_SELECT s (PIN2PORT pin))))"
  have low: "\<not> bit (PCR r0 ?n) b" if "b < 8" for b
    using that by (simp add: r0_def bit_or_PCR bit_write_PCR bit_mux_irqc)
  have dir: "PDDR r0 = PDDR (PORT_SELECT s (PIN2PORT pin))" by (simp add: r0_def)
  show ?thesis
  proof (cases "mode = OUTPUT")
    case True
    let ?r = "mode_output ?n dse ode sre r0"
    have "bit (PDDR ?r) m = (if m = ?n then True else bit (PDDR r0) m)" for m
      using less by (auto simp: mode_output_def Let_def bit_or_iff bit_pos)
    moreover have "bit (PCR ?r ?n) 6 = (dse = MODE_ON \<and> odd ?n)"
      "bit (PCR ?r ?n) 5 = (ode = MODE_ON \<and> odd ?n)" "bit (PCR ?r ?n) 2 = (sre = MODE_ON \<and> odd ?n)"
      by (simp_all add: mode_output_def Let_def bit_or_PCR bit_and_PCR bit_fields bit_not_iff odd low
          MODE_ON_def MODE_OFF_def)
    ultimately show ?thesis
      using t True dir by (intro exI [of _ t]) (simp add: Let_def flip: r0_def)
  next
    case False
    let ?r = "mode_input ?n mode pfe dfe dfw r0"
    have "bit (PDDR ?r) m = (if m = ?n then False else bit (PDDR r0) m)" if "m < 32" for m
      using less that by (auto simp: mode_input_def Let_def bit_and_iff bit_not_iff bit_pos)
    moreover have "bit (PCR ?r ?n) 0 = (mode = INPUT_PULLUP)"
      "bit (PCR ?r ?n) 1 = ((mode = INPUT_PULLUP \<or> mode = INPUT_PULLDOWN) \<and> odd ?n)"
      by (simp_all add: mode_input_def Let_def bit_or_PCR bit_and_PCR bit_fields bit_not_iff odd low
          one INPUT_PULLUP_def INPUT_PULLDOWN_def)
    ultimately show ?thesis
      using t False dir by (intro exI [of _ t]) (simp add: Let_def flip: r0_def)
  qed
qed

section \<open>Witnesses\<close>

definition gpio_example :: "nat gpio_state" where
  "gpio_example = \<lparr>PORT_SELECT = (\<lambda>p. \<lparr>PCR = (\<lambda>n. if n = 3 \<or> n = 1 then 0x1090100 else 0),
       DFER = 0, DFWR = 0, PDDR = 0, PDOR = 0, PDIR = 0\<rparr>),
     SCGC5 = 0, port_pin_interrupt = (\<lambda>p n. Some (10 * p + n)),
     pin_irq_configured = (\<lambda>p n. if p = 3 \<and> (n = 1 \<or> n = 3) then 1 else 0),
     nvic_enabled = (\<lambda>p. True)\<rparr>"

lemma gpio_example_pending: "pending gpio_example 3 i = (i = 1 \<or> i = 3)"
  by (auto simp: pending_def gpio_example_def bit_numeral_rec)

lemma gpio_isr_in_order_witness:
  "\<exists>t. foldR (\<lambda>_. isr_again 3) [(), ()] (gpio_example, []) = Inr (t, [31, 33]) \<and> \<not> pending t 3 1"
proof -
  have "filter (pending gpio_example 3) [0..<32] = [1, 3]"
    by (simp add: gpio_example_pending upt_rec)
  with gpio_isr_in_order [of 3 gpio_example "\<lambda>i. 30 + i"] show ?thesis
    by (auto simp: gpio_example_pending gpio_example_def numeral_2_eq_2)
qed

lemma gpio_mode_options_witness:
  "\<exists>t. gpioMode 0x42 INPUT_PULLUP 0 0 0 0 0 0 gpio_example = Inr t \<and>
     \<not> bit (PCR (PORT_SELECT t 2) 2) 1"
proof -
  have p: "PIN2PORT 0x42 = 2" "PIN2NUM 0x42 = 2" "port_ok 0x42"
    by (simp_all add: PIN2PORT_def PIN2NUM_def port_ok_def)
  from gpio_mode_options [OF p(3), of INPUT_PULLUP 0 0 0 0 0 0 gpio_example] show ?thesis
    by (auto simp: p Let_def INPUT_PULLUP_def OUTPUT_def)
qed

end
