(* ===== verification/Led.thy ===== *)
theory Led
  imports Gpio
begin

unbundle bit_operations_syntax

text \<open>
  The three-colour light of \<^verbatim>\<open>source/Led_DRV.c\<close>, which shows that the door is open. The
  lights are lit by a low level. Until the initialisation every service does nothing.
\<close>

section \<open>Services\<close>

definition LED_R :: pin_t where "LED_R = PORTNUM2PIN 1 22"
definition LED_G :: pin_t where "LED_G = PORTNUM2PIN 4 26"
definition LED_B :: pin_t where "LED_B = PORTNUM2PIN 1 21"

datatype LEDS = RED_led | GREEN_led | BLUE_led | WHITE_led

datatype LED_COLOR = BLACK | RED | GREEN | YELLOW | BLUE | MAGENTA | CYAN | WHITE

fun color_code :: "LED_COLOR \<Rightarrow> u32" where
  "color_code BLACK = 0" | "color_code RED = 1" | "color_code GREEN = 2" | "color_code YELLOW = 3"
| "color_code BLUE = 4" | "color_code MAGENTA = 5" | "color_code CYAN = 6" | "color_code WHITE = 7"

primrec LED_SELECT :: "LEDS \<Rightarrow> pin_t result" where
  "LED_SELECT RED_led = Inr LED_R"
| "LED_SELECT GREEN_led = Inr LED_G"
| "LED_SELECT BLUE_led = Inr LED_B"
| "LED_SELECT WHITE_led = Inl Out_Of_Bounds"

definition ON :: bool where "ON = False"
definition OFF :: bool where "OFF = True"

record 'c led_state =
  led_initialized :: bool
  led_gpio :: "'c gpio_state"

definition led_write :: "(pin_t \<times> bool) list \<Rightarrow> 'c led_state \<Rightarrow> 'c led_state result" where
  "led_write pvs s = bindR (foldR (\<lambda>(p, v). gpioWrite p v) pvs (led_gpio s)) (\<lambda>g.
     Inr (s\<lparr>led_gpio := g\<rparr>))"

definition Led_Init :: "'c led_state \<Rightarrow> 'c led_state result" where
  "Led_Init s =
     (if led_initialized s then Inr s
      else
        bindR (foldR (\<lambda>p. gpioMode p OUTPUT 0 0 0 0 0 0) [LED_R, LED_B, LED_G] (led_gpio s)) (\<lambda>g.
        bindR (led_write [(LED_R, OFF), (LED_B, OFF), (LED_G, OFF)] (s\<lparr>led_gpio := g\<rparr>)) (\<lambda>t.
        Inr (t\<lparr>led_initialized := True\<rparr>))))"

definition Led_On :: "LEDS \<Rightarrow> 'c led_state \<Rightarrow> 'c led_state result" where
  "Led_On led s =
     (if led_initialized s
      then if led \<noteq> WHITE_led then bindR (LED_SELECT led) (\<lambda>p. led_write [(p, ON)] s)
           else led_write [(LED_R, ON), (LED_G, ON), (LED_B, ON)] s
      else Inr s)"

definition Led_Off :: "LEDS \<Rightarrow> 'c led_state \<Rightarrow> 'c led_state result" where
  "Led_Off led s =
     (if led_initialized s
      then if led \<noteq> WHITE_led then bindR (LED_SELECT led) (\<lambda>p. led_write [(p, OFF)] s)
           else led_write [(LED_R, OFF), (LED_G, OFF), (LED_B, OFF)] s
      else Inr s)"

definition Led_Toggle :: "LEDS \<Rightarrow> 'c led_state \<Rightarrow> 'c led_state result" where
  "Led_Toggle led s =
     (if led_initialized s
      then bindR (if led \<noteq> WHITE_led then bindR (LED_SELECT led) (\<lambda>p. gpioToggle p (led_gpio s))
                  else foldR gpioToggle [LED_R, LED_G, LED_B] (led_gpio s)) (\<lambda>g.
             Inr (s\<lparr>led_gpio := g\<rparr>))
      else Inr s)"

definition Led_Color :: "LED_COLOR \<Rightarrow> 'c led_state \<Rightarrow> 'c led_state result" where
  "Led_Color color s =
     (if led_initialized s
      then led_write [(LED_R, \<not> (color_code color AND push_bit 0 1 \<noteq> 0)),
                      (LED_G, \<not> (color_code color AND push_bit 1 1 \<noteq> 0)),
                      (LED_B, \<not> (color_code color AND push_bit 2 1 \<noteq> 0))] s
      else Inr s)"

definition close_door :: "'c led_state \<Rightarrow> 'c led_state result" where
  "close_door s = Led_Color BLACK s"

section \<open>What is lit\<close>

definition lit :: "'c led_state \<Rightarrow> pin_t \<Rightarrow> bool" where
  "lit s p = (level (led_gpio s) p = ON)"

lemma led_pins: "LED_R = 0x36" "LED_G = 0x9A" "LED_B = 0x35"
  by (simp_all add: LED_R_def LED_G_def LED_B_def PORTNUM2PIN_def)

lemma led_pins_ok: "port_ok LED_R" "port_ok LED_G" "port_ok LED_B"
  by (simp_all add: led_pins port_ok_def PIN2PORT_def)

lemma led_write_levels:
  assumes "\<forall>pv \<in> set pvs. fst pv \<in> {LED_R, LED_G, LED_B}"
  shows "\<exists>t. led_write pvs s = Inr t \<and> led_initialized t = led_initialized s \<and>
    (\<forall>q. level (led_gpio t) q =
       (case map_of (rev pvs) q of Some v \<Rightarrow> v | None \<Rightarrow> level (led_gpio s) q))"
proof -
  have "\<forall>pv \<in> set pvs. port_ok (fst pv)" using assms led_pins_ok by auto
  from gpio.write_all [OF this, of "led_gpio s"] show ?thesis by (auto simp: led_write_def)
qed

lemma color_lights:
  "(color_code c AND push_bit 0 1 \<noteq> 0) = (c \<in> {RED, YELLOW, MAGENTA, WHITE})"
  "(color_code c AND push_bit 1 1 \<noteq> 0) = (c \<in> {GREEN, YELLOW, CYAN, WHITE})"
  "(color_code c AND push_bit 2 1 \<noteq> 0) = (c \<in> {BLUE, MAGENTA, CYAN, WHITE})"
  by (cases c; simp)+

text \<open>Setting a colour lights exactly the lights the colour is made of, puts out the others
  and touches no other output pin; closing the door puts all three out. Before the
  initialisation neither does anything.\<close>

theorem led_color_lights:
  "\<exists>t u. Led_Color c s = Inr t \<and> close_door s = Inr u \<and>
    (if led_initialized s
     then lit t = (lit s)(LED_R := c \<in> {RED, YELLOW, MAGENTA, WHITE},
            LED_G := c \<in> {GREEN, YELLOW, CYAN, WHITE}, LED_B := c \<in> {BLUE, MAGENTA, CYAN, WHITE}) \<and>
          lit u = (lit s)(LED_R := False, LED_G := False, LED_B := False)
     else t = s \<and> u = s)"
proof -
  have one: "\<exists>t. Led_Color c s = Inr t \<and> (if led_initialized s
     then lit t = (lit s)(LED_R := c \<in> {RED, YELLOW, MAGENTA, WHITE},
            LED_G := c \<in> {GREEN, YELLOW, CYAN, WHITE}, LED_B := c \<in> {BLUE, MAGENTA, CYAN, WHITE})
     else t = s)" for c
  proof (cases "led_initialized s")
    case True
    let ?pvs = "[(LED_R, \<not> c \<in> {RED, YELLOW, MAGENTA, WHITE}),
       (LED_G, \<not> c \<in> {GREEN, YELLOW, CYAN, WHITE}), (LED_B, \<not> c \<in> {BLUE, MAGENTA, CYAN, WHITE})]"
    obtain t where t: "led_write ?pvs s = Inr t"
      "\<forall>q. level (led_gpio t) q =
       (case map_of (rev ?pvs) q of Some v \<Rightarrow> v | None \<Rightarrow> level (led_gpio s) q)"
      using led_write_levels [of ?pvs s] by auto
    have "lit t = (lit s)(LED_R := c \<in> {RED, YELLOW, MAGENTA, WHITE},
        LED_G := c \<in> {GREEN, YELLOW, CYAN, WHITE}, LED_B := c \<in> {BLUE, MAGENTA, CYAN, WHITE})"
      by (rule ext) (simp add: lit_def t(2) ON_def led_pins)
    with True t(1) show ?thesis by (simp only: Led_Color_def color_lights) simp
  qed (simp add: Led_Color_def)
  from one [of c] one [of BLACK] show ?thesis
    by (cases "led_initialized s") (auto simp: close_door_def)
qed

text \<open>The initialisation makes the three pins outputs and puts the lights out; a second one
  changes nothing. Switching one light or all of them on or off changes only the lights asked
  for, and toggling inverts them.\<close>

theorem led_services:
  "(\<exists>t. Led_Init s = Inr t \<and> led_initialized t \<and> Led_Init t = Inr t \<and>
      (if led_initialized s then t = s else \<not> lit t LED_R \<and> \<not> lit t LED_G \<and> \<not> lit t LED_B)) \<and>
   (\<exists>t. Led_On RED_led s = Inr t \<and>
      lit t = (if led_initialized s then (lit s)(LED_R := True) else lit s)) \<and>
   (\<exists>t. Led_On WHITE_led s = Inr t \<and>
      lit t = (if led_initialized s then (lit s)(LED_R := True, LED_G := True, LED_B := True) else lit s)) \<and>
   (\<exists>t. Led_Off WHITE_led s = Inr t \<and>
      lit t = (if led_initialized s then (lit s)(LED_R := False, LED_G := False, LED_B := False) else lit s)) \<and>
   (\<exists>t. Led_Toggle GREEN_led s = Inr t \<and>
      lit t = (if led_initialized s then (lit s)(LED_G := \<not> lit s LED_G) else lit s))"
proof (intro conjI)
  show "\<exists>t. Led_Init s = Inr t \<and> led_initialized t \<and> Led_Init t = Inr t \<and>
      (if led_initialized s then t = s else \<not> lit t LED_R \<and> \<not> lit t LED_G \<and> \<not> lit t LED_B)"
  proof (cases "led_initialized s")
    case False
    have mode: "\<exists>t. gpioMode p OUTPUT 0 0 0 0 0 0 g = Inr t" if "port_ok p" for p and g :: "'a gpio_state"
      using gpioMode_port [OF that, of OUTPUT 0 0 0 0 0 0 g] by blast
    obtain g where g: "foldR (\<lambda>p. gpioMode p OUTPUT 0 0 0 0 0 0) [LED_R, LED_B, LED_G] (led_gpio s) = Inr g"
    proof -
      obtain g1 where g1: "gpioMode LED_R OUTPUT 0 0 0 0 0 0 (led_gpio s) = Inr g1"
        using mode [OF led_pins_ok(1)] by blast
      obtain g2 where g2: "gpioMode LED_B OUTPUT 0 0 0 0 0 0 g1 = Inr g2"
        using mode [OF led_pins_ok(3)] by blast
      obtain g3 where "gpioMode LED_G OUTPUT 0 0 0 0 0 0 g2 = Inr g3"
        using mode [OF led_pins_ok(2)] by blast
      with g1 g2 that show thesis by simp
    qed
    let ?pvs = "[(LED_R, OFF), (LED_B, OFF), (LED_G, OFF)]"
    obtain t where t: "led_write ?pvs (s\<lparr>led_gpio := g\<rparr>) = Inr t"
      "\<forall>q. level (led_gpio t) q =
       (case map_of (rev ?pvs) q of Some v \<Rightarrow> v | None \<Rightarrow> level g q)"
      using led_write_levels [of ?pvs "s\<lparr>led_gpio := g\<rparr>"] by auto
    with False g show ?thesis
      by (simp add: Led_Init_def lit_def ON_def OFF_def led_pins)
  qed (simp add: Led_Init_def)
  have lit_all: "\<exists>t. led_write pvs s = Inr t \<and> (\<forall>q. lit t q =
      (case map_of (rev pvs) q of Some v \<Rightarrow> v = ON | None \<Rightarrow> lit s q))"
    if "\<forall>pv \<in> set pvs. fst pv \<in> {LED_R, LED_G, LED_B}" for pvs
  proof -
    note pins = that
    obtain t where t: "led_write pvs s = Inr t"
      "\<forall>q. level (led_gpio t) q =
         (case map_of (rev pvs) q of Some v \<Rightarrow> v | None \<Rightarrow> level (led_gpio s) q)"
      using led_write_levels [OF pins, of s] by blast
    have "lit t q = (case map_of (rev pvs) q of Some v \<Rightarrow> v = ON | None \<Rightarrow> lit s q)" for q
      unfolding lit_def t(2) [rule_format] by (cases "map_of (rev pvs) q") simp_all
    with t(1) show ?thesis by blast
  qed
  show "\<exists>t. Led_On RED_led s = Inr t \<and>
      lit t = (if led_initialized s then (lit s)(LED_R := True) else lit s)"
    using lit_all [of "[(LED_R, ON)]"] by (auto simp: Led_On_def fun_eq_iff)
  show "\<exists>t. Led_On WHITE_led s = Inr t \<and>
      lit t = (if led_initialized s then (lit s)(LED_R := True, LED_G := True, LED_B := True) else lit s)"
    using lit_all [of "[(LED_R, ON), (LED_G, ON), (LED_B, ON)]"] by (auto simp: Led_On_def fun_eq_iff)
  show "\<exists>t. Led_Off WHITE_led s = Inr t \<and>
      lit t = (if led_initialized s then (lit s)(LED_R := False, LED_G := False, LED_B := False) else lit s)"
    using lit_all [of "[(LED_R, OFF), (LED_G, OFF), (LED_B, OFF)]"]
    by (auto simp: Led_Off_def fun_eq_iff ON_def OFF_def)
  obtain g where g: "gpioToggle LED_G (led_gpio s) = Inr g"
    using led_pins_ok(2) by (simp add: gpioToggle_def)
  show "\<exists>t. Led_Toggle GREEN_led s = Inr t \<and>
      lit t = (if led_initialized s then (lit s)(LED_G := \<not> lit s LED_G) else lit s)"
    using g level_toggle [OF g] by (auto simp: Led_Toggle_def lit_def fun_eq_iff ON_def)
qed

end
