(* ===== verification/Mail_Body.thy ===== *)
theory Mail_Body
  imports C_Prelude
begin

unbundle bit_operations_syntax

text \<open>
  The body of a mail: \<^verbatim>\<open>my_smtp_bodydh_fn\<close> of \<^verbatim>\<open>source/main.c\<close> hands it out in
  eleven pieces, and the sending routines of \<^verbatim>\<open>lwip/src/apps/smtp/smtp.c\<close> pass them to
  the connection as it has room. The connection is described by the answers it gives: how much it
  can take and whether a write or a close succeeds, at every moment. The bytes of a piece are
  those it has when it is handed out.
\<close>

section \<open>What a mail is made of\<close>

text \<open>The memory the mail is read from; its text is in fixed arrays.\<close>

record mail_mem =
  mem_to :: "u8 list"
  mem_card :: "u8 list"
  mem_time :: "u8 list"
  mem_time_file :: "u8 list"
  mem_bitmap :: "u8 list"
  base_64_jpg_size :: u32

definition email_from :: "u8 list" where
  "email_from = bytes_of ''fakeemail@fake.com''"

definition USER_ID_LEN :: u16 where "USER_ID_LEN = 8"
definition EMAIL_START_LEN :: u16 where "EMAIL_START_LEN = 161"
definition AFTER_FIRST_ID_LEN :: u16 where "AFTER_FIRST_ID_LEN = 46"
definition AFTER_TIME_LEN :: u16 where "AFTER_TIME_LEN = 204"
definition BET_FILENAME_LEN :: u16 where "BET_FILENAME_LEN = 8"
definition AFTER_FILE_LEN :: u16 where "AFTER_FILE_LEN = 9"
definition EMAIL_END_LEN :: u16 where "EMAIL_END_LEN = 42"

definition crlf :: "u8 list" where "crlf = [13, 10]"

definition email_data_start :: "u8 list" where
  "email_data_start = crlf @ bytes_of ''--977d81ff9d852ab2a0cad646f8058349'' @ crlf @
     bytes_of ''Content-Type: text/plain; charset=\"utf-8\"'' @ crlf @
     bytes_of ''Content-Transfer-Encoding: quoted-printable'' @ crlf @ crlf @
     bytes_of ''Atenci'' @ [0xC3, 0xB3] @ bytes_of ''n,=0A=0AEl usuario de ID ''"

definition email_data_after_id :: "u8 list" where
  "email_data_after_id = bytes_of '' ha accedido al edificio.=0ATiempo de Acceso: ''"

definition email_data_after_time :: "u8 list" where
  "email_data_after_time = bytes_of ''=0A=0ASe env'' @ [0xC3, 0xAD] @
     bytes_of ''a adjunta imagen del usuario:=0A=0A'' @ crlf @ crlf @
     bytes_of ''--977d81ff9d852ab2a0cad646f8058349'' @ crlf @
     bytes_of ''Content-Type: text/plain'' @ crlf @
     bytes_of ''Content-Transfer-Encoding: base64'' @ crlf @
     bytes_of ''Content-Disposition: attachment; filename=\"Acceso_ID:_''"

definition between_filename :: "u8 list" where
  "between_filename = bytes_of ''_Fecha:_''"

definition after_filename :: "u8 list" where
  "after_filename = bytes_of ''.jpg\"'' @ crlf @ crlf"

definition end_email :: "u8 list" where
  "end_email = crlf @ crlf @ bytes_of ''--977d81ff9d852ab2a0cad646f8058349--'' @ crlf"

section \<open>The handler\<close>

definition EMAIL_START :: u16 where "EMAIL_START = 0"
definition FIRST_ID :: u16 where "FIRST_ID = 1"
definition AFTER_FIRST_ID :: u16 where "AFTER_FIRST_ID = 2"
definition ACCESS_TIME :: u16 where "ACCESS_TIME = 3"
definition AFTER_TIME :: u16 where "AFTER_TIME = 4"
definition SECOND_ID :: u16 where "SECOND_ID = 5"
definition BET_FILENAME :: u16 where "BET_FILENAME = 6"
definition FILE_TIME :: u16 where "FILE_TIME = 7"
definition AFTER_FILE :: u16 where "AFTER_FILE = 8"
definition IMAGE :: u16 where "IMAGE = 9"
definition EMAIL_END :: u16 where "EMAIL_END = 10"
definition FINISHED :: u16 where "FINISHED = 11"

lemmas data_states = EMAIL_START_def FIRST_ID_def AFTER_FIRST_ID_def ACCESS_TIME_def AFTER_TIME_def
  SECOND_ID_def BET_FILENAME_def FILE_TIME_def AFTER_FILE_def IMAGE_def EMAIL_END_def FINISHED_def

text \<open>A null pointer is the empty list of bytes.\<close>

record smtp_bodydh =
  dh_state :: u16
  dh_length :: u16
  dh_buffer :: "u8 list"

datatype bdh_retvals_e = BDH_DONE | BDH_WORKING

definition hand_out :: "u8 list \<Rightarrow> u16 \<Rightarrow> u16 \<Rightarrow> smtp_bodydh" where
  "hand_out b len next = \<lparr>dh_state = next, dh_length = len, dh_buffer = b\<rparr>"

definition my_smtp_bodydh_fn :: "mail_mem \<Rightarrow> smtp_bodydh \<Rightarrow> bdh_retvals_e \<times> smtp_bodydh" where
  "my_smtp_bodydh_fn m bdh =
     (if dh_state bdh = FINISHED then (BDH_DONE, bdh)
      else
       (BDH_WORKING,
        if dh_state bdh = EMAIL_START then hand_out email_data_start EMAIL_START_LEN FIRST_ID
        else if dh_state bdh = FIRST_ID then hand_out (mem_card m) USER_ID_LEN AFTER_FIRST_ID
        else if dh_state bdh = AFTER_FIRST_ID
        then hand_out email_data_after_id AFTER_FIRST_ID_LEN ACCESS_TIME
        else if dh_state bdh = ACCESS_TIME
        then hand_out (mem_time m) (of_nat (length (c_str (mem_time m)))) AFTER_TIME
        else if dh_state bdh = AFTER_TIME then hand_out email_data_after_time AFTER_TIME_LEN SECOND_ID
        else if dh_state bdh = SECOND_ID then hand_out (mem_card m) USER_ID_LEN BET_FILENAME
        else if dh_state bdh = BET_FILENAME then hand_out between_filename BET_FILENAME_LEN FILE_TIME
        else if dh_state bdh = FILE_TIME
        then hand_out (mem_time_file m) (of_nat (length (c_str (mem_time_file m)))) AFTER_FILE
        else if dh_state bdh = AFTER_FILE then hand_out after_filename AFTER_FILE_LEN IMAGE
        else if dh_state bdh = IMAGE then hand_out (mem_bitmap m) (ucast (base_64_jpg_size m)) EMAIL_END
        else if dh_state bdh = EMAIL_END then hand_out end_email EMAIL_END_LEN FINISHED
        else hand_out [] 0 EMAIL_START))"

section \<open>The connection\<close>

text \<open>
  \<open>wire\<close> is everything that has been accepted for sending; \<open>moment\<close> counts the calls, and
  the three functions are the answers of the stack at each moment.
\<close>

record tcp_conn =
  wire :: "u8 list"
  moment :: nat
  sndbuf_at :: "nat \<Rightarrow> u16"
  write_ok :: "nat \<Rightarrow> bool"
  close_ok :: "nat \<Rightarrow> bool"

definition altcp_sndbuf :: "tcp_conn \<Rightarrow> u16" where
  "altcp_sndbuf t = sndbuf_at t (moment t)"

definition altcp_write :: "u8 list \<Rightarrow> tcp_conn \<Rightarrow> bool \<times> tcp_conn" where
  "altcp_write bs t =
     (if write_ok t (moment t) then (True, t\<lparr>wire := wire t @ bs, moment := moment t + 1\<rparr>)
      else (False, t\<lparr>moment := moment t + 1\<rparr>))"

definition altcp_close :: "tcp_conn \<Rightarrow> bool \<times> tcp_conn" where
  "altcp_close t = (close_ok t (moment t), t\<lparr>moment := moment t + 1\<rparr>)"

section \<open>Sending the body\<close>

datatype bdh_handler_state = BDH_SENDING | BDH_STOP

definition BDHALLDATASENT :: u32 where "BDHALLDATASENT = 2"
definition BDHSOMEDATASENT :: u32 where "BDHSOMEDATASENT = 1"

text \<open>The part of a session that the body needs.\<close>

record body_state =
  ss_body :: "u8 list"
  ss_body_len :: u16
  ss_body_sent :: u16
  bdh_state :: bdh_handler_state
  exposed :: smtp_bodydh

definition smtp_send_bodyh_data ::
    "tcp_conn \<Rightarrow> u8 list \<Rightarrow> u16 \<Rightarrow> (u32 \<times> u8 list \<times> u16 \<times> tcp_conn) result" where
  "smtp_send_bodyh_data t from howmany =
     (let len = min howmany (altcp_sndbuf t) in
      if length from < unat len then Inl Out_Of_Bounds
      else
        let (ok, t1) = altcp_write (take (unat len) from) t in
        if ok then
          Inr (if 0 < howmany - len then BDHSOMEDATASENT else BDHALLDATASENT,
               drop (unat len) from, howmany - len, t1)
        else Inr (0, from, howmany, t1))"

text \<open>How many calls the handler has left before it is done.\<close>

definition dh_rank :: "smtp_bodydh \<Rightarrow> nat" where
  "dh_rank e = (if 11 < dh_state e then 12 else 11 - unat (dh_state e))"

lemma state_code:
  "unat (w :: u16) \<le> 11 \<Longrightarrow> w = 0 \<or> w = 1 \<or> w = 2 \<or> w = 3 \<or> w = 4 \<or> w = 5 \<or> w = 6 \<or> w = 7 \<or> w = 8 \<or>
     w = 9 \<or> w = 10 \<or> w = 11"
  unfolding word_unat_eq_iff by simp arith

lemma dh_rank_length [simp]: "dh_rank (e\<lparr>dh_length := n\<rparr>) = dh_rank e"
  by (simp add: dh_rank_def)

lemma dh_rank_less:
  "my_smtp_bodydh_fn m e = (BDH_WORKING, e') \<Longrightarrow> dh_rank e' < dh_rank e"
proof -
  assume a: "my_smtp_bodydh_fn m e = (BDH_WORKING, e')"
  show ?thesis
  proof (cases "11 < dh_state e")
    case True
    with a show ?thesis
      by (auto simp: my_smtp_bodydh_fn_def data_states hand_out_def dh_rank_def word_less_nat_alt split: if_splits)
  next
    case False
    then have "unat (dh_state e) \<le> 11" by (simp add: word_less_nat_alt)
    from state_code [OF this] a show ?thesis
      by (elim disjE)
         (auto simp: my_smtp_bodydh_fn_def data_states hand_out_def dh_rank_def split: if_splits)
  qed
qed

function bdh_run ::
    "mail_mem \<Rightarrow> u32 \<Rightarrow> u32 \<Rightarrow> body_state \<Rightarrow> tcp_conn \<Rightarrow> (u32 \<times> body_state \<times> tcp_conn) result" where
  "bdh_run m ret res s t =
     (let ret1 = ret OR res;
          (r, e) = my_smtp_bodydh_fn m ((exposed s)\<lparr>dh_length := 0\<rparr>);
          s1 = s\<lparr>exposed := e, bdh_state := (if r = BDH_DONE then BDH_STOP else bdh_state s),
                 ss_body := dh_buffer e, ss_body_len := dh_length e\<rparr>
      in if ss_body_len s1 = 0 then Inr (ret1, s1, t)
         else bindR (smtp_send_bodyh_data t (ss_body s1) (ss_body_len s1)) (\<lambda>(res1, b, n, t1).
           let s2 = s1\<lparr>ss_body := b, ss_body_len := n\<rparr> in
           if res1 = BDHALLDATASENT \<and> bdh_state s2 \<noteq> BDH_STOP then bdh_run m ret1 res1 s2 t1
           else Inr (ret1, s2, t1)))"
  by pat_completeness auto
termination
proof (relation "measure (\<lambda>(m, ret, res, s, t). dh_rank (exposed s))", simp, clarsimp)
  fix m s r e r' e'
  assume e: "(r', e') = my_smtp_bodydh_fn m ((exposed s)\<lparr>dh_length := 0\<rparr>)"
    and "(if r' = BDH_DONE then BDH_STOP else bdh_state s) \<noteq> BDH_STOP"
  then have "r' = BDH_WORKING" by (cases r') auto
  with e dh_rank_less [of m "(exposed s)\<lparr>dh_length := 0\<rparr>" e'] show "dh_rank e' < dh_rank (exposed s)"
    by simp
qed

declare bdh_run.simps [simp del]

definition smtp_send_body_data_handler ::
    "mail_mem \<Rightarrow> body_state \<Rightarrow> tcp_conn \<Rightarrow> (body_state \<times> tcp_conn) result" where
  "smtp_send_body_data_handler m s t =
     bindR (if ss_body_len s \<noteq> 0
            then bindR (smtp_send_bodyh_data t (ss_body s) (ss_body_len s)) (\<lambda>(res, b, n, t1).
                 Inr (res, s\<lparr>ss_body := b, ss_body_len := n\<rparr>, t1))
            else Inr (0, s, t)) (\<lambda>(res, s1, t1).
     if ss_body_len s \<noteq> 0 \<and> res \<noteq> BDHALLDATASENT
     then Inr (s1\<lparr>ss_body_sent := ss_body_len s1 - 1\<rparr>, t1)
     else bindR (if bdh_state s1 = BDH_SENDING then bdh_run m res res s1 t1 else Inr (res, s1, t1))
       (\<lambda>(ret, s2, t2).
       Inr (s2\<lparr>ss_body_sent :=
              (if bdh_state s2 \<noteq> BDH_SENDING \<and> ret \<noteq> BDHSOMEDATASENT then ss_body_len s2
               else ss_body_len s2 - 1)\<rparr>, t2)))"

section \<open>The text that has to be sent\<close>

text \<open>The pieces still to come in a state of the handler, and what is left of the current one.\<close>

definition pieces :: "mail_mem \<Rightarrow> u8 list list" where
  "pieces m = [email_data_start, take 8 (mem_card m), email_data_after_id, c_str (mem_time m),
     email_data_after_time, take 8 (mem_card m), between_filename, c_str (mem_time_file m),
     after_filename, take (unat (ucast (base_64_jpg_size m) :: u16)) (mem_bitmap m), end_email]"

definition mail_body :: "mail_mem \<Rightarrow> u8 list" where
  "mail_body m = concat (pieces m)"

definition left_to_send :: "mail_mem \<Rightarrow> body_state \<Rightarrow> u8 list" where
  "left_to_send m s = take (unat (ss_body_len s)) (ss_body s) @
     (if bdh_state s = BDH_STOP then [] else concat (drop (unat (dh_state (exposed s))) (pieces m)))"

text \<open>What the memory must hold for the pieces to be readable.\<close>

definition mem_ok :: "mail_mem \<Rightarrow> bool" where
  "mem_ok m \<longleftrightarrow> 8 \<le> length (mem_card m) \<and> length (mem_time m) = 32 \<and> length (mem_time_file m) = 32 \<and>
     unat (ucast (base_64_jpg_size m) :: u16) \<le> length (mem_bitmap m)"

text \<open>The bytes of the current piece are there, and the handler has not gone astray.\<close>

definition body_ok :: "body_state \<Rightarrow> bool" where
  "body_ok s \<longleftrightarrow> unat (ss_body_len s) \<le> length (ss_body s) \<and> dh_state (exposed s) \<le> 11 \<and>
     (bdh_state s = BDH_STOP \<longrightarrow> dh_state (exposed s) = 11 \<and> ss_body_len s = 0)"

lemma lengths:
  "length email_data_start = 161" "length email_data_after_id = 46"
  "length email_data_after_time = 204" "length between_filename = 8" "length after_filename = 9"
  "length end_email = 42"
  by (simp_all add: email_data_start_def email_data_after_id_def email_data_after_time_def
      between_filename_def after_filename_def end_email_def crlf_def)

lemma fn_done: "dh_state e = 11 \<Longrightarrow> my_smtp_bodydh_fn m e = (BDH_DONE, e)"
  by (simp add: my_smtp_bodydh_fn_def data_states)

lemma time_piece:
  assumes "length b = 32"
  shows "unat (of_nat (length (c_str b)) :: u16) = length (c_str b)"
    and "take (length (c_str b)) b = c_str b" and "length (c_str b) \<le> 32"
proof -
  have "length (c_str b) \<le> length b" by (simp add: c_str_def length_takeWhile_le)
  then show le: "length (c_str b) \<le> 32" using assms by simp
  then show "unat (of_nat (length (c_str b)) :: u16) = length (c_str b)"
    using assms by (intro unat_of_nat_u16) simp
  show "take (length (c_str b)) b = c_str b"
    by (simp add: c_str_def takeWhile_eq_take [symmetric])
qed

lemma fn_piece:
  assumes "mem_ok m" and "dh_state e < 11"
  shows "\<exists>e'. my_smtp_bodydh_fn m e = (BDH_WORKING, e') \<and> unat (dh_state e') = Suc (unat (dh_state e)) \<and>
    unat (dh_length e') \<le> length (dh_buffer e') \<and>
    take (unat (dh_length e')) (dh_buffer e') = pieces m ! unat (dh_state e)"
proof -
  have "unat (dh_state e) \<le> 11" using assms(2) by (simp add: word_less_nat_alt)
  from state_code [OF this] assms show ?thesis
    by (elim disjE)
       (simp_all add: my_smtp_bodydh_fn_def data_states hand_out_def pieces_def lengths mem_ok_def
         time_piece EMAIL_START_LEN_def USER_ID_LEN_def AFTER_FIRST_ID_LEN_def AFTER_TIME_LEN_def
         BET_FILENAME_LEN_def AFTER_FILE_LEN_def EMAIL_END_LEN_def)
qed

section \<open>Nothing is lost, whatever the connection answers\<close>

lemma send_data:
  assumes "unat n \<le> length b"
  obtains res b' n' t' where "smtp_send_bodyh_data t b n = Inr (res, b', n', t')"
    "unat n' \<le> length b'" "wire t' @ take (unat n') b' = wire t @ take (unat n) b"
    "res = BDHALLDATASENT \<longrightarrow> n' = 0" "sndbuf_at t' = sndbuf_at t" "write_ok t' = write_ok t"
    "res \<noteq> BDHALLDATASENT \<longrightarrow> n = 0 \<or> n' \<noteq> 0"
proof -
  let ?l = "min n (altcp_sndbuf t)"
  have l: "unat ?l \<le> unat n" "unat ?l \<le> length b" using assms by (auto simp: min_def word_le_nat_alt)
  have sub: "unat (n - ?l) = unat n - unat ?l" using l(1) by (simp add: unat_sub word_le_nat_alt)
  have tk: "take (unat n) b = take (unat ?l) b @ take (unat n - unat ?l) (drop (unat ?l) b)"
    using l(1) by (metis le_add_diff_inverse take_add)
  show thesis
  proof (cases "write_ok t (moment t)")
    case True
    show thesis
      by (rule that [of "if 0 < n - ?l then BDHSOMEDATASENT else BDHALLDATASENT" "drop (unat ?l) b"
          "n - ?l" "t\<lparr>wire := wire t @ take (unat ?l) b, moment := moment t + 1\<rparr>"])
        (use True l assms tk sub in \<open>auto simp: smtp_send_bodyh_data_def Let_def altcp_write_def
          BDHSOMEDATASENT_def BDHALLDATASENT_def word_gt_0\<close>)
  next
    case False
    show thesis
      by (rule that [of 0 b n "t\<lparr>moment := moment t + 1\<rparr>"])
        (use False l assms in \<open>auto simp: smtp_send_bodyh_data_def Let_def altcp_write_def
          BDHALLDATASENT_def\<close>)
  qed
qed

lemma left_step:
  assumes "unat k < length (pieces m)"
  shows "concat (drop (unat k) (pieces m)) = pieces m ! unat k @ concat (drop (Suc (unat k)) (pieces m))"
  using assms by (simp add: Cons_nth_drop_Suc [symmetric])

lemma run_keeps:
  assumes "mem_ok m" and "body_ok s" and "bdh_state s = BDH_SENDING" and "ss_body_len s = 0"
    and "ret \<in> {0, 2}" and "res \<in> {0, 2}"
  shows "\<exists>ret' s' t'. bdh_run m ret res s t = Inr (ret', s', t') \<and> body_ok s' \<and> ret' \<in> {0, 2} \<and>
    wire t' @ left_to_send m s' = wire t @ left_to_send m s \<and>
    sndbuf_at t' = sndbuf_at t \<and> write_ok t' = write_ok t"
  using assms(2-)
proof (induction "dh_rank (exposed s)" arbitrary: ret res s t rule: less_induct)
  case less
  let ?e = "(exposed s)\<lparr>dh_length := 0\<rparr>"
  have ret1: "ret OR res \<in> {0, 2}" using less.prems by auto
  show ?case
  proof (cases "dh_state ?e = 11")
    case True
    then show ?thesis
      using less.prems ret1 fn_done [OF True, of m]
      by (subst bdh_run.simps)
         (auto simp: Let_def body_ok_def left_to_send_def pieces_def)
  next
    case False
    then have lt: "dh_state ?e < 11" using less.prems(1) by (simp add: body_ok_def less_le)
    obtain e where e: "my_smtp_bodydh_fn m ?e = (BDH_WORKING, e)"
      "unat (dh_state e) = Suc (unat (dh_state ?e))" "unat (dh_length e) \<le> length (dh_buffer e)"
      "take (unat (dh_length e)) (dh_buffer e) = pieces m ! unat (dh_state ?e)"
      using fn_piece [OF assms(1) lt] by blast
    have "dh_state e \<le> 11" using e(2) lt by (simp add: word_le_nat_alt word_less_nat_alt)
    let ?s1 = "s\<lparr>exposed := e, ss_body := dh_buffer e, ss_body_len := dh_length e\<rparr>"
    have ok1: "body_ok ?s1" using less.prems e(3) \<open>dh_state e \<le> 11\<close> by (simp add: body_ok_def)
    have "unat (dh_state ?e) < length (pieces m)" using lt by (simp add: pieces_def word_less_nat_alt)
    from left_step [OF this] have left1: "left_to_send m ?s1 = left_to_send m s"
      using less.prems e(2,4) by (simp add: left_to_send_def)
    show ?thesis
    proof (cases "dh_length e = 0")
      case True
      then have "bdh_run m ret res s t = Inr (ret OR res, ?s1, t)"
        using e(1) less.prems by (subst bdh_run.simps) (simp add: Let_def)
      then show ?thesis using ok1 left1 ret1 by auto
    next
      case F: False
      obtain res1 b n t1 where d: "smtp_send_bodyh_data t (dh_buffer e) (dh_length e) = Inr (res1, b, n, t1)"
        "unat n \<le> length b" "wire t1 @ take (unat n) b = wire t @ take (unat (dh_length e)) (dh_buffer e)"
        "res1 = BDHALLDATASENT \<longrightarrow> n = 0" "sndbuf_at t1 = sndbuf_at t" "write_ok t1 = write_ok t"
        using send_data [OF e(3)] by metis
      let ?s2 = "?s1\<lparr>ss_body := b, ss_body_len := n\<rparr>"
      have ok2: "body_ok ?s2" using ok1 d(2) less.prems by (simp add: body_ok_def)
      have left2: "wire t1 @ left_to_send m ?s2 = wire t @ left_to_send m s"
        using d(3) less.prems unfolding left1 [symmetric] by (simp add: left_to_send_def)
      have upd: "s\<lparr>exposed := e, bdh_state := BDH_SENDING, ss_body := b, ss_body_len := n\<rparr> =
          s\<lparr>exposed := e, ss_body := b, ss_body_len := n\<rparr>"
        using less.prems(2) by (cases s) simp
      have run: "bdh_run m ret res s t = (if res1 = BDHALLDATASENT
          then bdh_run m (ret OR res) res1 ?s2 t1 else Inr (ret OR res, ?s2, t1))"
        using e(1) F d(1) less.prems
        by (subst bdh_run.simps) (simp add: Let_def, simp only: upd simp_thms)
      show ?thesis
      proof (cases "res1 = BDHALLDATASENT")
        case True
        have rank: "dh_rank (exposed ?s2) < dh_rank (exposed s)" using dh_rank_less [OF e(1)] by simp
        have "bdh_state ?s2 = BDH_SENDING" "ss_body_len ?s2 = 0" "res1 \<in> {0, 2}"
          using less.prems True d(4) by (simp_all add: BDHALLDATASENT_def)
        from less.hyps [OF rank ok2 this(1,2) ret1 this(3)] obtain ret' s' t' where
          "bdh_run m (ret OR res) res1 ?s2 t1 = Inr (ret', s', t')" "body_ok s'" "ret' \<in> {0, 2}"
          "wire t' @ left_to_send m s' = wire t1 @ left_to_send m ?s2"
          "sndbuf_at t' = sndbuf_at t1" "write_ok t' = write_ok t1" by blast
        then show ?thesis using run True left2 d(5,6) by simp
      next
        case G: False
        then show ?thesis using run ok2 left2 ret1 d(5,6) by auto
      qed
    qed
  qed
qed

lemma handler_keeps:
  assumes "mem_ok m" and "body_ok s" and "bdh_state s = BDH_SENDING"
  shows "\<exists>s' t'. smtp_send_body_data_handler m s t = Inr (s', t') \<and> body_ok s' \<and>
    wire t' @ left_to_send m s' = wire t @ left_to_send m s \<and>
    (ss_body_sent s' = ss_body_len s' \<longleftrightarrow> bdh_state s' = BDH_STOP) \<and>
    sndbuf_at t' = sndbuf_at t \<and> write_ok t' = write_ok t"
proof -
  have run: "\<exists>s' t'. smtp_send_body_data_handler m s t = Inr (s', t') \<and> body_ok s' \<and>
      wire t' @ left_to_send m s' = wire t1 @ left_to_send m s1 \<and>
      (ss_body_sent s' = ss_body_len s' \<longleftrightarrow> bdh_state s' = BDH_STOP) \<and>
      sndbuf_at t' = sndbuf_at t1 \<and> write_ok t' = write_ok t1"
    if h: "smtp_send_body_data_handler m s t = bindR (bdh_run m res res s1 t1) (\<lambda>(ret, s2, t2).
       Inr (s2\<lparr>ss_body_sent := (if bdh_state s2 \<noteq> BDH_SENDING \<and> ret \<noteq> BDHSOMEDATASENT
         then ss_body_len s2 else ss_body_len s2 - 1)\<rparr>, t2))"
      and s1: "body_ok s1" "bdh_state s1 = BDH_SENDING" "ss_body_len s1 = 0" "res \<in> {0, 2}" for res s1 t1
  proof -
    obtain ret' s' t' where r: "bdh_run m res res s1 t1 = Inr (ret', s', t')" "body_ok s'" "ret' \<in> {0, 2}"
      "wire t' @ left_to_send m s' = wire t1 @ left_to_send m s1" "sndbuf_at t' = sndbuf_at t1"
      "write_ok t' = write_ok t1"
      using run_keeps [OF assms(1) s1(1-3) s1(4) s1(4)] by blast
    have "(if bdh_state s' \<noteq> BDH_SENDING \<and> ret' \<noteq> BDHSOMEDATASENT then ss_body_len s'
        else ss_body_len s' - 1) = ss_body_len s' \<longleftrightarrow> bdh_state s' = BDH_STOP"
      using r(3) by (cases "bdh_state s'") (auto simp: BDHSOMEDATASENT_def)
    with r show ?thesis by (auto simp: h body_ok_def left_to_send_def)
  qed
  show ?thesis
  proof (cases "ss_body_len s = 0")
    case True
    then have "smtp_send_body_data_handler m s t = bindR (bdh_run m 0 0 s t) (\<lambda>(ret, s2, t2).
       Inr (s2\<lparr>ss_body_sent := (if bdh_state s2 \<noteq> BDH_SENDING \<and> ret \<noteq> BDHSOMEDATASENT
         then ss_body_len s2 else ss_body_len s2 - 1)\<rparr>, t2))"
      using assms(3) by (simp add: smtp_send_body_data_handler_def)
    from run [OF this assms(2,3) True] show ?thesis by simp
  next
    case False
    have len: "unat (ss_body_len s) \<le> length (ss_body s)" using assms(2) by (simp add: body_ok_def)
    obtain res b n t1 where d: "smtp_send_bodyh_data t (ss_body s) (ss_body_len s) = Inr (res, b, n, t1)"
      "unat n \<le> length b" "wire t1 @ take (unat n) b = wire t @ take (unat (ss_body_len s)) (ss_body s)"
      "res = BDHALLDATASENT \<longrightarrow> n = 0" "sndbuf_at t1 = sndbuf_at t" "write_ok t1 = write_ok t"
      using send_data [OF len] by metis
    let ?s1 = "s\<lparr>ss_body := b, ss_body_len := n\<rparr>"
    have ok1: "body_ok ?s1" using d(2) assms(2,3) by (simp add: body_ok_def)
    have left1: "wire t1 @ left_to_send m ?s1 = wire t @ left_to_send m s"
      using d(3) by (simp add: left_to_send_def)
    show ?thesis
    proof (cases "res = BDHALLDATASENT")
      case True
      then have "smtp_send_body_data_handler m s t = bindR (bdh_run m res res ?s1 t1) (\<lambda>(ret, s2, t2).
         Inr (s2\<lparr>ss_body_sent := (if bdh_state s2 \<noteq> BDH_SENDING \<and> ret \<noteq> BDHSOMEDATASENT
           then ss_body_len s2 else ss_body_len s2 - 1)\<rparr>, t2))"
        using False d(1) assms(3) by (simp add: smtp_send_body_data_handler_def)
      from run [OF this ok1] True d(4-6) assms(3) left1 show ?thesis by (simp add: BDHALLDATASENT_def)
    next
      case F: False
      then have "smtp_send_body_data_handler m s t = Inr (?s1\<lparr>ss_body_sent := n - 1\<rparr>, t1)"
        using False d(1) by (simp add: smtp_send_body_data_handler_def)
      then show ?thesis using ok1 left1 d(5,6) assms(3)
        by (auto simp: body_ok_def left_to_send_def)
    qed
  qed
qed

section \<open>A connection with room\<close>

definition roomy :: "tcp_conn \<Rightarrow> bool" where
  "roomy t \<longleftrightarrow> (\<forall>k. sndbuf_at t k = 0xFFFF \<and> write_ok t k)"

lemma u16_le_max: "(n :: u16) \<le> 0xFFFF"
  using unsigned_less [of n, where 'a = nat] by (simp add: word_le_nat_alt)

lemma send_roomy:
  assumes "roomy t" and "unat n \<le> length b"
  shows "smtp_send_bodyh_data t b n =
    Inr (BDHALLDATASENT, drop (unat n) b, 0, t\<lparr>wire := wire t @ take (unat n) b, moment := moment t + 1\<rparr>)"
  using assms u16_le_max [of n]
  by (simp add: smtp_send_bodyh_data_def altcp_sndbuf_def altcp_write_def roomy_def min_def Let_def)

lemma run_roomy:
  assumes "mem_ok m" and "\<forall>x \<in> set (pieces m). x \<noteq> []"
    and "roomy t" and "body_ok s" and "bdh_state s = BDH_SENDING" and "ss_body_len s = 0"
  shows "\<exists>ret' s' t'. bdh_run m ret res s t = Inr (ret', s', t') \<and> bdh_state s' = BDH_STOP"
  using assms(3-)
proof (induction "dh_rank (exposed s)" arbitrary: ret res s t rule: less_induct)
  case less
  let ?e = "(exposed s)\<lparr>dh_length := 0\<rparr>"
  show ?case
  proof (cases "dh_state ?e = 11")
    case True
    then show ?thesis
      using less.prems fn_done [OF True, of m] by (subst bdh_run.simps) (simp add: Let_def)
  next
    case False
    then have lt: "dh_state ?e < 11" using less.prems(2) by (simp add: body_ok_def less_le)
    obtain e where e: "my_smtp_bodydh_fn m ?e = (BDH_WORKING, e)"
      "unat (dh_state e) = Suc (unat (dh_state ?e))" "unat (dh_length e) \<le> length (dh_buffer e)"
      "take (unat (dh_length e)) (dh_buffer e) = pieces m ! unat (dh_state ?e)"
      using fn_piece [OF assms(1) lt] by blast
    have "unat (dh_state ?e) < length (pieces m)" using lt by (simp add: pieces_def word_less_nat_alt)
    then have "pieces m ! unat (dh_state ?e) \<noteq> []" using assms(2) nth_mem by blast
    then have ne: "dh_length e \<noteq> 0" using e(4) by auto
    let ?s2 = "s\<lparr>exposed := e, ss_body := drop (unat (dh_length e)) (dh_buffer e), ss_body_len := 0\<rparr>"
    let ?t1 = "t\<lparr>wire := wire t @ take (unat (dh_length e)) (dh_buffer e), moment := moment t + 1\<rparr>"
    have "dh_state e \<le> 11" using e(2) lt by (simp add: word_le_nat_alt word_less_nat_alt)
    then have ok: "body_ok ?s2" using less.prems(2,3) by (simp add: body_ok_def)
    have upd: "s\<lparr>exposed := e, bdh_state := BDH_SENDING, ss_body := b, ss_body_len := 0\<rparr> =
        s\<lparr>exposed := e, ss_body := b, ss_body_len := 0\<rparr>" for b
      using less.prems(3) by (cases s) simp
    have "bdh_run m ret res s t = bdh_run m (ret OR res) BDHALLDATASENT ?s2 ?t1"
      using e(1,3) ne less.prems
      by (subst bdh_run.simps) (simp add: Let_def send_roomy, simp only: upd simp_thms)
    moreover have "roomy ?t1" using less.prems(1) by (simp add: roomy_def)
    moreover have "dh_rank (exposed ?s2) < dh_rank (exposed s)" using dh_rank_less [OF e(1)] by simp
    ultimately show ?thesis using less.hyps [of ?s2 ?t1] ok less.prems(3) by simp
  qed
qed

end
