(* ===== verification/Base64.thy ===== *)
theory Base64
  imports C_Prelude
begin

unbundle bit_operations_syntax

text \<open>
  The Base64 encoder of \<^verbatim>\<open>source/base64.c\<close> that turns the compressed picture into the
  text of a mail attachment. The code walks over the bits of the input one by one and emits a
  character whenever six of them have been gathered; \<open>b64_text\<close> is the encoding of RFC 4648
  by groups of three bytes, and \<open>b64_read\<close> the decoder a mail reader runs. The lemmas show
  that the bit-wise loop computes the encoding by groups, that decoding gives the picture back,
  and what happens when the target is too short, which the code does not look at.
\<close>

section \<open>The code\<close>

definition table_base64 :: "u8 list" where
  "table_base64 = bytes_of
     ''ABCDEFGHIJKLMNOPQRSTUVWXYZabcdefghijklmnopqrstuvwxyz0123456789+/''"

record b64_state =
  b64_target :: "u8 list"
  b64_target_idx :: u32
  b64_x :: u8
  b64_current :: u8

text \<open>The body of the loop over the bits: the tested bit, then the loop's own \<^verbatim>\<open>x--\<close>.\<close>

definition encode_bit :: "u8 \<Rightarrow> nat \<Rightarrow> b64_state \<Rightarrow> b64_state result" where
  "encode_bit b j s =
     (let cur = (if b AND push_bit j 1 \<noteq> 0
                 then b64_current s OR push_bit (unat (b64_x s)) 1 else b64_current s) in
      if b64_x s = 0
      then bindR (rd table_base64 (unat cur)) (\<lambda>ch.
           bindR (wr (b64_target s) (unat (b64_target_idx s)) ch) (\<lambda>t.
           Inr (s\<lparr>b64_target := t, b64_target_idx := b64_target_idx s + 1,
                  b64_x := 6 - 1, b64_current := 0\<rparr>)))
      else Inr (s\<lparr>b64_x := b64_x s - 1, b64_current := cur\<rparr>))"

definition encode_byte :: "u8 \<Rightarrow> b64_state \<Rightarrow> b64_state result" where
  "encode_byte b s = foldR (encode_bit b) [7, 6, 5, 4, 3, 2, 1, 0] s"

definition encode_at :: "u8 list \<Rightarrow> u32 \<Rightarrow> nat \<Rightarrow> b64_state \<Rightarrow> b64_state result" where
  "encode_at source source_len i s =
     bindR (if i < unat source_len then rd source i else Inr 0) (\<lambda>b. encode_byte b s)"

definition longer_of :: "u32 \<Rightarrow> u32" where
  "longer_of source_len = (if source_len mod 3 \<noteq> 0 then 3 - source_len mod 3 else 0)"

definition pad_at :: "nat \<Rightarrow> u8 list \<Rightarrow> u8 list result" where
  "pad_at i t = wr t i (of_char (CHR ''=''))"

definition encode_base64 ::
  "u8 list \<Rightarrow> u32 \<Rightarrow> u8 list \<Rightarrow> u32 \<Rightarrow> (u8 list \<times> u32) result" where
  "encode_base64 target target_len source source_len =
     (let longer = longer_of source_len;
          source_len_b64 = source_len + longer;
          len' = source_len_b64 * 4 div 3 in
      bindR (foldR (encode_at source source_len) [0..<unat source_len_b64]
               \<lparr>b64_target = target, b64_target_idx = 0, b64_x = 5, b64_current = 0\<rparr>) (\<lambda>s.
      bindR (foldR pad_at [unat (len' - longer)..<unat len'] (b64_target s)) (\<lambda>t.
      Inr (t, len'))))"

section \<open>The encoding by groups and its decoder\<close>

definition b64_char :: "u8 \<Rightarrow> u8" where
  "b64_char v = table_base64 ! unat v"

definition b64_group :: "u8 \<Rightarrow> u8 \<Rightarrow> u8 \<Rightarrow> u8 list" where
  "b64_group a b c = map b64_char
     [drop_bit 2 a, push_bit 4 (a AND 3) OR drop_bit 4 b,
      push_bit 2 (b AND 15) OR drop_bit 6 c, c AND 63]"

fun b64_text :: "u8 list \<Rightarrow> u8 list" where
  "b64_text [] = []"
| "b64_text [a] = take 2 (b64_group a 0 0) @ [61, 61]"
| "b64_text [a, b] = take 3 (b64_group a b 0) @ [61]"
| "b64_text (a # b # c # r) = b64_group a b c @ b64_text r"

fun index_of :: "'a list \<Rightarrow> 'a \<Rightarrow> nat" where
  "index_of [] y = 0"
| "index_of (x # xs) y = (if x = y then 0 else Suc (index_of xs y))"

definition b64_value :: "u8 \<Rightarrow> u8" where
  "b64_value ch = of_nat (index_of table_base64 ch)"

definition b64_first :: "u8 \<Rightarrow> u8 \<Rightarrow> u8" where
  "b64_first p q = push_bit 2 (b64_value p) OR drop_bit 4 (b64_value q)"

definition b64_second :: "u8 \<Rightarrow> u8 \<Rightarrow> u8" where
  "b64_second q r = push_bit 4 (b64_value q) OR drop_bit 2 (b64_value r)"

definition b64_third :: "u8 \<Rightarrow> u8 \<Rightarrow> u8" where
  "b64_third r s = push_bit 6 (b64_value r) OR b64_value s"

fun b64_read :: "u8 list \<Rightarrow> u8 list" where
  "b64_read (p # q # r # s # rest) =
     (if r = 61 then [b64_first p q]
      else if s = 61 then [b64_first p q, b64_second q r]
      else [b64_first p q, b64_second q r, b64_third r s] @ b64_read rest)"
| "b64_read _ = []"

text \<open>The number of characters an input of \<open>n\<close> bytes takes.\<close>

definition b64_size :: "nat \<Rightarrow> nat" where
  "b64_size n = 4 * ((n + 2) div 3)"

section \<open>Sextets\<close>

text \<open>A value below 64, as the loop builds it from its six bits.\<close>

definition sextet :: "bool list \<Rightarrow> u8" where
  "sextet vs = (if vs ! 0 then 32 else 0) OR (if vs ! 1 then 16 else 0) OR
     (if vs ! 2 then 8 else 0) OR (if vs ! 3 then 4 else 0) OR
     (if vs ! 4 then 2 else 0) OR (if vs ! 5 then 1 else 0)"

lemma all_bool6:
  "(\<And>a b c d e f. P [a, b, c, d, e, f]) \<Longrightarrow> length vs = 6 \<Longrightarrow> P vs"
  by (auto simp: length_Suc_conv numeral_eq_Suc)

lemma length_table [simp]: "length table_base64 = 64"
  by (simp add: table_base64_def)

lemma table_distinct: "distinct table_base64"
  by (simp add: table_base64_def bytes_of_def)

lemma table_no_pad: "61 \<notin> set table_base64"
  by (simp add: table_base64_def bytes_of_def)

lemma index_of_nth: "distinct xs \<Longrightarrow> i < length xs \<Longrightarrow> index_of xs (xs ! i) = i"
  by (induction xs arbitrary: i) (auto simp: nth_Cons split: nat.splits)

lemma b64_value_char: "unat v < 64 \<Longrightarrow> b64_value (b64_char v) = v"
  by (simp add: b64_value_def b64_char_def index_of_nth table_distinct)

lemma b64_char_not_pad: "unat v < 64 \<Longrightarrow> b64_char v \<noteq> 61"
  using table_no_pad by (metis b64_char_def length_table nth_mem)

lemma u8_eqI:
  assumes "bit v 0 = bit w 0" "bit v 1 = bit w 1" "bit v 2 = bit w 2" "bit v 3 = bit w 3"
    "bit v 4 = bit w 4" "bit v 5 = bit w 5" "bit v 6 = bit w 6" "bit v 7 = bit w 7"
  shows "(v :: u8) = w"
proof (rule bit_word_eqI)
  fix n
  assume "n < LENGTH(8)"
  then consider "n = 0" | "n = 1" | "n = 2" | "n = 3" | "n = 4" | "n = 5" | "n = 6" | "n = 7"
    by fastforce
  then show "bit v n = bit w n"
    by cases (simp_all only: assms)
qed

lemma bit_if_word: "bit (if P then v else w) n = (if P then bit v n else bit w n)"
  by simp

lemma bit_u8_high: "8 \<le> n \<Longrightarrow> \<not> bit (v :: u8) n"
  by (simp add: bit_word.rep_eq bit_simps)

lemma group_sextets:
  "drop_bit 2 a = sextet [bit a 7, bit a 6, bit a 5, bit a 4, bit a 3, bit a 2]"
  "push_bit 4 (a AND 3) OR drop_bit 4 b =
     sextet [bit a 1, bit a 0, bit b 7, bit b 6, bit b 5, bit b 4]"
  "push_bit 2 (b AND 15) OR drop_bit 6 c =
     sextet [bit b 3, bit b 2, bit b 1, bit b 0, bit c 7, bit c 6]"
  "c AND 63 = sextet [bit c 5, bit c 4, bit c 3, bit c 2, bit c 1, bit c 0]"
  for a b c :: u8
  by (rule u8_eqI;
      simp add: sextet_def bit_simps bit_if_word bit_numeral_rec bit_u8_high)+

lemma sextet_less: "length vs = 6 \<Longrightarrow> unat (sextet vs) < 64"
  by (rule all_bool6 [of "\<lambda>vs. unat (sextet vs) < 64"]) (simp_all add: sextet_def)

section \<open>One group of three bytes\<close>

text \<open>The step of the loop on the value of the tested bit.\<close>

definition put :: "bool \<Rightarrow> b64_state \<Rightarrow> b64_state result" where
  "put v = encode_bit (if v then 1 else 0) 0"

lemma bit_and_push_one: "j < 8 \<Longrightarrow> ((b :: u8) AND push_bit j 1 \<noteq> 0) = bit b j"
proof -
  assume "j < 8"
  then have "bit (b AND push_bit j 1) n \<longleftrightarrow> n = j \<and> bit b j" for n
    by (auto simp: bit_simps)
  then show ?thesis by (metis bit_0_eq bot_apply bot_bool_def bit_eqI)
qed

lemma encode_bit_put: "encode_bit b j = put (bit b j)" if "j < 8"
proof (rule ext)
  fix s
  have "(b AND push_bit j 1 \<noteq> 0) = bit b j"
    using that bit_and_push_one [of j b] by simp
  moreover have "((if v then 1 else 0) AND push_bit 0 1 \<noteq> (0 :: u8)) = v" for v
    by simp
  ultimately show "encode_bit b j s = put (bit b j) s"
    unfolding put_def encode_bit_def by simp
qed

lemma encode_byte_put: "encode_byte b s = foldR put (bits_msb 8 b) s"
proof -
  have "bits_msb 8 b = map (bit b) [7, 6, 5, 4, 3, 2, 1, 0]"
    by (simp add: numeral_eq_Suc)
  moreover have "foldR (encode_bit b) [7, 6, 5, 4, 3, 2, 1, 0] s =
      foldR put (map (bit b) [7, 6, 5, 4, 3, 2, 1, 0]) s"
    by (rule foldR_cong) (auto simp: encode_bit_put)
  ultimately show ?thesis by (simp only: encode_byte_def)
qed

definition ready :: "u8 list \<Rightarrow> nat \<Rightarrow> b64_state" where
  "ready t k = \<lparr>b64_target = t, b64_target_idx = of_nat k, b64_x = 5, b64_current = 0\<rparr>"

lemma put_mid:
  "x \<noteq> 0 \<Longrightarrow>
     put v \<lparr>b64_target = t, b64_target_idx = k, b64_x = x, b64_current = c\<rparr> =
       Inr \<lparr>b64_target = t, b64_target_idx = k, b64_x = x - 1,
            b64_current = (if v then c OR push_bit (unat x) 1 else c)\<rparr>"
  by (simp add: put_def encode_bit_def)

lemma put_last:
  "unat c < 64 \<Longrightarrow> unat (c OR 1) < 64 \<Longrightarrow>
     put v \<lparr>b64_target = t, b64_target_idx = k, b64_x = 0, b64_current = c\<rparr> =
       bindR (wr t (unat k) (b64_char (if v then c OR 1 else c))) (\<lambda>t'.
         Inr \<lparr>b64_target = t', b64_target_idx = k + 1, b64_x = 5, b64_current = 0\<rparr>)"
  by (simp add: put_def encode_bit_def rd_in b64_char_def)

lemma put_sextet:
  "length vs = 6 \<Longrightarrow> k < 2 ^ 32 \<Longrightarrow>
     foldR put vs (ready t k) =
       bindR (wr t k (b64_char (sextet vs))) (\<lambda>t'. Inr (ready t' (Suc k)))"
proof (rule all_bool6 [of "\<lambda>vs. foldR put vs (ready t k) =
       bindR (wr t k (b64_char (sextet vs))) (\<lambda>t'. Inr (ready t' (Suc k)))"])
  fix a b c d e f
  assume "k < 2 ^ 32"
  then have k: "unat (of_nat k :: u32) = k" by (rule unat_of_nat_u32)
  have nxt: "of_nat (Suc k) = (of_nat k + 1 :: u32)" by simp
  show "foldR put [a, b, c, d, e, f] (ready t k) =
       bindR (wr t k (b64_char (sextet [a, b, c, d, e, f]))) (\<lambda>t'. Inr (ready t' (Suc k)))"
    unfolding ready_def nxt
    by (cases a; cases b; cases c; cases d; cases e; cases f;
        simp add: put_mid put_last k sextet_def bindR_assoc foldR_Nil_fun)
qed

fun b64_groups :: "u8 list \<Rightarrow> u8 list" where
  "b64_groups (a # b # c # r) = b64_group a b c @ b64_groups r"
| "b64_groups [] = []"
| "b64_groups [a] = []"
| "b64_groups [a, b] = []"

lemma length_b64_group [simp]: "length (b64_group a b c) = 4"
  by (simp add: b64_group_def)

lemma put_sextets:
  assumes "\<forall>vs \<in> set vss. length vs = 6" and "k + length vss \<le> 2 ^ 32" and "k \<le> length t"
  shows "foldR put (concat vss) (ready t k) =
    bindR (write_bytes t k (map (\<lambda>vs. b64_char (sextet vs)) vss)) (\<lambda>t'. Inr (ready t' (k + length vss)))"
  using assms
proof (induction vss arbitrary: k t)
  case (Cons vs vss)
  have step: "foldR put vs (ready t k) =
      bindR (wr t k (b64_char (sextet vs))) (\<lambda>t'. Inr (ready t' (Suc k)))"
    using Cons.prems by (intro put_sextet) auto
  show ?case
  proof (cases "k < length t")
    case True
    then have "foldR put (concat vss) (ready (t[k := b64_char (sextet vs)]) (Suc k)) =
       bindR (write_bytes (t[k := b64_char (sextet vs)]) (Suc k) (map (\<lambda>vs. b64_char (sextet vs)) vss))
         (\<lambda>t'. Inr (ready t' (Suc k + length vss)))"
      using Cons.prems by (intro Cons.IH) auto
    then show ?thesis
      by (simp add: foldR_append step write_bytes_Cons wr_in [OF True])
  qed (simp add: foldR_append step write_bytes_Cons wr_def)
qed (simp add: write_bytes_Nil)

text \<open>The sextets of a list of bytes whose length is a multiple of three.\<close>

fun sextets :: "u8 list \<Rightarrow> bool list list" where
  "sextets (a # b # c # r) =
     [[bit a 7, bit a 6, bit a 5, bit a 4, bit a 3, bit a 2],
      [bit a 1, bit a 0, bit b 7, bit b 6, bit b 5, bit b 4],
      [bit b 3, bit b 2, bit b 1, bit b 0, bit c 7, bit c 6],
      [bit c 5, bit c 4, bit c 3, bit c 2, bit c 1, bit c 0]] @ sextets r"
| "sextets [] = []"
| "sextets [a] = []"
| "sextets [a, b] = []"

lemma not_triple: "length [u] \<noteq> 3 * m" "length [u, v] \<noteq> 3 * (m :: nat)"
  by simp_all presburger+

lemma length_sextets: "length bs = 3 * m \<Longrightarrow> length (sextets bs) = 4 * m"
proof (induction bs arbitrary: m rule: sextets.induct)
  case (1 a b c r)
  from 1(2) obtain k where "m = Suc k" "length r = 3 * k" by (cases m) auto
  then show ?case by (simp add: 1(1))
next
  case (3 v)
  with not_triple(1) [of v m] show ?case by blast
next
  case (4 v w)
  with not_triple(2) [of v w m] show ?case by blast
qed simp

lemma sextets_6: "\<forall>vs \<in> set (sextets bs). length vs = 6"
  by (induction bs rule: sextets.induct) auto

lemma bits_msb_8: "bits_msb 8 b =
    [bit b 7, bit b 6, bit b 5, bit b 4, bit b 3, bit b 2, bit b 1, bit b 0]"
  by (simp add: numeral_eq_Suc)

lemma concat_sextets: "length bs = 3 * m \<Longrightarrow> concat (sextets bs) = concat (map (bits_msb 8) bs)"
proof (induction bs arbitrary: m rule: sextets.induct)
  case (1 a b c r)
  from 1(2) obtain k where "length r = 3 * k" by (cases m) auto
  then show ?case by (simp add: 1(1) bits_msb_8)
next
  case (3 v)
  with not_triple(1) [of v m] show ?case by blast
next
  case (4 v w)
  with not_triple(2) [of v w m] show ?case by blast
qed simp

lemma b64_group_sextets:
  "b64_group a b c = map (\<lambda>vs. b64_char (sextet vs))
     [[bit a 7, bit a 6, bit a 5, bit a 4, bit a 3, bit a 2],
      [bit a 1, bit a 0, bit b 7, bit b 6, bit b 5, bit b 4],
      [bit b 3, bit b 2, bit b 1, bit b 0, bit c 7, bit c 6],
      [bit c 5, bit c 4, bit c 3, bit c 2, bit c 1, bit c 0]]"
  by (simp only: b64_group_def list.map group_sextets)

lemma groups_sextets: "map (\<lambda>vs. b64_char (sextet vs)) (sextets bs) = b64_groups bs"
  by (induction bs rule: sextets.induct)
     (simp_all only: sextets.simps b64_groups.simps map_append b64_group_sextets list.map)

lemma foldR_put_concat: "foldR encode_byte bs s = foldR put (concat (map (bits_msb 8) bs)) s"
proof (induction bs arbitrary: s)
  case (Cons b bs)
  then have "foldR encode_byte bs = foldR put (concat (map (bits_msb 8) bs))" by (rule ext)
  then have "foldR encode_byte (b # bs) s =
      bindR (foldR put (bits_msb 8 b) s) (foldR put (concat (map (bits_msb 8) bs)))"
    by (simp only: foldR.simps encode_byte_put [of b s])
  then show ?case by (simp add: foldR_append)
qed simp

lemma encode_groups:
  assumes "length bs = 3 * m" and "4 * m \<le> 2 ^ 32"
  shows "foldR encode_byte bs (ready t 0) =
    bindR (write_bytes t 0 (b64_groups bs)) (\<lambda>t'. Inr (ready t' (4 * m)))"
  using put_sextets [of "sextets bs" 0 t] assms
  by (simp add: foldR_put_concat concat_sextets sextets_6 length_sextets groups_sextets)


section \<open>The whole routine\<close>

lemma foldR_pad:
  "i \<le> j \<Longrightarrow> i \<le> length t \<Longrightarrow> foldR pad_at [i..<j] t = write_bytes t i (replicate (j - i) 61)"
proof (induction "j - i" arbitrary: i t)
  case 0
  then show ?case by (simp add: write_bytes_Nil)
next
  case (Suc n)
  then have "i < j" by simp
  show ?case
  proof (cases "i < length t")
    case True
    with Suc \<open>i < j\<close> have "foldR pad_at [Suc i..<j] (t[i := 61]) =
        write_bytes (t[i := 61]) (Suc i) (replicate (j - Suc i) 61)"
      by (intro Suc.hyps(1)) auto
    moreover have "j - i = Suc (j - Suc i)" using \<open>i < j\<close> by simp
    ultimately show ?thesis
      using True \<open>i < j\<close> by (simp add: upt_conv_Cons pad_at_def wr_in write_bytes_Cons)
  next
    case False
    have "j - i = Suc (j - Suc i)" using \<open>i < j\<close> by simp
    with False \<open>i < j\<close> show ?thesis
      by (simp add: upt_conv_Cons pad_at_def wr_def write_bytes_Cons)
  qed
qed

lemma b64_size_3: "b64_size (Suc (Suc (Suc n))) = 4 + b64_size n"
proof -
  have "Suc (Suc (Suc n)) + 2 = (n + 2) + 3" by simp
  then have "(Suc (Suc (Suc n)) + 2) div 3 = (n + 2) div 3 + 1" by (simp only: div_add_self2)
  then show ?thesis by (simp only: b64_size_def) simp
qed

lemma length_b64_text: "length (b64_text bs) = b64_size (length bs)"
  by (induction bs rule: b64_text.induct) (auto simp: b64_size_3, auto simp: b64_size_def b64_group_def)

definition b64_pad :: "nat \<Rightarrow> nat" where
  "b64_pad n = (if n mod 3 \<noteq> 0 then 3 - n mod 3 else 0)"

lemma unat_longer:
  assumes "n < 2 ^ 32"
  shows "unat (longer_of (of_nat n)) = b64_pad n"
proof -
  have m: "unat (of_nat n mod 3 :: u32) = n mod 3"
    using assms by (simp add: unat_mod unat_of_nat_u32)
  have l: "n mod 3 < 3" by simp
  then have le: "(of_nat n mod 3 :: u32) \<le> 3" using m by (simp add: word_le_nat_alt)
  have z: "of_nat n mod 3 = (0 :: u32) \<longleftrightarrow> n mod 3 = 0"
    using m by (metis unat_0 unat_eq_zero)
  show ?thesis
    using m z by (simp add: longer_of_def b64_pad_def unat_sub [OF le])
qed

lemma pad_size: "4 * (n + b64_pad n) div 3 = b64_size n" "3 * ((n + 2) div 3) = n + b64_pad n"
  "b64_pad n \<le> 2" "b64_pad n \<le> b64_size n"
proof -
  have "n = 3 * (n div 3) + n mod 3" by simp
  moreover have "n mod 3 = 0 \<or> n mod 3 = 1 \<or> n mod 3 = 2" by linarith
  ultimately have "n = 3 * (n div 3) \<or> n = 3 * (n div 3) + 1 \<or> n = 3 * (n div 3) + 2"
    by linarith
  then obtain q where q: "n = 3 * q \<or> n = 3 * q + 1 \<or> n = 3 * q + 2" by iprover
  have d: "Suc (3 * q) div 3 = q" "Suc (Suc (3 * q)) div 3 = q" "Suc (3 * q) mod 3 = 1"
    "Suc (Suc (3 * q)) mod 3 = 2" by presburger+
  show "4 * (n + b64_pad n) div 3 = b64_size n" "3 * ((n + 2) div 3) = n + b64_pad n"
    "b64_pad n \<le> 2" "b64_pad n \<le> b64_size n"
    using q by (auto simp: b64_pad_def b64_size_def d)
qed

lemma b64_text_pad:
  "b64_text bs = take (b64_size (length bs) - b64_pad (length bs))
       (b64_groups (bs @ replicate (b64_pad (length bs)) 0)) @ replicate (b64_pad (length bs)) 61"
proof (induction bs rule: b64_text.induct)
  case (4 a b c r)
  have "b64_pad (length (a # b # c # r)) = b64_pad (length r)"
    by (simp add: b64_pad_def mod_Suc)
  moreover have "b64_size (length (a # b # c # r)) = 4 + b64_size (length r)"
    by (simp add: b64_size_3)
  moreover have "b64_pad (length r) \<le> b64_size (length r)"
    by (rule pad_size)
  ultimately show ?case using 4 by simp
next
  case (2 a)
  have "b64_pad (length [a]) = 2" "b64_size (length [a]) = 4" "replicate 2 x = [x, x]" for x :: u8
    by (simp_all add: b64_pad_def b64_size_def numeral_2_eq_2)
  then show ?case by simp
next
  case (3 a b)
  have "b64_pad (length [a, b]) = 1" "b64_size (length [a, b]) = 4"
    by (simp_all add: b64_pad_def b64_size_def)
  then show ?case by simp
qed (simp add: b64_pad_def b64_size_def)

lemma encode_at_all:
  assumes "n \<le> length src" and "n < 2 ^ 32"
  shows "foldR (encode_at src (of_nat n)) [0..<n + p] s = foldR encode_byte (take n src @ replicate p 0) s"
proof -
  let ?h = "\<lambda>i. if i < n then src ! i else 0"
  have "foldR (encode_at src (of_nat n)) [0..<n + p] s = foldR encode_byte (map ?h [0..<n + p]) s"
    using assms by (intro foldR_cong) (auto simp: encode_at_def rd_in unat_of_nat_u32)
  moreover have "map ?h [0..<n + p] = take n src @ replicate p 0"
    using assms(1) by (intro nth_equalityI) (auto simp: nth_append)
  ultimately show ?thesis by simp
qed

lemma encode_lengths:
  assumes "n + 2 < 2 ^ 30"
  shows "unat (of_nat n + longer_of (of_nat n)) = n + b64_pad n"
    and "(of_nat n + longer_of (of_nat n)) * 4 div 3 = (of_nat (b64_size n) :: u32)"
    and "unat (of_nat (b64_size n) - longer_of (of_nat n) :: u32) = b64_size n - b64_pad n"
    and "unat (of_nat (b64_size n) :: u32) = b64_size n"
proof -
  have n: "n < 2 ^ 32" using assms by simp
  have bound: "4 * (n + b64_pad n) < 2 ^ 32" using assms pad_size(3) [of n] by simp
  have lo: "longer_of (of_nat n) = of_nat (b64_pad n)"
    using pad_size(3) [of n]
    by (simp add: word_unat_eq_iff unat_longer [OF n] unat_of_nat_u32)
  have sum: "(of_nat n + longer_of (of_nat n) :: u32) = of_nat (n + b64_pad n)" by (simp add: lo)
  show "unat (of_nat n + longer_of (of_nat n)) = n + b64_pad n"
    unfolding sum using bound by (intro unat_of_nat_u32) simp
  have "(of_nat (n + b64_pad n) * 4 :: u32) = of_nat (4 * (n + b64_pad n))" by simp
  then have "unat (of_nat (n + b64_pad n) * 4 :: u32) = 4 * (n + b64_pad n)"
    using bound by (simp only: unat_of_nat_u32)
  then have dv: "unat (of_nat (n + b64_pad n) * 4 div 3 :: u32) = b64_size n"
    by (simp only: unat_div_distrib pad_size(1) [symmetric]) simp
  have "b64_size n \<le> 4 * (n + b64_pad n)" unfolding pad_size(1) [of n, symmetric] by simp
  then show sz: "unat (of_nat (b64_size n) :: u32) = b64_size n"
    using bound by (intro unat_of_nat_u32) linarith
  show "(of_nat n + longer_of (of_nat n)) * 4 div 3 = (of_nat (b64_size n) :: u32)"
    by (simp only: word_unat_eq_iff sum dv sz)
  have "(of_nat (b64_size n) - longer_of (of_nat n) :: u32) = of_nat (b64_size n - b64_pad n)"
    using pad_size(4) [of n] by (simp add: lo of_nat_diff)
  then show "unat (of_nat (b64_size n) - longer_of (of_nat n) :: u32) = b64_size n - b64_pad n"
    using \<open>b64_size n \<le> _\<close> bound by (simp only: unat_of_nat_u32)
qed

lemma length_b64_groups: "length bs = 3 * m \<Longrightarrow> length (b64_groups bs) = 4 * m"
  by (metis groups_sextets length_map length_sextets)

lemma write_padded:
  assumes "length g = l" and "p \<le> l"
  shows "bindR (write_bytes t 0 g) (\<lambda>t'. write_bytes t' (l - p) (replicate p x)) =
    write_bytes t 0 (take (l - p) g @ replicate p x)"
  using assms by (cases "l \<le> length t") (simp_all add: write_bytes_def)

lemma encode_base64_eq:
  assumes "n + 2 < 2 ^ 30" and "n \<le> length source"
  shows "encode_base64 target target_len source (of_nat n) =
    bindR (write_bytes target 0 (b64_text (take n source))) (\<lambda>t. Inr (t, of_nat (b64_size n)))"
proof -
  let ?p = "b64_pad n" and ?l = "b64_size n"
  let ?g = "b64_groups (take n source @ replicate ?p 0)"
  have len3: "length (take n source @ replicate ?p 0) = 3 * ((n + 2) div 3)"
    using assms(2) pad_size(2) [of n] by simp
  have l: "4 * ((n + 2) div 3) = ?l" by (simp add: b64_size_def)
  have "n + 2 < 1073741824" using assms(1) by simp
  then have "?l \<le> 4294967296" using pad_size(3) [of n] pad_size(2) [of n] l by linarith
  then have "?l \<le> 2 ^ 32" by simp
  then have loop: "foldR (encode_at source (of_nat n)) [0..<n + ?p] (ready target 0) =
      bindR (write_bytes target 0 ?g) (\<lambda>t'. Inr (ready t' ?l))"
    using encode_groups [OF len3, unfolded l] assms by (simp add: encode_at_all)
  have glen: "length ?g = ?l" using length_b64_groups [OF len3] l by simp
  have start: "\<lparr>b64_target = target, b64_target_idx = 0, b64_x = 5, b64_current = 0\<rparr> =
      ready target 0" by (simp add: ready_def)
  have pads: "foldR pad_at [?l - ?p..<?l] t' = write_bytes t' (?l - ?p) (replicate ?p 61)"
    if "write_bytes target 0 ?g = Inr t'" for t'
    using write_bytes_nth(1) [OF that] that glen pad_size(4) [of n]
    by (subst foldR_pad) (auto simp: write_bytes_def split: if_splits)
  have "encode_base64 target target_len source (of_nat n) =
      bindR (write_bytes target 0 ?g) (\<lambda>t'. bindR (foldR pad_at [?l - ?p..<?l] t')
        (\<lambda>t. Inr (t, of_nat ?l)))"
    unfolding encode_base64_def Let_def encode_lengths [OF assms(1)] start loop
    by (simp add: bindR_assoc ready_def)
  also have "\<dots> = bindR (bindR (write_bytes target 0 ?g)
      (\<lambda>t'. write_bytes t' (?l - ?p) (replicate ?p 61))) (\<lambda>t. Inr (t, of_nat ?l))"
    by (cases "write_bytes target 0 ?g") (simp_all add: pads)
  also have "\<dots> = bindR (write_bytes target 0 (b64_text (take n source))) (\<lambda>t. Inr (t, of_nat ?l))"
    using b64_text_pad [of "take n source"] assms(2) pad_size(4) [of n]
    by (simp add: write_padded [OF glen] min_def)
  finally show ?thesis .
qed

lemma char_values:
  "b64_value (b64_char (drop_bit 2 a)) = drop_bit 2 a"
  "b64_value (b64_char (push_bit 4 (a AND 3) OR drop_bit 4 b)) = push_bit 4 (a AND 3) OR drop_bit 4 b"
  "b64_value (b64_char (push_bit 2 (b AND 15) OR drop_bit 6 c)) = push_bit 2 (b AND 15) OR drop_bit 6 c"
  "b64_value (b64_char (c AND 63)) = c AND 63"
  "b64_char (push_bit 2 (b AND 15) OR drop_bit 6 c) \<noteq> 61"
  "b64_char (c AND 63) \<noteq> 61"
  unfolding group_sextets by (rule b64_value_char b64_char_not_pad, rule sextet_less, simp)+

lemma group_read:
  "b64_read (b64_group a b c @ r) = [a, b, c] @ b64_read r"
  "b64_read (take 2 (b64_group a 0 0) @ [61, 61]) = [a]"
  "b64_read (take 3 (b64_group a b 0) @ [61]) = [a, b]"
proof -
  have one: "push_bit 2 (drop_bit 2 a) OR drop_bit 4 (push_bit 4 (a AND 3) OR drop_bit 4 b) = a" for b
    by (rule u8_eqI; simp add: bit_simps bit_numeral_rec bit_u8_high)
  have two: "push_bit 4 (push_bit 4 (a AND 3) OR drop_bit 4 b) OR
      drop_bit 2 (push_bit 2 (b AND 15) OR drop_bit 6 c) = b" for c
    by (rule u8_eqI; simp add: bit_simps bit_numeral_rec bit_u8_high)
  have three: "push_bit 6 (push_bit 2 (b AND 15) OR drop_bit 6 c) OR (c AND 63) = c"
    by (rule u8_eqI; simp add: bit_simps bit_numeral_rec bit_u8_high)
  note parts = b64_group_def b64_first_def b64_second_def b64_third_def
  show "b64_read (b64_group a b c @ r) = [a, b, c] @ b64_read r"
    unfolding parts by (simp only: list.map append.simps b64_read.simps char_values one two three
      if_False parts)
  show "b64_read (take 2 (b64_group a 0 0) @ [61, 61]) = [a]"
    using one [of 0] char_values(1) [of a] char_values(2) [of a 0] by (simp add: parts numeral_2_eq_2)
  show "b64_read (take 3 (b64_group a b 0) @ [61]) = [a, b]"
    using one [of b] two [of 0] char_values(1) [of a] char_values(2) [of a b]
      char_values(3) [of b 0] char_values(5) [of b 0]
    by (simp add: parts numeral_3_eq_3)
qed

lemma b64_read_text: "b64_read (b64_text bs) = bs"
  by (induction bs rule: b64_text.induct) (simp_all add: group_read)

section \<open>Properties\<close>

text \<open>C10: As long as the length of the input does not come near the range of \<^verbatim>\<open>size_t\<close>,
  the encoder writes the RFC 4648 encoding of the first \<open>n\<close> bytes of its input to the head of
  the target, leaves the rest of the target as it was and returns the number of characters,
  \<open>4 * \<lceil>n / 3\<rceil>\<close>; when the target has fewer places than that, it writes past its end,
  whatever length it has been given for it.\<close>

theorem encode_base64_rfc:
  assumes "n + 2 < 2 ^ 30" and "n \<le> length source"
  shows "encode_base64 target target_len source (of_nat n) =
    (if b64_size n \<le> length target
     then Inr (b64_text (take n source) @ drop (b64_size n) target, of_nat (b64_size n))
     else Inl Out_Of_Bounds)"
  using assms(2)
  by (simp add: encode_base64_eq [OF assms] write_bytes_def length_b64_text min_def)

lemma replicate_2: "replicate 2 v = [v, v]"
  by (simp add: numeral_2_eq_2)

lemma b64_Many: "b64_text (bytes_of ''Many'') = bytes_of ''TWFueQ==''" "b64_size 4 = 8"
  by (simp_all add: b64_size_def b64_group_def b64_char_def table_base64_def bytes_of_def)

lemma encode_base64_Many:
  "encode_base64 (replicate 10 0) 4 (bytes_of ''Many'') 4 = Inr (bytes_of ''TWFueQ=='' @ [0, 0], 8)"
  using encode_base64_eq [of 4 "bytes_of ''Many''" "replicate 10 0" 4]
  by (simp add: b64_Many replicate_2 write_bytes_def)

lemma encode_base64_rfc_witness:
  "encode_base64 (replicate 10 0) 4 (bytes_of ''Many'') 4 = Inr (bytes_of ''TWFueQ=='' @ [0, 0], 8)"
  using encode_base64_rfc [of 4 "bytes_of ''Many''" "replicate 10 0" 4]
  by (simp add: b64_Many replicate_2)

text \<open>What the encoder leaves in the target decodes to the input: a reader of the mail gets
  back the very bytes of the compressed picture.\<close>

theorem encode_base64_round_trip:
  assumes "n + 2 < 2 ^ 30" and "n \<le> length source"
    and "encode_base64 target target_len source (of_nat n) = Inr (out, chars)"
  shows "b64_read (take (unat chars) out) = take n source"
proof -
  have "out = b64_text (take n source) @ drop (b64_size n) target" "chars = of_nat (b64_size n)"
    using assms(3) length_b64_text [of "take n source"] assms(2)
    by (auto simp: encode_base64_eq [OF assms(1,2)] write_bytes_def min_def split: if_splits)
  then show ?thesis
    using length_b64_text [of "take n source"] assms(2)
    by (simp add: encode_lengths(4) [OF assms(1)] b64_read_text min_def)
qed

lemma encode_base64_round_trip_witness:
  "b64_read (take 8 (bytes_of ''TWFueQ=='' @ [0, 0])) = bytes_of ''Many''"
  using encode_base64_round_trip [of 4 "bytes_of ''Many''" "replicate 10 0" 4
      "bytes_of ''TWFueQ=='' @ [0, 0]" 8]
  encode_base64_Many by (simp add: b64_Many)

text \<open>The picture is encoded into the 320 by 240 bitmap it was compressed from: the call of
  \<^verbatim>\<open>compress_and_send_photo\<close> stays inside the bitmap exactly when the compressed picture
  has at most 57600 bytes. A longer one is written past the end of the bitmap although the call
  passes its size.\<close>

theorem encode_into_bitmap:
  assumes "length bitmap = 320 * 240" and "n + 2 < 2 ^ 30" and "n \<le> length jpeg"
  shows "(\<exists>r. encode_base64 bitmap (320 * 240) jpeg (of_nat n) = Inr r) \<longleftrightarrow> n \<le> 57600"
proof -
  have "b64_size n \<le> 76800 \<longleftrightarrow> (n + 2) div 3 \<le> 19200"
    unfolding b64_size_def by linarith
  also have "\<dots> \<longleftrightarrow> n \<le> 57600" by linarith
  finally have "b64_size n \<le> length bitmap \<longleftrightarrow> n \<le> 57600" using assms(1) by simp
  then show ?thesis
    using length_b64_text [of "take n jpeg"] assms(3)
    unfolding encode_base64_eq [OF assms(2,3)] write_bytes_def by simp
qed

lemma encode_into_bitmap_witness:
  "\<exists>r. encode_base64 (replicate (320 * 240) 0) (320 * 240) [1, 2, 3] (of_nat 3) = Inr r"
  using encode_into_bitmap [of "replicate (320 * 240) 0" 3 "[1, 2, 3]"] by simp

end
