(* ===== verification/Magnetic.thy ===== *)
theory Magnetic
  imports C_Prelude
begin

unbundle bit_operations_syntax

text \<open>
  The magnetic card reader driver, \<^verbatim>\<open>source/magnetic.c\<close>: the transition tables of the
  reader's state machine, its actions, the two interrupt handlers and the driver's services.
  The tables are lists indexed by the event's number, exactly as the C arrays are, so an event
  a table has no row for is an access outside the array.
\<close>

section \<open>Data\<close>

datatype reading_state_t =
    UNINITIALIZED_M | DISABLED_M | WAITING_M | READING_M | INVALID_DATA_M | NEW_VALID_DATA_M

datatype error_type =
    NO_ERROR | UNFINISHED_MESSAGE | DATA_AFTER_FINISH_CHARACTER | NOT_VALID_EVENT
  | SS_EXPECTED | LRC_EXPECTED | PARITY_ERROR | BAD_LRC

datatype event =
    NONE | ENABLE | DISABLE | LOGIC0 | LOGIC1 | ERROR_EVENT | NUMBER | SS | FS | ES | OTHER

datatype action =
    Do_nothing | Clean_message | Add_0 | Add_1 | Begin_SS | Add_character_to_content
  | Validate_LRC | Finished_early | Data_after_LRC | Event_not_valid | SS_expected_act
  | Finish_reading

datatype fsm_state =
    Initial_state | Enabled_state | Expecting_SS_state | Pan_state | Additional_data_state
  | Expecting_LRC_state | Expecting_disable_state | Error_state

text \<open>The number C gives each enumerator of \<^verbatim>\<open>EVENT\<close>, used as the index into a table.\<close>

primrec event_index :: "event \<Rightarrow> nat" where
  "event_index NONE = 0"
| "event_index ENABLE = 1"
| "event_index DISABLE = 2"
| "event_index LOGIC0 = 3"
| "event_index LOGIC1 = 4"
| "event_index ERROR_EVENT = 5"
| "event_index NUMBER = 6"
| "event_index SS = 7"
| "event_index FS = 8"
| "event_index ES = 9"
| "event_index OTHER = 10"

type_synonym edge = "event \<times> fsm_state \<times> action"

definition initial_state_edges :: "edge list" where
  "initial_state_edges =
    [(NONE, Initial_state, Do_nothing),
     (ENABLE, Enabled_state, Clean_message),
     (DISABLE, Initial_state, Do_nothing),
     (LOGIC0, Initial_state, Do_nothing),
     (LOGIC1, Initial_state, Do_nothing),
     (ERROR_EVENT, Error_state, Event_not_valid)]"

definition enabled_state_edges :: "edge list" where
  "enabled_state_edges =
    [(NONE, Enabled_state, Do_nothing),
     (ENABLE, Enabled_state, Do_nothing),
     (DISABLE, Initial_state, Finished_early),
     (LOGIC0, Enabled_state, Do_nothing),
     (LOGIC1, Expecting_SS_state, Begin_SS),
     (ERROR_EVENT, Error_state, Event_not_valid)]"

definition expecting_SS_state_edges :: "edge list" where
  "expecting_SS_state_edges =
    [(NONE, Expecting_SS_state, Do_nothing),
     (ENABLE, Expecting_SS_state, Do_nothing),
     (DISABLE, Initial_state, Finished_early),
     (LOGIC0, Expecting_SS_state, Add_0),
     (LOGIC1, Expecting_SS_state, Add_1),
     (ERROR_EVENT, Error_state, Event_not_valid),
     (NUMBER, Error_state, SS_expected_act),
     (SS, Pan_state, Add_character_to_content),
     (FS, Error_state, SS_expected_act),
     (ES, Error_state, SS_expected_act),
     (OTHER, Error_state, SS_expected_act)]"

definition pan_state_edges :: "edge list" where
  "pan_state_edges =
    [(NONE, Pan_state, Do_nothing),
     (ENABLE, Pan_state, Do_nothing),
     (DISABLE, Initial_state, Finished_early),
     (LOGIC0, Pan_state, Add_0),
     (LOGIC1, Pan_state, Add_1),
     (ERROR_EVENT, Error_state, Event_not_valid),
     (NUMBER, Pan_state, Add_character_to_content),
     (SS, Pan_state, Add_character_to_content),
     (FS, Additional_data_state, Add_character_to_content),
     (ES, Pan_state, Add_character_to_content),
     (OTHER, Pan_state, Add_character_to_content)]"

definition additional_data_state_edges :: "edge list" where
  "additional_data_state_edges =
    [(NONE, Additional_data_state, Do_nothing),
     (ENABLE, Additional_data_state, Do_nothing),
     (DISABLE, Initial_state, Finished_early),
     (LOGIC0, Additional_data_state, Add_0),
     (LOGIC1, Additional_data_state, Add_1),
     (ERROR_EVENT, Error_state, Event_not_valid),
     (NUMBER, Additional_data_state, Add_character_to_content),
     (SS, Additional_data_state, Add_character_to_content),
     (FS, Additional_data_state, Add_character_to_content),
     (ES, Expecting_LRC_state, Add_character_to_content),
     (OTHER, Additional_data_state, Add_character_to_content)]"

definition expecting_LRC_state_edges :: "edge list" where
  "expecting_LRC_state_edges =
    [(NONE, Expecting_LRC_state, Do_nothing),
     (ENABLE, Expecting_LRC_state, Do_nothing),
     (DISABLE, Initial_state, Finished_early),
     (LOGIC0, Expecting_LRC_state, Add_0),
     (LOGIC1, Expecting_LRC_state, Add_1),
     (ERROR_EVENT, Error_state, Event_not_valid),
     (NUMBER, Expecting_disable_state, Validate_LRC),
     (SS, Expecting_disable_state, Validate_LRC),
     (FS, Expecting_disable_state, Validate_LRC),
     (ES, Expecting_disable_state, Validate_LRC),
     (OTHER, Expecting_disable_state, Validate_LRC)]"

definition expecting_disable_state_edges :: "edge list" where
  "expecting_disable_state_edges =
    [(NONE, Expecting_disable_state, Do_nothing),
     (ENABLE, Expecting_disable_state, Do_nothing),
     (DISABLE, Initial_state, Finish_reading),
     (LOGIC0, Expecting_disable_state, Do_nothing),
     (LOGIC1, Error_state, Data_after_LRC),
     (ERROR_EVENT, Error_state, Event_not_valid)]"

definition error_state_edges :: "edge list" where
  "error_state_edges =
    [(NONE, Error_state, Do_nothing),
     (ENABLE, Error_state, Do_nothing),
     (DISABLE, Initial_state, Do_nothing),
     (LOGIC0, Error_state, Do_nothing),
     (LOGIC1, Error_state, Do_nothing),
     (ERROR_EVENT, Error_state, Event_not_valid)]"

primrec edges :: "fsm_state \<Rightarrow> edge list" where
  "edges Initial_state = initial_state_edges"
| "edges Enabled_state = enabled_state_edges"
| "edges Expecting_SS_state = expecting_SS_state_edges"
| "edges Pan_state = pan_state_edges"
| "edges Additional_data_state = additional_data_state_edges"
| "edges Expecting_LRC_state = expecting_LRC_state_edges"
| "edges Expecting_disable_state = expecting_disable_state_edges"
| "edges Error_state = error_state_edges"

lemmas edges_defs = initial_state_edges_def enabled_state_edges_def expecting_SS_state_edges_def
  pan_state_edges_def additional_data_state_edges_def expecting_LRC_state_edges_def
  expecting_disable_state_edges_def error_state_edges_def

text \<open>
  The file's static variables. \<open>content\<close> is the array of \<open>CONTENT_MAX_SIZE + 1 = 101\<close>
  characters; \<open>cc_data\<close> and \<open>cc_loaded_bits\<close> are the 5-bit and 3-bit fields of
  \<^verbatim>\<open>current_character\<close>; \<open>updated_posts\<close> counts the posts of
  \<^verbatim>\<open>magnetic_updated_sem\<close>, the only way the driver wakes the reader task.
\<close>

record magnetic =
  reading_state :: reading_state_t
  reading :: bool
  content :: "u8 list"
  content_index :: nat
  error :: error_type
  initialized :: bool
  data_valid :: bool
  cc_data :: "5 word"
  cc_loaded_bits :: "3 word"
  current_state :: fsm_state
  updated_posts :: nat

definition CONTENT_MAX_SIZE :: nat where
  "CONTENT_MAX_SIZE = 100"

definition magnetic_power_on :: magnetic where
  "magnetic_power_on =
    \<lparr>reading_state = UNINITIALIZED_M, reading = False,
     content = replicate (CONTENT_MAX_SIZE + 1) 0, content_index = 0, error = NO_ERROR,
     initialized = False, data_valid = False, cc_data = 0, cc_loaded_bits = 0,
     current_state = Initial_state, updated_posts = 0\<rparr>"

section \<open>Actions\<close>

definition post_updated :: "magnetic \<Rightarrow> magnetic" where
  "post_updated s = s\<lparr>updated_posts := Suc (updated_posts s)\<rparr>"

definition clean_message :: "magnetic \<Rightarrow> magnetic" where
  "clean_message s = post_updated
     (s\<lparr>content := replicate (CONTENT_MAX_SIZE + 1) 0, data_valid := False,
        error := NO_ERROR, content_index := 0, reading_state := READING_M\<rparr>)"

definition clean_current_character :: "magnetic \<Rightarrow> magnetic" where
  "clean_current_character s = s\<lparr>cc_data := 0, cc_loaded_bits := 0\<rparr>"

definition reset_FSM :: "magnetic \<Rightarrow> magnetic" where
  "reset_FSM s = (clean_current_character (clean_message s))
     \<lparr>current_state := Initial_state, data_valid := False, content_index := 0\<rparr>"

definition finish_reading :: "magnetic \<Rightarrow> magnetic" where
  "finish_reading s = post_updated (s\<lparr>data_valid := True, reading_state := NEW_VALID_DATA_M\<rparr>)"

definition finished_early :: "magnetic \<Rightarrow> magnetic" where
  "finished_early s =
     post_updated (s\<lparr>error := UNFINISHED_MESSAGE, reading_state := INVALID_DATA_M\<rparr>)"

definition data_after_LRC :: "magnetic \<Rightarrow> magnetic" where
  "data_after_LRC s =
     post_updated (s\<lparr>error := DATA_AFTER_FINISH_CHARACTER, reading_state := INVALID_DATA_M\<rparr>)"

definition event_not_valid :: "magnetic \<Rightarrow> magnetic" where
  "event_not_valid s =
     post_updated (s\<lparr>error := NOT_VALID_EVENT, reading_state := INVALID_DATA_M\<rparr>)"

definition SS_expected :: "magnetic \<Rightarrow> magnetic" where
  "SS_expected s =
     post_updated (s\<lparr>error := SS_EXPECTED, reading_state := INVALID_DATA_M\<rparr>)"

definition LRC_expected :: "magnetic \<Rightarrow> magnetic" where
  "LRC_expected s =
     post_updated (s\<lparr>error := LRC_EXPECTED, reading_state := INVALID_DATA_M\<rparr>)"

definition char_of_data :: "5 word \<Rightarrow> u8" where
  "char_of_data d = (ucast d AND 0x0F) OR 0x30"

definition character2char :: "magnetic \<Rightarrow> u8" where
  "character2char s = char_of_data (cc_data s)"

definition event_of_char :: "u8 \<Rightarrow> event" where
  "event_of_char c =
     (if 0x30 \<le> c \<and> c \<le> 0x39 then NUMBER
      else if c = 0x3B then SS
      else if c = 0x3D then FS
      else if c = 0x3F then ES
      else OTHER)"

definition character2event :: "magnetic \<Rightarrow> event" where
  "character2event s = event_of_char (character2char s)"

definition valid_parity :: "5 word \<Rightarrow> bool" where
  "valid_parity d \<longleftrightarrow> ((((bit d 0 \<noteq> bit d 1) \<noteq> bit d 2) \<noteq> bit d 3) \<noteq> bit d 4)"

definition current_character_valid_parity :: "magnetic \<Rightarrow> bool" where
  "current_character_valid_parity s = valid_parity (cc_data s)"

definition add_character_to_content :: "magnetic \<Rightarrow> magnetic result" where
  "add_character_to_content s =
     bindR (wr (content s) (content_index s) (character2char s)) (\<lambda>c.
       Inr (clean_current_character
         (s\<lparr>content := c, content_index := content_index s + 1\<rparr>)))"

definition xor_chars :: "u8 list \<Rightarrow> u8" where
  "xor_chars cs = foldl (XOR) 0 cs"

definition validate_LRC :: "magnetic \<Rightarrow> magnetic result" where
  "validate_LRC s =
     (if length (content s) < content_index s then Inl Out_Of_Bounds
      else if (ucast (cc_data s) :: u8) AND 0x0F
              = xor_chars (take (content_index s) (content s)) AND 0x0F
      then add_character_to_content s
      else Inr (post_updated (s\<lparr>error := BAD_LRC, current_state := Error_state,
                                 reading_state := INVALID_DATA_M\<rparr>)))"

definition load_bit :: "bool \<Rightarrow> magnetic \<Rightarrow> magnetic" where
  "load_bit b s =
     s\<lparr>cc_data := cc_data s OR push_bit (unat (cc_loaded_bits s)) (of_bool b),
       cc_loaded_bits := cc_loaded_bits s + 1\<rparr>"

definition parity_failed :: "magnetic \<Rightarrow> magnetic" where
  "parity_failed s =
     s\<lparr>error := PARITY_ERROR, reading_state := INVALID_DATA_M, current_state := Error_state\<rparr>"

section \<open>The state machine\<close>

text \<open>
  \<^verbatim>\<open>fsm_handler\<close> reads the row of the event in the current state's table, moves to its next
  state and runs its action; the bit actions call \<^verbatim>\<open>fsm_handler\<close> again with the event of
  the character they completed. The nesting is one level deep: no row of a character event has a
  bit action, which is what the termination measure says.
\<close>

fun is_bit_action :: "action \<Rightarrow> bool" where
  "is_bit_action a \<longleftrightarrow> a \<in> {Add_0, Add_1, Begin_SS}"

definition is_char_event :: "event \<Rightarrow> bool" where
  "is_char_event e \<longleftrightarrow> 6 \<le> event_index e"

lemma char_event_of_char: "is_char_event (event_of_char c)"
  by (simp add: is_char_event_def event_of_char_def)

lemma char_event_no_bit_action:
  "is_char_event e \<Longrightarrow> rd (edges s) (event_index e) = Inr (e', t, a) \<Longrightarrow> \<not> is_bit_action a"
  by (cases e; cases s) (auto simp: is_char_event_def rd_def edges_defs split: if_splits)

function (sequential) fsm_handler :: "event \<Rightarrow> magnetic \<Rightarrow> magnetic result"
  and run_action :: "action \<Rightarrow> magnetic \<Rightarrow> magnetic result"
  and add_data_to_current_character :: "bool \<Rightarrow> magnetic \<Rightarrow> magnetic result" where
  "fsm_handler e s =
     (case rd (edges (current_state s)) (event_index e) of
        Inl f \<Rightarrow> Inl f
      | Inr (_, next_state, act) \<Rightarrow> run_action act (s\<lparr>current_state := next_state\<rparr>))"
| "run_action Do_nothing s = Inr s"
| "run_action Clean_message s = Inr (clean_message s)"
| "run_action Add_0 s = add_data_to_current_character False s"
| "run_action Add_1 s = add_data_to_current_character True s"
| "run_action Begin_SS s = add_data_to_current_character True (clean_current_character s)"
| "run_action Add_character_to_content s = add_character_to_content s"
| "run_action Validate_LRC s = validate_LRC s"
| "run_action Finished_early s = Inr (finished_early s)"
| "run_action Data_after_LRC s = Inr (data_after_LRC s)"
| "run_action Event_not_valid s = Inr (event_not_valid s)"
| "run_action SS_expected_act s = Inr (SS_expected s)"
| "run_action Finish_reading s = Inr (finish_reading s)"
| "add_data_to_current_character b s =
     (let s1 = load_bit b s in
      if 5 \<le> cc_loaded_bits s1 then
        (if current_character_valid_parity s1 then fsm_handler (character2event s1) s1
         else Inr (parity_failed s1))
      else Inr s1)"
  by pat_completeness auto
termination
proof (relation "measure (case_sum (\<lambda>(e, s). if is_char_event e then 1 else 4)
          (case_sum (\<lambda>(a, s). if is_bit_action a then 3 else 0) (\<lambda>(b, s). 2)))")
qed (auto simp: char_event_of_char character2event_def dest: char_event_no_bit_action)

declare fsm_handler.simps [simp del] add_data_to_current_character.simps [simp del]

section \<open>Interrupt handlers and services\<close>

text \<open>
  The two pins are inputs of the handlers: \<open>data_pin\<close> and \<open>enable_pin\<close> are the levels
  \<^verbatim>\<open>gpioRead\<close> returns. \<^verbatim>\<open>init_magnetic\<close> also configures the three pins, which the
  GPIO theory models.
\<close>

definition clock_falling_edge :: "bool \<Rightarrow> magnetic \<Rightarrow> magnetic result" where
  "clock_falling_edge data_pin s =
     (if reading s then fsm_handler (if \<not> data_pin then LOGIC1 else LOGIC0) s else Inr s)"

definition enable_changed_state :: "bool \<Rightarrow> magnetic \<Rightarrow> magnetic result" where
  "enable_changed_state enable_pin s =
     (if reading s then fsm_handler (if enable_pin then DISABLE else ENABLE) s else Inr s)"

definition init_magnetic :: "magnetic \<Rightarrow> magnetic" where
  "init_magnetic s =
     (if \<not> initialized s
      then (reset_FSM (s\<lparr>error := NO_ERROR\<rparr>))
             \<lparr>reading_state := DISABLED_M, reading := False, initialized := True\<rparr>
      else s)"

definition enable_reading :: "magnetic \<Rightarrow> magnetic" where
  "enable_reading s =
     (reset_FSM (s\<lparr>error := NO_ERROR\<rparr>))\<lparr>reading_state := WAITING_M, reading := True\<rparr>"

definition disable_reading :: "magnetic \<Rightarrow> magnetic" where
  "disable_reading s = s\<lparr>reading_state := DISABLED_M, reading := False\<rparr>"

definition get_state :: "magnetic \<Rightarrow> reading_state_t" where
  "get_state s = reading_state s"

text \<open>\<^verbatim>\<open>get_data\<close> returns the array \<^verbatim>\<open>content\<close> or a null pointer.\<close>

definition get_data :: "magnetic \<Rightarrow> u8 list option" where
  "get_data s = (if initialized s \<and> error s = NO_ERROR then Some (content s) else None)"

datatype mag_input =
    Clock_edge bool | Enable_edge bool | Init_call | Enable_call | Disable_call

fun mag_step :: "mag_input \<Rightarrow> magnetic \<Rightarrow> magnetic result" where
  "mag_step (Clock_edge p) s = clock_falling_edge p s"
| "mag_step (Enable_edge p) s = enable_changed_state p s"
| "mag_step Init_call s = Inr (init_magnetic s)"
| "mag_step Enable_call s = Inr (enable_reading s)"
| "mag_step Disable_call s = Inr (disable_reading s)"

text \<open>The states the driver can be in: from power-on, any sequence of inputs.\<close>

inductive mag_reachable :: "magnetic \<Rightarrow> bool" where
  power_on: "mag_reachable magnetic_power_on"
| input: "mag_reachable s \<Longrightarrow> mag_step i s = Inr t \<Longrightarrow> mag_reachable t"

interpretation mag_init: init_once init_magnetic initialized
  by unfold_locales (simp_all add: init_magnetic_def)

section \<open>What one event does\<close>

lemmas mag_updates = post_updated_def clean_message_def clean_current_character_def
  finish_reading_def finished_early_def data_after_LRC_def event_not_valid_def SS_expected_def
  parity_failed_def load_bit_def

text \<open>The rows a bit or an enable edge selects, per state.\<close>

lemma fsm_ENABLE:
  "fsm_handler ENABLE s =
     (if current_state s = Initial_state
      then Inr (clean_message (s\<lparr>current_state := Enabled_state\<rparr>)) else Inr s)"
  by (cases "current_state s") (simp_all add: fsm_handler.simps rd_def edges_defs)

lemma fsm_DISABLE:
  "fsm_handler DISABLE s = Inr
     (let s' = s\<lparr>current_state := Initial_state\<rparr> in
      if current_state s \<in> {Initial_state, Error_state} then s'
      else if current_state s = Expecting_disable_state then finish_reading s'
      else finished_early s')"
  by (cases "current_state s") (simp_all add: fsm_handler.simps rd_def edges_defs)

definition loads_bits :: "fsm_state \<Rightarrow> bool" where
  "loads_bits st \<longleftrightarrow>
     st \<in> {Expecting_SS_state, Pan_state, Additional_data_state, Expecting_LRC_state}"

lemma current_state_same: "current_state s = x \<Longrightarrow> s\<lparr>current_state := x\<rparr> = s"
  by (cases s) simp

lemma fsm_bit:
  "fsm_handler (if b then LOGIC1 else LOGIC0) s =
     (if loads_bits (current_state s) then add_data_to_current_character b s
      else if b \<and> current_state s = Enabled_state
      then add_data_to_current_character True
             (clean_current_character (s\<lparr>current_state := Expecting_SS_state\<rparr>))
      else if b \<and> current_state s = Expecting_disable_state
      then Inr (data_after_LRC (s\<lparr>current_state := Error_state\<rparr>))
      else Inr s)"
  by (cases "current_state s"; cases b)
    (simp_all add: fsm_handler.simps rd_def edges_defs loads_bits_def current_state_same)

lemma fsm_char:
  assumes "loads_bits (current_state s)"
  shows "fsm_handler (event_of_char c) s =
    (case current_state s of
       Expecting_SS_state \<Rightarrow>
         if c = 0x3B then add_character_to_content (s\<lparr>current_state := Pan_state\<rparr>)
         else Inr (SS_expected (s\<lparr>current_state := Error_state\<rparr>))
     | Pan_state \<Rightarrow>
         if c = 0x3D then add_character_to_content (s\<lparr>current_state := Additional_data_state\<rparr>)
         else add_character_to_content s
     | Additional_data_state \<Rightarrow>
         if c = 0x3F then add_character_to_content (s\<lparr>current_state := Expecting_LRC_state\<rparr>)
         else add_character_to_content s
     | _ \<Rightarrow> validate_LRC (s\<lparr>current_state := Expecting_disable_state\<rparr>))"
  using assms
  by (cases "current_state s")
    (simp_all add: fsm_handler.simps rd_def edges_defs loads_bits_def event_of_char_def
      current_state_same)

section \<open>Recorded characters\<close>

text \<open>The characters stored so far, and the effect of storing one more.\<close>

definition recorded :: "magnetic \<Rightarrow> u8 list" where
  "recorded s = take (content_index s) (content s)"

definition push_char :: "magnetic \<Rightarrow> magnetic" where
  "push_char s = s\<lparr>content := (content s)[content_index s := character2char s],
     content_index := Suc (content_index s), cc_data := 0, cc_loaded_bits := 0\<rparr>"

lemma add_character_push:
  "add_character_to_content s =
     (if content_index s < length (content s) then Inr (push_char s) else Inl Out_Of_Bounds)"
  by (simp add: add_character_to_content_def wr_def push_char_def clean_current_character_def)

lemma recorded_push:
  "content_index s < length (content s) \<Longrightarrow>
     recorded (push_char s) = recorded s @ [character2char s]"
  by (simp add: recorded_def push_char_def take_Suc_conv_app_nth)

lemma push_char_simps [simp]:
  "length (content (push_char s)) = length (content s)"
  "content_index (push_char s) = Suc (content_index s)"
  "cc_data (push_char s) = 0" "cc_loaded_bits (push_char s) = 0"
  "current_state (push_char s) = current_state s" "reading (push_char s) = reading s"
  "error (push_char s) = error s" "reading_state (push_char s) = reading_state s"
  "initialized (push_char s) = initialized s" "data_valid (push_char s) = data_valid s"
  "updated_posts (push_char s) = updated_posts s"
  by (simp_all add: push_char_def)

lemma recorded_upd [simp]:
  "recorded (s\<lparr>current_state := x\<rparr>) = recorded s" "recorded (s\<lparr>error := e\<rparr>) = recorded s"
  "recorded (s\<lparr>reading_state := r\<rparr>) = recorded s" "recorded (s\<lparr>cc_data := d\<rparr>) = recorded s"
  "recorded (s\<lparr>cc_loaded_bits := l\<rparr>) = recorded s" "recorded (s\<lparr>data_valid := v\<rparr>) = recorded s"
  "recorded (s\<lparr>updated_posts := u\<rparr>) = recorded s" "recorded (s\<lparr>reading := b\<rparr>) = recorded s"
  "recorded (s\<lparr>initialized := b\<rparr>) = recorded s" "recorded (s\<lparr>content_index := 0\<rparr>) = []"
  by (simp_all add: recorded_def)

lemma character2char_upd [simp]:
  "character2char (s\<lparr>current_state := x\<rparr>) = character2char s"
  by (simp add: character2char_def)

lemma xor_chars_snoc: "xor_chars (cs @ [c]) = xor_chars cs XOR c"
  by (simp add: xor_chars_def)

text \<open>The low nibble of a stored character is the four data bits that were read.\<close>

lemma char_of_data_nibble: "char_of_data d AND 0x0F = (ucast d :: u8) AND 0x0F"
  by (rule bit_word_eqI)
    (auto simp: char_of_data_def bit_simps bit_numeral_rec less_Suc_eq numeral_eq_Suc)

lemma validate_LRC_push:
  assumes "content_index s \<le> length (content s)"
  shows "validate_LRC s =
    (if (xor_chars (recorded s @ [character2char s])) AND 0x0F = 0
     then add_character_to_content s
     else Inr (post_updated (s\<lparr>error := BAD_LRC, current_state := Error_state,
                                reading_state := INVALID_DATA_M\<rparr>)))"
proof -
  have "xor_chars (recorded s @ [character2char s]) AND 0x0F
      = (xor_chars (recorded s) AND 0x0F) XOR ((ucast (cc_data s) :: u8) AND 0x0F)"
    by (simp add: xor_chars_snoc character2char_def char_of_data_nibble bit.conj_xor_distrib2)
  then have "xor_chars (recorded s @ [character2char s]) AND 0x0F = 0 \<longleftrightarrow>
      (ucast (cc_data s) :: u8) AND 0x0F = xor_chars (recorded s) AND 0x0F"
    by (metis bit.xor_left_self bit.xor_self xor.right_neutral)
  then show ?thesis
    using assms by (simp add: validate_LRC_def recorded_def)
qed

section \<open>The invariant of the driver\<close>

text \<open>
  A track: start sentinel \<open>;\<close>, account number, field separator \<open>=\<close>, additional data, end
  sentinel \<open>?\<close> and a check character that makes the exclusive or of all low nibbles zero.
\<close>

definition track :: "u8 list \<Rightarrow> u8 list \<Rightarrow> u8 list" where
  "track pan extra = 0x3B # pan @ 0x3D # extra @ [0x3F]"

definition lrc_ok :: "u8 list \<Rightarrow> bool" where
  "lrc_ok cs \<longleftrightarrow> xor_chars cs AND 0x0F = 0"

definition track_ok :: "u8 list \<Rightarrow> bool" where
  "track_ok cs \<longleftrightarrow>
     (\<exists>pan extra lrc. cs = track pan extra @ [lrc] \<and> 0x3D \<notin> set pan \<and> 0x3F \<notin> set extra
        \<and> lrc_ok cs)"

text \<open>What the stored characters look like in each state of the machine.\<close>

primrec phase_ok :: "fsm_state \<Rightarrow> u8 list \<Rightarrow> bool" where
  "phase_ok Initial_state cs = True"
| "phase_ok Enabled_state cs = (cs = [])"
| "phase_ok Expecting_SS_state cs = (cs = [])"
| "phase_ok Pan_state cs = (\<exists>pan. cs = 0x3B # pan \<and> 0x3D \<notin> set pan)"
| "phase_ok Additional_data_state cs =
     (\<exists>pan extra. cs = 0x3B # pan @ 0x3D # extra \<and> 0x3D \<notin> set pan \<and> 0x3F \<notin> set extra)"
| "phase_ok Expecting_LRC_state cs =
     (\<exists>pan extra. cs = track pan extra \<and> 0x3D \<notin> set pan \<and> 0x3F \<notin> set extra)"
| "phase_ok Expecting_disable_state cs = track_ok cs"
| "phase_ok Error_state cs = True"

definition mag_inv :: "magnetic \<Rightarrow> bool" where
  "mag_inv s \<longleftrightarrow>
     length (content s) = CONTENT_MAX_SIZE + 1 \<and> content_index s \<le> CONTENT_MAX_SIZE + 1 \<and>
     (\<not> loads_bits (current_state s) \<or> unat (cc_loaded_bits s) < 5) \<and>
     (current_state s = Initial_state \<or> current_state s = Error_state \<or>
        error s = NO_ERROR \<and> reading_state s \<noteq> NEW_VALID_DATA_M) \<and>
     phase_ok (current_state s) (recorded s) \<and>
     (reading_state s \<noteq> NEW_VALID_DATA_M \<or>
        current_state s = Initial_state \<and> error s = NO_ERROR \<and> data_valid s
        \<and> track_ok (recorded s))"

lemma mag_invI_idle:
  assumes "length (content s) = CONTENT_MAX_SIZE + 1" "content_index s \<le> CONTENT_MAX_SIZE + 1"
    "current_state s \<in> {Initial_state, Error_state}" "reading_state s \<noteq> NEW_VALID_DATA_M"
  shows "mag_inv s"
  using assms by (auto simp: mag_inv_def loads_bits_def)

lemma mag_inv_power_on: "mag_inv magnetic_power_on"
  by (rule mag_invI_idle) (simp_all add: magnetic_power_on_def CONTENT_MAX_SIZE_def)

lemma mag_inv_reset_FSM: "mag_inv (reset_FSM s)"
  by (rule mag_invI_idle)
    (simp_all add: reset_FSM_def clean_current_character_def clean_message_def post_updated_def)

text \<open>Storing a character keeps the invariant when the next state accepts the longer text.\<close>

lemma mag_inv_push:
  assumes "mag_inv s" and "loads_bits (current_state s)"
    and "add_character_to_content (s\<lparr>current_state := st\<rparr>) = Inr t"
    and "phase_ok st (recorded s @ [character2char s])" and "st \<notin> {Initial_state, Error_state}"
  shows "mag_inv t"
proof -
  let ?s = "s\<lparr>current_state := st\<rparr>"
  from assms(3) have t: "t = push_char ?s" and lt: "content_index s < length (content s)"
    by (auto simp: add_character_push split: if_splits)
  have "recorded t = recorded s @ [character2char s]"
    using lt by (simp add: t recorded_push)
  with assms(1,2,4,5) lt show ?thesis
    by (auto simp: mag_inv_def t loads_bits_def)
qed

text \<open>The step from one complete character to the next, in each state that stores.\<close>

lemma phase_step:
  assumes "phase_ok Pan_state cs"
  shows "c = 0x3D \<Longrightarrow> phase_ok Additional_data_state (cs @ [c])"
    and "c \<noteq> 0x3D \<Longrightarrow> phase_ok Pan_state (cs @ [c])"
  using assms by auto (rule_tac x = pan in exI, rule_tac x = "[]" in exI, simp)

lemma phase_step_additional:
  assumes "phase_ok Additional_data_state cs"
  shows "c = 0x3F \<Longrightarrow> phase_ok Expecting_LRC_state (cs @ [c])"
    and "c \<noteq> 0x3F \<Longrightarrow> phase_ok Additional_data_state (cs @ [c])"
proof -
  from assms obtain pan extra where cs: "cs = 0x3B # pan @ 0x3D # extra"
    and pe: "0x3D \<notin> set pan" "0x3F \<notin> set extra" by auto
  show "c = 0x3F \<Longrightarrow> phase_ok Expecting_LRC_state (cs @ [c])"
    using cs pe by (auto simp: track_def)
  show "c \<noteq> 0x3F \<Longrightarrow> phase_ok Additional_data_state (cs @ [c])"
  proof -
    assume "c \<noteq> 0x3F"
    with cs pe have "cs @ [c] = 0x3B # pan @ 0x3D # (extra @ [c]) \<and> 0x3D \<notin> set pan
        \<and> 0x3F \<notin> set (extra @ [c])"
      by simp
    then show ?thesis unfolding phase_ok.simps by blast
  qed
qed

lemma phase_step_LRC:
  "phase_ok Expecting_LRC_state cs \<Longrightarrow> lrc_ok (cs @ [c]) \<Longrightarrow>
     phase_ok Expecting_disable_state (cs @ [c])"
  by (auto simp: track_ok_def)

lemma mag_inv_busyI:
  assumes "length (content s) = CONTENT_MAX_SIZE + 1" "content_index s \<le> CONTENT_MAX_SIZE + 1"
    "unat (cc_loaded_bits s) < 5" "error s = NO_ERROR" "reading_state s \<noteq> NEW_VALID_DATA_M"
    "phase_ok (current_state s) (recorded s)"
  shows "mag_inv s"
  using assms by (simp add: mag_inv_def)

lemma mag_inv_char:
  assumes inv: "mag_inv (s\<lparr>cc_data := d, cc_loaded_bits := l\<rparr>)"
    and ld: "loads_bits (current_state s)"
    and step: "fsm_handler (character2event s) s = Inr t"
  shows "mag_inv t"
proof -
  let ?c = "character2char s"
  have st: "current_state s \<in> {Expecting_SS_state, Pan_state, Additional_data_state,
      Expecting_LRC_state}"
    using ld by (simp add: loads_bits_def)
  have inv0: "mag_inv (s\<lparr>cc_loaded_bits := 0\<rparr>)"
    using inv by (simp add: mag_inv_def)
  have push: "mag_inv t" if "add_character_to_content (s\<lparr>current_state := st'\<rparr>) = Inr t"
    "phase_ok st' (recorded s @ [?c])" "st' \<notin> {Initial_state, Error_state}" for st'
  proof -
    let ?s0 = "s\<lparr>cc_loaded_bits := 0\<rparr>"
    have a: "add_character_to_content (?s0\<lparr>current_state := st'\<rparr>) = Inr t"
      using that(1) by (auto simp: add_character_push push_char_def character2char_def
          split: if_splits)
    show ?thesis
      by (rule mag_inv_push [OF inv0 _ a]) (use that ld in \<open>auto simp: character2char_def\<close>)
  qed
  have ph: "phase_ok (current_state s) (recorded s)" and ne: "reading_state s \<noteq> NEW_VALID_DATA_M"
    and len: "length (content s) = CONTENT_MAX_SIZE + 1" "content_index s \<le> CONTENT_MAX_SIZE + 1"
    using inv st by (auto simp: mag_inv_def)
  note fc = step [unfolded character2event_def, unfolded fsm_char [OF ld]]
  consider (ss) "current_state s = Expecting_SS_state" | (pan) "current_state s = Pan_state"
    | (add) "current_state s = Additional_data_state" | (lrc) "current_state s = Expecting_LRC_state"
    using st by blast
  then show ?thesis
  proof cases
    case ss
    show ?thesis
    proof (cases "?c = 0x3B")
      case True
      with ss fc ph show ?thesis by (intro push [where st' = Pan_state]) simp_all
    next
      case False
      with ss fc len show ?thesis
        by (intro mag_invI_idle) (auto simp: SS_expected_def post_updated_def)
    qed
  next
    case pan
    show ?thesis
    proof (cases "?c = 0x3D")
      case True
      with pan fc phase_step(1) [of "recorded s" ?c] ph show ?thesis
        by (intro push [where st' = Additional_data_state]) simp_all
    next
      case False
      with pan fc phase_step(2) [of "recorded s" ?c] ph show ?thesis
        by (intro push [where st' = Pan_state]) (simp_all add: current_state_same)
    qed
  next
    case add
    show ?thesis
    proof (cases "?c = 0x3F")
      case True
      with add fc phase_step_additional(1) [of "recorded s" ?c] ph show ?thesis
        by (intro push [where st' = Expecting_LRC_state]) simp_all
    next
      case False
      with add fc phase_step_additional(2) [of "recorded s" ?c] ph show ?thesis
        by (intro push [where st' = Additional_data_state]) (simp_all add: current_state_same)
    qed
  next
    case lrc
    let ?s' = "s\<lparr>current_state := Expecting_disable_state\<rparr>"
    have v: "validate_LRC ?s' = Inr t" using lrc fc by simp
    show ?thesis
    proof (cases "lrc_ok (recorded s @ [?c])")
      case True
      then have "add_character_to_content ?s' = Inr t"
        using v len by (subst (asm) validate_LRC_push) (simp_all add: lrc_ok_def)
      then show ?thesis
        using phase_step_LRC [OF _ True] lrc ph
        by (intro push [where st' = Expecting_disable_state]) simp_all
    next
      case False
      then show ?thesis
        using v len by (subst (asm) validate_LRC_push)
          (auto simp: lrc_ok_def post_updated_def intro!: mag_invI_idle)
    qed
  qed
qed

text \<open>A loaded bit, completed or not.\<close>

lemma load_bit_simps [simp]:
  "current_state (load_bit b s) = current_state s" "reading_state (load_bit b s) = reading_state s"
  "error (load_bit b s) = error s" "content (load_bit b s) = content s"
  "content_index (load_bit b s) = content_index s" "recorded (load_bit b s) = recorded s"
  "reading (load_bit b s) = reading s" "initialized (load_bit b s) = initialized s"
  "updated_posts (load_bit b s) = updated_posts s" "data_valid (load_bit b s) = data_valid s"
  by (simp_all add: load_bit_def recorded_def)

lemma mag_inv_bit:
  assumes inv: "mag_inv s" and ld: "loads_bits (current_state s)"
    and step: "add_data_to_current_character b s = Inr t"
  shows "mag_inv t"
proof -
  let ?s = "load_bit b s"
  have st: "current_state s \<noteq> Initial_state" "current_state s \<noteq> Error_state"
    using ld by (auto simp: loads_bits_def)
  have facts: "length (content s) = CONTENT_MAX_SIZE + 1" "content_index s \<le> CONTENT_MAX_SIZE + 1"
    "error s = NO_ERROR" "reading_state s \<noteq> NEW_VALID_DATA_M"
    "phase_ok (current_state s) (recorded s)"
    using inv st by (auto simp: mag_inv_def)
  note sd = step [unfolded add_data_to_current_character.simps Let_def]
  show ?thesis
  proof (cases "5 \<le> cc_loaded_bits ?s")
    case False
    then have "unat (cc_loaded_bits ?s) < 5" by (simp add: word_le_nat_alt)
    with False sd facts show ?thesis by (auto intro: mag_inv_busyI)
  next
    case True
    show ?thesis
    proof (cases "current_character_valid_parity ?s")
      case False
      with True sd facts show ?thesis
        by (auto simp: parity_failed_def intro: mag_invI_idle)
    next
      case ok: True
      have "mag_inv (?s\<lparr>cc_data := 0, cc_loaded_bits := 0\<rparr>)"
        using facts by (intro mag_inv_busyI) (simp_all add: load_bit_def recorded_def)
      with True ok sd ld show ?thesis by (auto intro: mag_inv_char)
    qed
  qed
qed

lemma mag_inv_fsm_bit:
  assumes inv: "mag_inv s" and step: "fsm_handler (if b then LOGIC1 else LOGIC0) s = Inr t"
  shows "mag_inv t"
proof -
  have len: "length (content s) = CONTENT_MAX_SIZE + 1" "content_index s \<le> CONTENT_MAX_SIZE + 1"
    using inv by (simp_all add: mag_inv_def)
  consider (ld) "loads_bits (current_state s)"
    | (start) "\<not> loads_bits (current_state s)" "b" "current_state s = Enabled_state"
    | (late) "\<not> loads_bits (current_state s)" "b" "current_state s = Expecting_disable_state"
    | (skip) "fsm_handler (if b then LOGIC1 else LOGIC0) s = Inr s"
    using fsm_bit [of b s] by (auto split: if_splits)
  then show ?thesis
  proof cases
    case ld
    with step show ?thesis by (auto simp: fsm_bit intro: mag_inv_bit [OF inv])
  next
    case start
    let ?s = "clean_current_character (s\<lparr>current_state := Expecting_SS_state\<rparr>)"
    have "mag_inv ?s"
      using inv start
      by (intro mag_inv_busyI) (auto simp: mag_inv_def clean_current_character_def recorded_def)
    moreover have "loads_bits (current_state ?s)"
      by (simp add: clean_current_character_def loads_bits_def)
    moreover have "add_data_to_current_character True ?s = Inr t"
      using step start by (simp add: fsm_bit [of True, simplified])
    ultimately show ?thesis by (rule mag_inv_bit)
  next
    case late
    with step len show ?thesis
      by (auto simp: fsm_bit [of True, simplified] data_after_LRC_def post_updated_def
          intro!: mag_invI_idle)
  next
    case skip
    with step inv show ?thesis by simp
  qed
qed

lemma mag_inv_facts:
  assumes "mag_inv s"
  shows "length (content s) = CONTENT_MAX_SIZE + 1" and "content_index s \<le> CONTENT_MAX_SIZE + 1"
    and "current_state s \<notin> {Initial_state, Error_state} \<Longrightarrow>
      error s = NO_ERROR \<and> reading_state s \<noteq> NEW_VALID_DATA_M"
    and "phase_ok (current_state s) (recorded s)"
    and "reading_state s = NEW_VALID_DATA_M \<Longrightarrow> current_state s = Initial_state
      \<and> error s = NO_ERROR \<and> data_valid s \<and> track_ok (recorded s)"
  using assms unfolding mag_inv_def by blast+

lemma mag_invI_done:
  assumes "length (content s) = CONTENT_MAX_SIZE + 1" "content_index s \<le> CONTENT_MAX_SIZE + 1"
    "current_state s = Initial_state" "error s = NO_ERROR" "data_valid s" "track_ok (recorded s)"
  shows "mag_inv s"
  using assms by (simp add: mag_inv_def loads_bits_def)

lemma mag_invI_enabled:
  assumes "length (content s) = CONTENT_MAX_SIZE + 1" "content_index s = 0"
    "current_state s = Enabled_state" "error s = NO_ERROR" "reading_state s \<noteq> NEW_VALID_DATA_M"
  shows "mag_inv s"
  using assms by (simp add: mag_inv_def loads_bits_def recorded_def)

lemma mag_inv_ENABLE:
  assumes inv: "mag_inv s" and step: "fsm_handler ENABLE s = Inr t"
  shows "mag_inv t"
proof (cases "current_state s = Initial_state")
  case True
  with step have "t = clean_message (s\<lparr>current_state := Enabled_state\<rparr>)" by (simp add: fsm_ENABLE)
  then show ?thesis by (intro mag_invI_enabled) (simp_all add: clean_message_def post_updated_def)
next
  case False
  with inv step show ?thesis by (simp add: fsm_ENABLE)
qed

lemma mag_inv_DISABLE:
  assumes inv: "mag_inv s" and step: "fsm_handler DISABLE s = Inr t"
  shows "mag_inv t"
proof -
  note f = mag_inv_facts [OF inv]
  let ?s = "s\<lparr>current_state := Initial_state\<rparr>"
  consider (quiet) "current_state s \<in> {Initial_state, Error_state}" "t = ?s"
    | (complete) "current_state s = Expecting_disable_state" "t = finish_reading ?s"
    | (early) "t = finished_early ?s"
    using step by (auto simp: fsm_DISABLE Let_def split: if_splits)
  then show ?thesis
  proof cases
    case quiet
    show ?thesis
    proof (cases "reading_state s = NEW_VALID_DATA_M")
      case True
      with f quiet show ?thesis by (intro mag_invI_done) simp_all
    next
      case False
      with f quiet show ?thesis by (intro mag_invI_idle) simp_all
    qed
  next
    case complete
    with f(1-4) show ?thesis
      by (intro mag_invI_done) (simp_all add: finish_reading_def post_updated_def)
  next
    case early
    with f(1,2) show ?thesis
      by (intro mag_invI_idle) (simp_all add: finished_early_def post_updated_def)
  qed
qed

lemma mag_inv_init: "mag_inv s \<Longrightarrow> mag_inv (init_magnetic s)"
  by (cases "initialized s")
    (simp_all add: init_magnetic_def reset_FSM_def mag_updates mag_invI_idle)

lemma mag_inv_enable: "mag_inv (enable_reading s)"
  by (rule mag_invI_idle) (simp_all add: enable_reading_def reset_FSM_def mag_updates)

lemma mag_inv_disable:
  assumes "mag_inv s"
  shows "mag_inv (disable_reading s)"
  using assms by (simp add: mag_inv_def disable_reading_def) blast

lemma mag_inv_step: "mag_inv s \<Longrightarrow> mag_step i s = Inr t \<Longrightarrow> mag_inv t"
proof (cases i)
  case (Clock_edge p)
  assume "mag_inv s" "mag_step i s = Inr t"
  then show ?thesis
    using mag_inv_fsm_bit [of s "\<not> p" t] Clock_edge
    by (auto simp: clock_falling_edge_def split: if_splits)
next
  case (Enable_edge p)
  assume "mag_inv s" "mag_step i s = Inr t"
  then show ?thesis
    using Enable_edge by (auto simp: enable_changed_state_def split: if_splits
        intro: mag_inv_ENABLE mag_inv_DISABLE)
qed (auto intro: mag_inv_init mag_inv_enable mag_inv_disable)

lemma mag_reachable_inv: "mag_reachable s \<Longrightarrow> mag_inv s"
  by (induction rule: mag_reachable.induct) (auto intro: mag_inv_power_on mag_inv_step)

lemma mag_reachable_run: "foldR mag_step is s = Inr t \<Longrightarrow> mag_reachable s \<Longrightarrow> mag_reachable t"
  by (rule foldR_invariant [where P = mag_reachable]) (auto intro: mag_reachable.input)

section \<open>Where the driver can fault\<close>

lemma add_data_fault:
  assumes inv: "mag_inv s" and ld: "loads_bits (current_state s)"
    and step: "add_data_to_current_character b s = Inl f"
  shows "f = Out_Of_Bounds \<and> content_index s = CONTENT_MAX_SIZE + 1"
proof -
  let ?s = "load_bit b s"
  have len: "length (content s) = CONTENT_MAX_SIZE + 1" "content_index s \<le> CONTENT_MAX_SIZE + 1"
    using inv by (simp_all add: mag_inv_def)
  have "fsm_handler (character2event ?s) ?s = Inl f"
    using step by (auto simp: add_data_to_current_character.simps Let_def split: if_splits)
  then have "fsm_handler (event_of_char (character2char ?s)) ?s = Inl f"
    by (simp add: character2event_def)
  moreover have "loads_bits (current_state ?s)" using ld by simp
  ultimately show ?thesis
    using ld len
    by (auto simp: fsm_char add_character_push validate_LRC_push loads_bits_def
        split: if_splits fsm_state.splits)
qed

lemma mag_step_fault:
  assumes inv: "mag_inv s" and step: "mag_step i s = Inl f"
  shows "f = Out_Of_Bounds \<and> content_index s = CONTENT_MAX_SIZE + 1
    \<and> current_state s \<in> {Pan_state, Additional_data_state, Expecting_LRC_state}"
proof -
  from step obtain b where bit: "fsm_handler (if b then LOGIC1 else LOGIC0) s = Inl f"
    by (cases i) (auto simp: clock_falling_edge_def enable_changed_state_def fsm_ENABLE
        fsm_DISABLE split: if_splits)
  show ?thesis
  proof (cases "loads_bits (current_state s)")
    case True
    with bit have "add_data_to_current_character b s = Inl f" by (simp add: fsm_bit)
    from add_data_fault [OF inv True this]
    have "f = Out_Of_Bounds" and idx: "content_index s = CONTENT_MAX_SIZE + 1" by simp_all
    moreover have "current_state s \<noteq> Expecting_SS_state"
      using inv idx by (auto simp: mag_inv_def recorded_def CONTENT_MAX_SIZE_def)
    ultimately show ?thesis using True by (auto simp: loads_bits_def)
  next
    case False
    with bit have "b" "current_state s = Enabled_state"
      by (auto simp: fsm_bit split: if_splits)
    with bit False have "add_data_to_current_character True
        (clean_current_character (s\<lparr>current_state := Expecting_SS_state\<rparr>)) = Inl f"
      by (simp add: fsm_bit [of True, simplified])
    then have False
      by (simp add: add_data_to_current_character.simps load_bit_def clean_current_character_def
          Let_def word_le_nat_alt)
    then show ?thesis ..
  qed
qed

end
