(* ===== verification/Magnetic_Swipe.thy ===== *)
theory Magnetic_Swipe
  imports Magnetic
begin

unbundle bit_operations_syntax

text \<open>
  The card reader driver over whole swipes: what a step does to the stored text, the bit stream
  a card produces, and the outcome of a complete swipe, of a swipe that is too long and of one
  with a wrong bit. Everything is a run of the input steps of \<^verbatim>\<open>source/magnetic.c\<close> as the
  theory of the driver defines them.
\<close>

section \<open>What happens to the stored text\<close>

text \<open>
  A step leaves the text alone, clears it, or stores one more character behind it; the bytes
  behind the text are therefore always zero.
\<close>

definition text_step :: "magnetic \<Rightarrow> magnetic \<Rightarrow> bool" where
  "text_step s t \<longleftrightarrow>
     content t = content s \<and> content_index t = content_index s
     \<or> content t = replicate (CONTENT_MAX_SIZE + 1) 0 \<and> content_index t = 0
     \<or> (\<exists>c. content_index s < length (content s) \<and> content t = (content s)[content_index s := c]
        \<and> content_index t = Suc (content_index s))"

lemma text_step_refl [simp]: "text_step s s"
  by (simp add: text_step_def)

lemma text_step_same:
  "content t = content s \<Longrightarrow> content_index t = content_index s \<Longrightarrow> text_step s t"
  by (simp add: text_step_def)

lemma text_step_clear:
  "content t = 0 # replicate CONTENT_MAX_SIZE 0 \<Longrightarrow> content_index t = 0 \<Longrightarrow> text_step s t"
  by (simp add: text_step_def)

lemma text_step_push:
  assumes "add_character_to_content s' = Inr t"
    and "content s' = content s" "content_index s' = content_index s"
  shows "text_step s t"
  using assms by (auto simp: add_character_push push_char_def text_step_def split: if_splits)

lemma text_step_validate:
  assumes "validate_LRC s' = Inr t"
    and "content s' = content s" "content_index s' = content_index s"
  shows "text_step s t"
  using assms
  by (auto simp: validate_LRC_def post_updated_def intro: text_step_push text_step_same
      split: if_splits)

lemma text_step_bit:
  assumes ld: "loads_bits (current_state s')"
    and step: "add_data_to_current_character b s' = Inr t"
    and same: "content s' = content s" "content_index s' = content_index s"
  shows "text_step s t"
proof -
  let ?s = "load_bit b s'"
  have "t = ?s \<or> t = parity_failed ?s \<or> fsm_handler (event_of_char (character2char ?s)) ?s = Inr t"
    using step unfolding add_data_to_current_character.simps Let_def character2event_def
    by (simp split: if_splits)
  then consider (plain) "t = ?s" | (bad) "t = parity_failed ?s"
    | (char) "fsm_handler (event_of_char (character2char ?s)) ?s = Inr t"
    by blast
  then show ?thesis
  proof cases
    case char
    have ld': "loads_bits (current_state ?s)" using ld by simp
    have "content ?s = content s" "content_index ?s = content_index s" using same by simp_all
    then have keep: "text_step s t" if "add_character_to_content (?s\<lparr>current_state := st\<rparr>) = Inr t \<or>
        validate_LRC (?s\<lparr>current_state := st\<rparr>) = Inr t
        \<or> t = SS_expected (?s\<lparr>current_state := st\<rparr>)" for st
      using that text_step_push [of "?s\<lparr>current_state := st\<rparr>" t s]
        text_step_validate [of "?s\<lparr>current_state := st\<rparr>" t s]
      by (auto simp: SS_expected_def post_updated_def intro: text_step_same)
    have same_st: "?s\<lparr>current_state := current_state ?s\<rparr> = ?s" by simp
    have "add_character_to_content ?s = Inr t \<or> (\<exists>st.
        add_character_to_content (?s\<lparr>current_state := st\<rparr>) = Inr t \<or>
        validate_LRC (?s\<lparr>current_state := st\<rparr>) = Inr t
        \<or> t = SS_expected (?s\<lparr>current_state := st\<rparr>))"
      using char [unfolded fsm_char [OF ld']]
      by (cases "current_state ?s") (auto split: if_splits)
    then show ?thesis using keep keep [of "current_state ?s", unfolded same_st] by blast
  qed (use same in \<open>auto simp: parity_failed_def intro: text_step_same\<close>)
qed

lemma text_step_fsm_bit:
  assumes step: "fsm_handler (if b then LOGIC1 else LOGIC0) s = Inr t"
  shows "text_step s t"
proof -
  let ?s = "clean_current_character (s\<lparr>current_state := Expecting_SS_state\<rparr>)"
  have "loads_bits (current_state ?s)" "content ?s = content s"
    "content_index ?s = content_index s"
    by (simp_all add: clean_current_character_def loads_bits_def)
  then show ?thesis
    using step unfolding fsm_bit
    by (auto intro: text_step_bit text_step_same simp: data_after_LRC_def post_updated_def
        split: if_splits)
qed

lemma text_step_mag: "mag_step i s = Inr t \<Longrightarrow> text_step s t"
proof (cases i)
  case (Clock_edge p)
  assume "mag_step i s = Inr t"
  with Clock_edge text_step_fsm_bit [of "\<not> p" s t] show ?thesis
    by (auto simp: clock_falling_edge_def split: if_splits)
next
  case (Enable_edge p)
  assume "mag_step i s = Inr t"
  with Enable_edge show ?thesis
    by (auto simp: enable_changed_state_def fsm_ENABLE fsm_DISABLE Let_def clean_message_def
        post_updated_def finish_reading_def finished_early_def
        intro: text_step_same text_step_clear split: if_splits)
next
  case Init_call
  assume "mag_step i s = Inr t"
  with Init_call have "t = init_magnetic s" by simp
  then show ?thesis
    by (cases "initialized s")
      (simp_all add: init_magnetic_def reset_FSM_def mag_updates text_step_clear)
next
  case Enable_call
  assume "mag_step i s = Inr t"
  with Enable_call have "t = enable_reading s" by simp
  then show ?thesis
    by (simp add: enable_reading_def reset_FSM_def mag_updates text_step_clear)
next
  case Disable_call
  assume "mag_step i s = Inr t"
  with Disable_call show ?thesis by (auto simp: disable_reading_def intro: text_step_same)
qed

definition zero_tail :: "magnetic \<Rightarrow> bool" where
  "zero_tail s \<longleftrightarrow> content_index s \<le> length (content s) \<and>
     content s = recorded s @ replicate (length (content s) - content_index s) 0"

lemma zero_tail_step:
  assumes "zero_tail s" and "text_step s t"
  shows "zero_tail t"
  using assms(2) unfolding text_step_def
proof (elim disjE exE conjE)
  fix c
  assume lt: "content_index s < length (content s)"
    and t: "content t = (content s)[content_index s := c]" "content_index t = Suc (content_index s)"
  let ?n = "length (content s) - content_index s"
  have "content s = recorded s @ replicate ?n 0" using assms(1) by (simp add: zero_tail_def)
  moreover have "replicate ?n 0 = 0 # replicate (?n - 1) (0 :: u8)"
    using lt by (metis Suc_diff_Suc diff_Suc_1 replicate_Suc)
  moreover have len: "length (recorded s) = content_index s" using lt by (simp add: recorded_def)
  ultimately have "content t = recorded s @ c # replicate (?n - 1) 0"
    using t(1) by (metis list_update_length)
  moreover have "recorded t = recorded s @ [c]"
    using lt by (simp add: recorded_def t take_Suc_conv_app_nth)
  ultimately show "zero_tail t" using lt t len by (simp add: zero_tail_def)
qed (use assms(1) in \<open>auto simp: zero_tail_def recorded_def\<close>)

lemma mag_reachable_zero_tail: "mag_reachable s \<Longrightarrow> zero_tail s"
proof (induction rule: mag_reachable.induct)
  case power_on
  then show ?case by (simp add: zero_tail_def magnetic_power_on_def recorded_def)
qed (auto intro: zero_tail_step text_step_mag)

section \<open>The bits of a card\<close>

text \<open>
  Track 2 carries each character as its four low bits, least significant first, and a bit that
  makes the number of ones odd. The data line is active low: a one bit is a low level at the
  falling clock edge. Before the start sentinel and after the check character the card holds
  zeros. The enable line is low while the card passes.
\<close>

definition card_char :: "u8 \<Rightarrow> bool" where
  "card_char c \<longleftrightarrow> c AND 0xF0 = 0x30"

definition char_frame :: "u8 \<Rightarrow> bool list" where
  "char_frame c =
    [bit c 0, bit c 1, bit c 2, bit c 3, \<not> (((bit c 0 \<noteq> bit c 1) \<noteq> bit c 2) \<noteq> bit c 3)]"

definition clock_bits :: "bool list \<Rightarrow> mag_input list" where
  "clock_bits bs = map (\<lambda>b. Clock_edge (\<not> b)) bs"

definition swipe_chars :: "nat \<Rightarrow> u8 list \<Rightarrow> mag_input list" where
  "swipe_chars zeros cs =
     Enable_edge False # clock_bits (replicate zeros False @ concat (map char_frame cs))"

definition swipe :: "nat \<Rightarrow> u8 list \<Rightarrow> nat \<Rightarrow> mag_input list" where
  "swipe zeros cs zeros' =
     swipe_chars zeros cs @ clock_bits (replicate zeros' False) @ [Enable_edge True]"

text \<open>One clock edge, as a step on the bit.\<close>

lemma clock_bits_simps [simp]:
  "clock_bits [] = []" "clock_bits (b # bs) = Clock_edge (\<not> b) # clock_bits bs"
  "clock_bits (xs @ ys) = clock_bits xs @ clock_bits ys"
  by (simp_all add: clock_bits_def)

lemma mag_step_clock:
  "mag_step (Clock_edge (\<not> b)) s =
     (if reading s then fsm_handler (if b then LOGIC1 else LOGIC0) s else Inr s)"
  by (simp add: clock_falling_edge_def)

text \<open>
  The receiver between two characters: nothing loaded yet, no error, \<open>cs\<close> stored.
\<close>

definition ready :: "fsm_state \<Rightarrow> u8 list \<Rightarrow> magnetic \<Rightarrow> bool" where
  "ready st cs s \<longleftrightarrow>
     reading s \<and> current_state s = st \<and> cc_data s = 0 \<and> cc_loaded_bits s = 0 \<and>
     error s = NO_ERROR \<and> recorded s = cs \<and> length (content s) = CONTENT_MAX_SIZE + 1 \<and>
     content_index s = length cs"

lemma ready_start:
  assumes "length (content s) = CONTENT_MAX_SIZE + 1"
  shows "\<exists>t. foldR mag_step [Enable_call, Enable_edge False] s = Inr t \<and> ready Enabled_state [] t"
proof -
  let ?s = "enable_reading s"
  have cur: "current_state ?s = Initial_state" and rd: "reading ?s"
    by (simp_all add: enable_reading_def reset_FSM_def)
  then have "mag_step (Enable_edge False) ?s
      = Inr (clean_message (?s\<lparr>current_state := Enabled_state\<rparr>))"
    by (simp add: enable_changed_state_def fsm_ENABLE)
  moreover have "ready Enabled_state [] (clean_message (?s\<lparr>current_state := Enabled_state\<rparr>))"
    using rd by (simp add: ready_def enable_reading_def reset_FSM_def mag_updates recorded_def)
  ultimately show ?thesis by simp
qed

lemma ready_zeros:
  assumes "reading s" and "current_state s = Enabled_state \<or> current_state s = Expecting_disable_state
    \<or> current_state s = Error_state"
  shows "foldR mag_step (clock_bits (replicate n False)) s = Inr s"
proof (induction n)
  case (Suc n)
  have "fsm_handler LOGIC0 s = Inr s"
    using assms(2) fsm_bit [of False s] by (auto simp: loads_bits_def)
  with Suc assms(1) show ?case by (simp add: clock_falling_edge_def)
qed simp

text \<open>The first four bits of a character accumulate; the fifth completes it.\<close>

lemma feed_bit:
  assumes "reading s" and "loads_bits (current_state s)"
  shows "mag_step (Clock_edge (\<not> b)) s = add_data_to_current_character b s"
  using assms fsm_bit [of b s] by (simp add: mag_step_clock del: mag_step.simps)

lemma add_data_partial:
  assumes "unat (cc_loaded_bits s) < 4"
  shows "add_data_to_current_character b s = Inr (load_bit b s)"
proof -
  have "unat (cc_loaded_bits s + 1) = unat (cc_loaded_bits s) + 1"
    using assms by (simp add: unat_word_ariths)
  then have "\<not> 5 \<le> cc_loaded_bits (load_bit b s)"
    using assms by (simp add: load_bit_def word_le_nat_alt)
  then show ?thesis by (simp add: add_data_to_current_character.simps Let_def)
qed

lemma feed_five:
  assumes rd: "reading s" and ld: "loads_bits (current_state s)"
    and z: "cc_data s = 0" "cc_loaded_bits s = 0"
  shows "foldR mag_step (clock_bits [b0, b1, b2, b3, b4]) s =
    (let s1 = s\<lparr>cc_data := of_bool b0 OR push_bit 1 (of_bool b1) OR push_bit 2 (of_bool b2)
                  OR push_bit 3 (of_bool b3) OR push_bit 4 (of_bool b4), cc_loaded_bits := 5\<rparr>
     in if current_character_valid_parity s1 then fsm_handler (character2event s1) s1
        else Inr (parity_failed s1))"
proof -
  let ?l = "\<lambda>b s. load_bit b s"
  have step: "mag_step (Clock_edge (\<not> b)) u = Inr (?l b u)"
    if "reading u" "loads_bits (current_state u)" "unat (cc_loaded_bits u) < 4" for u b
    using that by (simp only: feed_bit add_data_partial)
  let ?s4 = "?l b3 (?l b2 (?l b1 (?l b0 s)))"
  have cc: "cc_loaded_bits (?l b0 s) = 1" "cc_loaded_bits (?l b1 (?l b0 s)) = 2"
    "cc_loaded_bits (?l b2 (?l b1 (?l b0 s))) = 3" "cc_loaded_bits ?s4 = 4"
    by (simp_all add: load_bit_def z)
  have "foldR mag_step (clock_bits [b0, b1, b2, b3, b4]) s = bindR (mag_step (Clock_edge (\<not> b4)) ?s4) (foldR mag_step [])"
    using rd ld cc z by (simp add: step del: mag_step.simps)
  also have "\<dots> = bindR (add_data_to_current_character b4 ?s4) (foldR mag_step [])"
    using rd ld by (simp add: feed_bit del: mag_step.simps)
  also have "\<dots> = add_data_to_current_character b4 ?s4"
    by (cases "add_data_to_current_character b4 ?s4") simp_all
  also have "?l b4 ?s4 = s\<lparr>cc_data := of_bool b0 OR push_bit 1 (of_bool b1)
      OR push_bit 2 (of_bool b2) OR push_bit 3 (of_bool b3) OR push_bit 4 (of_bool b4),
      cc_loaded_bits := 5\<rparr>"
    by (simp add: load_bit_def z or.assoc)
  ultimately show ?thesis
    by (simp add: add_data_to_current_character.simps Let_def)
qed

abbreviation frame_word :: "bool \<Rightarrow> bool \<Rightarrow> bool \<Rightarrow> bool \<Rightarrow> bool \<Rightarrow> 5 word" where
  "frame_word b0 b1 b2 b3 b4 \<equiv> of_bool b0 OR push_bit 1 (of_bool b1) OR push_bit 2 (of_bool b2)
     OR push_bit 3 (of_bool b3) OR push_bit 4 (of_bool b4)"

lemma valid_parity_frame:
  "valid_parity (frame_word b0 b1 b2 b3 b4) \<longleftrightarrow> ((((b0 \<noteq> b1) \<noteq> b2) \<noteq> b3) \<noteq> b4)"
  unfolding valid_parity_def
  by (cases b0; cases b1; cases b2; cases b3; cases b4) (simp_all add: bit_simps)

lemma char_of_data_frame:
  assumes "card_char c"
  shows "char_of_data (frame_word (bit c 0) (bit c 1) (bit c 2) (bit c 3) p) = c"
proof (rule bit_word_eqI)
  fix n assume "n < LENGTH(8)"
  then have n: "n < 8" by simp
  have hi: "bit (c AND 0xF0) n = bit (0x30 :: u8) n" using assms by (simp add: card_char_def)
  from n have "n = 0 \<or> n = 1 \<or> n = 2 \<or> n = 3 \<or> n = 4 \<or> n = 5 \<or> n = 6 \<or> n = 7" by arith
  then show "bit (char_of_data (frame_word (bit c 0) (bit c 1) (bit c 2) (bit c 3) p)) n = bit c n"
    using hi by (elim disjE) (auto simp: char_of_data_def bit_simps bit_numeral_rec)
qed

lemma feed_char:
  assumes rd: "reading s" and ld: "loads_bits (current_state s)"
    and z: "cc_data s = 0" "cc_loaded_bits s = 0" and c: "card_char c"
  shows "\<exists>d. char_of_data d = c \<and> foldR mag_step (clock_bits (char_frame c)) s
      = fsm_handler (event_of_char c) (s\<lparr>cc_data := d, cc_loaded_bits := 5\<rparr>)"
proof -
  let ?d = "frame_word (bit c 0) (bit c 1) (bit c 2) (bit c 3)
      (\<not> (((bit c 0 \<noteq> bit c 1) \<noteq> bit c 2) \<noteq> bit c 3))"
  let ?s = "s\<lparr>cc_data := ?d, cc_loaded_bits := 5\<rparr>"
  have ch: "char_of_data ?d = c" by (rule char_of_data_frame [OF c])
  have "valid_parity ?d" unfolding valid_parity_frame by argo
  then have "current_character_valid_parity ?s" by (simp add: current_character_valid_parity_def)
  then have "foldR mag_step (clock_bits (char_frame c)) s = fsm_handler (character2event ?s) ?s"
    unfolding char_frame_def feed_five [OF rd ld z] Let_def by (simp only: if_True)
  also have "character2event ?s = event_of_char c"
    using arg_cong [OF ch, of event_of_char] by (simp add: character2event_def character2char_def)
  finally show ?thesis using ch by blast
qed

text \<open>The state a complete character leads to.\<close>

fun next_phase :: "fsm_state \<Rightarrow> u8 \<Rightarrow> fsm_state" where
  "next_phase Expecting_SS_state c = Pan_state"
| "next_phase Pan_state c = (if c = 0x3D then Additional_data_state else Pan_state)"
| "next_phase Additional_data_state c =
     (if c = 0x3F then Expecting_LRC_state else Additional_data_state)"
| "next_phase st c = Expecting_disable_state"

lemma ready_push:
  assumes "ready st cs s" and "length cs \<le> CONTENT_MAX_SIZE" and "char_of_data d = c"
  shows "\<exists>t. add_character_to_content
      (s\<lparr>cc_data := d, cc_loaded_bits := 5, current_state := st'\<rparr>) = Inr t \<and> ready st' (cs @ [c]) t"
proof -
  let ?s = "s\<lparr>cc_data := d, cc_loaded_bits := 5, current_state := st'\<rparr>"
  have lt: "content_index ?s < length (content ?s)" using assms by (simp add: ready_def)
  then have "recorded (push_char ?s) = cs @ [c]"
    using assms by (subst recorded_push) (simp_all add: ready_def character2char_def)
  then have "ready st' (cs @ [c]) (push_char ?s)"
    using assms(1) by (simp add: ready_def)
  then show ?thesis using lt by (simp add: add_character_push)
qed

lemma fsm_char_store:
  assumes "loads_bits (current_state s)"
    and "current_state s = Expecting_SS_state \<longrightarrow> c = 0x3B"
    and "current_state s \<noteq> Expecting_LRC_state"
  shows "fsm_handler (event_of_char c) s
      = add_character_to_content (s\<lparr>current_state := next_phase (current_state s) c\<rparr>)"
  using assms
  by (cases "current_state s") (simp_all add: fsm_char loads_bits_def current_state_same)

text \<open>One character of a correct track.\<close>

lemma ready_char:
  assumes rdy: "ready st cs s" and st: "loads_bits st"
    and len: "length cs \<le> CONTENT_MAX_SIZE" and c: "card_char c"
    and ss: "st = Expecting_SS_state \<longrightarrow> c = 0x3B"
    and lrc: "st = Expecting_LRC_state \<longrightarrow> lrc_ok (cs @ [c])"
  shows "\<exists>t. foldR mag_step (clock_bits (char_frame c)) s = Inr t \<and>
      ready (next_phase st c) (cs @ [c]) t"
proof -
  have s: "reading s" "loads_bits (current_state s)" "cc_data s = 0" "cc_loaded_bits s = 0"
    "current_state s = st"
    using rdy st by (simp_all add: ready_def)
  from feed_char [OF s(1-4) c] obtain d where d: "char_of_data d = c"
    and run: "foldR mag_step (clock_bits (char_frame c)) s
      = fsm_handler (event_of_char c) (s\<lparr>cc_data := d, cc_loaded_bits := 5\<rparr>)" by blast
  let ?s = "s\<lparr>cc_data := d, cc_loaded_bits := 5\<rparr>"
  have ld: "loads_bits (current_state ?s)" using s by simp
  obtain t where t: "add_character_to_content (?s\<lparr>current_state := next_phase st c\<rparr>) = Inr t"
    "ready (next_phase st c) (cs @ [c]) t"
    using ready_push [OF rdy len d] by blast
  have val: "validate_LRC (?s\<lparr>current_state := st'\<rparr>)
      = add_character_to_content (?s\<lparr>current_state := st'\<rparr>)" if "lrc_ok (cs @ [c])" for st'
    using that rdy len d
    by (subst validate_LRC_push) (simp_all add: ready_def lrc_ok_def character2char_def)
  have "fsm_handler (event_of_char c) ?s
      = add_character_to_content (?s\<lparr>current_state := next_phase st c\<rparr>)"
    using fsm_char_store [OF ld, of c] fsm_char [OF ld, of c] ss lrc s(5) val
    by (cases "st = Expecting_LRC_state") simp_all
  then show ?thesis using run t by (simp del: mag_step.simps)
qed

section \<open>Runs of characters\<close>

lemma ready_chars:
  assumes "ready st cs s" and "loads_bits st" and "length (cs @ xs) \<le> CONTENT_MAX_SIZE + 1"
    and "\<forall>c \<in> set xs. card_char c \<and> next_phase st c = st"
    and "st = Pan_state \<or> st = Additional_data_state"
  shows "\<exists>t. foldR mag_step (clock_bits (concat (map char_frame xs))) s = Inr t \<and>
      ready st (cs @ xs) t"
  using assms
proof (induction xs arbitrary: cs s)
  case (Cons x xs)
  obtain u where u: "foldR mag_step (clock_bits (char_frame x)) s = Inr u"
    "ready st (cs @ [x]) u"
    using ready_char [of st cs s x] Cons.prems by auto
  obtain t where "foldR mag_step (clock_bits (concat (map char_frame xs))) u = Inr t"
    "ready st (cs @ x # xs) t"
    using Cons.IH [OF u(2)] Cons.prems by auto
  then show ?case using u by (auto simp: foldR_append)
qed auto

text \<open>The start sentinel begins with a one bit, which is what ends the leading zeros.\<close>

lemma ready_sentinel:
  assumes "ready Enabled_state [] s"
  shows "\<exists>t. foldR mag_step (clock_bits (char_frame 0x3B)) s = Inr t \<and> ready Pan_state [0x3B] t"
proof -
  let ?s = "s\<lparr>current_state := Expecting_SS_state\<rparr>"
  have rdy: "ready Expecting_SS_state [] ?s" using assms by (simp add: ready_def)
  have frame: "char_frame 0x3B = True # [True, False, True, False]"
    by (simp add: char_frame_def bit_numeral_rec)
  have z: "clean_current_character ?s = ?s"
    using assms by (simp add: ready_def clean_current_character_def)
  have "fsm_handler LOGIC1 s = add_data_to_current_character True ?s"
    using fsm_bit [of True s] z assms by (simp add: ready_def loads_bits_def)
  moreover have "fsm_handler LOGIC1 ?s = add_data_to_current_character True ?s"
    using fsm_bit [of True ?s] by (simp add: loads_bits_def)
  ultimately have "foldR mag_step (clock_bits (char_frame 0x3B)) s
      = foldR mag_step (clock_bits (char_frame 0x3B)) ?s"
    using assms by (simp add: frame clock_falling_edge_def ready_def)
  moreover have "card_char 0x3B" by (simp add: card_char_def)
  then obtain t where "foldR mag_step (clock_bits (char_frame 0x3B)) ?s = Inr t"
    "ready Pan_state [0x3B] t"
    using ready_char [OF rdy, of "0x3B"] by (auto simp: loads_bits_def)
  ultimately show ?thesis by auto
qed

lemma bindR_Inr_ex:
  "\<exists>u. r = Inr u \<and> P u \<Longrightarrow> (\<And>u. P u \<Longrightarrow> \<exists>t. k u = Inr t \<and> Q t) \<Longrightarrow> \<exists>t. bindR r k = Inr t \<and> Q t"
  by auto

text \<open>From power-up of the reader to the last of the account number's characters.\<close>

lemma ready_pan:
  assumes len: "length (content s) = CONTENT_MAX_SIZE + 1"
    and pan: "\<forall>c \<in> set pan. card_char c" "0x3D \<notin> set pan" "length pan \<le> CONTENT_MAX_SIZE"
  shows "\<exists>t. foldR mag_step (Enable_call # swipe_chars zeros (0x3B # pan)) s = Inr t \<and>
      ready Pan_state (0x3B # pan) t"
proof -
  have pn: "\<forall>c \<in> set pan. card_char c \<and> next_phase Pan_state c = Pan_state"
    using pan by auto
  have zeros: "\<exists>t. foldR mag_step (clock_bits (replicate zeros False)) u = Inr t \<and>
      ready Enabled_state [] t" if "ready Enabled_state [] u" for u
    using that ready_zeros [of u zeros] by (auto simp: ready_def)
  have rest: "\<exists>t. foldR mag_step (clock_bits (concat (map char_frame pan))) u = Inr t \<and>
      ready Pan_state (0x3B # pan) t" if "ready Pan_state [0x3B] u" for u
    using ready_chars [OF that, of pan, OF _ _ pn] pan by (simp add: loads_bits_def)
  have split: "Enable_call # swipe_chars zeros (0x3B # pan)
      = [Enable_call, Enable_edge False] @ clock_bits (replicate zeros False)
        @ clock_bits (char_frame 0x3B) @ clock_bits (concat (map char_frame pan))"
    by (simp add: swipe_chars_def)
  show ?thesis
    unfolding split foldR_append
    by (intro bindR_Inr_ex [OF ready_start [OF len]] bindR_Inr_ex [OF zeros]
        bindR_Inr_ex [OF ready_sentinel] rest)
qed

text \<open>From there to the check character.\<close>

lemma ready_track:
  assumes len: "length (content s) = CONTENT_MAX_SIZE + 1"
    and chars: "\<forall>c \<in> set (pan @ extra @ [lrc]). card_char c"
    and pan: "0x3D \<notin> set pan" and extra: "0x3F \<notin> set extra"
    and lrc: "lrc_ok (track pan extra @ [lrc])"
    and fits: "length (track pan extra) \<le> CONTENT_MAX_SIZE"
  shows "\<exists>t. foldR mag_step (Enable_call # swipe_chars zeros (track pan extra @ [lrc])) s = Inr t \<and>
      ready Expecting_disable_state (track pan extra @ [lrc]) t"
proof -
  have n: "length pan + length extra + 3 \<le> CONTENT_MAX_SIZE" using fits by (simp add: track_def)
  have fs: "card_char 0x3D" "card_char 0x3F" by (simp_all add: card_char_def)
  have ex: "\<forall>c \<in> set extra. card_char c \<and>
      next_phase Additional_data_state c = Additional_data_state"
    using chars extra by auto
  have p1: "\<exists>t. foldR mag_step (Enable_call # swipe_chars zeros (0x3B # pan)) s = Inr t \<and>
      ready Pan_state (0x3B # pan) t"
    by (rule ready_pan [OF len]) (use chars pan n in auto)
  have p2: "\<exists>t. foldR mag_step (clock_bits (char_frame 0x3D)) u = Inr t \<and>
      ready Additional_data_state (0x3B # pan @ [0x3D]) t" if "ready Pan_state (0x3B # pan) u" for u
    using ready_char [OF that, of "0x3D"] fs n by (simp add: loads_bits_def)
  have p3: "\<exists>t. foldR mag_step (clock_bits (concat (map char_frame extra))) u = Inr t \<and>
      ready Additional_data_state (0x3B # pan @ 0x3D # extra) t"
    if "ready Additional_data_state (0x3B # pan @ [0x3D]) u" for u
    using ready_chars [OF that, of extra, OF _ _ ex] n by (simp add: loads_bits_def)
  have p4: "\<exists>t. foldR mag_step (clock_bits (char_frame 0x3F)) u = Inr t \<and>
      ready Expecting_LRC_state (track pan extra) t"
    if "ready Additional_data_state (0x3B # pan @ 0x3D # extra) u" for u
    using ready_char [OF that, of "0x3F"] fs n by (simp add: loads_bits_def track_def)
  have p5: "\<exists>t. foldR mag_step (clock_bits (char_frame lrc)) u = Inr t \<and>
      ready Expecting_disable_state (track pan extra @ [lrc]) t"
    if "ready Expecting_LRC_state (track pan extra) u" for u
    using ready_char [OF that, of lrc] chars fits lrc by (simp add: loads_bits_def)
  have split: "Enable_call # swipe_chars zeros (track pan extra @ [lrc])
      = (Enable_call # swipe_chars zeros (0x3B # pan)) @ clock_bits (char_frame 0x3D)
        @ clock_bits (concat (map char_frame extra)) @ clock_bits (char_frame 0x3F)
        @ clock_bits (char_frame lrc)"
    by (simp add: swipe_chars_def track_def)
  show ?thesis
    unfolding split foldR_append
    by (intro bindR_Inr_ex [OF p1] bindR_Inr_ex [OF p2] bindR_Inr_ex [OF p3]
        bindR_Inr_ex [OF p4] p5)
qed

section \<open>Whole swipes\<close>

lemma swipe_done:
  assumes "length (content s) = CONTENT_MAX_SIZE + 1"
    and "\<forall>c \<in> set (pan @ extra @ [lrc]). card_char c"
    and "0x3D \<notin> set pan" and "0x3F \<notin> set extra" and "lrc_ok (track pan extra @ [lrc])"
    and "length (track pan extra) \<le> CONTENT_MAX_SIZE"
  shows "\<exists>t. foldR mag_step (Enable_call # swipe zeros (track pan extra @ [lrc]) zeros') s = Inr t \<and>
      get_state t = NEW_VALID_DATA_M \<and> current_state t = Initial_state \<and> data_valid t \<and>
      error t = NO_ERROR \<and> recorded t = track pan extra @ [lrc]"
proof -
  have tail: "\<exists>t. foldR mag_step (clock_bits (replicate zeros' False) @ [Enable_edge True]) u = Inr t \<and>
      get_state t = NEW_VALID_DATA_M \<and> current_state t = Initial_state \<and> data_valid t \<and>
      error t = NO_ERROR \<and> recorded t = track pan extra @ [lrc]"
    if "ready Expecting_disable_state (track pan extra @ [lrc]) u" for u
    using that ready_zeros [of u zeros']
    by (auto simp: foldR_append ready_def enable_changed_state_def fsm_DISABLE Let_def
        finish_reading_def post_updated_def get_state_def)
  have split: "Enable_call # swipe zeros (track pan extra @ [lrc]) zeros'
      = (Enable_call # swipe_chars zeros (track pan extra @ [lrc]))
        @ clock_bits (replicate zeros' False) @ [Enable_edge True]"
    by (simp add: swipe_def)
  show ?thesis
    unfolding split foldR_append [of _ "Enable_call # _"]
    by (intro bindR_Inr_ex [OF ready_track [OF assms]] tail)
qed

lemma error_absorbs:
  assumes "current_state s = Error_state" and "reading s"
  shows "foldR mag_step (clock_bits bs) s = Inr s"
proof (induction bs)
  case (Cons b bs)
  have "fsm_handler (if b then LOGIC1 else LOGIC0) s = Inr s"
    using assms fsm_bit [of b s] by (simp add: loads_bits_def)
  with Cons assms show ?case by (simp add: mag_step_clock del: mag_step.simps)
qed simp

text \<open>Flipping any one bit of a character makes its parity even.\<close>

lemma flipped_frame:
  assumes "i < 5" and "reading s" and "loads_bits (current_state s)"
    and "cc_data s = 0" and "cc_loaded_bits s = 0"
  shows "\<exists>d. foldR mag_step (clock_bits ((char_frame c)[i := \<not> char_frame c ! i])) s
      = Inr (parity_failed (s\<lparr>cc_data := d, cc_loaded_bits := 5\<rparr>))"
proof -
  have "i = 0 \<or> i = 1 \<or> i = 2 \<or> i = 3 \<or> i = 4" using assms(1) by arith
  then have "\<exists>b0 b1 b2 b3 b4. (char_frame c)[i := \<not> char_frame c ! i] = [b0, b1, b2, b3, b4]
      \<and> \<not> ((((b0 \<noteq> b1) \<noteq> b2) \<noteq> b3) \<noteq> b4)"
    by (elim disjE) (simp_all add: char_frame_def, argo+)
  then obtain b0 b1 b2 b3 b4 where f: "(char_frame c)[i := \<not> char_frame c ! i] = [b0, b1, b2, b3, b4]"
    and odd: "\<not> ((((b0 \<noteq> b1) \<noteq> b2) \<noteq> b3) \<noteq> b4)"
    by blast
  have "\<not> valid_parity (frame_word b0 b1 b2 b3 b4)" unfolding valid_parity_frame by (rule odd)
  then show ?thesis
    unfolding f feed_five [OF assms(2-5)] Let_def current_character_valid_parity_def
    by (intro exI [of _ "frame_word b0 b1 b2 b3 b4"]) simp
qed

lemma long_track:
  assumes "length (content s) = CONTENT_MAX_SIZE + 1"
    and "\<forall>c \<in> set pan. card_char c" and "0x3D \<notin> set pan" and "CONTENT_MAX_SIZE < length pan"
  shows "foldR mag_step (Enable_call # swipe_chars zeros (0x3B # pan)) s = Inl Out_Of_Bounds"
proof -
  let ?p = "take CONTENT_MAX_SIZE pan" and ?c = "pan ! CONTENT_MAX_SIZE"
  let ?rest = "drop (Suc CONTENT_MAX_SIZE) pan"
  have pan: "pan = ?p @ ?c # ?rest" using assms(4) by (simp add: id_take_nth_drop)
  have c: "card_char ?c" and ne: "?c \<noteq> 0x3D"
    using assms nth_mem [OF assms(4)] by (auto simp del: nth_mem)
  have p: "\<forall>c \<in> set ?p. card_char c" "0x3D \<notin> set ?p" "length ?p \<le> CONTENT_MAX_SIZE"
    using assms by (auto dest: in_set_takeD)
  obtain u where u: "foldR mag_step (Enable_call # swipe_chars zeros (0x3B # ?p)) s = Inr u"
    and rdy: "ready Pan_state (0x3B # ?p) u"
    using ready_pan [OF assms(1) p, of zeros] by blast
  have ld: "reading u" "loads_bits (current_state u)" "cc_data u = 0" "cc_loaded_bits u = 0"
    using rdy by (simp_all add: ready_def loads_bits_def)
  obtain d where "foldR mag_step (clock_bits (char_frame ?c)) u
      = fsm_handler (event_of_char ?c) (u\<lparr>cc_data := d, cc_loaded_bits := 5\<rparr>)"
    using feed_char [OF ld c] by blast
  also have "\<dots> = add_character_to_content
      (u\<lparr>cc_data := d, cc_loaded_bits := 5, current_state := Pan_state\<rparr>)"
    using rdy ne by (subst fsm_char_store) (simp_all add: ready_def loads_bits_def)
  also have "\<dots> = Inl Out_Of_Bounds"
    using rdy assms(4) by (simp add: add_character_push ready_def)
  finally have last: "foldR mag_step (clock_bits (char_frame ?c)) u = Inl Out_Of_Bounds" .
  have split: "Enable_call # swipe_chars zeros (0x3B # pan)
      = (Enable_call # swipe_chars zeros (0x3B # ?p)) @ clock_bits (char_frame ?c)
        @ clock_bits (concat (map char_frame ?rest))"
    by (subst pan) (simp add: swipe_chars_def)
  show ?thesis
    unfolding split foldR_append using u last by (simp del: mag_step.simps)
qed

section \<open>Properties\<close>

text \<open>C4: whenever the reader reports new valid data, in any state any sequence of interrupts
  and calls can reach, the text the reader task is handed is a complete track (start sentinel,
  account number, separator, additional data, end sentinel, check character), its check
  character makes the exclusive or of all the stored nibbles zero, and the rest of the buffer is
  zero.\<close>

theorem mag_valid_data_is_track:
  assumes "mag_reachable s" and "get_state s = NEW_VALID_DATA_M"
  shows "data_valid s \<and> error s = NO_ERROR \<and> track_ok (recorded s) \<and>
    content s = recorded s @ replicate (CONTENT_MAX_SIZE + 1 - content_index s) 0"
  using mag_reachable_inv [OF assms(1)] mag_reachable_zero_tail [OF assms(1)] assms(2)
  by (simp add: mag_inv_def zero_tail_def get_state_def)

lemma demo_lrc: "lrc_ok (track [0x31, 0x32] [0x37] @ [0x3D])"
  by (simp add: lrc_ok_def xor_chars_def track_def)

lemma demo_chars: "\<forall>c \<in> set ([0x31, 0x32] @ [0x37] @ [0x3D]). card_char c"
  by (simp add: card_char_def)

lemma demo_fits: "length (track [0x31, 0x32] [0x37]) \<le> CONTENT_MAX_SIZE"
  by (simp add: track_def CONTENT_MAX_SIZE_def)

lemma power_on_length: "length (content magnetic_power_on) = CONTENT_MAX_SIZE + 1"
  by (simp add: magnetic_power_on_def)

theorem mag_valid_data_is_track_witness:
  "\<exists>s. mag_reachable s \<and> get_state s = NEW_VALID_DATA_M \<and> track_ok (recorded s) \<and> length (recorded s) = 7"
proof -
  obtain t where run: "foldR mag_step (Enable_call # swipe 3 (track [0x31, 0x32] [0x37] @ [0x3D]) 2)
      magnetic_power_on = Inr t" and t: "get_state t = NEW_VALID_DATA_M"
    "recorded t = track [0x31, 0x32] [0x37] @ [0x3D]"
    using swipe_done [OF power_on_length demo_chars _ _ demo_lrc demo_fits, of 3 2] by auto
  have reach: "mag_reachable t" by (rule mag_reachable_run [OF run mag_reachable.power_on])
  from mag_valid_data_is_track [OF this t(1)] have "track_ok (recorded t)" by blast
  with reach t show ?thesis by (auto simp: track_def)
qed

text \<open>C27: a correct swipe is accepted. From any state of the driver, reading is enabled and a
  card passes: any number of leading zeros, the characters of a track with a correct check
  character that fits the buffer, any number of trailing zeros, the enable line going up. The
  driver then reports new valid data, is ready for the next card and hands out exactly the
  characters of the card.\<close>

theorem mag_swipe_accepted:
  assumes "length (content s) = CONTENT_MAX_SIZE + 1"
    and "\<forall>c \<in> set (pan @ extra @ [lrc]). card_char c"
    and "0x3D \<notin> set pan" and "0x3F \<notin> set extra" and "lrc_ok (track pan extra @ [lrc])"
    and "length (track pan extra) \<le> CONTENT_MAX_SIZE"
  shows "\<exists>t. foldR mag_step (Enable_call # swipe zeros (track pan extra @ [lrc]) zeros') s = Inr t \<and>
      get_state t = NEW_VALID_DATA_M \<and> current_state t = Initial_state \<and>
      error t = NO_ERROR \<and> recorded t = track pan extra @ [lrc]"
  using swipe_done [OF assms, of zeros zeros'] by blast

theorem mag_swipe_accepted_witness:
  "\<exists>t. foldR mag_step (Enable_call # swipe 5 (track [0x31, 0x32] [0x37] @ [0x3D]) 4) magnetic_power_on
       = Inr t \<and> recorded t = [0x3B, 0x31, 0x32, 0x3D, 0x37, 0x3F, 0x3D]"
  using mag_swipe_accepted [OF power_on_length demo_chars _ _ demo_lrc demo_fits, of 5 4]
  by (auto simp: track_def)

text \<open>the buffer is not protected. A card whose characters go on past the buffer without a
  separator makes the driver write the 102nd character behind the array: \<open>CONTENT_MAX_SIZE\<close>
  is never checked.\<close>

theorem mag_long_track_overflows:
  assumes "length (content s) = CONTENT_MAX_SIZE + 1"
    and "\<forall>c \<in> set pan. card_char c" and "0x3D \<notin> set pan" and "CONTENT_MAX_SIZE < length pan"
  shows "foldR mag_step (Enable_call # swipe_chars zeros (0x3B # pan)) s = Inl Out_Of_Bounds"
  by (rule long_track [OF assms])

theorem mag_long_track_overflows_witness:
  "foldR mag_step (Enable_call # swipe_chars 2 (0x3B # replicate 101 0x31)) magnetic_power_on
     = Inl Out_Of_Bounds"
  by (rule mag_long_track_overflows [OF power_on_length])
    (simp_all add: card_char_def CONTENT_MAX_SIZE_def)

text \<open>C33: that is the only way the driver can fault: in every reachable state, a step that
  leaves the defined part of C is the write of a character behind a full buffer. No event ever
  selects a row outside a state's table and the check of the last character never reads outside
  the buffer.\<close>

theorem mag_only_fault_is_overflow:
  assumes "mag_reachable s" and "mag_step i s = Inl f"
  shows "f = Out_Of_Bounds \<and> content_index s = CONTENT_MAX_SIZE + 1
    \<and> current_state s \<in> {Pan_state, Additional_data_state, Expecting_LRC_state}"
  by (rule mag_step_fault [OF mag_reachable_inv [OF assms(1)] assms(2)])

theorem mag_only_fault_is_overflow_witness:
  "\<exists>s i. mag_reachable s \<and> mag_step i s = Inl Out_Of_Bounds \<and> content_index s = 101"
proof -
  have "foldR mag_step (Enable_call # swipe_chars 2 (0x3B # replicate 101 0x31)) magnetic_power_on
      = Inl Out_Of_Bounds"
    by (rule long_track [OF power_on_length]) (simp_all add: card_char_def CONTENT_MAX_SIZE_def)
  from foldR_Inl [OF this] obtain xs e t
    where "foldR mag_step xs magnetic_power_on = Inr t" and f: "mag_step e t = Inl Out_Of_Bounds"
    by blast
  then have "mag_reachable t" by (blast intro: mag_reachable_run mag_reachable.power_on)
  from this f mag_only_fault_is_overflow [OF this f] show ?thesis
    by (auto simp: CONTENT_MAX_SIZE_def)
qed

text \<open>a wrong bit is detected and not announced. When any one of the five bits of a
  character of the account number is read wrong, the rest of the card is ignored, no data is
  handed out and the state is invalid data with a parity error, but from the wrong bit to the
  end of the swipe the semaphore of the reader task is not posted, unlike for every other
  error.\<close>

theorem mag_bit_error_silent:
  assumes "length (content s) = CONTENT_MAX_SIZE + 1"
    and "\<forall>c \<in> set pan. card_char c" and "0x3D \<notin> set pan" and "length pan \<le> CONTENT_MAX_SIZE"
    and "i < 5"
  shows "\<exists>u t. foldR mag_step (Enable_call # swipe_chars zeros (0x3B # pan)) s = Inr u \<and>
    foldR mag_step (clock_bits ((char_frame c)[i := \<not> char_frame c ! i] @ rest) @ [Enable_edge True]) u
      = Inr t \<and>
    get_state t = INVALID_DATA_M \<and> error t = PARITY_ERROR \<and> get_data t = None \<and>
    recorded t = 0x3B # pan \<and> updated_posts t = updated_posts u"
proof -
  obtain u where u: "foldR mag_step (Enable_call # swipe_chars zeros (0x3B # pan)) s = Inr u"
    and rdy: "ready Pan_state (0x3B # pan) u"
    using ready_pan [OF assms(1-4), of zeros] by blast
  have ld: "reading u" "loads_bits (current_state u)" "cc_data u = 0" "cc_loaded_bits u = 0"
    using rdy by (simp_all add: ready_def loads_bits_def)
  obtain d where bad: "foldR mag_step (clock_bits ((char_frame c)[i := \<not> char_frame c ! i])) u
      = Inr (parity_failed (u\<lparr>cc_data := d, cc_loaded_bits := 5\<rparr>))"
    using flipped_frame [OF assms(5) ld] by blast
  let ?v = "parity_failed (u\<lparr>cc_data := d, cc_loaded_bits := 5\<rparr>)"
  have v: "current_state ?v = Error_state" "reading ?v"
    using ld by (simp_all add: parity_failed_def)
  have "mag_step (Enable_edge True) ?v = Inr (?v\<lparr>current_state := Initial_state\<rparr>)"
    using v by (simp add: enable_changed_state_def fsm_DISABLE Let_def)
  then have "foldR mag_step (clock_bits ((char_frame c)[i := \<not> char_frame c ! i] @ rest)
      @ [Enable_edge True]) u = Inr (?v\<lparr>current_state := Initial_state\<rparr>)"
    unfolding clock_bits_simps foldR_append bad bindR.simps
    using error_absorbs [OF v] by (simp del: mag_step.simps)
  then show ?thesis
    using u rdy by (auto simp: ready_def get_state_def get_data_def parity_failed_def)
qed

theorem mag_bit_error_silent_witness:
  "\<exists>u t. foldR mag_step (Enable_call # swipe_chars 4 [0x3B, 0x31, 0x32]) magnetic_power_on = Inr u \<and>
    foldR mag_step (clock_bits ((char_frame 0x33)[2 := \<not> char_frame 0x33 ! 2] @ [True, True])
      @ [Enable_edge True]) u = Inr t \<and> get_data t = None \<and> updated_posts t = updated_posts u"
  using mag_bit_error_silent [OF power_on_length, of "[0x31, 0x32]" 2 4 "0x33" "[True, True]"]
  by (auto simp: card_char_def CONTENT_MAX_SIZE_def)

end
