(* ===== verification/Cards.thy ===== *)
theory Cards
  imports Magnetic_Swipe
begin

unbundle bit_operations_syntax

text \<open>
  The access decision: \<^verbatim>\<open>source/magnetic_app.c\<close> (the card number cut out of the track),
  \<^verbatim>\<open>source/array_compare.c\<close> and \<^verbatim>\<open>source/id_identification.c\<close> (the list of
  admitted cards) and \<^verbatim>\<open>CardsCGIhandler\<close> of \<^verbatim>\<open>source/main.c\<close>, which edits that
  list from the web page. \<^verbatim>\<open>Cards\<close> is a two-dimensional array; it is kept flat, as it is
  in memory, because \<^verbatim>\<open>strcpy\<close> into one row can run on into the next.
\<close>

section \<open>The card number\<close>

datatype reading_state_ma =
    UNINITIALIZED_MA | DISABLED_MA | WAITING_MA | READING_MA | INVALID_DATA_MA
  | NEW_VALID_DATA_MA | ERROR_MA

definition ID_SIZE :: nat where "ID_SIZE = 8"

definition get_state_ma :: "magnetic \<Rightarrow> reading_state_ma" where
  "get_state_ma s =
     (case get_state s of
        UNINITIALIZED_M \<Rightarrow> UNINITIALIZED_MA
      | DISABLED_M \<Rightarrow> DISABLED_MA
      | WAITING_M \<Rightarrow> WAITING_MA
      | READING_M \<Rightarrow> READING_MA
      | INVALID_DATA_M \<Rightarrow> INVALID_DATA_MA
      | NEW_VALID_DATA_M \<Rightarrow> NEW_VALID_DATA_MA)"

text \<open>The digits follow the start sentinel, so they are read from index 1 on.\<close>

definition id_of_content :: "u8 list \<Rightarrow> u8 list" where
  "id_of_content data = map (\<lambda>i. (data ! (i + 1) AND 0x0F) OR 0x30) [0..<ID_SIZE] @ [0]"

definition get_data_ma :: "magnetic \<Rightarrow> u8 list" where
  "get_data_ma s =
     (case get_data s of
        Some data \<Rightarrow> id_of_content data
      | None \<Rightarrow> replicate (ID_SIZE + 1) 0)"

section \<open>The list of cards\<close>

definition N_CARDS :: nat where "N_CARDS = 10"

definition ROW :: nat where "ROW = ID_SIZE + 1"

definition card_row :: "string \<Rightarrow> u8 list" where
  "card_row s = bytes_of s @ replicate (ROW - length s) 0"

definition initial_Cards :: "u8 list" where
  "initial_Cards = concat (map card_row
     [''60612683'', ''46605701'', ''60105667'', ''45176601'',
      [], [], [], [], [], []])"

text \<open>The loop of \<^verbatim>\<open>compareArrays\<close> from index \<open>i\<close> on; \<open>off\<close> is where \<open>b\<close> points to.\<close>

function compare_from :: "nat \<Rightarrow> nat \<Rightarrow> u8 list \<Rightarrow> u8 list \<Rightarrow> nat \<Rightarrow> bool result" where
  "compare_from i n a b off =
     (if i < n
      then bindR (rd a i) (\<lambda>x. bindR (rd b (off + i)) (\<lambda>y.
             if x \<noteq> y then Inr False else compare_from (i + 1) n a b off))
      else Inr True)"
  by pat_completeness auto
termination by (relation "measure (\<lambda>(i, n, a, b, off). n - i)") auto

declare compare_from.simps [simp del]

definition compareArrays :: "u8 list \<Rightarrow> u8 list \<Rightarrow> nat \<Rightarrow> nat \<Rightarrow> bool result" where
  "compareArrays a b off size_of_arrays = compare_from 1 size_of_arrays a b off"

function search_from :: "nat \<Rightarrow> u8 list \<Rightarrow> u8 list \<Rightarrow> bool result" where
  "search_from i uid cards =
     (if i < N_CARDS
      then bindR (compareArrays uid cards (i * ROW) ID_SIZE) (\<lambda>eq.
             if eq then Inr True else search_from (i + 1) uid cards)
      else Inr False)"
  by pat_completeness auto
termination by (relation "measure (\<lambda>(i, uid, cards). N_CARDS - i)") auto

declare search_from.simps [simp del]

definition search_id_in_list :: "u8 list \<Rightarrow> u8 list \<Rightarrow> bool result" where
  "search_id_in_list cards uid = search_from 0 uid cards"

section \<open>Editing the list from the web page\<close>

text \<open>
  \<open>pcValue\<close> holds the values of the request's parameters as C strings; a parameter without a
  value is a null pointer. The lock around the loop is part of the task model.
\<close>

function cards_loop :: "nat \<Rightarrow> nat \<Rightarrow> u8 list option list \<Rightarrow> u8 list \<Rightarrow> u8 list result" where
  "cards_loop i iNumParams pcValue cards =
     (if i < iNumParams
      then bindR (rd pcValue i) (\<lambda>v.
             case v of
               None \<Rightarrow> Inl Null_Dereference
             | Some t \<Rightarrow> bindR (write_bytes cards (i * ROW) (t @ [0]))
                           (cards_loop (i + 1) iNumParams pcValue))
      else Inr cards)"
  by pat_completeness auto
termination by (relation "measure (\<lambda>(i, n, v, c). n - i)") auto

declare cards_loop.simps [simp del]

definition CardsCGIhandler :: "nat \<Rightarrow> u8 list option list \<Rightarrow> u8 list \<Rightarrow> u8 list result" where
  "CardsCGIhandler iNumParams pcValue cards = cards_loop 0 iNumParams pcValue cards"

section \<open>What the search computes\<close>

definition row_matches :: "u8 list \<Rightarrow> u8 list \<Rightarrow> nat \<Rightarrow> bool" where
  "row_matches cards uid i \<longleftrightarrow> (\<forall>j \<in> {1..<ID_SIZE}. uid ! j = cards ! (i * ROW + j))"

lemma compared_indices: "{1..<ID_SIZE} = {1, 2, 3, 4, 5, 6, 7}"
  by (auto simp: ID_SIZE_def)

lemma compare_from_spec:
  "\<lbrakk>n \<le> length a; off + n \<le> length b\<rbrakk> \<Longrightarrow>
     compare_from i n a b off = Inr (\<forall>j \<in> {i..<n}. a ! j = b ! (off + j))"
proof (induction i n a b off rule: compare_from.induct)
  case (1 i n a b off)
  show ?case
  proof (cases "i < n")
    case True
    have "{i..<n} = insert i {i + 1..<n}" using True by auto
    with True 1 show ?thesis by (subst compare_from.simps) (simp add: rd_def)
  qed (subst compare_from.simps, simp)
qed

lemma row_bound: "i < N_CARDS \<Longrightarrow> i * ROW + ROW \<le> N_CARDS * ROW"
  by (metis Suc_leI add.commute mult_Suc mult_le_mono1)

lemma compareArrays_row:
  assumes "i < N_CARDS" "length cards = N_CARDS * ROW" "ID_SIZE \<le> length uid"
  shows "compareArrays uid cards (i * ROW) ID_SIZE = Inr (row_matches cards uid i)"
proof -
  have "i * ROW + ID_SIZE \<le> length cards"
    using row_bound [OF assms(1)] assms(2) by (simp add: ROW_def)
  then show ?thesis
    using assms(3) by (simp add: compareArrays_def compare_from_spec row_matches_def)
qed

lemma search_from_spec:
  "\<lbrakk>length cards = N_CARDS * ROW; ID_SIZE \<le> length uid\<rbrakk> \<Longrightarrow>
     search_from i uid cards = Inr (\<exists>k \<in> {i..<N_CARDS}. row_matches cards uid k)"
proof (induction i uid cards rule: search_from.induct)
  case (1 i uid cards)
  show ?case
  proof (cases "i < N_CARDS")
    case True
    have "{i..<N_CARDS} = insert i {i + 1..<N_CARDS}" using True by auto
    with True 1 show ?thesis
      by (subst search_from.simps) (simp add: compareArrays_row)
  qed (subst search_from.simps, simp)
qed

lemma search_spec:
  assumes "length cards = N_CARDS * ROW" "ID_SIZE \<le> length uid"
  shows "search_id_in_list cards uid = Inr (\<exists>k < N_CARDS. row_matches cards uid k)"
  using search_from_spec [OF assms, of 0] by (auto simp: search_id_in_list_def)

lemma length_initial_Cards [simp]: "length initial_Cards = N_CARDS * ROW"
  by (simp add: initial_Cards_def card_row_def ROW_def ID_SIZE_def N_CARDS_def)

lemma length_get_data_ma [simp]: "length (get_data_ma s) = ROW"
  by (simp add: get_data_ma_def id_of_content_def ROW_def split: option.splits)

section \<open>What the editor does\<close>

text \<open>Whether a value fits its row, and the effect of a run of values that all do.\<close>

definition row_of :: "u8 list \<Rightarrow> nat \<Rightarrow> u8 list" where
  "row_of cards i = take ROW (drop (i * ROW) cards)"

lemma nth_row_of:
  assumes "length cards = N_CARDS * ROW" "i < N_CARDS" "j < ROW"
  shows "row_of cards i ! j = cards ! (i * ROW + j)"
  using assms row_bound [OF assms(2)] by (simp add: row_of_def)

lemma write_row:
  assumes len: "length cards = N_CARDS * ROW" and i: "i < N_CARDS"
    and fits: "length t \<le> ID_SIZE"
    and w: "write_bytes cards (i * ROW) (t @ [0]) = Inr cards'"
  shows "length cards' = N_CARDS * ROW"
    and "row_of cards' i = t @ 0 # drop (Suc (length t)) (row_of cards i)"
    and "k < N_CARDS \<Longrightarrow> k \<noteq> i \<Longrightarrow> row_of cards' k = row_of cards k"
proof -
  note nth = write_bytes_nth [OF w]
  show len': "length cards' = N_CARDS * ROW" using nth(1) len by simp
  have b: "i * ROW + ROW \<le> N_CARDS * ROW" by (rule row_bound [OF i])
  show "row_of cards' i = t @ 0 # drop (Suc (length t)) (row_of cards i)"
  proof (rule nth_equalityI)
    show "length (row_of cards' i) = length (t @ 0 # drop (Suc (length t)) (row_of cards i))"
      using len len' b fits by (simp add: row_of_def ROW_def)
    fix j assume "j < length (row_of cards' i)"
    then have j: "j < ROW" by (simp add: row_of_def)
    have "row_of cards' i ! j = (if j < Suc (length t) then (t @ [0]) ! j else row_of cards i ! j)"
      using j b len by (simp add: nth_row_of [OF len' i j] nth_row_of [OF len i j] nth(2))
    also have "\<dots> = (t @ 0 # drop (Suc (length t)) (row_of cards i)) ! j"
    proof (cases "j < Suc (length t)")
      case True
      then show ?thesis by (auto simp: nth_append less_Suc_eq)
    next
      case False
      then obtain d where "j = Suc (length t) + d" by (metis le_Suc_ex not_less)
      then show ?thesis using j len b by (simp add: nth_append row_of_def)
    qed
    finally show "row_of cards' i ! j = (t @ 0 # drop (Suc (length t)) (row_of cards i)) ! j" .
  qed
  assume k: "k < N_CARDS" "k \<noteq> i"
  show "row_of cards' k = row_of cards k"
  proof (rule nth_equalityI)
    show "length (row_of cards' k) = length (row_of cards k)" using len len' by (simp add: row_of_def)
    fix j assume "j < length (row_of cards' k)"
    then have j: "j < ROW" by (simp add: row_of_def)
    have kb: "k * ROW + ROW \<le> N_CARDS * ROW" by (rule row_bound [OF k(1)])
    have "k * ROW + j < i * ROW \<or> i * ROW + Suc (length t) \<le> k * ROW + j"
    proof (cases "k < i")
      case True
      then have "k * ROW + ROW \<le> i * ROW" by (metis Suc_leI add.commute mult_Suc mult_le_mono1)
      with j show ?thesis by simp
    next
      case False
      with k(2) have "i * ROW + ROW \<le> k * ROW"
        by (metis Suc_leI add.commute linorder_neqE_nat mult_Suc mult_le_mono1)
      with fits show ?thesis by (simp add: ROW_def)
    qed
    then show "row_of cards' k ! j = row_of cards k ! j"
      using j kb len by (auto simp: nth_row_of [OF len' k(1) j] nth_row_of [OF len k(1) j] nth(2))
  qed
qed

lemma cards_loop_spec:
  assumes "length cards = N_CARDS * ROW" "length vs = n" "n \<le> N_CARDS"
    and "\<forall>t \<in> set vs. length t \<le> ID_SIZE"
  shows "\<exists>cards'. cards_loop i n (map Some vs) cards = Inr cards' \<and>
    length cards' = N_CARDS * ROW \<and>
    (\<forall>k < N_CARDS. row_of cards' k =
      (if i \<le> k \<and> k < n then vs ! k @ 0 # drop (Suc (length (vs ! k))) (row_of cards k)
       else row_of cards k))"
  using assms
proof (induction "n - i" arbitrary: i cards)
  case 0
  then show ?case by (subst cards_loop.simps) auto
next
  case (Suc x)
  have i: "i < n" "i < N_CARDS" and fits: "length (vs ! i) \<le> ID_SIZE" using Suc by auto
  let ?t = "vs ! i"
  have "i * ROW + length (?t @ [0]) \<le> length cards"
    using row_bound [OF i(2)] fits Suc.prems(1) by (simp add: ROW_def)
  then obtain c where w: "write_bytes cards (i * ROW) (?t @ [0]) = Inr c"
    by (simp add: write_bytes_def)
  note row = write_row [OF Suc.prems(1) i(2) fits w]
  have "x = n - (i + 1)" using Suc.hyps(2) by simp
  from Suc.hyps(1) [OF this row(1) Suc.prems(2-4)] obtain c' where
    c': "cards_loop (i + 1) n (map Some vs) c = Inr c'" "length c' = N_CARDS * ROW"
    "\<And>k. k < N_CARDS \<Longrightarrow> row_of c' k =
      (if i + 1 \<le> k \<and> k < n then vs ! k @ 0 # drop (Suc (length (vs ! k))) (row_of c k)
       else row_of c k)"
    by blast
  have "cards_loop i n (map Some vs) cards = Inr c'"
    using i Suc.prems(2) w c'(1) by (subst cards_loop.simps) (simp add: rd_def)
  moreover have "row_of c' k =
      (if i \<le> k \<and> k < n then vs ! k @ 0 # drop (Suc (length (vs ! k))) (row_of cards k)
       else row_of cards k)" if "k < N_CARDS" for k
    using c'(3) [OF that] row(2) row(3) [OF that] i by (cases "k = i") auto
  ultimately show ?case using c'(2) by blast
qed

lemma row_matches_cong:
  assumes "row_of cards k = row_of cards' k" "length cards = N_CARDS * ROW"
    "length cards' = N_CARDS * ROW" "k < N_CARDS"
  shows "row_matches cards uid k = row_matches cards' uid k"
proof -
  have "cards ! (k * ROW + j) = cards' ! (k * ROW + j)" if "j < ID_SIZE" for j
    using that assms nth_row_of [of cards k j] nth_row_of [of cards' k j] by (simp add: ROW_def)
  then show ?thesis by (simp add: row_matches_def)
qed

section \<open>Properties\<close>

text \<open>C22: the search compares the characters 2 to 8 of the number with those of each of the ten
  rows, never reads outside the list and stops at the first row that agrees.\<close>

theorem search_functional:
  assumes "length cards = N_CARDS * ROW" and "ID_SIZE \<le> length uid"
  shows "search_id_in_list cards uid =
    Inr (\<exists>k < N_CARDS. \<forall>j \<in> {1..<ID_SIZE}. uid ! j = row_of cards k ! j)"
proof -
  have "row_matches cards uid k = (\<forall>j \<in> {1..<ID_SIZE}. uid ! j = row_of cards k ! j)"
    if "k < N_CARDS" for k
    using that nth_row_of [OF assms(1) that] by (simp add: row_matches_def ROW_def)
  then show ?thesis using search_spec [OF assms] by auto
qed

theorem search_functional_witness:
  "search_id_in_list initial_Cards (bytes_of ''46605701'') = Inr True"
proof -
  have "\<exists>k < N_CARDS. \<forall>j \<in> {1..<ID_SIZE}. bytes_of ''46605701'' ! j = row_of initial_Cards k ! j"
    unfolding compared_indices
    by (intro exI [of _ 1])
      (simp add: N_CARDS_def row_of_def initial_Cards_def card_row_def ROW_def ID_SIZE_def bytes_of_def)
  then show ?thesis
    using search_functional [of initial_Cards "bytes_of ''46605701''"] by (simp add: ID_SIZE_def)
qed

text \<open>the first digit does not count. The loop of \<^verbatim>\<open>compareArrays\<close> starts at index 1, so
  two card numbers that differ in nothing but the first digit are both admitted or both
  refused.\<close>

theorem first_digit_ignored:
  assumes "length cards = N_CARDS * ROW" and "ID_SIZE \<le> length uid" and "ID_SIZE \<le> length uid'"
    and "take (ID_SIZE - 1) (tl uid) = take (ID_SIZE - 1) (tl uid')"
  shows "search_id_in_list cards uid = search_id_in_list cards uid'"
proof -
  have "uid ! j = uid' ! j" if j: "j \<in> {1..<ID_SIZE}" for j
  proof -
    have "take (ID_SIZE - 1) (tl uid) ! (j - 1) = take (ID_SIZE - 1) (tl uid') ! (j - 1)"
      by (simp only: assms(4))
    moreover have "j - 1 < length (tl uid)" "j - 1 < length (tl uid')" "j - 1 < ID_SIZE - 1" "Suc (j - 1) = j"
      using j assms(2,3) by auto
    ultimately show ?thesis by (simp add: nth_tl)
  qed
  then show ?thesis using assms(1-3) by (simp add: search_spec row_matches_def)
qed

theorem first_digit_ignored_witness:
  "search_id_in_list initial_Cards (bytes_of ''90612683'')
     = search_id_in_list initial_Cards (bytes_of ''60612683'')"
  by (rule first_digit_ignored) (simp_all add: ID_SIZE_def bytes_of_def)

text \<open>C31: a request with at most ten values of at most eight characters each is stored as sent:
  the handler does not fault, row \<open>k\<close> then holds value \<open>k\<close> as a C string, and the rows
  behind the last value keep what they held.\<close>

theorem cards_update_stores:
  assumes "length cards = N_CARDS * ROW" and "length vs \<le> N_CARDS"
    and "\<forall>t \<in> set vs. length t \<le> ID_SIZE \<and> 0 \<notin> set t"
  shows "\<exists>cards'. CardsCGIhandler (length vs) (map Some vs) cards = Inr cards' \<and>
    length cards' = N_CARDS * ROW \<and>
    (\<forall>k < length vs. c_str (row_of cards' k) = vs ! k) \<and>
    (\<forall>k. length vs \<le> k \<and> k < N_CARDS \<longrightarrow> row_of cards' k = row_of cards k)"
proof -
  obtain cards' where c: "cards_loop 0 (length vs) (map Some vs) cards = Inr cards'"
    "length cards' = N_CARDS * ROW"
    and r: "\<forall>k < N_CARDS. row_of cards' k =
      (if 0 \<le> k \<and> k < length vs
       then vs ! k @ 0 # drop (Suc (length (vs ! k))) (row_of cards k) else row_of cards k)"
    using cards_loop_spec [OF assms(1) refl assms(2), of 0] assms(3) by blast
  have "c_str (row_of cards' k) = vs ! k" if "k < length vs" for k
    using r that assms(2,3) nth_mem [OF that] by (simp add: c_str_append_nul)
  then show ?thesis using c r by (auto simp: CardsCGIhandler_def)
qed

theorem cards_update_stores_witness:
  "\<exists>cards'. CardsCGIhandler 2 (map Some [bytes_of ''11111111'', bytes_of ''222'']) initial_Cards
      = Inr cards' \<and> c_str (row_of cards' 1) = bytes_of ''222''
      \<and> row_of cards' 2 = row_of initial_Cards 2"
proof -
  let ?vs = "[bytes_of ''11111111'', bytes_of ''222'']"
  have n: "length ?vs = 2" by simp
  have "length ?vs \<le> N_CARDS" "\<forall>t \<in> set ?vs. length t \<le> ID_SIZE \<and> 0 \<notin> set t"
    by (simp_all add: N_CARDS_def ID_SIZE_def bytes_of_def)
  from cards_update_stores [OF length_initial_Cards this, unfolded n] obtain c
    where "CardsCGIhandler 2 (map Some ?vs) initial_Cards = Inr c"
      and "\<forall>k < 2. c_str (row_of c k) = ?vs ! k"
      and "\<forall>k. 2 \<le> k \<and> k < N_CARDS \<longrightarrow> row_of c k = row_of initial_Cards k" by blast
  then show ?thesis by (intro exI [of _ c]) (simp add: N_CARDS_def)
qed

text \<open>C39: clearing a row does not revoke the card. When the value of a row is sent empty,
  \<^verbatim>\<open>strcpy\<close> only zeroes the row's first character, which the search never looks at, so every
  number that was admitted is still admitted.\<close>

theorem cleared_card_still_admitted:
  assumes "length cards = N_CARDS * ROW" and "ID_SIZE \<le> length uid" and "n \<le> N_CARDS"
  shows "\<exists>cards'. CardsCGIhandler n (replicate n (Some [])) cards = Inr cards' \<and>
    (\<forall>k < n. c_str (row_of cards' k) = []) \<and>
    search_id_in_list cards' uid = search_id_in_list cards uid"
proof -
  let ?vs = "replicate n ([] :: u8 list)"
  obtain cards' where c: "cards_loop 0 n (map Some ?vs) cards = Inr cards'"
    and len: "length cards' = N_CARDS * ROW"
    and r: "\<forall>k < N_CARDS. row_of cards' k =
      (if 0 \<le> k \<and> k < n then ?vs ! k @ 0 # drop (Suc (length (?vs ! k))) (row_of cards k)
       else row_of cards k)"
    using cards_loop_spec [OF assms(1), of ?vs n 0] assms(3) by auto
  have rows: "row_of cards' k = 0 # drop 1 (row_of cards k)" if "k < n" for k
    using r that assms(3) by simp
  have "row_matches cards' uid k = row_matches cards uid k" if k: "k < N_CARDS" for k
  proof (cases "k < n")
    case True
    have "cards' ! (k * ROW + j) = cards ! (k * ROW + j)" if j: "j \<in> {1..<ID_SIZE}" for j
    proof -
      have "j < ROW" using j by (simp add: ROW_def)
      then have "cards' ! (k * ROW + j) = (0 # drop 1 (row_of cards k)) ! j"
        using nth_row_of [OF len k, of j] rows [OF True] by simp
      also have "\<dots> = row_of cards k ! j"
        using j row_bound [OF k] assms(1) by (cases j) (auto simp: row_of_def ROW_def ID_SIZE_def)
      finally show ?thesis using nth_row_of [OF assms(1) k \<open>j < ROW\<close>] by simp
    qed
    then show ?thesis by (simp add: row_matches_def)
  next
    case False
    then show ?thesis using r k by (intro row_matches_cong [OF _ len assms(1) k]) simp
  qed
  then have "search_id_in_list cards' uid = search_id_in_list cards uid"
    using search_spec [OF len assms(2)] search_spec [OF assms(1,2)] by auto
  moreover have "\<forall>k < n. c_str (row_of cards' k) = []" using rows by (simp add: c_str_def)
  ultimately show ?thesis using c by (auto simp: CardsCGIhandler_def)
qed

theorem cleared_card_still_admitted_witness:
  "\<exists>cards'. CardsCGIhandler 10 (replicate 10 (Some [])) initial_Cards = Inr cards' \<and>
     search_id_in_list cards' (bytes_of ''60612683'')
       = search_id_in_list initial_Cards (bytes_of ''60612683'')"
  using cleared_card_still_admitted [OF length_initial_Cards, of "bytes_of ''60612683''" 10]
  by (auto simp: ID_SIZE_def N_CARDS_def bytes_of_def)

text \<open>an over-long value leaves its row. A value of nine to seventeen characters sent for the
  first row overwrites the second row with the characters from the tenth on, and a value of
  ninety characters or more is written behind the array.\<close>

theorem long_value_overflows:
  assumes "length cards = N_CARDS * ROW" and "0 \<notin> set t" and "ROW \<le> length t"
  shows "if length t < N_CARDS * ROW
    then \<exists>cards'. CardsCGIhandler 1 [Some t] cards = Inr cards' \<and>
      (length t < ROW + ROW \<longrightarrow> c_str (row_of cards' 1) = drop ROW t)
    else CardsCGIhandler 1 [Some t] cards = Inl Out_Of_Bounds"
proof -
  have step: "CardsCGIhandler 1 [Some t] cards
      = bindR (write_bytes cards 0 (t @ [0])) (cards_loop (0 + 1) 1 [Some t])"
    unfolding CardsCGIhandler_def by (subst cards_loop.simps) (simp add: rd_def)
  have last: "cards_loop (0 + 1) 1 [Some t] c = Inr c" for c
    by (subst cards_loop.simps) simp
  show ?thesis
  proof (cases "length t < N_CARDS * ROW")
    case True
    let ?c = "t @ 0 # drop (Suc (length t)) cards"
    have "CardsCGIhandler 1 [Some t] cards = Inr ?c"
      unfolding step using True assms(1) last by (simp add: write_bytes_def)
    moreover have "c_str (row_of ?c 1) = drop ROW t" if l: "length t < ROW + ROW"
    proof -
      have "row_of ?c 1 = drop ROW t @ 0 # take (ROW + ROW - Suc (length t)) (drop (Suc (length t)) cards)"
        using l assms(3) by (simp add: row_of_def take_Cons' Suc_diff_le diff_diff_add)
      moreover have "0 \<notin> set (drop ROW t)" using assms(2) by (auto dest: in_set_dropD)
      ultimately show ?thesis by (simp add: c_str_append_nul)
    qed
    ultimately show ?thesis using True by auto
  next
    case False
    then show ?thesis unfolding step using assms(1) by (simp add: write_bytes_def)
  qed
qed

theorem long_value_overflows_witness:
  "CardsCGIhandler 1 [Some (replicate 90 0x31)] initial_Cards = Inl Out_Of_Bounds \<and>
   (\<exists>cards'. CardsCGIhandler 1 [Some (bytes_of ''606126839'')] initial_Cards = Inr cards' \<and>
      c_str (row_of cards' 1) = [])"
  using long_value_overflows [OF length_initial_Cards, of "replicate 90 0x31"]
    long_value_overflows [OF length_initial_Cards, of "bytes_of ''606126839''"]
  by (simp add: ROW_def ID_SIZE_def N_CARDS_def bytes_of_def)

end
