(* ===== verification/Web_Config.thy ===== *)
theory Web_Config
  imports Cards
begin

text \<open>
  The configuration pages of \<^verbatim>\<open>source/main.c\<close>: the handlers for the requests that set the
  address of the mails, the cards and the watched area, and the texts that are inserted into the
  pages, together with the two routines of the server (\<^verbatim>\<open>lwip/src/apps/httpd/httpd.c\<close>) that
  take a request apart and look a tag up. A C string is the list of its bytes without the
  terminator; the locks around the handlers are part of the task model.
\<close>

section \<open>Requests\<close>

definition N_CGI_HANDLERS :: nat where "N_CGI_HANDLERS = 4"
definition N_SSI_TAGS :: nat where "N_SSI_TAGS = 14"
definition XMIN :: int where "XMIN = 127"
definition XMAX :: int where "XMAX = 871"
definition YMIN :: int where "YMIN = 153"
definition YMAX :: int where "YMAX = 711"

definition LWIP_HTTPD_MAX_CGI_PARAMETERS :: nat where "LWIP_HTTPD_MAX_CGI_PARAMETERS = 16"
definition LWIP_HTTPD_MAX_TAG_NAME_LEN :: nat where "LWIP_HTTPD_MAX_TAG_NAME_LEN = 8"
definition LWIP_HTTPD_MAX_TAG_INSERT_LEN :: nat where "LWIP_HTTPD_MAX_TAG_INSERT_LEN = 192"

text \<open>\<open>strchr\<close>: what stands before the first \<open>c\<close>, and what follows it when there is one.\<close>

fun strcut :: "u8 \<Rightarrow> u8 list \<Rightarrow> u8 list \<times> u8 list option" where
  "strcut c [] = ([], None)"
| "strcut c (x # xs) = (if x = c then ([], Some xs)
     else let (a, r) = strcut c xs in (x # a, r))"

text \<open>The loop over the parameters; the number says how many more have a place.\<close>

fun extract_pairs :: "nat \<Rightarrow> u8 list \<Rightarrow> (u8 list \<times> u8 list option) list" where
  "extract_pairs 0 p = []"
| "extract_pairs (Suc n) p =
     (case strcut 38 p of
        (q, Some rest) \<Rightarrow> strcut 61 q # extract_pairs n rest
      | (q, None) \<Rightarrow> [strcut 61 (fst (strcut 32 q))])"

definition extract_uri_parameters :: "u8 list option \<Rightarrow> nat \<times> u8 list option list" where
  "extract_uri_parameters params =
     (let ps = (case params of
                  None \<Rightarrow> []
                | Some p \<Rightarrow> if p = [] then []
                             else extract_pairs LWIP_HTTPD_MAX_CGI_PARAMETERS p)
      in (length ps, map snd ps @ replicate (LWIP_HTTPD_MAX_CGI_PARAMETERS - length ps) None))"

section \<open>The handlers\<close>

record web_state =
  email_to :: "u8 list"
  Area :: "int list"
  Cards :: "u8 list"

text \<open>Index \<open>length v\<close> reads the terminator; the loop ends when \<open>i\<close> has passed it.\<close>

function email_loop :: "nat \<Rightarrow> nat \<Rightarrow> u8 list \<Rightarrow> u8 list \<Rightarrow> u8 list result" where
  "email_loop i j v buf =
     (if i \<le> length v
      then bindR (rd (v @ [0]) i) (\<lambda>c.
             if c = 37 then bindR (wr buf i 64) (email_loop (i + 3) (j + 1) v)
             else bindR (wr buf j c) (email_loop (i + 1) (j + 1) v))
      else Inr buf)"
  by pat_completeness auto
termination by (relation "measure (\<lambda>(i, j, v, b). Suc (length v) - i)") auto

declare email_loop.simps [simp del]

definition value_of :: "u8 list option list \<Rightarrow> nat \<Rightarrow> u8 list result" where
  "value_of pcValue i = bindR (rd pcValue i) (\<lambda>v.
     case v of None \<Rightarrow> Inl Null_Dereference | Some t \<Rightarrow> Inr t)"

definition EmailCGIhandler ::
    "nat \<Rightarrow> u8 list option list \<Rightarrow> web_state \<Rightarrow> (string \<times> web_state) result" where
  "EmailCGIhandler iIndex pcValue s =
     (if iIndex = 1
      then bindR (value_of pcValue 0) (\<lambda>v. bindR (email_loop 0 0 v (email_to s)) (\<lambda>b.
           Inr (''/index.shtml'', s\<lparr>email_to := b\<rparr>)))
      else Inr (''/index.shtml'', s))"

text \<open>\<open>atoi\<close>; a number that is not an \<open>int\<close> has no defined result.\<close>

definition isspace :: "u8 \<Rightarrow> bool" where
  "isspace c \<longleftrightarrow> c = 32 \<or> 9 \<le> c \<and> c \<le> 13"

definition isdigit :: "u8 \<Rightarrow> bool" where
  "isdigit c \<longleftrightarrow> 48 \<le> c \<and> c \<le> 57"

definition digits_value :: "u8 list \<Rightarrow> int" where
  "digits_value ds = foldl (\<lambda>n d. 10 * n + (uint d - 48)) 0 ds"

definition atoi :: "u8 list \<Rightarrow> int result" where
  "atoi t =
     (let s = dropWhile isspace t;
          neg = (s \<noteq> [] \<and> hd s = 45);
          u = (if s \<noteq> [] \<and> (hd s = 45 \<or> hd s = 43) then tl s else s);
          n = digits_value (takeWhile isdigit u);
          v = (if neg then - n else n)
      in if - (2 ^ 31) \<le> v \<and> v < 2 ^ 31 then Inr v else Inl Bad_Conversion)"

definition area_step :: "int \<Rightarrow> int \<Rightarrow> u8 list option list \<Rightarrow> nat \<Rightarrow> int list \<Rightarrow> int list result" where
  "area_step lo hi pcValue i A =
     bindR (value_of pcValue i) (\<lambda>t. bindR (atoi t) (\<lambda>n.
     wr A i (if n < lo then lo else if hi < n then hi else n)))"

definition AreaCGIhandler ::
    "nat \<Rightarrow> u8 list option list \<Rightarrow> web_state \<Rightarrow> (string \<times> web_state) result" where
  "AreaCGIhandler iNumParams pcValue s =
     bindR (foldR (area_step XMIN XMAX pcValue) [0..<2] (Area s)) (\<lambda>A.
     bindR (foldR (area_step YMIN YMAX pcValue) [2..<iNumParams] A) (\<lambda>B.
     Inr (''/index.shtml'', s\<lparr>Area := B\<rparr>)))"

definition UpdateCGIhandler :: "web_state \<Rightarrow> (string \<times> web_state) result" where
  "UpdateCGIhandler s = Inr (''/index.shtml'', s)"

definition CardsCGIpage ::
    "nat \<Rightarrow> u8 list option list \<Rightarrow> web_state \<Rightarrow> (string \<times> web_state) result" where
  "CardsCGIpage iNumParams pcValue s = bindR (CardsCGIhandler iNumParams pcValue (Cards s)) (\<lambda>c.
     Inr (''/Web_cards.shtml'', s\<lparr>Cards := c\<rparr>))"

datatype cgi = AreaCGI | EmailCGI | CardsCGI | UpdateCGI

primrec pcCGIName :: "cgi \<Rightarrow> string" where
  "pcCGIName EmailCGI = ''/email.cgi''"
| "pcCGIName CardsCGI = ''/cards.cgi''"
| "pcCGIName AreaCGI = ''/area.cgi''"
| "pcCGIName UpdateCGI = ''/update.cgi''"

primrec pfnCGIHandler ::
    "cgi \<Rightarrow> nat \<Rightarrow> nat \<Rightarrow> u8 list option list \<Rightarrow> web_state \<Rightarrow> (string \<times> web_state) result" where
  "pfnCGIHandler EmailCGI i n v = EmailCGIhandler i v"
| "pfnCGIHandler CardsCGI i n v = CardsCGIpage n v"
| "pfnCGIHandler AreaCGI i n v = AreaCGIhandler n v"
| "pfnCGIHandler UpdateCGI i n v = UpdateCGIhandler"

definition theCGItable :: "cgi list" where
  "theCGItable = [AreaCGI, EmailCGI, CardsCGI, UpdateCGI]"

text \<open>
  The part of \<^verbatim>\<open>http_find_file\<close> that serves a request: the name before the question mark is
  compared with the table, in order; without a match the name itself is the page.
\<close>

fun find_cgi :: "nat \<Rightarrow> cgi list \<Rightarrow> u8 list \<Rightarrow> (nat \<times> cgi) option" where
  "find_cgi i [] base = None"
| "find_cgi i (c # cs) base =
     (if base = bytes_of (pcCGIName c) then Some (i, c) else find_cgi (i + 1) cs base)"

definition serve_uri :: "u8 list \<Rightarrow> web_state \<Rightarrow> (u8 list \<times> web_state) result" where
  "serve_uri uri s =
     (let (base, params) = strcut 63 uri in
      case find_cgi 0 theCGItable base of
        None \<Rightarrow> Inr (base, s)
      | Some (i, c) \<Rightarrow>
          let (n, vals) = extract_uri_parameters params in
          bindR (pfnCGIHandler c i n vals s) (\<lambda>(page, t). Inr (bytes_of page, t)))"

section \<open>Texts inserted into a page\<close>

fun dec :: "nat \<Rightarrow> u8 list" where
  "dec n = (if n < 10 then [of_nat (48 + n)] else dec (n div 10) @ [of_nat (48 + n mod 10)])"

declare dec.simps [simp del]

text \<open>The bytes of the C string at index \<open>k\<close> of an array; the string must end inside it.\<close>

definition str_at :: "u8 list \<Rightarrow> nat \<Rightarrow> u8 list result" where
  "str_at xs k = (if 0 \<in> set (drop k xs) then Inr (c_str (drop k xs)) else Inl Out_Of_Bounds)"

definition put_insert :: "u8 list \<Rightarrow> u8 list \<Rightarrow> (nat \<times> u8 list) result" where
  "put_insert t pcInsert = bindR (write_bytes pcInsert 0 (t @ [0])) (\<lambda>b. Inr (length t, b))"

definition snprintf_200 :: "u8 list \<Rightarrow> u8 list" where
  "snprintf_200 t = take 199 t"

definition card_input :: "nat \<Rightarrow> u8 list \<Rightarrow> u8 list" where
  "card_input i num =
     (let b = (if 9 < i
               then ''\" type=\"text\" class=\"fieldCard\" pattern=\"[0-9]{8}\" placeholder=\"Card ''
               else ''\" type=\"text\" class=\"fieldCard\" pattern=\"[0-9]{8}\" placeholder=\"Card 0'');
          c = (if 9 < i then ''\" name=\"Card'' else ''\" name=\"Card0'')
      in bytes_of ''<input value=\"'' @ num @ bytes_of b @ dec i @ bytes_of c @ dec i @
         bytes_of ''\">'')"

definition image_html :: "u8 list" where
  "image_html = bytes_of ''<img class=\"center selectDisable\" src=\"Resources/Image.svg\" alt=\"Security Camera\" style=\"width:640px;height:480px\">''"

definition mySSIHandler :: "nat \<Rightarrow> web_state \<Rightarrow> u8 list \<Rightarrow> (nat \<times> u8 list) result" where
  "mySSIHandler iIndex s pcInsert =
     (if iIndex = 0 then
        bindR (str_at (email_to s) 0) (\<lambda>e.
        put_insert (snprintf_200 (bytes_of ''<input value=\"'' @ e @
          bytes_of ''\" type=\"email\" class=\"fieldEmail\" placeholder=\"Email...\" name=\"email\">'')) pcInsert)
      else if iIndex = 1 then
        put_insert image_html pcInsert
      else if 2 \<le> iIndex \<and> iIndex \<le> 11 then
        let i = iIndex - 1 in
        bindR (str_at (Cards s) ((i - 1) * ROW)) (\<lambda>num.
        put_insert (snprintf_200 (card_input i num)) pcInsert)
      else Inr (0, pcInsert))"

text \<open>The table of tags has more places than names; the others are null pointers.\<close>

definition theSSItags :: "u8 list option list" where
  "theSSItags = map (Some \<circ> bytes_of)
     [''mail'', ''image'', ''card01'', ''card02'', ''card03'', ''card04'', ''card05'', ''card06'',
      ''card07'', ''card08'', ''card09'', ''card10''] @ [None, None]"

fun find_tag :: "nat \<Rightarrow> u8 list option list \<Rightarrow> u8 list \<Rightarrow> nat option result" where
  "find_tag i [] name = Inr None"
| "find_tag i (None # ts) name = Inl Null_Dereference"
| "find_tag i (Some t # ts) name = (if name = t then Inr (Some i) else find_tag (i + 1) ts name)"

definition unknown_text :: "u8 list \<Rightarrow> u8 list" where
  "unknown_text name = bytes_of ''<b>***UNKNOWN TAG '' @
     take (min (LWIP_HTTPD_MAX_TAG_NAME_LEN + 1)
       (min (length name) (LWIP_HTTPD_MAX_TAG_INSERT_LEN - 25))) name @ bytes_of ''***</b>''"

definition get_tag_insert :: "u8 list \<Rightarrow> web_state \<Rightarrow> u8 list \<Rightarrow> (nat \<times> u8 list) result" where
  "get_tag_insert name s tag_insert =
     bindR (find_tag 0 theSSItags name) (\<lambda>t.
     case t of
       Some i \<Rightarrow> mySSIHandler i s tag_insert
     | None \<Rightarrow> put_insert (unknown_text name) tag_insert)"

section \<open>Taking a request apart\<close>

lemma strcut_append: "c \<notin> set a \<Longrightarrow> strcut c (a @ c # r) = (a, Some r)"
  by (induction a) auto

lemma strcut_none: "c \<notin> set a \<Longrightarrow> strcut c a = (a, None)"
  by (induction a) auto

lemma find_cgi_simps:
  "find_cgi 0 theCGItable (bytes_of ''/area.cgi'') = Some (0, AreaCGI)"
  "find_cgi 0 theCGItable (bytes_of ''/email.cgi'') = Some (1, EmailCGI)"
  "find_cgi 0 theCGItable (bytes_of ''/cards.cgi'') = Some (2, CardsCGI)"
  "find_cgi 0 theCGItable (bytes_of ''/update.cgi'') = Some (3, UpdateCGI)"
  by (simp_all add: theCGItable_def bytes_of_def)

lemma one_parameter:
  assumes "38 \<notin> set name" and "38 \<notin> set v" and "61 \<notin> set name" and "32 \<notin> set name" and "32 \<notin> set v"
  shows "extract_uri_parameters (Some (name @ 61 # v)) = (1, Some v # replicate 15 None)"
proof -
  have "strcut 38 (name @ 61 # v) = (name @ 61 # v, None)" using assms by (intro strcut_none) auto
  moreover have "strcut 32 (name @ 61 # v) = (name @ 61 # v, None)" using assms by (intro strcut_none) auto
  ultimately have "\<And>n. extract_pairs (Suc n) (name @ 61 # v) = [(name, Some v)]"
    using strcut_append [OF assms(3), of v] by simp
  moreover have "(16 :: nat) = Suc 15" by simp
  ultimately have "extract_pairs 16 (name @ 61 # v) = [(name, Some v)]" by (simp only:)
  then show ?thesis
    by (simp add: extract_uri_parameters_def Let_def LWIP_HTTPD_MAX_CGI_PARAMETERS_def)
qed

section \<open>The address of the mails\<close>

lemma email_run:
  "37 \<notin> set w \<Longrightarrow> j \<le> length buf \<Longrightarrow> email_loop (length a) j (a @ w @ z) buf =
     bindR (write_bytes buf j w) (email_loop (length a + length w) (j + length w) (a @ w @ z))"
proof (induction w arbitrary: a j buf)
  case Nil
  then show ?case by (simp add: write_bytes_Nil)
next
  case (Cons c w)
  have c: "rd ((a @ (c # w) @ z) @ [0]) (length a) = Inr c" by (simp add: rd_def nth_append)
  show ?case
  proof (cases "j < length buf")
    case True
    have "email_loop (length a) j (a @ (c # w) @ z) buf =
        email_loop (length (a @ [c])) (j + 1) ((a @ [c]) @ w @ z) (buf[j := c])"
      using Cons.prems c True by (subst email_loop.simps) (simp add: wr_def)
    also have "\<dots> = bindR (write_bytes (buf[j := c]) (j + 1) w)
        (email_loop (length (a @ [c]) + length w) (j + 1 + length w) ((a @ [c]) @ w @ z))"
      using Cons.prems True by (intro Cons.IH) auto
    finally show ?thesis using True by (simp add: write_bytes_Cons wr_def)
  next
    case False
    with Cons.prems c show ?thesis by (subst email_loop.simps) (simp add: wr_def write_bytes_Cons)
  qed
qed

lemma email_past: "length v < i \<Longrightarrow> email_loop i j v buf = Inr buf"
  by (subst email_loop.simps) simp

lemma email_stop: "email_loop (length v) j v buf = wr buf j 0"
  by (subst email_loop.simps, cases "wr buf j 0") (simp_all add: rd_def email_past)

lemma email_escape:
  "email_loop (length a) j (a @ 37 # z) buf =
     bindR (wr buf (length a) 64) (email_loop (length a + 3) (j + 1) (a @ 37 # z))"
  by (subst email_loop.simps) (simp add: rd_def nth_append)

text \<open>The tail of a value without an escape, with the terminator.\<close>

lemma email_tail:
  assumes "37 \<notin> set z" and "j \<le> length buf"
  shows "email_loop (length a) j (a @ z) buf = write_bytes buf j (z @ [0])"
proof -
  have "email_loop (length a) j (a @ z @ []) buf =
      bindR (write_bytes buf j z) (email_loop (length (a @ z)) (j + length z) (a @ z))"
    using email_run [OF assms, of a "[]"] by simp
  then show ?thesis
    using email_stop [of "a @ z"]
    by (cases "write_bytes buf j z") (simp_all add: write_bytes_append write_bytes_single)
qed

text \<open>A value with one escape whose two digits are \<open>x\<close> and \<open>y\<close>.\<close>

lemma email_one_escape:
  assumes "37 \<notin> set u" and "37 \<notin> set w" and "length u + length w + 2 \<le> length buf"
  shows "email_loop 0 0 (u @ 37 # x # y # w) buf =
    Inr ((u @ 64 # w) @ 0 # drop (length u + length w + 2) buf)"
proof -
  let ?v = "u @ 37 # x # y # w"
  have "email_loop (length ([] :: u8 list)) 0 ([] @ u @ 37 # x # y # w) buf =
      bindR (write_bytes buf 0 u) (email_loop (length u) (length u) ?v)"
    using email_run [OF assms(1), of 0 buf "[]" "37 # x # y # w"] by simp
  then have "email_loop 0 0 ?v buf =
      email_loop (length u) (length u) ?v (u @ drop (length u) buf)"
    using assms(3) by (simp add: write_bytes_def)
  also have "\<dots> = email_loop (length (u @ [37, x, y])) (length u + 1) ((u @ [37, x, y]) @ w)
      ((u @ drop (length u) buf)[length u := 64])"
    using assms(3) by (simp add: email_escape wr_def numeral_3_eq_3)
  also have "\<dots> = write_bytes ((u @ drop (length u) buf)[length u := 64]) (length u + 1) (w @ [0])"
    using assms(2,3) by (intro email_tail) auto
  also have "\<dots> = Inr ((u @ 64 # w) @ 0 # drop (length u + length w + 2) buf)"
    using assms(3) by (simp add: write_bytes_def list_update_append)
      (cases "drop (length u) buf"; simp add: add.commute)
  finally show ?thesis .
qed

lemma split_buffer:
  assumes "n + m + 4 \<le> length buf"
  obtains B b0 W b1 b2 b3 C where "buf = B @ b0 # W @ b1 # b2 # b3 # C" "length B = n" "length W = m"
proof -
  obtain b0 r where r: "drop n buf = b0 # r" using assms by (cases "drop n buf") auto
  then have "length buf - n = Suc (length r)" by (metis length_Cons length_drop)
  then have lr: "m + 3 \<le> length r" using assms by simp
  obtain b1 r1 where r1: "drop m r = b1 # r1" using lr by (cases "drop m r") auto
  then have "length r - m = Suc (length r1)" by (metis length_Cons length_drop)
  then have "2 \<le> length r1" using lr by simp
  then obtain b2 b3 C where "r1 = b2 # b3 # C"
    by (metis Suc_le_length_iff numeral_2_eq_2)
  then have "buf = take n buf @ b0 # take m r @ b1 # b2 # b3 # C"
    using r r1 append_take_drop_id [of n buf] append_take_drop_id [of m r] by simp
  then show thesis using that assms lr by simp
qed

lemma email_two_escapes:
  assumes "37 \<notin> set (u @ w @ z)" and "z \<noteq> []" and "length (u @ w @ z) + 4 \<le> length buf"
  shows "email_loop 0 0 (u @ 37 # x # y # w @ 37 # x' # y' # z) buf =
    Inr (u @ 64 # w @ [buf ! (length u + length w + 1)] @ z @ 0 #
      drop (length u + length w + length z + 3) buf)"
proof -
  let ?v = "u @ 37 # x # y # w @ 37 # x' # y' # z" and ?a = "u @ [37, x, y]"
  have "length u + length w + 4 \<le> length buf" using assms(3) by simp
  then obtain B b0 W b1 b2 b3 C where b: "buf = B @ b0 # W @ b1 # b2 # b3 # C" "length B = length u"
    "length W = length w"
    by (rule split_buffer)
  obtain c z' where z: "z = c # z'" using assms(2) by (cases z) auto
  have "email_loop 0 0 ?v buf = email_loop (length u) (length u) ?v (u @ b0 # W @ b1 # b2 # b3 # C)"
    using email_run [of u 0 buf "[]"] assms b by (simp add: write_bytes_def)
  also have "\<dots> = email_loop (length ?a) (length u + 1) (?a @ w @ 37 # x' # y' # z)
      (u @ 64 # W @ b1 # b2 # b3 # C)"
    by (simp add: email_escape wr_def numeral_3_eq_3)
  also have "\<dots> = email_loop (length (?a @ w)) (length u + 1 + length w) ((?a @ w) @ 37 # x' # y' # z)
      (u @ 64 # w @ b1 # b2 # b3 # C)"
    using email_run [of w "length u + 1" "u @ 64 # W @ b1 # b2 # b3 # C" ?a] assms(1) b(3)
    by (simp add: write_bytes_def)
  also have "\<dots> = email_loop (length (?a @ w @ [37, x', y'])) (length u + length w + 2)
      ((?a @ w @ [37, x', y']) @ z) (u @ 64 # w @ b1 # b2 # 64 # C)"
    by (subst email_escape) (simp add: wr_def numeral_3_eq_3 list_update_append split: nat.splits)
  also have "\<dots> = write_bytes (u @ 64 # w @ b1 # b2 # 64 # C) (length u + length w + 2) (z @ [0])"
    using assms(1) by (intro email_tail) auto
  also have "\<dots> = Inr (u @ 64 # w @ [b1] @ z @ 0 # drop (length z' ) C)"
    using assms(3) b(2,3) unfolding b(1) z by (simp add: write_bytes_def eval_nat_numeral)
  also have "drop (length z') C = drop (length u + length w + length z + 3) buf"
    using b(2,3) unfolding b(1) z by (simp add: eval_nat_numeral)
  also have "b1 = buf ! (length u + length w + 1)"
    using b(2,3) unfolding b(1) by (simp add: nth_append)
  finally show ?thesis .
qed

section \<open>The watched area\<close>

definition clamp :: "int \<Rightarrow> int \<Rightarrow> int \<Rightarrow> int" where
  "clamp lo hi n = max lo (min hi n)"

lemma value_of_Some: "k < length ts \<Longrightarrow> value_of (map Some ts @ zs) k = Inr (ts ! k)"
  by (simp add: value_of_def rd_def nth_append)

lemma area_steps:
  assumes "\<And>k. k < length ts \<Longrightarrow> atoi (ts ! k) = Inr (ms ! k)"
    and "a + n \<le> length ts" and "a \<le> length A" and "lo \<le> hi"
  shows "foldR (area_step lo hi (map Some ts @ zs)) [a..<a + n] A =
    write_bytes A a (map (\<lambda>k. clamp lo hi (ms ! k)) [a..<a + n])"
  using assms(2)
proof (induction n)
  case 0
  then show ?case using assms(3) by (simp add: write_bytes_Nil)
next
  case (Suc n)
  have "area_step lo hi (map Some ts @ zs) (a + n) B = wr B (a + n) (clamp lo hi (ms ! (a + n)))" for B
    using Suc.prems assms(1) [of "a + n"] assms(4) by (simp add: area_step_def value_of_Some clamp_def)
  with Suc show ?case
    by (cases "write_bytes A a (map (\<lambda>k. clamp lo hi (ms ! k)) [a..<a + n])")
       (simp_all add: foldR_append foldR_Nil_fun write_bytes_append write_bytes_single)
qed

lemma area_missing:
  assumes "length ts < 2" and "\<forall>t \<in> set ts. \<exists>m. atoi t = Inr m" and "length A = 4"
  shows "foldR (area_step lo hi (map Some ts @ None # zs)) [0..<2] A = Inl Null_Dereference"
proof -
  have two: "[0..<2] = [0, 1 :: nat]" by (simp add: upt_rec)
  show ?thesis
  proof (cases ts)
    case Nil
    then show ?thesis by (simp add: two area_step_def value_of_def rd_def)
  next
    case (Cons t r)
    with assms obtain m where "atoi t = Inr m" by auto
    with Cons assms show ?thesis by (simp add: two area_step_def value_of_def rd_def wr_def)
  qed
qed

section \<open>Inserted texts\<close>

lemma find_tag_names:
  "find_tag i (map Some ns @ None # ts) name =
     (if name \<in> set ns then Inr (Some (i + length (takeWhile (\<lambda>t. t \<noteq> name) ns)))
      else Inl Null_Dereference)"
  by (induction ns arbitrary: i) auto

lemma c_str_zero_free: "0 \<notin> set (c_str xs)"
  unfolding c_str_def by (auto dest: set_takeWhileD)

lemma put_insert_ok:
  assumes "length t < length b" and "0 \<notin> set t"
  shows "\<exists>b'. put_insert t b = Inr (length t, b') \<and> length b' = length b \<and> c_str b' = t"
  using assms by (simp add: put_insert_def write_bytes_def c_str_append_nul)

lemma put_ex: "length t < 193 \<Longrightarrow> 0 \<notin> set t \<Longrightarrow> length ins = 193 \<Longrightarrow>
    \<exists>n b. put_insert t ins = Inr (n, b) \<and> n \<le> 192 \<and> length (c_str b) = n"
  using put_insert_ok [of t ins] by auto

lemma dec_card: "i \<le> 10 \<Longrightarrow> 0 \<notin> set (dec i) \<and> length (dec i) \<le> 2"
proof -
  assume "i \<le> 10"
  then have "i \<in> set [0..<11]" by simp
  then show ?thesis by (auto simp: upt_rec dec.simps)
qed

lemma ssi_email:
  assumes "length (email_to s) = 50" and "0 \<in> set (email_to s)" and "length ins = 193"
  shows "\<exists>n b. mySSIHandler 0 s ins = Inr (n, b) \<and> n \<le> 192 \<and> length (c_str b) = n"
proof -
  let ?e = "c_str (email_to s)"
  have "length ?e \<le> 50" unfolding c_str_def using assms(1) length_takeWhile_le by metis
  then show ?thesis
    using assms c_str_zero_free [of "email_to s"]
      put_insert_ok [of "bytes_of ''<input value=\"'' @ ?e @
        bytes_of ''\" type=\"email\" class=\"fieldEmail\" placeholder=\"Email...\" name=\"email\">''" ins]
    by (auto simp: mySSIHandler_def str_at_def snprintf_200_def bytes_of_def)
qed

lemma ssi_image:
  assumes "length ins = 193"
  shows "\<exists>n b. mySSIHandler 1 s ins = Inr (n, b) \<and> n \<le> 192 \<and> length (c_str b) = n"
proof -
  have "length image_html < 193" "0 \<notin> set image_html" by (simp_all add: image_html_def bytes_of_def)
  from put_ex [OF this assms] show ?thesis by (simp add: mySSIHandler_def)
qed

lemma takeWhile_less: "x \<in> set xs \<Longrightarrow> length (takeWhile (\<lambda>t. t \<noteq> x) xs) < length xs"
  by (induction xs) auto

lemma ssi_card:
  assumes "length (Cards s) = N_CARDS * ROW" and "k < N_CARDS" and "0 \<in> set (row_of (Cards s) k)"
    and "length ins = 193"
  shows "\<exists>n b. mySSIHandler (k + 2) s ins = Inr (n, b) \<and> n \<le> 192 \<and> length (c_str b) = n"
proof -
  let ?d = "drop (k * ROW) (Cards s)"
  have z: "0 \<in> set ?d" using assms(3) by (auto simp: row_of_def dest: in_set_takeD)
  have "c_str ?d = c_str (row_of (Cards s) k)"
  proof -
    obtain xs ys where xy: "row_of (Cards s) k = xs @ 0 # ys" "0 \<notin> set xs"
      using assms(3) split_list_first by fastforce
    moreover have "?d = row_of (Cards s) k @ drop ROW ?d"
      unfolding row_of_def by (rule append_take_drop_id [symmetric])
    ultimately show ?thesis by (metis append.assoc append_Cons c_str_append_nul)
  qed
  moreover have "length (c_str (row_of (Cards s) k)) \<le> ROW"
    unfolding c_str_def by (metis length_takeWhile_le length_take min.bounded_iff row_of_def order_trans)
  ultimately have len: "length (c_str ?d) \<le> 9" by (simp add: ROW_def ID_SIZE_def)
  have i: "k + 1 \<le> 10" using assms(2) by (simp add: N_CARDS_def)
  have t: "length (card_input (k + 1) (c_str ?d)) < 193" "0 \<notin> set (card_input (k + 1) (c_str ?d))"
    using dec_card [OF i] len c_str_zero_free [of ?d] by (simp_all add: card_input_def bytes_of_def)
  have "mySSIHandler (k + 2) s ins = put_insert (card_input (k + 1) (c_str ?d)) ins"
    using t(1) z i by (simp add: mySSIHandler_def str_at_def snprintf_200_def Let_def)
  with put_ex [OF t assms(4)] show ?thesis by simp
qed

section \<open>Properties\<close>


text \<open>What the mail page does to other values: a second escaped character is written two
  places too far and overwritten, so the address keeps an old byte in its place; an escape at the
  end of the value jumps over the terminator; a value of fifty characters or more is written
  behind the array.\<close>

theorem email_value_errors:
  assumes "length (email_to s) = 50"
  shows "(37 \<notin> set (u @ w @ z) \<and> z \<noteq> [] \<and> length (u @ w @ z) \<le> 46 \<longrightarrow>
      EmailCGIhandler 1 [Some (u @ [37, x, y] @ w @ [37, x', y'] @ z)] s = Inr (''/index.shtml'',
        s\<lparr>email_to := u @ 64 # w @ [email_to s ! (length u + length w + 1)] @ z @ 0 #
          drop (length u + length w + length z + 3) (email_to s)\<rparr>)) \<and>
    (37 \<notin> set u \<and> length u < 50 \<and> length r \<le> 1 \<longrightarrow>
      EmailCGIhandler 1 [Some (u @ 37 # r)] s =
        Inr (''/index.shtml'', s\<lparr>email_to := u @ 64 # drop (length u + 1) (email_to s)\<rparr>)) \<and>
    (37 \<notin> set u \<and> 50 \<le> length u \<longrightarrow> EmailCGIhandler 1 [Some u] s = Inl Out_Of_Bounds)"
proof (intro conjI impI)
  assume a: "37 \<notin> set u \<and> 50 \<le> length u"
  then have "email_loop 0 0 ([] @ u) (email_to s) = Inl Out_Of_Bounds"
    using email_tail [of u 0 "email_to s" "[]"] assms by (simp add: write_bytes_def)
  then show "EmailCGIhandler 1 [Some u] s = Inl Out_Of_Bounds"
    by (simp add: EmailCGIhandler_def value_of_def rd_def)
next
  assume a: "37 \<notin> set u \<and> length u < 50 \<and> length r \<le> 1"
  have "email_loop 0 0 (u @ 37 # r) (email_to s) =
      email_loop (length u) (length u) (u @ 37 # r) (u @ drop (length u) (email_to s))"
    using email_run [of u 0 "email_to s" "[]" "37 # r"] a assms by (simp add: write_bytes_def)
  also have "\<dots> = Inr (u @ 64 # drop (length u + 1) (email_to s))"
    using a assms by (cases "drop (length u) (email_to s)")
      (simp_all add: email_escape wr_def email_past list_update_append drop_Suc flip: tl_drop)
  finally show "EmailCGIhandler 1 [Some (u @ 37 # r)] s =
      Inr (''/index.shtml'', s\<lparr>email_to := u @ 64 # drop (length u + 1) (email_to s)\<rparr>)"
    by (simp add: EmailCGIhandler_def value_of_def rd_def)
next
  assume a: "37 \<notin> set (u @ w @ z) \<and> z \<noteq> [] \<and> length (u @ w @ z) \<le> 46"
  from email_two_escapes [of u w z "email_to s" x y x' y'] this assms
  show "EmailCGIhandler 1 [Some (u @ [37, x, y] @ w @ [37, x', y'] @ z)] s = Inr (''/index.shtml'',
        s\<lparr>email_to := u @ 64 # w @ [email_to s ! (length u + length w + 1)] @ z @ 0 #
          drop (length u + length w + length z + 3) (email_to s)\<rparr>)"
    by (simp add: EmailCGIhandler_def value_of_def rd_def)
qed

text \<open>C34: The area page stores the first two values clamped to the horizontal limits and the
  others, up to four in all, clamped to the vertical ones. With fewer than two values it follows
  a null pointer, with more than four it writes behind the array.\<close>

theorem area_clamped:
  assumes "length (Area s) = 4" and "length ts \<le> 16" and "mapR atoi ts = Inr ms"
  shows "AreaCGIhandler (length ts) (map Some ts @ replicate (16 - length ts) None) s =
    (if length ts < 2 then Inl Null_Dereference
     else if 4 < length ts then Inl Out_Of_Bounds
     else Inr (''/index.shtml'', s\<lparr>Area := map (clamp XMIN XMAX) (take 2 ms) @
       map (clamp YMIN YMAX) (drop 2 ms) @ drop (length ms) (Area s)\<rparr>))"
proof -
  note ms = mapR_nth [OF assms(3)]
  show ?thesis
  proof (cases "length ts < 2")
    case True
    have "16 - length ts = Suc (15 - length ts)" using True by simp
    moreover have ok: "\<forall>t \<in> set ts. \<exists>m. atoi t = Inr m" using ms(2) by (metis in_set_conv_nth)
    ultimately have "foldR (area_step XMIN XMAX (map Some ts @ replicate (16 - length ts) None)) [0..<2] (Area s) =
        Inl Null_Dereference"
      using area_missing [OF True _ assms(1)] ok by simp
    then show ?thesis using True by (simp add: AreaCGIhandler_def)
  next
    case False
    let ?z = "replicate (16 - length ts) None"
    let ?B = "map (clamp XMIN XMAX) (take 2 ms) @ drop 2 (Area s)"
    have four: "4 < length ts \<longleftrightarrow> \<not> length ts - 2 \<le> 2" using False by arith
    have two: "2 + (length ts - 2) = length ts" using False by simp
    have t: "map (\<lambda>k. f (ms ! k)) [0..<2] = map f (take 2 ms)"
      "map (\<lambda>k. f (ms ! k)) [2..<length ts] = map f (drop 2 ms)" for f :: "int \<Rightarrow> int"
      using ms(1) False by (auto intro!: nth_equalityI)
    have "foldR (area_step XMIN XMAX (map Some ts @ ?z)) [0..<0 + 2] (Area s) =
        write_bytes (Area s) 0 (map (\<lambda>k. clamp XMIN XMAX (ms ! k)) [0..<0 + 2])"
      using ms False by (intro area_steps) (auto simp: XMIN_def XMAX_def)
    then have x: "foldR (area_step XMIN XMAX (map Some ts @ ?z)) [0..<2] (Area s) = Inr ?B"
      unfolding add_0 t using assms(1) ms(1) False by (simp add: write_bytes_def numeral_2_eq_2)
    have B: "length ?B = 4" "take 2 ?B = map (clamp XMIN XMAX) (take 2 ms)"
      using assms(1) ms(1) False by simp_all
    have "foldR (area_step YMIN YMAX (map Some ts @ ?z)) [2..<2 + (length ts - 2)] ?B =
        write_bytes ?B 2 (map (\<lambda>k. clamp YMIN YMAX (ms ! k)) [2..<2 + (length ts - 2)])"
      using ms False B(1) by (intro area_steps) (auto simp: YMIN_def YMAX_def)
    then have y: "foldR (area_step YMIN YMAX (map Some ts @ ?z)) [2..<length ts] ?B =
        (if 4 < length ts then Inl Out_Of_Bounds
         else Inr (map (clamp XMIN XMAX) (take 2 ms) @ map (clamp YMIN YMAX) (drop 2 ms) @
           drop (length ms) ?B))"
      unfolding two t write_bytes_def four using B ms(1) False by simp
    have "Suc (Suc (length ts - 2)) = length ts" using False by arith
    then have "drop (length ms) ?B = drop (length ms) (Area s)" using ms(1) False by simp
    then show ?thesis using False unfolding AreaCGIhandler_def x bindR.simps y by simp
  qed
qed

text \<open>C38: Every text inserted for a known tag fits the buffer of the server, as long as the
  address and the rows of the list end with a terminator; any other tag in a page makes the
  lookup follow the null pointers at the end of the table.\<close>

theorem inserts_fit:
  assumes "length (email_to s) = 50" and "0 \<in> set (email_to s)"
    and "length (Cards s) = N_CARDS * ROW" and "\<forall>k < N_CARDS. 0 \<in> set (row_of (Cards s) k)"
    and "length ins = LWIP_HTTPD_MAX_TAG_INSERT_LEN + 1"
  shows "if Some name \<in> set theSSItags
    then \<exists>n b. get_tag_insert name s ins = Inr (n, b) \<and> n \<le> LWIP_HTTPD_MAX_TAG_INSERT_LEN \<and>
      length (c_str b) = n
    else get_tag_insert name s ins = Inl Null_Dereference"
proof -
  let ?ns = "map bytes_of [''mail'', ''image'', ''card01'', ''card02'', ''card03'', ''card04'',
    ''card05'', ''card06'', ''card07'', ''card08'', ''card09'', ''card10'']"
  have tags: "theSSItags = map Some ?ns @ None # [None]" by (simp add: theSSItags_def)
  have ins: "length ins = 193" using assms(5) by (simp add: LWIP_HTTPD_MAX_TAG_INSERT_LEN_def)
  define i where "i = length (takeWhile (\<lambda>t. t \<noteq> name) ?ns)"
  have found: "find_tag 0 theSSItags name = (if name \<in> set ?ns then Inr (Some i) else Inl Null_Dereference)"
    unfolding tags find_tag_names i_def by simp
  have mem: "Some name \<in> set theSSItags \<longleftrightarrow> name \<in> set ?ns" unfolding tags by auto
  show ?thesis
  proof (cases "name \<in> set ?ns")
    case True
    from takeWhile_less [OF this] have "i < 12" unfolding i_def by simp
    then have "i = 0 \<or> i = 1 \<or> (i = (i - 2) + 2 \<and> i - 2 < N_CARDS)" unfolding N_CARDS_def by linarith
    then consider "i = 0" | "i = 1" | k where "i = k + 2" "k < N_CARDS" by blast
    then have "\<exists>n b. mySSIHandler i s ins = Inr (n, b) \<and> n \<le> 192 \<and> length (c_str b) = n"
    proof cases
      case 1 then show ?thesis using ssi_email [OF assms(1,2) ins] by simp
    next
      case 2 then show ?thesis using ssi_image [OF ins] by simp
    next
      case 3 then show ?thesis using ssi_card [OF assms(3) _ _ ins] assms(4) by blast
    qed
    then show ?thesis
      using True found mem by (simp add: get_tag_insert_def LWIP_HTTPD_MAX_TAG_INSERT_LEN_def)
  qed (use found mem in \<open>simp add: get_tag_insert_def\<close>)
qed

definition web_example :: web_state where
  "web_example = \<lparr>email_to = bytes_of ''tdemeco@itba.edu.ar'' @ replicate 31 0, Area = [0, 0, 0, 0],
     Cards = initial_Cards\<rparr>"


lemma email_value_errors_witness:
  "EmailCGIhandler 1 [Some (replicate 60 97)] web_example = Inl Out_Of_Bounds"
proof -
  have "length (email_to web_example) = 50" by (simp add: web_example_def)
  from email_value_errors [OF this, of "replicate 60 97" "[]" "[]"] show ?thesis by simp
qed

lemma area_clamped_witness:
  "AreaCGIhandler 4 (map Some [bytes_of ''5'', bytes_of ''900'', bytes_of ''200'', bytes_of ''-7''] @
      replicate 12 None) web_example =
   Inr (''/index.shtml'', web_example\<lparr>Area := [127, 871, 200, 153]\<rparr>)"
proof -
  have "length (Area web_example) = 4" by (simp add: web_example_def)
  moreover have "mapR atoi [bytes_of ''5'', bytes_of ''900'', bytes_of ''200'', bytes_of ''-7''] =
      Inr [5, 900, 200, -7]"
    by (simp add: atoi_def bytes_of_def isspace_def isdigit_def digits_value_def word_le_nat_alt)
  ultimately show ?thesis
    using area_clamped [of web_example "[bytes_of ''5'', bytes_of ''900'', bytes_of ''200'', bytes_of ''-7'']"
        "[5, 900, 200, -7]"]
    by (simp add: clamp_def XMIN_def XMAX_def YMIN_def YMAX_def eval_nat_numeral)
qed

lemma inserts_fit_witness:
  "get_tag_insert (bytes_of ''card11'') web_example (replicate 193 0) = Inl Null_Dereference"
proof -
  have "\<forall>k < N_CARDS. 0 \<in> set (row_of (Cards web_example) k)"
  proof (intro allI impI)
    fix k assume "k < N_CARDS"
    then have "k \<in> set [0..<10]" by (simp add: N_CARDS_def)
    then show "0 \<in> set (row_of (Cards web_example) k)"
      by (auto simp: upt_rec web_example_def row_of_def ROW_def ID_SIZE_def initial_Cards_def card_row_def bytes_of_def)
  qed
  moreover have "Some (bytes_of ''card11'') \<notin> set theSSItags" by (simp add: theSSItags_def bytes_of_def)
  ultimately show ?thesis
    using inserts_fit [of web_example "replicate 193 0" "bytes_of ''card11''"]
    by (simp add: web_example_def LWIP_HTTPD_MAX_TAG_INSERT_LEN_def)
qed

end
