(* ===== verification/Smtp.thy ===== *)
theory Smtp
  imports Mail_Body Base64 Web_Config
begin

unbundle bit_operations_syntax

text \<open>
  The session in which a mail is delivered (\<^verbatim>\<open>lwip/src/apps/smtp/smtp.c\<close>): a state machine
  that answers every complete reply of the server with the next command, sends the body as the
  connection has room, and reports the result to the caller. Received data is a list of bytes
  shorter than 65535; the transmit buffer only holds a command while it is built, so a command is
  the list of its bytes. Only sessions whose body comes from a handler are modelled, as the program
  opens no others.
\<close>

section \<open>Sessions\<close>

datatype smtp_session_state =
    SMTP_NULL | SMTP_HELO | SMTP_AUTH_PLAIN | SMTP_AUTH_LOGIN_UNAME | SMTP_AUTH_LOGIN_PASS
  | SMTP_AUTH_LOGIN | SMTP_MAIL | SMTP_RCPT | SMTP_DATA | SMTP_BODY | SMTP_QUIT | SMTP_CLOSED

datatype smtp_result =
    SMTP_RESULT_OK | SMTP_RESULT_ERR_UNKNOWN | SMTP_RESULT_ERR_CONNECT | SMTP_RESULT_ERR_HOSTNAME
  | SMTP_RESULT_ERR_CLOSED | SMTP_RESULT_ERR_TIMEOUT | SMTP_RESULT_ERR_SVR_RESP | SMTP_RESULT_ERR_MEM

datatype err_t = ERR_OK | ERR_MEM | ERR_TIMEOUT | ERR_INPROGRESS | ERR_VAL | ERR_USE | ERR_ARG | ERR_OTHER

definition SMTP_TX_BUF_LEN :: nat where "SMTP_TX_BUF_LEN = 255"
definition SMTP_TIMEOUT_DATABLOCK :: u16 where "SMTP_TIMEOUT_DATABLOCK = 360"
definition SMTP_TIMEOUT_DATATERM :: u16 where "SMTP_TIMEOUT_DATATERM = 1200"
definition SMTP_TIMEOUT :: u16 where "SMTP_TIMEOUT = 240"
definition SMTP_MAX_USERNAME_LEN :: nat where "SMTP_MAX_USERNAME_LEN = 32"
definition SMTP_MAX_PASS_LEN :: nat where "SMTP_MAX_PASS_LEN = 32"

record smtp_session =
  ss_state :: smtp_session_state
  ss_timer :: u16
  ss_p :: "u8 list option"
  ss_from_len :: u16
  ss_to_len :: u16
  ss_subject_len :: u16
  ss_bdy :: body_state

text \<open>What the application has set: user name and password, each behind a terminator.\<close>

record auth_data =
  smtp_username :: "u8 list"
  smtp_pass :: "u8 list"
  smtp_auth_plain :: "u8 list"

definition smtp_set_auth :: "u8 list \<Rightarrow> u8 list \<Rightarrow> auth_data \<Rightarrow> err_t \<times> auth_data" where
  "smtp_set_auth username pass a =
     (if SMTP_MAX_USERNAME_LEN < length username \<or> SMTP_MAX_PASS_LEN < length pass then (ERR_ARG, a)
      else (ERR_OK, \<lparr>smtp_username = username, smtp_pass = pass,
              smtp_auth_plain = 0 # username @ 0 # pass\<rparr>))"

definition USER_AUTH :: "u8 list" where "USER_AUTH = bytes_of ''loquesea@loquesea.com''"
definition PASS_AUTH :: "u8 list" where "PASS_AUTH = bytes_of ''loquesea''"

section \<open>Replies\<close>

fun find_sub :: "u8 list \<Rightarrow> u8 list \<Rightarrow> nat option" where
  "find_sub needle [] = (if needle = [] then Some 0 else None)"
| "find_sub needle (x # xs) =
     (if take (length needle) (x # xs) = needle then Some 0 else map_option Suc (find_sub needle xs))"

definition pbuf_memfind :: "u8 list \<Rightarrow> u8 list \<Rightarrow> nat \<Rightarrow> nat option" where
  "pbuf_memfind p needle start = map_option ((+) start) (find_sub needle (drop start p))"

definition pbuf_strstr :: "u8 list \<Rightarrow> u8 list \<Rightarrow> nat option" where
  "pbuf_strstr p needle = pbuf_memfind p needle 0"

definition smtp_is_response :: "u8 list \<Rightarrow> int" where
  "smtp_is_response p =
     (if length p < 3 then 0
      else case atoi (c_str (take 3 p)) of
             Inl f \<Rightarrow> 0
           | Inr num \<Rightarrow> if num \<le> 0 \<or> 1000 \<le> num then 0 else num)"

text \<open>The end of a reply is a line with a space after the code; the loop goes from line to line.\<close>

function response_finished_from :: "nat \<Rightarrow> u8 list \<Rightarrow> bool" where
  "response_finished_from offset p =
     (if 0xFFFF - 4 < offset then False
      else
        case find_sub crlf (drop (offset + 4) p) of
          None \<Rightarrow> False
        | Some d \<Rightarrow>
            let sp = p ! (offset + 3) in
            if sp = 45 then response_finished_from (offset + 4 + d + 2) p
            else sp = 32)"
  by pat_completeness auto
termination by (relation "measure (\<lambda>(offset, p). 0xFFFF - offset)") auto

declare response_finished_from.simps [simp del]

definition smtp_is_response_finished :: "u8 list \<Rightarrow> bool" where
  "smtp_is_response_finished p = response_finished_from 0 p"

section \<open>Commands\<close>

text \<open>Each prepares the next state and the bytes to send; an assertion that fails hangs.\<close>

type_synonym command = "smtp_session_state \<times> u8 list"

definition checked :: "smtp_session_state \<Rightarrow> u8 list \<Rightarrow> command result" where
  "checked next tx = (if length tx \<le> SMTP_TX_BUF_LEN then Inr (next, tx) else Inl Assert_Hang)"

definition smtp_base64_encode :: "nat \<Rightarrow> u8 list \<Rightarrow> u8 list result" where
  "smtp_base64_encode room source =
     (let n = of_nat (length source);
          len' = (n + longer_of n) * 4 div 3 in
      if room < unat len' then Inl Assert_Hang
      else bindR (encode_base64 (replicate (SMTP_TX_BUF_LEN + 1) 0) (of_nat room) source n) (\<lambda>(t, l).
        Inr (take (unat l) t)))"

definition smtp_prepare_helo :: "u8 list \<Rightarrow> command result" where
  "smtp_prepare_helo ipa = checked SMTP_HELO (bytes_of ''EHLO ['' @ ipa @ bytes_of '']'' @ crlf)"

definition read_mem :: "u8 list \<Rightarrow> u16 \<Rightarrow> u8 list result" where
  "read_mem xs n = (if unat n \<le> length xs then Inr (take (unat n) xs) else Inl Out_Of_Bounds)"

definition smtp_prepare_mail :: "smtp_session \<Rightarrow> command result" where
  "smtp_prepare_mail s = bindR (read_mem (email_from @ [0]) (ss_from_len s)) (\<lambda>f.
     checked SMTP_MAIL (bytes_of ''MAIL FROM: <'' @ f @ bytes_of ''>'' @ crlf))"

definition smtp_prepare_rcpt :: "mail_mem \<Rightarrow> smtp_session \<Rightarrow> command result" where
  "smtp_prepare_rcpt m s = bindR (read_mem (mem_to m) (ss_to_len s)) (\<lambda>t.
     checked SMTP_RCPT (bytes_of ''RCPT TO: <'' @ t @ bytes_of ''>'' @ crlf))"

definition smtp_prepare_header :: "mail_mem \<Rightarrow> smtp_session \<Rightarrow> command result" where
  "smtp_prepare_header m s =
     bindR (read_mem (email_from @ [0]) (ss_from_len s)) (\<lambda>f.
     bindR (read_mem (mem_to m) (ss_to_len s)) (\<lambda>t.
     bindR (read_mem (mem_card m) (ss_subject_len s)) (\<lambda>c.
     checked SMTP_BODY (bytes_of ''From: <'' @ f @ bytes_of ''>'' @ crlf @ bytes_of ''To: <'' @ t @
       bytes_of ''>'' @ crlf @ bytes_of ''Subject: Acceso de ID: '' @ c @ crlf @
       bytes_of ''MIME-Version: 1.0'' @ crlf @
       bytes_of ''Content-Type:multipart/mixed;boundary=\"977d81ff9d852ab2a0cad646f8058349\"'' @
       crlf @ crlf))))"

definition smtp_prepare_quit :: "command result" where
  "smtp_prepare_quit = checked SMTP_CLOSED (bytes_of ''QUIT'' @ crlf)"

definition smtp_prepare_auth_login_uname :: "auth_data \<Rightarrow> command result" where
  "smtp_prepare_auth_login_uname a =
     bindR (smtp_base64_encode SMTP_TX_BUF_LEN (smtp_username a)) (\<lambda>b.
     checked SMTP_AUTH_LOGIN_PASS (b @ crlf))"

definition smtp_prepare_auth_login_pass :: "auth_data \<Rightarrow> command result" where
  "smtp_prepare_auth_login_pass a =
     bindR (smtp_base64_encode SMTP_TX_BUF_LEN (smtp_pass a)) (\<lambda>b.
     checked SMTP_AUTH_LOGIN (b @ crlf))"

text \<open>
  The line of the reply that lists the methods is copied to the transmit buffer before it is
  searched; a longer line does not fit.
\<close>

definition smtp_prepare_auth_or_mail ::
    "auth_data \<Rightarrow> smtp_session \<Rightarrow> u8 list \<Rightarrow> command result" where
  "smtp_prepare_auth_or_mail a s p =
     (let auth = (case pbuf_strstr p (bytes_of ''AUTH '') of
                    None \<Rightarrow> pbuf_strstr p (bytes_of ''AUTH='')
                  | Some i \<Rightarrow> Some i)
      in case auth of
           None \<Rightarrow> smtp_prepare_mail s
         | Some i \<Rightarrow>
             (case pbuf_memfind p crlf i of
                None \<Rightarrow> smtp_prepare_mail s
              | Some e \<Rightarrow>
                  if e \<le> i then smtp_prepare_mail s
                  else if SMTP_TX_BUF_LEN < e - i then Inl Out_Of_Bounds
                  else
                    let sep = c_str (drop 5 (take (e - i) (drop i p))) in
                    if find_sub (bytes_of ''PLAIN'') sep \<noteq> None
                    then bindR (smtp_base64_encode (SMTP_TX_BUF_LEN - 11) (smtp_auth_plain a)) (\<lambda>b.
                         checked SMTP_AUTH_PLAIN (bytes_of ''AUTH PLAIN '' @ b @ crlf))
                    else if find_sub (bytes_of ''LOGIN'') sep \<noteq> None
                    then checked SMTP_AUTH_LOGIN_UNAME (bytes_of ''AUTH LOGIN'' @ crlf)
                    else smtp_prepare_mail s))"

section \<open>The state machine\<close>

text \<open>The command that answers a complete reply; no command means the reply was not expected.\<close>

definition next_command ::
    "u8 list \<Rightarrow> auth_data \<Rightarrow> mail_mem \<Rightarrow> smtp_session \<Rightarrow> int \<Rightarrow> u8 list \<Rightarrow> command option result" where
  "next_command ipa a m s code p =
     (let go = (\<lambda>c. bindR c (\<lambda>x. Inr (Some x))) in
      case ss_state s of
        SMTP_NULL \<Rightarrow> if code = 220 then go (smtp_prepare_helo ipa) else Inr None
      | SMTP_HELO \<Rightarrow> if code = 250 then go (smtp_prepare_auth_or_mail a s p) else Inr None
      | SMTP_AUTH_LOGIN \<Rightarrow> if code = 235 then go (smtp_prepare_mail s) else Inr None
      | SMTP_AUTH_PLAIN \<Rightarrow> if code = 235 then go (smtp_prepare_mail s) else Inr None
      | SMTP_AUTH_LOGIN_UNAME \<Rightarrow>
          if code = 334 \<and> pbuf_strstr p (bytes_of ''VXNlcm5hbWU6'') \<noteq> None
          then go (smtp_prepare_auth_login_uname a) else Inr None
      | SMTP_AUTH_LOGIN_PASS \<Rightarrow>
          if code = 334 \<and> pbuf_strstr p (bytes_of ''UGFzc3dvcmQ6'') \<noteq> None
          then go (smtp_prepare_auth_login_pass a) else Inr None
      | SMTP_MAIL \<Rightarrow> if code = 250 then go (smtp_prepare_rcpt m s) else Inr None
      | SMTP_RCPT \<Rightarrow> if code = 250 then Inr (Some (SMTP_DATA, bytes_of ''DATA'' @ crlf)) else Inr None
      | SMTP_DATA \<Rightarrow> if code = 354 then go (smtp_prepare_header m s) else Inr None
      | SMTP_QUIT \<Rightarrow> if code = 250 then go smtp_prepare_quit else Inr None
      | _ \<Rightarrow> Inr None)"

text \<open>What is left after a call: the session if it lives on, the connection, the call made back.\<close>

type_synonym outcome = "smtp_session option \<times> tcp_conn \<times> (smtp_result \<times> int \<times> err_t) option"

definition smtp_close ::
    "smtp_session \<Rightarrow> tcp_conn \<Rightarrow> smtp_result \<Rightarrow> int \<Rightarrow> err_t \<Rightarrow> outcome" where
  "smtp_close s t result srv_err err =
     (let (ok, t1) = altcp_close t in
      if ok then (None, t1, Some (result, srv_err, err)) else (Some s, t1, None))"

definition smtp_send_body ::
    "mail_mem \<Rightarrow> smtp_session \<Rightarrow> tcp_conn \<Rightarrow> (smtp_session \<times> tcp_conn) result" where
  "smtp_send_body m s t =
     (if ss_state s = SMTP_BODY then
        bindR (smtp_send_body_data_handler m (ss_bdy s) t) (\<lambda>(b, t1).
        let s1 = s\<lparr>ss_bdy := b\<rparr> in
        if ss_body_sent b = ss_body_len b then
          let (ok, t2) = altcp_write (crlf @ bytes_of ''.'' @ crlf) t1 in
          Inr (if ok then s1\<lparr>ss_timer := SMTP_TIMEOUT_DATATERM, ss_state := SMTP_QUIT\<rparr> else s1, t2)
        else Inr (s1, t1))
      else Inr (s, t))"

definition smtp_answer ::
    "u8 list \<Rightarrow> auth_data \<Rightarrow> mail_mem \<Rightarrow> smtp_session \<Rightarrow> tcp_conn \<Rightarrow> int \<Rightarrow> u8 list \<Rightarrow> outcome result" where
  "smtp_answer ipa a m s t code p =
     bindR (next_command ipa a m s code p) (\<lambda>cmd.
     case cmd of
       None \<Rightarrow> Inr (smtp_close s t SMTP_RESULT_ERR_SVR_RESP code ERR_OK)
     | Some (next, tx) \<Rightarrow>
         let (ok, t1) = altcp_write tx t in
         if ok then
           let s1 = s\<lparr>ss_timer := SMTP_TIMEOUT, ss_p := None, ss_state := next\<rparr> in
           if next = SMTP_BODY then
             bindR (smtp_send_body m s1 t1) (\<lambda>(s2, t2). Inr (Some s2, t2, None))
           else if next = SMTP_CLOSED then Inr (None, t1, Some (SMTP_RESULT_OK, 0, ERR_OK))
           else Inr (Some s1, t1, None)
         else Inr (Some s, t1, None))"

definition smtp_process ::
    "u8 list \<Rightarrow> auth_data \<Rightarrow> mail_mem \<Rightarrow> u8 list option \<Rightarrow> smtp_session option \<Rightarrow> tcp_conn \<Rightarrow>
     outcome result" where
  "smtp_process ipa a m p arg t =
     (case arg of
        None \<Rightarrow> Inr (None, t, None)
      | Some s \<Rightarrow>
          let s1 = (case p of
                      None \<Rightarrow> s
                    | Some new \<Rightarrow> s\<lparr>ss_p := Some (case ss_p s of None \<Rightarrow> new | Some old \<Rightarrow> old @ new)\<rparr>)
          in if p = None \<and> ss_timer s1 = 0
             then Inr (smtp_close s1 t SMTP_RESULT_ERR_TIMEOUT 0 ERR_TIMEOUT)
             else if p = None \<and> ss_state s1 = SMTP_BODY
             then bindR (smtp_send_body m s1 t) (\<lambda>(s2, t2). Inr (Some s2, t2, None))
             else
               case ss_p s1 of
                 None \<Rightarrow> Inr (Some s1, t, None)
               | Some q \<Rightarrow>
                   let code = smtp_is_response q in
                   if code = 0 then Inr (Some (s1\<lparr>ss_p := None\<rparr>), t, None)
                   else if \<not> smtp_is_response_finished q then Inr (Some s1, t, None)
                   else if ss_state s1 = SMTP_CLOSED then Inr (Some s1, t, None)
                   else smtp_answer ipa a m s1 t code q)"

section \<open>The events of the connection\<close>

datatype smtp_event =
    Tcp_Recv "u8 list" | Tcp_Closed | Tcp_Sent | Tcp_Poll | Tcp_Err err_t | Tcp_Connected err_t

fun smtp_step ::
    "u8 list \<Rightarrow> auth_data \<Rightarrow> mail_mem \<Rightarrow> smtp_event \<Rightarrow> smtp_session option \<Rightarrow> tcp_conn \<Rightarrow> outcome result" where
  "smtp_step ipa a m (Tcp_Recv p) arg t = smtp_process ipa a m (Some p) arg t"
| "smtp_step ipa a m Tcp_Closed arg t = Inr
     (case arg of None \<Rightarrow> (None, snd (altcp_close t), None)
      | Some s \<Rightarrow> smtp_close s t SMTP_RESULT_ERR_CLOSED 0 ERR_OK)"
| "smtp_step ipa a m Tcp_Sent arg t = smtp_process ipa a m None arg t"
| "smtp_step ipa a m Tcp_Poll arg t = smtp_process ipa a m None
     (map_option (\<lambda>s. if ss_timer s \<noteq> 0 then s\<lparr>ss_timer := ss_timer s - 1\<rparr> else s) arg) t"
| "smtp_step ipa a m (Tcp_Err e) arg t = Inr
     (None, t, map_option (\<lambda>s. (SMTP_RESULT_ERR_CLOSED, 0, e)) arg)"
| "smtp_step ipa a m (Tcp_Connected e) arg t = Inr
     (if e = ERR_OK then (arg, t, None)
      else case arg of None \<Rightarrow> (None, snd (altcp_close t), None)
           | Some s \<Rightarrow> smtp_close s t SMTP_RESULT_ERR_CONNECT 0 e)"

text \<open>A run of events: the calls made back are collected.\<close>

definition smtp_event_step ::
    "u8 list \<Rightarrow> auth_data \<Rightarrow> mail_mem \<Rightarrow> smtp_event \<Rightarrow>
     smtp_session option \<times> tcp_conn \<times> (smtp_result \<times> int \<times> err_t) list \<Rightarrow>
     (smtp_session option \<times> tcp_conn \<times> (smtp_result \<times> int \<times> err_t) list) result" where
  "smtp_event_step ipa a m e = (\<lambda>(arg, t, cbs).
     bindR (smtp_step ipa a m e arg t) (\<lambda>(arg', t', cb).
     Inr (arg', t', cbs @ (case cb of None \<Rightarrow> [] | Some c \<Rightarrow> [c]))))"

section \<open>Opening a session\<close>

text \<open>
  The answers of the stack are parameters: whether the two pieces of memory and the control block
  could be allocated, and the outcomes of resolving the name and of connecting.
\<close>

definition new_session :: "mail_mem \<Rightarrow> smtp_session" where
  "new_session m = \<lparr>ss_state = SMTP_NULL, ss_timer = SMTP_TIMEOUT, ss_p = None,
     ss_from_len = of_nat (length email_from),
     ss_to_len = of_nat (length (c_str (mem_to m))),
     ss_subject_len = of_nat (length (c_str (mem_card m))),
     ss_bdy = \<lparr>ss_body = [], ss_body_len = 0, ss_body_sent = 0, bdh_state = BDH_SENDING,
       exposed = \<lparr>dh_state = 0, dh_length = 0, dh_buffer = []\<rparr>\<rparr>\<rparr>"

definition smtp_send_mail_alloced ::
    "err_t \<Rightarrow> bool \<Rightarrow> err_t \<Rightarrow> smtp_session \<Rightarrow> err_t \<times> smtp_session option" where
  "smtp_send_mail_alloced resolved pcb connected s =
     (if resolved = ERR_OK then
        if \<not> pcb then (ERR_MEM, None)
        else if connected \<noteq> ERR_OK then (connected, None)
        else (ERR_OK, Some s)
      else if resolved \<noteq> ERR_INPROGRESS then (resolved, None)
      else (ERR_OK, Some s))"

definition smtp_send_mail_bodycback ::
    "bool \<Rightarrow> bool \<Rightarrow> err_t \<Rightarrow> bool \<Rightarrow> err_t \<Rightarrow> mail_mem \<Rightarrow> err_t \<times> smtp_session option" where
  "smtp_send_mail_bodycback mem1 mem2 resolved pcb connected m =
     (if \<not> mem1 then (ERR_MEM, None)
      else if \<not> mem2 then (ERR_MEM, None)
      else smtp_send_mail_alloced resolved pcb connected (new_session m))"

section \<open>The body phase\<close>

lemma handler_stopped:
  assumes "bdh_state b = BDH_STOP" and "ss_body_len b = 0"
  shows "smtp_send_body_data_handler m b t = Inr (b\<lparr>ss_body_sent := 0\<rparr>, t)"
  using assms by (simp add: smtp_send_body_data_handler_def BDHSOMEDATASENT_def)

definition end_mark :: "u8 list" where "end_mark = crlf @ bytes_of ''.'' @ crlf"

text \<open>The body is on its way: nothing has been lost and nothing sent twice.\<close>

definition body_phase :: "mail_mem \<Rightarrow> u8 list \<Rightarrow> smtp_session \<Rightarrow> tcp_conn \<Rightarrow> bool" where
  "body_phase m full s t \<longleftrightarrow> ss_p s = None \<and>
     (ss_state s = SMTP_BODY \<and> body_ok (ss_bdy s) \<and> wire t @ left_to_send m (ss_bdy s) = full \<or>
      ss_state s = SMTP_QUIT \<and> wire t = full @ end_mark)"

lemma send_body_phase:
  assumes "mem_ok m" and "body_phase m full s t"
  shows "\<exists>s' t'. smtp_send_body m s t = Inr (s', t') \<and> body_phase m full s' t' \<and>
    sndbuf_at t' = sndbuf_at t \<and> write_ok t' = write_ok t"
proof (cases "ss_state s = SMTP_BODY")
  case False
  then show ?thesis using assms(2) by (simp add: smtp_send_body_def)
next
  case True
  then have ok: "ss_p s = None" "body_ok (ss_bdy s)" "wire t @ left_to_send m (ss_bdy s) = full"
    using assms(2) by (auto simp: body_phase_def)
  obtain b t1 where h: "smtp_send_body_data_handler m (ss_bdy s) t = Inr (b, t1)" "body_ok b"
    "wire t1 @ left_to_send m b = full" "ss_body_sent b = ss_body_len b \<longleftrightarrow> bdh_state b = BDH_STOP"
    "sndbuf_at t1 = sndbuf_at t" "write_ok t1 = write_ok t"
  proof (cases "bdh_state (ss_bdy s)")
    case BDH_SENDING
    from handler_keeps [OF assms(1) ok(2) this, of t] ok(3) that show thesis by auto
  next
    case BDH_STOP
    with ok(2) have "ss_body_len (ss_bdy s) = 0" by (simp add: body_ok_def)
    from handler_stopped [OF BDH_STOP this] this BDH_STOP ok show thesis
      by (intro that [of "(ss_bdy s)\<lparr>ss_body_sent := 0\<rparr>" t]) (simp_all add: body_ok_def left_to_send_def)
  qed
  show ?thesis
  proof (cases "bdh_state b = BDH_STOP")
    case stop: True
    then have "left_to_send m b = []" using h(2) by (simp add: body_ok_def left_to_send_def)
    then show ?thesis
      using h stop True ok(1) by (simp add: smtp_send_body_def altcp_write_def body_phase_def end_mark_def)
  next
    case False
    then show ?thesis using h True ok(1) by (simp add: smtp_send_body_def body_phase_def)
  qed
qed

lemma event_phase:
  assumes "mem_ok m" and "body_phase m full s t" and "e = Tcp_Sent \<or> e = Tcp_Poll"
  shows "\<exists>arg t' cb. smtp_step ipa a m e (Some s) t = Inr (arg, t', cb) \<and>
    (case arg of Some s' \<Rightarrow> body_phase m full s' t' \<and> cb = None
     | None \<Rightarrow> wire t' = wire t \<and> cb = Some (SMTP_RESULT_ERR_TIMEOUT, 0, ERR_TIMEOUT)) "
proof -
  have *: "\<exists>arg t' cb. smtp_process ipa a m None (Some r) t = Inr (arg, t', cb) \<and>
    (case arg of Some s' \<Rightarrow> body_phase m full s' t' \<and> cb = None
     | None \<Rightarrow> wire t' = wire t \<and> cb = Some (SMTP_RESULT_ERR_TIMEOUT, 0, ERR_TIMEOUT))"
    if r: "body_phase m full r t" for r
  proof (cases "ss_timer r = 0")
    case True
    then show ?thesis using r by (simp add: smtp_process_def smtp_close_def altcp_close_def body_phase_def)
  next
    case False
    then show ?thesis
      using r send_body_phase [OF assms(1) r]
      by (auto simp: smtp_process_def body_phase_def)
  qed
  have "body_phase m full (if ss_timer s \<noteq> 0 then s\<lparr>ss_timer := ss_timer s - 1\<rparr> else s) t"
    using assms(2) by (simp add: body_phase_def)
  from * [OF this] * [OF assms(2)] assms(3) show ?thesis by auto
qed

lemma event_step_Inr:
  "smtp_step ipa a m e arg t = Inr (arg', t', cb) \<Longrightarrow>
     smtp_event_step ipa a m e (arg, t, cbs) = Inr (arg', t', cbs @ (case cb of None \<Rightarrow> [] | Some c \<Rightarrow> [c]))"
  by (simp add: smtp_event_step_def)

lemma events_phase:
  assumes "mem_ok m" and "body_phase m full s t" and "set es \<subseteq> {Tcp_Sent, Tcp_Poll}"
  shows "\<exists>arg t' cbs'. foldR (smtp_event_step ipa a m) es (Some s, t, cbs) = Inr (arg, t', cbs') \<and>
    (case arg of Some s' \<Rightarrow> body_phase m full s' t' \<and> cbs' = cbs
     | None \<Rightarrow> cbs' = cbs @ [(SMTP_RESULT_ERR_TIMEOUT, 0, ERR_TIMEOUT)] \<and>
         (\<exists>s'. body_phase m full s' t'))"
  using assms(2,3)
proof (induction es arbitrary: s t)
  case Nil
  then show ?case by simp
next
  case (Cons e es)
  then have "e = Tcp_Sent \<or> e = Tcp_Poll" by auto
  from event_phase [OF assms(1) Cons.prems(1) this, of ipa a] obtain arg t1 cb where
    e: "smtp_step ipa a m e (Some s) t = Inr (arg, t1, cb)"
    "case arg of Some s' \<Rightarrow> body_phase m full s' t1 \<and> cb = None
     | None \<Rightarrow> wire t1 = wire t \<and> cb = Some (SMTP_RESULT_ERR_TIMEOUT, 0, ERR_TIMEOUT)" by blast
  show ?case
  proof (cases arg)
    case (Some s1)
    with e Cons.IH [of s1 t1] Cons.prems show ?thesis by (simp add: event_step_Inr [OF e(1)])
  next
    case None
    have gone: "foldR (smtp_event_step ipa a m) es (None, t1, c) = Inr (None, t1, c)" for c
      using Cons.prems(2)
      by (induction es) (auto simp: smtp_event_step_def smtp_process_def)
    have "body_phase m full s t1" using Cons.prems(1) e(2) None by (simp add: body_phase_def)
    with e None gone show ?thesis by (auto simp: event_step_Inr [OF e(1)])
  qed
qed

section \<open>One result for every session\<close>

lemma close_result: "smtp_close s t r c e = (arg, t', cb) \<Longrightarrow> arg = None \<longleftrightarrow> cb \<noteq> None"
  by (auto simp: smtp_close_def split: prod.splits if_splits)

lemma answer_result:
  assumes "smtp_answer ipa a m s t code p = Inr (arg, t', cb)"
  shows "arg = None \<longleftrightarrow> cb \<noteq> None"
proof -
  obtain cmd where cmd: "next_command ipa a m s code p = Inr cmd"
    using assms by (auto simp: smtp_answer_def bindR_eq_Inr_iff)
  show ?thesis
  proof (cases cmd)
    case None
    with assms cmd show ?thesis by (simp add: smtp_answer_def close_result)
  next
    case (Some c)
    obtain nx tx ok t1 where c: "c = (nx, tx)" "altcp_write tx t = (ok, t1)" by (metis surj_pair)
    with assms cmd Some show ?thesis
      by (auto simp: smtp_answer_def Let_def bindR_eq_Inr_iff split: if_splits)
  qed
qed

lemma process_result:
  assumes "smtp_process ipa a m p (Some s) t = Inr (arg, t', cb)"
  shows "arg = None \<longleftrightarrow> cb \<noteq> None"
proof -
  obtain s1 where s1: "s1 = (case p of None \<Rightarrow> s
      | Some new \<Rightarrow> s\<lparr>ss_p := Some (case ss_p s of None \<Rightarrow> new | Some old \<Rightarrow> old @ new)\<rparr>)" by blast
  consider (late) "p = None" "ss_timer s1 = 0"
    | (body) "\<not> (p = None \<and> ss_timer s1 = 0)" "p = None" "ss_state s1 = SMTP_BODY"
    | (reply) "\<not> (p = None \<and> ss_timer s1 = 0)" "\<not> (p = None \<and> ss_state s1 = SMTP_BODY)" by blast
  then show ?thesis
  proof cases
    case late
    with assms s1 show ?thesis by (simp add: smtp_process_def close_result)
  next
    case body
    with assms s1 show ?thesis by (auto simp: smtp_process_def bindR_eq_Inr_iff)
  next
    case reply
    with assms s1 show ?thesis
      by (cases "ss_p s1") (auto simp: smtp_process_def Let_def answer_result split: if_splits)
  qed
qed

lemma step_result:
  "smtp_step ipa a m e (Some s) t = Inr (arg, t', cb) \<Longrightarrow> arg = None \<longleftrightarrow> cb \<noteq> None"
  by (cases e) (auto simp: process_result close_result split: if_splits)

lemma step_gone:
  "smtp_step ipa a m e None t = Inr (arg, t', cb) \<Longrightarrow> arg = None \<and> cb = None"
  by (cases e) (auto simp: smtp_process_def split: if_splits)

section \<open>A whole dialogue\<close>

lemma base64_small:
  assumes "b64_size (length src) \<le> room" and "room \<le> SMTP_TX_BUF_LEN"
  shows "smtp_base64_encode room src = Inr (b64_text src)"
proof -
  have "room \<le> 255" using assms(2) by (simp add: SMTP_TX_BUF_LEN_def)
  have "length src \<le> b64_size (length src)" by (simp add: b64_size_def)
  then have n: "length src + 2 < 2 ^ 30" using assms(1) \<open>room \<le> 255\<close> by simp
  have "encode_base64 (replicate 256 0) (of_nat room) src (of_nat (length src)) =
      Inr (b64_text src @ replicate (256 - b64_size (length src)) 0, of_nat (b64_size (length src)))"
    using encode_base64_eq [OF n order_refl, of "replicate 256 0"] assms(1) \<open>room \<le> 255\<close>
    by (simp add: write_bytes_def length_b64_text)
  then show ?thesis
    using encode_lengths(2,4) [OF n] assms(1) length_b64_text [of src]
    by (simp add: smtp_base64_encode_def Let_def SMTP_TX_BUF_LEN_def)
qed

lemma send_body_roomy:
  assumes "mem_ok m" and "\<forall>x \<in> set (pieces m). x \<noteq> []" and "roomy t"
    and "ss_state s = SMTP_BODY" and "ss_p s = None"
    and "ss_bdy s = ss_bdy (new_session m)"
  shows "\<exists>s' t'. smtp_send_body m s t = Inr (s', t') \<and> ss_state s' = SMTP_QUIT \<and> ss_p s' = None \<and>
    wire t' = wire t @ mail_body m @ end_mark \<and> roomy t'"
proof -
  have ok: "body_ok (ss_bdy s)" "bdh_state (ss_bdy s) = BDH_SENDING" "ss_body_len (ss_bdy s) = 0"
    and left: "left_to_send m (ss_bdy s) = mail_body m"
    using assms(6) by (simp_all add: new_session_def body_ok_def left_to_send_def mail_body_def)
  have phase: "body_phase m (wire t @ mail_body m) s t"
    using assms(4,5) ok(1) left by (simp add: body_phase_def)
  obtain ret b t1 where r: "bdh_run m 0 0 (ss_bdy s) t = Inr (ret, b, t1)" "bdh_state b = BDH_STOP"
    using run_roomy [OF assms(1-3) ok] by blast
  obtain s' t' where st: "smtp_send_body m s t = Inr (s', t')" "body_phase m (wire t @ mail_body m) s' t'"
    "sndbuf_at t' = sndbuf_at t" "write_ok t' = write_ok t"
    using send_body_phase [OF assms(1) phase] by blast
  obtain b2 t2 where h: "smtp_send_body_data_handler m (ss_bdy s) t = Inr (b2, t2)"
    "ss_body_sent b2 = ss_body_len b2 \<longleftrightarrow> bdh_state b2 = BDH_STOP" "write_ok t2 = write_ok t"
    using handler_keeps [OF assms(1) ok(1,2), of t] by blast
  have "bdh_state b2 = BDH_STOP" using h(1) r ok by (auto simp: smtp_send_body_data_handler_def)
  then have "ss_state s' = SMTP_QUIT"
    using st(1) h assms(3,4) by (auto simp: smtp_send_body_def altcp_write_def roomy_def)
  then show ?thesis using st assms(3) by (auto simp: body_phase_def roomy_def)
qed

text \<open>A complete reply to which there is a command.\<close>

lemma recv_command:
  assumes "roomy t" and "ss_p s = None" and "smtp_is_response r = code" and "code \<noteq> 0"
    and "smtp_is_response_finished r" and "ss_state s \<noteq> SMTP_CLOSED"
    and "next_command ipa a m (s\<lparr>ss_p := Some r\<rparr>) code r = Inr (Some (nx, tx))"
    and "nx \<noteq> SMTP_BODY" and "nx \<noteq> SMTP_CLOSED"
  shows "smtp_event_step ipa a m (Tcp_Recv r) (Some s, t, cbs) =
    Inr (Some (s\<lparr>ss_timer := SMTP_TIMEOUT, ss_state := nx\<rparr>),
         t\<lparr>wire := wire t @ tx, moment := moment t + 1\<rparr>, cbs)"
proof -
  have "s\<lparr>ss_timer := x, ss_p := None, ss_state := nx\<rparr> = s\<lparr>ss_timer := x, ss_state := nx\<rparr>" for x
    using assms(2) by (cases s) simp
  then show ?thesis
    using assms
    by (simp add: smtp_event_step_def smtp_process_def smtp_answer_def altcp_write_def roomy_def Let_def)
qed

text \<open>What the client says in a session with a server that offers the plain method.\<close>

definition mail_header :: "mail_mem \<Rightarrow> u8 list" where
  "mail_header m = bytes_of ''From: <'' @ email_from @ bytes_of ''>'' @ crlf @ bytes_of ''To: <'' @
     c_str (mem_to m) @ bytes_of ''>'' @ crlf @ bytes_of ''Subject: Acceso de ID: '' @
     c_str (mem_card m) @ crlf @ bytes_of ''MIME-Version: 1.0'' @ crlf @
     bytes_of ''Content-Type:multipart/mixed;boundary=\"977d81ff9d852ab2a0cad646f8058349\"'' @
     crlf @ crlf"

definition session_text :: "u8 list \<Rightarrow> auth_data \<Rightarrow> mail_mem \<Rightarrow> u8 list list" where
  "session_text ipa a m =
     [bytes_of ''EHLO ['' @ ipa @ bytes_of '']'' @ crlf,
      bytes_of ''AUTH PLAIN '' @ b64_text (smtp_auth_plain a) @ crlf,
      bytes_of ''MAIL FROM: <'' @ email_from @ bytes_of ''>'' @ crlf,
      bytes_of ''RCPT TO: <'' @ c_str (mem_to m) @ bytes_of ''>'' @ crlf,
      bytes_of ''DATA'' @ crlf,
      mail_header m, mail_body m, end_mark, bytes_of ''QUIT'' @ crlf]"

definition good_replies :: "u8 list list" where
  "good_replies = map (\<lambda>s. s @ crlf)
     [bytes_of ''220 mail ready'', bytes_of ''250-mail'' @ crlf @ bytes_of ''250 AUTH LOGIN PLAIN'',
      bytes_of ''235 ok'', bytes_of ''250 ok'', bytes_of ''250 ok'', bytes_of ''354 go ahead'',
      bytes_of ''250 queued'']"

lemma reply_codes:
  "map smtp_is_response good_replies = [220, 250, 235, 250, 250, 354, 250]"
  by (simp add: good_replies_def smtp_is_response_def c_str_def bytes_of_def atoi_def isspace_def
      isdigit_def digits_value_def word_le_nat_alt)

lemma reply_complete: "list_all smtp_is_response_finished good_replies"
  by (simp add: good_replies_def smtp_is_response_finished_def response_finished_from.simps bytes_of_def
      crlf_def)

text \<open>The commands of that session, one by one.\<close>

lemma read_c_str:
  assumes "length xs \<le> 1000"
  shows "read_mem xs (of_nat (length (c_str xs))) = Inr (c_str xs)"
proof -
  have "length (c_str xs) \<le> length xs" by (simp add: c_str_def length_takeWhile_le)
  then have "unat (of_nat (length (c_str xs)) :: u16) = length (c_str xs)"
    using assms by (intro unat_of_nat_u16) simp
  then show ?thesis
    using \<open>length (c_str xs) \<le> length xs\<close>
    by (simp add: read_mem_def c_str_def takeWhile_eq_take [symmetric])
qed

lemma length_email_from: "length email_from = 18"
  by (simp add: email_from_def)

lemma read_from: "read_mem (email_from @ [0]) 18 = Inr email_from"
  by (simp add: read_mem_def length_email_from)

lemma to_length:
  assumes "length xs = n" and "0 \<in> set xs"
  shows "length (c_str xs) < n"
proof -
  obtain ys zs where "xs = ys @ 0 # zs" "0 \<notin> set ys" using assms(2) split_list_first by fastforce
  then show ?thesis using assms(1) by (auto simp: c_str_append_nul)
qed

lemma auth_plain_command:
  assumes "smtp_set_auth user pass a0 = (ERR_OK, a)"
  shows "smtp_prepare_auth_or_mail a s (good_replies ! 1) =
    Inr (SMTP_AUTH_PLAIN, bytes_of ''AUTH PLAIN '' @ b64_text (smtp_auth_plain a) @ crlf)"
proof -
  have len: "length (smtp_auth_plain a) \<le> 66"
    using assms by (auto simp: smtp_set_auth_def SMTP_MAX_USERNAME_LEN_def SMTP_MAX_PASS_LEN_def
        split: if_splits)
  have le: "b64_size (length (smtp_auth_plain a)) \<le> 90" using len by (simp add: b64_size_def)
  then have b: "smtp_base64_encode 244 (smtp_auth_plain a) = Inr (b64_text (smtp_auth_plain a))"
    by (intro base64_small) (simp_all add: SMTP_TX_BUF_LEN_def)
  have r: "good_replies ! 1 = bytes_of ''250-mail'' @ crlf @ bytes_of ''250 AUTH LOGIN PLAIN'' @ crlf"
    by (simp add: good_replies_def)
  have f: "pbuf_strstr (good_replies ! 1) (bytes_of ''AUTH '') = Some 14"
    "pbuf_memfind (good_replies ! 1) crlf 14 = Some 30"
    "c_str (drop 5 (take 16 (drop 14 (good_replies ! 1)))) = bytes_of ''LOGIN PLAIN''"
    "find_sub (bytes_of ''PLAIN'') (bytes_of ''LOGIN PLAIN'') = Some 6"
    unfolding r by (simp_all add: pbuf_strstr_def pbuf_memfind_def bytes_of_def crlf_def c_str_def)
  have "length (bytes_of ''AUTH PLAIN '' @ b64_text (smtp_auth_plain a) @ crlf) \<le> 255"
    using le by (simp add: length_b64_text crlf_def)
  then show ?thesis
    by (simp add: smtp_prepare_auth_or_mail_def f b Let_def SMTP_TX_BUF_LEN_def checked_def del: One_nat_def)
qed

lemma session_commands:
  assumes "length ipa \<le> 15" and "length (mem_to m) = 50" and "0 \<in> set (mem_to m)"
    and "length (mem_card m) = 9" and "ss_from_len s = of_nat (length email_from)"
    and "ss_to_len s = of_nat (length (c_str (mem_to m)))"
    and "ss_subject_len s = of_nat (length (c_str (mem_card m)))"
  shows "smtp_prepare_helo ipa = Inr (SMTP_HELO, session_text ipa a m ! 0)"
    and "smtp_prepare_mail s = Inr (SMTP_MAIL, session_text ipa a m ! 2)"
    and "smtp_prepare_rcpt m s = Inr (SMTP_RCPT, session_text ipa a m ! 3)"
    and "smtp_prepare_header m s = Inr (SMTP_BODY, mail_header m)"
    and "smtp_prepare_quit = Inr (SMTP_CLOSED, session_text ipa a m ! 8)"
proof -
  have c: "length (c_str (mem_to m)) \<le> 49" using to_length [OF assms(2,3)] by simp
  have d: "length (c_str (mem_card m)) \<le> 9"
    using assms(4) length_takeWhile_le [of _ "mem_card m"] by (simp add: c_str_def)
  show "smtp_prepare_helo ipa = Inr (SMTP_HELO, session_text ipa a m ! 0)"
    using assms(1) by (simp add: smtp_prepare_helo_def checked_def session_text_def SMTP_TX_BUF_LEN_def crlf_def)
  show "smtp_prepare_mail s = Inr (SMTP_MAIL, session_text ipa a m ! 2)"
    using assms(5) by (simp add: smtp_prepare_mail_def read_from checked_def session_text_def
        SMTP_TX_BUF_LEN_def crlf_def length_email_from)
  show "smtp_prepare_rcpt m s = Inr (SMTP_RCPT, session_text ipa a m ! 3)"
    using assms(2,6) c by (simp add: smtp_prepare_rcpt_def read_c_str checked_def session_text_def
        SMTP_TX_BUF_LEN_def crlf_def)
  show "smtp_prepare_header m s = Inr (SMTP_BODY, mail_header m)"
    using assms(2,4,5,6,7) c d by (simp add: smtp_prepare_header_def read_c_str read_from checked_def
        mail_header_def SMTP_TX_BUF_LEN_def crlf_def length_email_from)
  show "smtp_prepare_quit = Inr (SMTP_CLOSED, session_text ipa a m ! 8)"
    by (simp add: smtp_prepare_quit_def checked_def session_text_def SMTP_TX_BUF_LEN_def crlf_def)
qed

section \<open>Properties\<close>

text \<open>C2: The body of a mail is sent exactly once and in order, however much the connection takes at
  a time and whichever writes it refuses: while the session sends, what has been sent is the
  beginning of the mail; when it waits for the confirmation, it is the whole mail and the line with
  the dot. The only other end is a timeout, which is reported.\<close>

theorem smtp_body_exact:
  assumes "mem_ok m" and "ss_state s = SMTP_BODY" and "ss_p s = None"
    and "ss_bdy s = ss_bdy (new_session m)" and "set es \<subseteq> {Tcp_Sent, Tcp_Poll}"
  shows "\<exists>arg t' cbs. foldR (smtp_event_step ipa a m) es (Some s, t, []) = Inr (arg, t', cbs) \<and>
    (wire t' = wire t @ mail_body m @ end_mark \<or> (\<exists>rest. wire t' @ rest = wire t @ mail_body m)) \<and>
    (case arg of
       None \<Rightarrow> cbs = [(SMTP_RESULT_ERR_TIMEOUT, 0, ERR_TIMEOUT)]
     | Some s' \<Rightarrow> cbs = [] \<and>
         (if ss_state s' = SMTP_QUIT then wire t' = wire t @ mail_body m @ end_mark
          else ss_state s' = SMTP_BODY))"
proof -
  have "body_ok (ss_bdy s)" "left_to_send m (ss_bdy s) = mail_body m"
    using assms(4) by (simp_all add: new_session_def body_ok_def left_to_send_def mail_body_def)
  then have "body_phase m (wire t @ mail_body m) s t" using assms(2,3) by (simp add: body_phase_def)
  from events_phase [OF assms(1) this assms(5), of ipa a "[]"] show ?thesis
    by (fastforce simp: body_phase_def split: option.splits)
qed

text \<open>C25: A session that has been opened makes exactly one call back, with which it ends, whatever
  the server and the connection do; one that could not be opened makes none.\<close>

theorem smtp_one_result:
  assumes "smtp_send_mail_bodycback mem1 mem2 resolved pcb connected m = (err, arg)"
    and "foldR (smtp_event_step ipa a m) es (arg, t, []) = Inr (arg', t', cbs)"
  shows "(err = ERR_OK \<longleftrightarrow> arg \<noteq> None) \<and>
    length cbs = (if arg \<noteq> None \<and> arg' = None then 1 else 0)"
proof
  show "err = ERR_OK \<longleftrightarrow> arg \<noteq> None"
    using assms(1)
    by (auto simp: smtp_send_mail_bodycback_def smtp_send_mail_alloced_def split: if_splits)
  define P where "P = (\<lambda>(x :: smtp_session option, u :: tcp_conn, c :: (smtp_result \<times> int \<times> err_t) list).
    length c = (if arg \<noteq> None \<and> x = None then 1 else 0) \<and> (arg = None \<longrightarrow> x = None))"
  have "P (arg', t', cbs)"
  proof (rule foldR_invariant [OF assms(2)])
    show "P (arg, t, [])" by (cases arg) (simp_all add: P_def)
    fix e y y'
    assume y: "P y" "smtp_event_step ipa a m e y = Inr y'"
    obtain x u c where yx: "y = (x, u, c)" by (metis prod_cases3)
    with y(2) obtain x' u' cb where st: "smtp_step ipa a m e x u = Inr (x', u', cb)"
      "y' = (x', u', c @ (case cb of None \<Rightarrow> [] | Some k \<Rightarrow> [k]))"
      by (auto simp: smtp_event_step_def bindR_eq_Inr_iff)
    show "P y'"
      using y(1) yx st step_gone [of ipa a m e u x' u' cb] step_result [of ipa a m e _ u x' u' cb]
      by (cases x) (auto simp: P_def split: option.splits)
  qed
  then show "length cbs = (if arg \<noteq> None \<and> arg' = None then 1 else 0)" by (simp add: P_def)
qed



text \<open>The length of the recipient's address is taken when the session is opened, its text when
  the recipient is announced: after a change of the address in between, the server is given as
  many bytes of the new one as the old one had.\<close>

theorem smtp_recipient_race:
  assumes "length (mem_to m) = 50" and "0 \<in> set (mem_to m)" and "length (mem_to m') = 50"
  shows "smtp_prepare_rcpt m' (new_session m) = Inr (SMTP_RCPT,
    bytes_of ''RCPT TO: <'' @ take (length (c_str (mem_to m))) (mem_to m') @ bytes_of ''>'' @ crlf)"
proof -
  have c: "length (c_str (mem_to m)) \<le> 49" using to_length [OF assms(1,2)] by simp
  then have "unat (of_nat (length (c_str (mem_to m))) :: u16) = length (c_str (mem_to m))"
    by (intro unat_of_nat_u16) simp
  then show ?thesis
    using c assms(3) by (simp add: smtp_prepare_rcpt_def new_session_def read_mem_def checked_def
        SMTP_TX_BUF_LEN_def crlf_def)
qed


section \<open>Witnesses\<close>

definition mail_example :: mail_mem where
  "mail_example = \<lparr>mem_to = bytes_of ''tdemeco@itba.edu.ar'' @ replicate 31 0,
     mem_card = bytes_of ''15681239'' @ [0], mem_time = bytes_of ''19.02.2022 15:03:34'' @ replicate 13 0,
     mem_time_file = bytes_of ''19.02.2022_15-03-34'' @ replicate 13 0,
     mem_bitmap = replicate 76800 65, base_64_jpg_size = 8000\<rparr>"

definition conn_example :: tcp_conn where
  "conn_example = \<lparr>wire = [], moment = 0, sndbuf_at = (\<lambda>k. 0xFFFF), write_ok = (\<lambda>k. True),
     close_ok = (\<lambda>k. True)\<rparr>"

definition auth_example :: auth_data where
  "auth_example = snd (smtp_set_auth USER_AUTH PASS_AUTH
     \<lparr>smtp_username = [], smtp_pass = [], smtp_auth_plain = []\<rparr>)"

lemma mail_example_ok: "mem_ok mail_example" "roomy conn_example"
  by (simp_all add: mem_ok_def mail_example_def roomy_def conn_example_def)

lemma auth_example_ok:
  "smtp_set_auth USER_AUTH PASS_AUTH \<lparr>smtp_username = [], smtp_pass = [], smtp_auth_plain = []\<rparr> =
     (ERR_OK, auth_example)"
  by (simp add: auth_example_def smtp_set_auth_def USER_AUTH_def PASS_AUTH_def SMTP_MAX_USERNAME_LEN_def
      SMTP_MAX_PASS_LEN_def)

lemma mail_example_pieces: "\<forall>x \<in> set (pieces mail_example). x \<noteq> []"
proof -
  have "take (unat (ucast (8000 :: u32) :: u16)) (replicate 76800 65) \<noteq> ([] :: u8 list)" by simp
  then show ?thesis
    by (simp add: pieces_def mail_example_def email_data_start_def email_data_after_id_def c_str_def
        email_data_after_time_def between_filename_def after_filename_def end_email_def crlf_def bytes_of_def)
qed


lemma smtp_body_exact_witness:
  "\<exists>arg t' cbs. foldR (smtp_event_step [] auth_example mail_example) [Tcp_Poll, Tcp_Sent, Tcp_Poll]
     (Some ((new_session mail_example)\<lparr>ss_state := SMTP_BODY\<rparr>), conn_example\<lparr>sndbuf_at := (\<lambda>k. 100)\<rparr>, []) =
   Inr (arg, t', cbs) \<and> (arg = None \<longrightarrow> cbs = [(SMTP_RESULT_ERR_TIMEOUT, 0, ERR_TIMEOUT)])"
proof -
  let ?s = "(new_session mail_example)\<lparr>ss_state := SMTP_BODY\<rparr>"
  have "ss_state ?s = SMTP_BODY" "ss_p ?s = None" "ss_bdy ?s = ss_bdy (new_session mail_example)"
    "set [Tcp_Poll, Tcp_Sent, Tcp_Poll] \<subseteq> {Tcp_Sent, Tcp_Poll}"
    by (simp_all add: new_session_def)
  from smtp_body_exact [OF mail_example_ok(1) this, of "[]" auth_example "conn_example\<lparr>sndbuf_at := (\<lambda>k. 100)\<rparr>"]
  show ?thesis by fastforce
qed

lemma smtp_one_result_witness:
  "length [(SMTP_RESULT_ERR_CLOSED, 0 :: int, ERR_OTHER)] = 1 \<and>
   foldR (smtp_event_step [] auth_example mail_example) [Tcp_Err ERR_OTHER]
     (Some (new_session mail_example), conn_example, []) =
   Inr (None, conn_example, [(SMTP_RESULT_ERR_CLOSED, 0, ERR_OTHER)])"
proof -
  have a: "smtp_send_mail_bodycback True True ERR_OK True ERR_OK mail_example =
      (ERR_OK, Some (new_session mail_example))"
    by (simp add: smtp_send_mail_bodycback_def smtp_send_mail_alloced_def)
  have b: "foldR (smtp_event_step [] auth_example mail_example) [Tcp_Err ERR_OTHER]
      (Some (new_session mail_example), conn_example, []) =
    Inr (None, conn_example, [(SMTP_RESULT_ERR_CLOSED, 0, ERR_OTHER)])"
    by (simp add: smtp_event_step_def)
  from smtp_one_result [OF a b] b show ?thesis by simp
qed

lemma smtp_recipient_race_witness:
  "smtp_prepare_rcpt (mail_example\<lparr>mem_to := bytes_of ''a@b.c'' @ replicate 45 0\<rparr>) (new_session mail_example) =
   Inr (SMTP_RCPT, bytes_of ''RCPT TO: <a@b.c'' @ replicate 14 0 @ bytes_of ''>'' @ crlf)"
proof -
  have "c_str (mem_to mail_example) = bytes_of ''tdemeco@itba.edu.ar''"
    by (simp add: mail_example_def c_str_def bytes_of_def)
  then have "length (c_str (mem_to mail_example)) = 19" by simp
  then show ?thesis
    using smtp_recipient_race [of mail_example "mail_example\<lparr>mem_to := bytes_of ''a@b.c'' @ replicate 45 0\<rparr>"]
    by (simp add: mail_example_def bytes_of_def)
qed


end
