(* ===== verification/Jpec_Buf.thy ===== *)
theory Jpec_Buf
  imports C_Prelude
begin

unbundle bit_operations_syntax

text \<open>
  The output buffer of the JPEG encoder, \<^verbatim>\<open>jpec-master/src/buf.c\<close>, and the contract the
  encoder relies on: bytes come out in the order they were put in, whatever the buffer does with
  its memory. Allocation is taken to succeed; bytes that \<^verbatim>\<open>malloc\<close> and \<^verbatim>\<open>realloc\<close> leave
  uninitialised are zero in the model, and no property speaks of them.
\<close>

section \<open>The contract\<close>

locale byte_sink =
  fixes put :: "'b \<Rightarrow> u32 \<Rightarrow> 'b"
    and out :: "'b \<Rightarrow> u8 list"
    and ok :: "'b \<Rightarrow> bool"
  assumes put_out: "ok b \<Longrightarrow> out (put b v) = out b @ [ucast v]"
    and put_ok: "ok b \<Longrightarrow> ok (put b v)"
begin

lemma puts_out: "ok b \<Longrightarrow> out (foldl put b vs) = out b @ map ucast vs \<and> ok (foldl put b vs)"
  by (induction vs arbitrary: b) (simp_all add: put_out put_ok)

end

section \<open>The buffer\<close>

record jpec_buffer_t =
  stream :: "u8 list option"
  len :: nat
  siz :: nat

definition JPEC_BUFFER_INIT_SIZ :: nat where "JPEC_BUFFER_INIT_SIZ = 65536"

definition jpec_buffer_new2 :: "int \<Rightarrow> jpec_buffer_t" where
  "jpec_buffer_new2 sz =
     (let sz = (if sz < 0 then 0 else sz) in
      \<lparr>stream = (if 0 < sz then Some (replicate (nat sz) 0) else None), len = 0, siz = nat sz\<rparr>)"

definition jpec_buffer_new :: jpec_buffer_t where
  "jpec_buffer_new = jpec_buffer_new2 (-1)"

text \<open>\<^verbatim>\<open>realloc\<close> keeps the old bytes and takes a null pointer as an empty block.\<close>

definition realloc :: "u8 list option \<Rightarrow> nat \<Rightarrow> u8 list" where
  "realloc st n =
     (let old = (case st of Some xs \<Rightarrow> xs | None \<Rightarrow> []) in
      take n old @ replicate (n - length old) 0)"

definition jpec_buffer_write_byte :: "jpec_buffer_t \<Rightarrow> u32 \<Rightarrow> jpec_buffer_t" where
  "jpec_buffer_write_byte b val =
     (let b1 = (if siz b = len b
                then let nsiz = (if 0 < siz b then 2 * siz b else JPEC_BUFFER_INIT_SIZ)
                     in b\<lparr>stream := Some (realloc (stream b) nsiz), siz := nsiz\<rparr>
                else b)
      in b1\<lparr>stream := map_option (\<lambda>xs. xs[len b1 := ucast val]) (stream b1),
            len := len b1 + 1\<rparr>)"

definition jpec_buffer_write_2bytes :: "jpec_buffer_t \<Rightarrow> u32 \<Rightarrow> jpec_buffer_t" where
  "jpec_buffer_write_2bytes b val =
     jpec_buffer_write_byte (jpec_buffer_write_byte b (drop_bit 8 val AND 0xFF)) (val AND 0xFF)"

section \<open>It is a sink\<close>

definition written :: "jpec_buffer_t \<Rightarrow> u8 list" where
  "written b = (case stream b of Some xs \<Rightarrow> take (len b) xs | None \<Rightarrow> [])"

definition buffer_ok :: "jpec_buffer_t \<Rightarrow> bool" where
  "buffer_ok b \<longleftrightarrow> len b \<le> siz b \<and>
     (case stream b of Some xs \<Rightarrow> length xs = siz b \<and> 0 < siz b | None \<Rightarrow> siz b = 0)"

lemma buffer_ok_new: "buffer_ok (jpec_buffer_new2 n)" "written (jpec_buffer_new2 n) = []"
  by (simp_all add: buffer_ok_def written_def jpec_buffer_new2_def Let_def)

lemma write_byte_out:
  assumes "buffer_ok b"
  shows "written (jpec_buffer_write_byte b v) = written b @ [ucast v]"
proof (cases "siz b = len b")
  case True
  with assms show ?thesis
    by (cases "stream b")
      (auto simp: jpec_buffer_write_byte_def Let_def written_def buffer_ok_def realloc_def
        JPEC_BUFFER_INIT_SIZ_def take_Suc_conv_app_nth nth_append)
next
  case False
  with assms show ?thesis
    by (cases "stream b")
      (auto simp: jpec_buffer_write_byte_def Let_def written_def buffer_ok_def
        take_Suc_conv_app_nth)
qed

lemma write_byte_ok: "buffer_ok b \<Longrightarrow> buffer_ok (jpec_buffer_write_byte b v)"
  by (cases "stream b")
    (auto simp: jpec_buffer_write_byte_def Let_def buffer_ok_def realloc_def
      JPEC_BUFFER_INIT_SIZ_def)

interpretation jb: byte_sink jpec_buffer_write_byte written buffer_ok
  by unfold_locales (simp_all add: write_byte_out write_byte_ok)

text \<open>The two bytes of a 16-bit value, most significant first.\<close>

definition be16 :: "u32 \<Rightarrow> u8 list" where
  "be16 v = [ucast (drop_bit 8 v), ucast v]"

lemma write_2bytes_out:
  assumes "buffer_ok b"
  shows "written (jpec_buffer_write_2bytes b v) = written b @ be16 v"
    and "buffer_ok (jpec_buffer_write_2bytes b v)"
proof -
  have low: "(ucast (w AND 0xFF) :: u8) = ucast w" for w :: u32
    by (rule bit_word_eqI) (auto simp: bit_simps bit_numeral_rec less_Suc_eq numeral_eq_Suc)
  show "written (jpec_buffer_write_2bytes b v) = written b @ be16 v"
    "buffer_ok (jpec_buffer_write_2bytes b v)"
    using assms by (simp_all add: jpec_buffer_write_2bytes_def jb.put_out jb.put_ok be16_def low)
qed

end
