(* ===== verification/Jpec_Bits.thy ===== *)
theory Jpec_Bits
  imports Jpec_Buf
begin

unbundle bit_operations_syntax

text \<open>
  The bit writer of the entropy coder, \<^verbatim>\<open>jpec_huff_write_bits\<close> of
  \<^verbatim>\<open>jpec-master/src/huff.c\<close>: bits are collected in a 32-bit buffer, cut into bytes and
  stuffed. Its contract is a locale: after any sequence of writes the buffer holds the bits
  written so far, in order.
\<close>

section \<open>The contract of a bit writer\<close>

locale bit_sink =
  fixes put_bits :: "u32 \<Rightarrow> nat \<Rightarrow> 'x \<Rightarrow> 'x result"
    and holds :: "'x \<Rightarrow> bool list \<Rightarrow> bool"
  assumes put_bits_holds: "\<lbrakk>holds x T; 0 < n; n \<le> 16\<rbrakk> \<Longrightarrow>
    \<exists>y. put_bits v n x = Inr y \<and> holds y (T @ bits_msb n v)"
begin

lemma puts_hold:
  assumes "holds x T" and "\<forall>(v, n) \<in> set cs. 0 < n \<and> n \<le> 16"
  shows "\<exists>y. foldR (\<lambda>(v, n). put_bits v n) cs x = Inr y \<and>
    holds y (T @ concat (map (\<lambda>(v, n). bits_msb n v) cs))"
  using assms
proof (induction cs arbitrary: x T)
  case (Cons c cs)
  obtain v n where c: "c = (v, n)" by (cases c)
  with Cons.prems obtain y where y: "put_bits v n x = Inr y" "holds y (T @ bits_msb n v)"
    using put_bits_holds [of x T n v] by auto
  from Cons.IH [OF y(2)] Cons.prems(2) obtain z
    where "foldR (\<lambda>(v, n). put_bits v n) cs y = Inr z"
      "holds z ((T @ bits_msb n v) @ concat (map (\<lambda>(v, n). bits_msb n v) cs))" by auto
  with y c show ?case by auto
qed simp

end

section \<open>The writer\<close>

record jpec_huff_state_t =
  buffer :: u32
  nbits :: nat
  dc :: int
  buf_set :: bool

text \<open>
  The state points to the output buffer, which the encoder owns; the two are passed as a pair,
  and \<open>buf_set\<close> says whether the pointer has been set. Writing a byte through the null pointer
  is what \<^verbatim>\<open>jpec_buffer_write_byte\<close> asserts against.
\<close>

type_synonym coder = "jpec_huff_state_t \<times> jpec_buffer_t"

function flush_bytes :: "u32 \<Rightarrow> nat \<Rightarrow> coder \<Rightarrow> coder result" where
  "flush_bytes bfr nb (s, b) =
     (if 8 \<le> nb
      then let chunk = drop_bit 16 bfr AND 0xFF in
           if \<not> buf_set s then Inl Assert_Hang
           else let b1 = jpec_buffer_write_byte b chunk;
                    b2 = (if chunk = 0xFF then jpec_buffer_write_byte b1 0 else b1)
                in flush_bytes (push_bit 8 bfr) (nb - 8) (s, b2)
      else Inr (s\<lparr>buffer := bfr, nbits := nb\<rparr>, b))"
  by pat_completeness auto
termination by (relation "measure (\<lambda>(bfr, nb, c). nb)") auto

declare flush_bytes.simps [simp del]

definition jpec_huff_write_bits :: "u32 \<Rightarrow> nat \<Rightarrow> coder \<Rightarrow> coder result" where
  "jpec_huff_write_bits bits n c =
     (if \<not> (0 < n \<and> n \<le> 16) then Inl Assert_Hang
      else
        let mask = push_bit n 1 - 1;
            nb = nbits (fst c) + n;
            bfr = push_bit (24 - nb) (bits AND mask) OR buffer (fst c)
        in flush_bytes bfr nb c)"

section \<open>Bits and bytes\<close>

definition byte_at :: "bool list \<Rightarrow> nat \<Rightarrow> u8" where
  "byte_at T k = horner_sum of_bool 2 (rev (take 8 (drop (8 * k) T)))"

definition whole_bytes :: "bool list \<Rightarrow> u8 list" where
  "whole_bytes T = map (byte_at T) [0..<length T div 8]"

definition stuff :: "u8 list \<Rightarrow> u8 list" where
  "stuff bs = concat (map (\<lambda>b. if b = 0xFF then [0xFF, 0] else [b]) bs)"

lemma stuff_append [simp]: "stuff (xs @ ys) = stuff xs @ stuff ys" "stuff [] = []"
  by (simp_all add: stuff_def)

lemma bit_byte_at:
  assumes "8 * k + 8 \<le> length T" and "j < 8"
  shows "bit (byte_at T k) j = T ! (8 * k + (7 - j))"
proof -
  have "rev (take 8 (drop (8 * k) T)) ! j = T ! (8 * k + (7 - j))"
    using assms by (simp add: rev_nth)
  then show ?thesis
    using assms by (simp add: byte_at_def bit_horner_sum_bit_iff)
qed

lemma byte_at_append: "8 * k + 8 \<le> length T \<Longrightarrow> byte_at (T @ X) k = byte_at T k"
  by (simp add: byte_at_def)

text \<open>
  The state holds the bits \<open>T\<close> when the bytes written after \<open>hdr\<close> are the stuffed whole bytes
  of \<open>T\<close> and the rest of \<open>T\<close> is left-justified in the low 24 bits of the buffer. The eight
  bits above them are remains of earlier shifts and are not constrained.
\<close>

definition partial :: "u8 list \<Rightarrow> bool list \<Rightarrow> nat \<Rightarrow> u32 \<Rightarrow> nat \<Rightarrow> jpec_buffer_t \<Rightarrow> bool" where
  "partial hdr T q bfr nb b \<longleftrightarrow> buffer_ok b \<and> length T = 8 * q + nb \<and> nb \<le> 23 \<and>
     written b = hdr @ stuff (map (byte_at T) [0..<q]) \<and>
     (\<forall>i < 24 - nb. \<not> bit bfr i) \<and> (\<forall>i < nb. bit bfr (23 - i) = T ! (8 * q + i))"

definition coder_holds :: "u8 list \<Rightarrow> coder \<Rightarrow> bool list \<Rightarrow> bool" where
  "coder_holds hdr c T \<longleftrightarrow> buf_set (fst c) \<and> nbits (fst c) < 8 \<and>
     partial hdr T (length T div 8) (buffer (fst c)) (nbits (fst c)) (snd c)"

lemma flush_step:
  assumes p: "partial hdr T q bfr nb b" and nb: "8 \<le> nb"
  defines "chunk \<equiv> drop_bit 16 bfr AND 0xFF"
  defines "b1 \<equiv> jpec_buffer_write_byte b chunk"
  shows "partial hdr T (Suc q) (push_bit 8 bfr) (nb - 8)
    (if chunk = 0xFF then jpec_buffer_write_byte b1 0 else b1)"
proof -
  have len: "length T = 8 * q + nb" "nb \<le> 23" and ok: "buffer_ok b"
    and out: "written b = hdr @ stuff (map (byte_at T) [0..<q])"
    and zero: "\<And>i. i < 24 - nb \<Longrightarrow> \<not> bit bfr i"
    and pend: "\<And>i. i < nb \<Longrightarrow> bit bfr (23 - i) = T ! (8 * q + i)"
    using p by (auto simp: partial_def)
  have byte: "ucast chunk = byte_at T q"
  proof (rule bit_word_eqI)
    fix j assume "j < LENGTH(8)"
    then have j: "j < 8" by simp
    then have "bit (0xFF :: u32) j" by (auto simp: bit_numeral_rec less_Suc_eq numeral_eq_Suc)
    then have "bit (ucast chunk :: u8) j = bit bfr (16 + j)"
      using j by (auto simp: chunk_def bit_simps)
    also have "\<dots> = bit bfr (23 - (7 - j))" using j by (simp add: add.commute)
    also have "\<dots> = T ! (8 * q + (7 - j))" using j nb by (intro pend) simp
    also have "\<dots> = bit (byte_at T q) j" using j nb len by (simp add: bit_byte_at)
    finally show "bit (ucast chunk :: u8) j = bit (byte_at T q) j" .
  qed
  have ff: "chunk = 0xFF \<longleftrightarrow> byte_at T q = 0xFF"
  proof -
    have "chunk = ucast (ucast chunk :: u8)"
      by (rule bit_word_eqI)
        (auto simp: chunk_def bit_simps bit_numeral_rec less_Suc_eq numeral_eq_Suc)
    moreover have "(ucast (0xFF :: u8) :: u32) = 0xFF" "(ucast (0xFF :: u32) :: u8) = 0xFF" by simp_all
    ultimately show ?thesis unfolding byte [symmetric] by metis
  qed
  let ?b = "if chunk = 0xFF then jpec_buffer_write_byte b1 0 else b1"
  have "buffer_ok ?b" using ok by (simp add: b1_def jb.put_ok)
  moreover have "written ?b = hdr @ stuff (map (byte_at T) [0..<Suc q])"
    using ok out ff byte by (simp add: b1_def jb.put_out jb.put_ok stuff_def)
  moreover have "\<not> bit (push_bit 8 bfr) i" if "i < 24 - (nb - 8)" for i
    using that nb zero [of "i - 8"] by (auto simp: bit_simps)
  moreover have "bit (push_bit 8 bfr) (23 - i) = T ! (8 * Suc q + i)" if "i < nb - 8" for i
  proof -
    have "23 - i - 8 = 23 - (8 + i)" "8 \<le> 23 - i" "8 + i < nb" "23 - i < 32"
      "8 * Suc q + i = 8 * q + (8 + i)"
      using that len(2) by simp_all
    then show ?thesis using pend [of "8 + i"] by (simp only: bit_push_bit_iff) simp
  qed
  ultimately show ?thesis using nb len by (simp add: partial_def)
qed

lemma flush_bytes_holds:
  "\<lbrakk>partial hdr T q bfr nb (snd c); buf_set (fst c)\<rbrakk> \<Longrightarrow>
     \<exists>d. flush_bytes bfr nb c = Inr d \<and> coder_holds hdr d T \<and> dc (fst d) = dc (fst c)"
proof (induction nb arbitrary: q bfr c rule: less_induct)
  case (less nb)
  obtain s b where c: "c = (s, b)" by (cases c)
  show ?case
  proof (cases "8 \<le> nb")
    case True
    let ?chunk = "drop_bit 16 bfr AND 0xFF :: u32"
    let ?b1 = "jpec_buffer_write_byte b ?chunk"
    let ?b = "if ?chunk = 0xFF then jpec_buffer_write_byte ?b1 0 else ?b1"
    have "partial hdr T (Suc q) (push_bit 8 bfr) (nb - 8) (snd (s, ?b))"
      using flush_step [OF _ True] less.prems(1) c by simp
    from less.IH [OF _ this] True less.prems(2) c show ?thesis
      by (subst c, subst flush_bytes.simps) (simp add: Let_def)
  next
    case False
    then have "length T div 8 = q" using less.prems(1) by (simp add: partial_def)
    with False less.prems c show ?thesis
      by (subst c, subst flush_bytes.simps) (simp add: coder_holds_def)
  qed
qed

lemma write_bits_holds:
  assumes h: "coder_holds hdr c T" and n: "0 < n" "n \<le> 16"
  shows "\<exists>d. jpec_huff_write_bits v n c = Inr d \<and> coder_holds hdr d (T @ bits_msb n v)
    \<and> dc (fst d) = dc (fst c)"
proof -
  let ?k = "nbits (fst c)" and ?q = "length T div 8" and ?T = "T @ bits_msb n v"
  let ?nb = "?k + n"
  let ?low = "v AND (push_bit n 1 - 1)"
  let ?bfr = "push_bit (24 - ?nb) ?low OR buffer (fst c)"
  have k: "?k < 8" and len: "length T = 8 * ?q + ?k" and ok: "buffer_ok (snd c)"
    and out: "written (snd c) = hdr @ stuff (map (byte_at T) [0..<?q])"
    and zero: "\<And>i. i < 24 - ?k \<Longrightarrow> \<not> bit (buffer (fst c)) i"
    and pend: "\<And>i. i < ?k \<Longrightarrow> bit (buffer (fst c)) (23 - i) = T ! (8 * ?q + i)"
    using h by (auto simp: coder_holds_def partial_def)
  have mask: "?low = take_bit n v"
    by (simp add: take_bit_eq_mask mask_eq_decr_exp push_bit_eq_mult)
  have low: "bit ?low i \<longleftrightarrow> i < n \<and> bit v i" for i unfolding mask by (simp add: bit_simps)
  have "map (byte_at ?T) [0..<?q] = map (byte_at T) [0..<?q]"
    by (rule map_cong [OF refl]) (use len in \<open>auto intro!: byte_at_append\<close>)
  then have "written (snd c) = hdr @ stuff (map (byte_at ?T) [0..<?q])" using out by (simp only:)
  moreover have "\<not> bit ?bfr i" if "i < 24 - ?nb" for i
    using that zero [of i] by (simp add: bit_simps)
  moreover have "bit ?bfr (23 - i) = ?T ! (8 * ?q + i)" if i: "i < ?nb" for i
  proof (cases "i < ?k")
    case True
    then have "\<not> bit (push_bit (24 - ?nb) ?low) (23 - i)"
      using k n unfolding bit_push_bit_iff low by auto
    then show ?thesis using pend [OF True] True len by (simp add: bit_or_iff nth_append)
  next
    case False
    then have "\<not> bit (buffer (fst c)) (23 - i)" using i k n by (intro zero) simp
    moreover have "bit (push_bit (24 - ?nb) ?low) (23 - i) = bit v (n - Suc (i - ?k))"
    proof -
      have "24 - ?nb \<le> 23 - i" "23 - i < 32" "23 - i - (24 - ?nb) = n - Suc (i - ?k)"
        using i False k n by auto
      moreover have "n + ?k - Suc i < n" using i False by simp
      ultimately show ?thesis using i False unfolding bit_push_bit_iff low by simp
    qed
    moreover have "?T ! (8 * ?q + i) = bit v (n - Suc (i - ?k))"
    proof -
      have "8 * ?q + i = length T + (i - ?k)" "i - ?k < n" using i False len by simp_all
      then show ?thesis by (simp only: nth_append_length_plus nth_bits_msb)
    qed
    ultimately show ?thesis by (simp only: bit_or_iff) simp
  qed
  ultimately have "partial hdr ?T ?q ?bfr ?nb (snd c)"
    using ok len n k by (simp add: partial_def)
  from flush_bytes_holds [OF this] h n show ?thesis
    by (simp add: jpec_huff_write_bits_def coder_holds_def Let_def)
qed

interpretation hb: bit_sink jpec_huff_write_bits "coder_holds hdr"
  by unfold_locales (use write_bits_holds in blast)

end
