(* ===== verification/Jpec_Tables.thy ===== *)
theory Jpec_Tables
  imports Jpec_Bits
begin

unbundle bit_operations_syntax

text \<open>
  The tables of the JPEG encoder, \<^verbatim>\<open>jpec-master/src/conf.c\<close>, and what makes them usable: the
  code tables are the canonical Huffman codes of the node counts and values that the encoder
  writes into the file, and the zig-zag order is a permutation. The decoding procedure of the
  standard is stated here as the reference that the encoder's output is read with.
\<close>

section \<open>The tables\<close>

definition jpec_qzr :: "nat list" where
  "jpec_qzr =
    [16, 11, 10, 16, 24, 40, 51, 61, 12, 12, 14, 19, 26, 58, 60, 55, 14, 13, 16, 24, 40, 57,
     69, 56, 14, 17, 22, 29, 51, 87, 80, 62, 18, 22, 37, 56, 68, 109, 103, 77, 24, 35, 55, 64,
     81, 104, 113, 92, 49, 64, 78, 87, 103, 121, 120, 101, 72, 92, 95, 98, 112, 100, 103, 99]"

definition jpec_zz :: "nat list" where
  "jpec_zz =
    [0, 1, 8, 16, 9, 2, 3, 10, 17, 24, 32, 25, 18, 11, 4, 5, 12, 19, 26, 33, 40, 48, 41, 34,
     27, 20, 13, 6, 7, 14, 21, 28, 35, 42, 49, 56, 57, 50, 43, 36, 29, 22, 15, 23, 30, 37, 44,
     51, 58, 59, 52, 45, 38, 31, 39, 46, 53, 60, 61, 54, 47, 55, 62, 63]"

definition jpec_dc_nodes :: "nat list" where
  "jpec_dc_nodes =
    [0, 0, 1, 5, 1, 1, 1, 1, 1, 1, 0, 0, 0, 0, 0, 0, 0]"

definition jpec_dc_vals :: "nat list" where
  "jpec_dc_vals =
    [0, 1, 2, 3, 4, 5, 6, 7, 8, 9, 10, 11]"

definition jpec_ac_nodes :: "nat list" where
  "jpec_ac_nodes =
    [0, 0, 2, 1, 3, 3, 2, 4, 3, 5, 5, 4, 4, 0, 0, 1, 125]"

definition jpec_ac_vals :: "nat list" where
  "jpec_ac_vals =
    [0x1, 0x2, 0x3, 0x0, 0x4, 0x11, 0x5, 0x12, 0x21, 0x31, 0x41, 0x6, 0x13, 0x51, 0x61, 0x7,
     0x22, 0x71, 0x14, 0x32, 0x81, 0x91, 0xa1, 0x8, 0x23, 0x42, 0xb1, 0xc1, 0x15, 0x52, 0xd1,
     0xf0, 0x24, 0x33, 0x62, 0x72, 0x82, 0x9, 0xa, 0x16, 0x17, 0x18, 0x19, 0x1a, 0x25, 0x26,
     0x27, 0x28, 0x29, 0x2a, 0x34, 0x35, 0x36, 0x37, 0x38, 0x39, 0x3a, 0x43, 0x44, 0x45, 0x46,
     0x47, 0x48, 0x49, 0x4a, 0x53, 0x54, 0x55, 0x56, 0x57, 0x58, 0x59, 0x5a, 0x63, 0x64, 0x65,
     0x66, 0x67, 0x68, 0x69, 0x6a, 0x73, 0x74, 0x75, 0x76, 0x77, 0x78, 0x79, 0x7a, 0x83, 0x84,
     0x85, 0x86, 0x87, 0x88, 0x89, 0x8a, 0x92, 0x93, 0x94, 0x95, 0x96, 0x97, 0x98, 0x99, 0x9a,
     0xa2, 0xa3, 0xa4, 0xa5, 0xa6, 0xa7, 0xa8, 0xa9, 0xaa, 0xb2, 0xb3, 0xb4, 0xb5, 0xb6, 0xb7,
     0xb8, 0xb9, 0xba, 0xc2, 0xc3, 0xc4, 0xc5, 0xc6, 0xc7, 0xc8, 0xc9, 0xca, 0xd2, 0xd3, 0xd4,
     0xd5, 0xd6, 0xd7, 0xd8, 0xd9, 0xda, 0xe1, 0xe2, 0xe3, 0xe4, 0xe5, 0xe6, 0xe7, 0xe8, 0xe9,
     0xea, 0xf1, 0xf2, 0xf3, 0xf4, 0xf5, 0xf6, 0xf7, 0xf8, 0xf9, 0xfa]"

definition jpec_dc_len :: "nat list" where
  "jpec_dc_len =
    [2, 3, 3, 3, 3, 3, 4, 5, 6, 7, 8, 9]"

definition jpec_dc_code :: "nat list" where
  "jpec_dc_code =
    [0x0, 0x2, 0x3, 0x4, 0x5, 0x6, 0xe, 0x1e, 0x3e, 0x7e, 0xfe, 0x1fe]"

definition jpec_ac_len :: "nat list" where
  "jpec_ac_len =
    [4, 2, 2, 3, 4, 5, 7, 8, 10, 16, 16, 0, 0, 0, 0, 0, 0, 4, 5, 7, 9, 11, 16, 16, 16, 16, 16,
     0, 0, 0, 0, 0, 0, 5, 8, 10, 12, 16, 16, 16, 16, 16, 16, 0, 0, 0, 0, 0, 0, 6, 9, 12, 16,
     16, 16, 16, 16, 16, 16, 0, 0, 0, 0, 0, 0, 6, 10, 16, 16, 16, 16, 16, 16, 16, 16, 0, 0, 0,
     0, 0, 0, 7, 11, 16, 16, 16, 16, 16, 16, 16, 16, 0, 0, 0, 0, 0, 0, 7, 12, 16, 16, 16, 16,
     16, 16, 16, 16, 0, 0, 0, 0, 0, 0, 8, 12, 16, 16, 16, 16, 16, 16, 16, 16, 0, 0, 0, 0, 0, 0,
     9, 15, 16, 16, 16, 16, 16, 16, 16, 16, 0, 0, 0, 0, 0, 0, 9, 16, 16, 16, 16, 16, 16, 16,
     16, 16, 0, 0, 0, 0, 0, 0, 9, 16, 16, 16, 16, 16, 16, 16, 16, 16, 0, 0, 0, 0, 0, 0, 10, 16,
     16, 16, 16, 16, 16, 16, 16, 16, 0, 0, 0, 0, 0, 0, 10, 16, 16, 16, 16, 16, 16, 16, 16, 16,
     0, 0, 0, 0, 0, 0, 11, 16, 16, 16, 16, 16, 16, 16, 16, 16, 0, 0, 0, 0, 0, 0, 16, 16, 16,
     16, 16, 16, 16, 16, 16, 16, 0, 0, 0, 0, 0, 11, 16, 16, 16, 16, 16, 16, 16, 16, 16, 16, 0,
     0, 0, 0, 0]"

definition jpec_ac_code :: "nat list" where
  "jpec_ac_code =
    [0xa, 0x0, 0x1, 0x4, 0xb, 0x1a, 0x78, 0xf8, 0x3f6, 0xff82, 0xff83, 0x0, 0x0, 0x0, 0x0, 0x0,
     0x0, 0xc, 0x1b, 0x79, 0x1f6, 0x7f6, 0xff84, 0xff85, 0xff86, 0xff87, 0xff88, 0x0, 0x0, 0x0,
     0x0, 0x0, 0x0, 0x1c, 0xf9, 0x3f7, 0xff4, 0xff89, 0xff8a, 0xff8b, 0xff8c, 0xff8d, 0xff8e,
     0x0, 0x0, 0x0, 0x0, 0x0, 0x0, 0x3a, 0x1f7, 0xff5, 0xff8f, 0xff90, 0xff91, 0xff92, 0xff93,
     0xff94, 0xff95, 0x0, 0x0, 0x0, 0x0, 0x0, 0x0, 0x3b, 0x3f8, 0xff96, 0xff97, 0xff98, 0xff99,
     0xff9a, 0xff9b, 0xff9c, 0xff9d, 0x0, 0x0, 0x0, 0x0, 0x0, 0x0, 0x7a, 0x7f7, 0xff9e, 0xff9f,
     0xffa0, 0xffa1, 0xffa2, 0xffa3, 0xffa4, 0xffa5, 0x0, 0x0, 0x0, 0x0, 0x0, 0x0, 0x7b, 0xff6,
     0xffa6, 0xffa7, 0xffa8, 0xffa9, 0xffaa, 0xffab, 0xffac, 0xffad, 0x0, 0x0, 0x0, 0x0, 0x0,
     0x0, 0xfa, 0xff7, 0xffae, 0xffaf, 0xffb0, 0xffb1, 0xffb2, 0xffb3, 0xffb4, 0xffb5, 0x0,
     0x0, 0x0, 0x0, 0x0, 0x0, 0x1f8, 0x7fc0, 0xffb6, 0xffb7, 0xffb8, 0xffb9, 0xffba, 0xffbb,
     0xffbc, 0xffbd, 0x0, 0x0, 0x0, 0x0, 0x0, 0x0, 0x1f9, 0xffbe, 0xffbf, 0xffc0, 0xffc1,
     0xffc2, 0xffc3, 0xffc4, 0xffc5, 0xffc6, 0x0, 0x0, 0x0, 0x0, 0x0, 0x0, 0x1fa, 0xffc7,
     0xffc8, 0xffc9, 0xffca, 0xffcb, 0xffcc, 0xffcd, 0xffce, 0xffcf, 0x0, 0x0, 0x0, 0x0, 0x0,
     0x0, 0x3f9, 0xffd0, 0xffd1, 0xffd2, 0xffd3, 0xffd4, 0xffd5, 0xffd6, 0xffd7, 0xffd8, 0x0,
     0x0, 0x0, 0x0, 0x0, 0x0, 0x3fa, 0xffd9, 0xffda, 0xffdb, 0xffdc, 0xffdd, 0xffde, 0xffdf,
     0xffe0, 0xffe1, 0x0, 0x0, 0x0, 0x0, 0x0, 0x0, 0x7f8, 0xffe2, 0xffe3, 0xffe4, 0xffe5,
     0xffe6, 0xffe7, 0xffe8, 0xffe9, 0xffea, 0x0, 0x0, 0x0, 0x0, 0x0, 0x0, 0xffeb, 0xffec,
     0xffed, 0xffee, 0xffef, 0xfff0, 0xfff1, 0xfff2, 0xfff3, 0xfff4, 0x0, 0x0, 0x0, 0x0, 0x0,
     0x7f9, 0xfff5, 0xfff6, 0xfff7, 0xfff8, 0xfff9, 0xfffa, 0xfffb, 0xfffc, 0xfffd, 0xfffe,
     0x0, 0x0, 0x0, 0x0, 0x0]"

definition jpec_dc_nb_vals :: nat where "jpec_dc_nb_vals = 12"

definition jpec_ac_nb_vals :: nat where "jpec_ac_nb_vals = 162"

section \<open>Canonical codes\<close>

text \<open>
  The codes the standard assigns to a list of counts per length (from length \<open>l\<close> on, the first
  code being \<open>f\<close>) and a list of values, and its decoding procedure: a code of the current
  length is complete when it is below the end of that length's range.
\<close>

fun canon :: "nat \<Rightarrow> nat \<Rightarrow> nat list \<Rightarrow> nat list \<Rightarrow> (nat \<times> nat \<times> nat) list" where
  "canon l f [] vs = []"
| "canon l f (n # ns) vs =
     map (\<lambda>i. (vs ! i, f + i, l)) [0..<n] @ canon (Suc l) (2 * (f + n)) ns (drop n vs)"

fun canon_dec :: "nat \<Rightarrow> nat \<Rightarrow> nat list \<Rightarrow> nat list \<Rightarrow> bool list \<Rightarrow> (nat \<times> bool list) option" where
  "canon_dec c f (n # ns) vs (b # bs) =
     (let c' = 2 * c + of_bool b in
      if c' < f + n then Some (vs ! (c' - f), bs)
      else canon_dec c' (2 * (f + n)) ns (drop n vs) bs)"
| "canon_dec c f ns vs bs = None"

fun nat_bits :: "nat \<Rightarrow> nat \<Rightarrow> bool list" where
  "nat_bits 0 c = []"
| "nat_bits (Suc k) c = odd (c div 2 ^ k) # nat_bits k c"

lemma length_nat_bits [simp]: "length (nat_bits k c) = k"
  by (induction k) auto

lemma bits_msb_of_nat: "k \<le> LENGTH('a) \<Longrightarrow> bits_msb k (of_nat c :: 'a::len word) = nat_bits k c"
proof (induction k)
  case (Suc k)
  then have "bit (of_nat c :: 'a word) k = bit c k" by (simp add: bit_simps)
  with Suc show ?case by (simp add: bit_iff_odd [of c])
qed simp

lemma double_power: "Suc l0 \<le> l \<Longrightarrow> 2 * x * 2 ^ (l - Suc l0) = x * (2 :: nat) ^ (l - l0)"
  by (auto dest!: le_Suc_ex)

lemma canon_bound:
  "(s, c, l) \<in> set (canon l0 f ns vs) \<Longrightarrow> l0 \<le> l \<and> f * 2 ^ (l - l0) \<le> c"
proof (induction l0 f ns vs rule: canon.induct)
  case (2 l0 f n ns vs)
  show ?case
  proof (cases "(s, c, l) \<in> set (canon (Suc l0) (2 * (f + n)) ns (drop n vs))")
    case True
    then have "Suc l0 \<le> l" and c: "2 * (f + n) * 2 ^ (l - Suc l0) \<le> c" using 2 by auto
    moreover have "2 * (f + n) * 2 ^ (l - Suc l0) = (f + n) * 2 ^ (l - l0)"
      using \<open>Suc l0 \<le> l\<close> by (rule double_power)
    ultimately have "(f + n) * 2 ^ (l - l0) \<le> c" by simp
    moreover have "f * 2 ^ (l - l0) \<le> (f + n) * 2 ^ (l - l0)" by simp
    ultimately show ?thesis using \<open>Suc l0 \<le> l\<close> by linarith
  qed (use 2 in auto)
qed simp

text \<open>The procedure inverts the assignment, whatever follows the code.\<close>

lemma canon_dec_canon:
  assumes "(s, c, l) \<in> set (canon l0 f ns vs)" and "k = Suc l - l0"
  shows "canon_dec (c div 2 ^ k) f ns vs (nat_bits k c @ rest) = Some (s, rest)"
  using assms
proof (induction l0 f ns vs arbitrary: k rule: canon.induct)
  case (2 l0 f n ns vs)
  have l: "l0 \<le> l" using canon_bound [OF 2(2)] by simp
  then obtain j where k: "k = Suc j" and j: "j = l - l0" using 2(3) by (simp add: Suc_diff_le)
  have step: "2 * (c div 2 ^ k) + of_bool (odd (c div 2 ^ j)) = c div 2 ^ j"
  proof -
    have "c div 2 ^ k = c div 2 ^ j div 2" unfolding k by (simp add: div_mult2_eq [symmetric] mult.commute)
    moreover have "2 * (x div 2) + of_bool (odd x) = x" for x :: nat by (cases "odd x") simp_all
    ultimately show ?thesis by simp
  qed
  show ?case
  proof (cases "(s, c, l) \<in> set (canon (Suc l0) (2 * (f + n)) ns (drop n vs))")
    case True
    note b = canon_bound [OF this]
    have "2 * (f + n) * 2 ^ (l - Suc l0) = (f + n) * 2 ^ j"
      using b double_power [of l0 l "f + n"] j by simp
    with b have "(f + n) * 2 ^ j \<le> c" by simp
    then have "f + n \<le> c div 2 ^ j" by (simp add: less_eq_div_iff_mult_less_eq)
    moreover have "canon_dec (c div 2 ^ j) (2 * (f + n)) ns (drop n vs) (nat_bits j c @ rest)
        = Some (s, rest)"
      using 2(1) [OF True, of j] b j by (simp add: Suc_diff_le)
    ultimately show ?thesis
      unfolding k nat_bits.simps append_Cons canon_dec.simps Let_def step [unfolded k] by simp
  next
    case False
    then obtain i where i: "i < n" "s = vs ! i" "c = f + i" "l = l0" using 2(2) by auto
    then show ?thesis using step unfolding k j by (simp add: Let_def)
  qed
qed simp

section \<open>The encoder's codes are canonical\<close>

definition dc_codes :: "(nat \<times> nat \<times> nat) list" where
  "dc_codes = canon 1 0 (tl jpec_dc_nodes) jpec_dc_vals"

definition ac_codes :: "(nat \<times> nat \<times> nat) list" where
  "ac_codes = canon 1 0 (tl jpec_ac_nodes) jpec_ac_vals"

definition table_ok :: "(nat \<times> nat \<times> nat) list \<Rightarrow> nat list \<Rightarrow> nat list \<Rightarrow> bool" where
  "table_ok cs code lens \<longleftrightarrow>
     list_all (\<lambda>(s, c, l). s < length code \<and> s < length lens \<and> code ! s = c \<and> lens ! s = l
       \<and> 1 \<le> l \<and> l \<le> 16 \<and> c < 2 ^ l) cs"

lemma dc_table_ok: "table_ok dc_codes jpec_dc_code jpec_dc_len"
  by (simp add: table_ok_def dc_codes_def jpec_dc_nodes_def jpec_dc_vals_def jpec_dc_code_def
      jpec_dc_len_def upt_rec)

lemma ac_table_ok: "table_ok ac_codes jpec_ac_code jpec_ac_len"
  by (simp add: table_ok_def ac_codes_def jpec_ac_nodes_def jpec_ac_vals_def jpec_ac_code_def
      jpec_ac_len_def upt_rec)

text \<open>Every symbol the encoder can need has a code: all the DC sizes, the two special AC symbols,
  and every run below 16 with a size from 1 to 10.\<close>

lemma dc_symbols: "list_all (\<lambda>s. s \<in> fst ` set dc_codes) [0..<12]"
  by (simp add: dc_codes_def jpec_dc_nodes_def jpec_dc_vals_def upt_rec)

lemma ac_symbols: "list_all (\<lambda>s. s \<in> set jpec_ac_vals)
    (0 # 0xF0 # concat (map (\<lambda>r. map (\<lambda>t. 16 * r + t) [1..<11]) [0..<16]))"
  by (simp add: jpec_ac_vals_def upt_rec)

lemma canon_all_values:
  "sum_list ns = length vs \<Longrightarrow> v \<in> set vs \<Longrightarrow> \<exists>c k. (v, c, k) \<in> set (canon l f ns vs)"
proof (induction l f ns vs rule: canon.induct)
  case (2 l f n ns vs)
  show ?case
  proof (cases "v \<in> set (take n vs)")
    case True
    then obtain i where "i < n" "i < length vs" "v = vs ! i" by (auto simp: in_set_conv_nth)
    then show ?thesis by (intro exI [of _ "f + i"] exI [of _ l]) auto
  next
    case False
    then have "v \<in> set (drop n vs)"
      using 2(3) by (metis Un_iff append_take_drop_id set_append)
    with 2 show ?thesis by fastforce
  qed
qed simp

lemma code_of_dc:
  assumes "s < 12"
  shows "(s, jpec_dc_code ! s, jpec_dc_len ! s) \<in> set dc_codes \<and> s < length jpec_dc_code
    \<and> s < length jpec_dc_len \<and> 1 \<le> jpec_dc_len ! s \<and> jpec_dc_len ! s \<le> 16
    \<and> jpec_dc_code ! s < 2 ^ (jpec_dc_len ! s)"
proof -
  have "s \<in> fst ` set dc_codes" using dc_symbols assms by (simp add: list_all_iff)
  then obtain c k where "(s, c, k) \<in> set dc_codes" by force
  with dc_table_ok show ?thesis by (auto simp: table_ok_def list_all_iff)
qed

definition ac_symbol :: "nat \<Rightarrow> bool" where
  "ac_symbol s \<longleftrightarrow> s = 0 \<or> s = 0xF0 \<or> (\<exists>r < 16. \<exists>t. 1 \<le> t \<and> t \<le> 10 \<and> s = 16 * r + t)"

lemma code_of_ac:
  assumes "ac_symbol s"
  shows "(s, jpec_ac_code ! s, jpec_ac_len ! s) \<in> set ac_codes \<and> s < length jpec_ac_code
    \<and> s < length jpec_ac_len \<and> 1 \<le> jpec_ac_len ! s \<and> jpec_ac_len ! s \<le> 16
    \<and> jpec_ac_code ! s < 2 ^ (jpec_ac_len ! s)"
proof -
  have "s \<in> set jpec_ac_vals"
  proof -
    consider "s = 0" | "s = 0xF0" | r t where "r < 16" "t \<in> set [1..<11]" "s = 16 * r + t"
    proof -
      have "t \<in> set [1..<11]" if "1 \<le> t" "t \<le> 10" for t :: nat using that by simp
      then show thesis using assms that unfolding ac_symbol_def by blast
    qed
    then show ?thesis
      using ac_symbols unfolding list_all_iff by cases (auto simp del: upt_Suc)
  qed
  moreover have "sum_list (tl jpec_ac_nodes) = length jpec_ac_vals"
    by (simp add: jpec_ac_nodes_def jpec_ac_vals_def)
  ultimately obtain c k where "(s, c, k) \<in> set ac_codes"
    using canon_all_values unfolding ac_codes_def by blast
  with ac_table_ok show ?thesis by (auto simp: table_ok_def list_all_iff)
qed

end
