(* ===== verification/Jpec_Huff.thy ===== *)
theory Jpec_Huff
  imports Jpec_Tables
begin

unbundle bit_operations_syntax

text \<open>
  The entropy coder, \<^verbatim>\<open>jpec-master/src/huff.c\<close>: coefficients of a block in zig-zag order
  become Huffman codes and value bits. The reference is a decoder written from the JPEG
  standard; the encoder's bits are shown to decode to the block they came from.
\<close>

section \<open>Encoding\<close>

text \<open>\<^verbatim>\<open>JPEC_HUFF_NBITS\<close>: the number of bits of a non-negative value.\<close>

fun bit_len :: "nat \<Rightarrow> nat" where
  "bit_len n = (if n = 0 then 0 else Suc (bit_len (n div 2)))"

declare bit_len.simps [simp del]

text \<open>The bits of a value: its low bits, complemented for a negative one.\<close>

definition magnitude :: "int \<Rightarrow> nat" where
  "magnitude v = nat \<bar>v\<bar>"

definition value_bits :: "int \<Rightarrow> u32" where
  "value_bits v = (if v < 0 then NOT (of_nat (magnitude v)) else of_nat (magnitude v))"

definition put_symbol :: "nat list \<Rightarrow> nat list \<Rightarrow> nat \<Rightarrow> int \<Rightarrow> coder \<Rightarrow> coder result" where
  "put_symbol code lens j v c =
     bindR (rd code j) (\<lambda>k. bindR (rd lens j) (\<lambda>l.
       bindR (jpec_huff_write_bits (of_nat k) l c) (\<lambda>c1.
         let nb = bit_len (magnitude v) in
         if nb \<noteq> 0 then jpec_huff_write_bits (value_bits v) nb c1 else Inr c1)))"

function zrl_loop :: "nat \<Rightarrow> coder \<Rightarrow> (nat \<times> coder) result" where
  "zrl_loop nz c =
     (if 16 \<le> nz
      then bindR (put_symbol jpec_ac_code jpec_ac_len 0xF0 0 c) (zrl_loop (nz - 16))
      else Inr (nz, c))"
  by pat_completeness auto
termination by (relation "measure fst") auto

declare zrl_loop.simps [simp del]

text \<open>The loop over the AC coefficients \<open>zz[1..len-1]\<close>; \<open>nz\<close> zeros are pending.\<close>

fun ac_loop :: "int list \<Rightarrow> nat \<Rightarrow> coder \<Rightarrow> coder result" where
  "ac_loop [] nz c = Inr c"
| "ac_loop (v # vs) nz c =
     (if v = 0 then ac_loop vs (nz + 1) c
      else bindR (zrl_loop nz c) (\<lambda>(nz1, c1).
             bindR (put_symbol jpec_ac_code jpec_ac_len
                     (16 * nz1 + bit_len (magnitude v)) v c1)
               (ac_loop vs 0)))"

record jpec_block_t =
  zz :: "int list"
  blen :: nat

definition jpec_huff_encode_block :: "jpec_block_t \<Rightarrow> coder \<Rightarrow> coder result" where
  "jpec_huff_encode_block block c =
     (let s = fst c;
          new_dc = (if 0 < blen block then zz block ! 0 else 0);
          v = new_dc - dc s
      in bindR (put_symbol jpec_dc_code jpec_dc_len (bit_len (magnitude v)) v
                 (s\<lparr>dc := new_dc, buf_set := True\<rparr>, snd c)) (\<lambda>c1.
         bindR (ac_loop (drop 1 (take (blen block) (zz block))) 0 c1) (\<lambda>c2.
           if blen block < 64 then put_symbol jpec_ac_code jpec_ac_len 0 0 c2 else Inr c2)))"

definition jpec_huff_new :: jpec_huff_state_t where
  "jpec_huff_new = \<lparr>buffer = 0, nbits = 0, dc = 0, buf_set = False\<rparr>"

text \<open>\<^verbatim>\<open>jpec_huff_del\<close> fills the last byte with ones.\<close>

definition jpec_huff_del :: "coder \<Rightarrow> coder result" where
  "jpec_huff_del c = jpec_huff_write_bits 0x7F 7 c"

section \<open>The code bits of a block\<close>

definition symbol_bits :: "nat list \<Rightarrow> nat list \<Rightarrow> nat \<Rightarrow> int \<Rightarrow> bool list" where
  "symbol_bits code lens j v =
     nat_bits (lens ! j) (code ! j) @ bits_msb (bit_len (magnitude v)) (value_bits v)"

function zrl_bits :: "nat \<Rightarrow> bool list" where
  "zrl_bits nz = (if 16 \<le> nz then symbol_bits jpec_ac_code jpec_ac_len 0xF0 0 @ zrl_bits (nz - 16)
     else [])"
  by pat_completeness auto
termination by (relation "measure id") auto

declare zrl_bits.simps [simp del]

fun ac_bits :: "int list \<Rightarrow> nat \<Rightarrow> bool list" where
  "ac_bits [] nz = []"
| "ac_bits (v # vs) nz =
     (if v = 0 then ac_bits vs (nz + 1)
      else zrl_bits nz
        @ symbol_bits jpec_ac_code jpec_ac_len (16 * (nz mod 16) + bit_len (magnitude v)) v
        @ ac_bits vs 0)"

definition block_bits :: "int \<Rightarrow> jpec_block_t \<Rightarrow> bool list" where
  "block_bits prev block =
     (let v = (if 0 < blen block then zz block ! 0 else 0) - prev in
      symbol_bits jpec_dc_code jpec_dc_len (bit_len (magnitude v)) v
      @ ac_bits (drop 1 (take (blen block) (zz block))) 0
      @ (if blen block < 64 then symbol_bits jpec_ac_code jpec_ac_len 0 0 else []))"

lemma bit_len_0 [simp]: "bit_len 0 = 0"
  by (simp add: bit_len.simps)

lemma bit_len_pos: "0 < n \<Longrightarrow> 0 < bit_len n"
  by (subst bit_len.simps) simp

lemma bit_len_bounds: "0 < n \<Longrightarrow> 2 ^ (bit_len n - 1) \<le> n \<and> n < 2 ^ bit_len n"
proof (induction n rule: bit_len.induct)
  case (1 n)
  show ?case
  proof (cases "n = 1")
    case True
    then show ?thesis by (simp add: bit_len.simps)
  next
    case False
    with 1 have pos: "0 < n div 2" by simp
    with 1 have IH: "2 ^ (bit_len (n div 2) - 1) \<le> n div 2" "n div 2 < 2 ^ bit_len (n div 2)"
      by auto
    have len: "bit_len n = Suc (bit_len (n div 2))" using 1(2) by (subst bit_len.simps) simp
    obtain m where m: "bit_len (n div 2) = Suc m" using bit_len_pos [OF pos] by (cases "bit_len (n div 2)") auto
    show ?thesis using IH unfolding len m by simp linarith
  qed
qed

lemma bit_len_le: "n < 2 ^ k \<Longrightarrow> bit_len n \<le> k"
proof (cases "n = 0")
  case False
  assume lt: "n < 2 ^ k"
  from False bit_len_bounds [of n] have "2 ^ (bit_len n - 1) \<le> n" by simp
  with lt have "(2 :: nat) ^ (bit_len n - 1) < 2 ^ k" by linarith
  then have "bit_len n - 1 < k" by simp
  then show ?thesis by simp
qed simp

text \<open>Encoding a symbol appends its bits, and keeps the predictor.\<close>

definition symbol_ok :: "nat list \<Rightarrow> nat list \<Rightarrow> nat \<Rightarrow> int \<Rightarrow> bool" where
  "symbol_ok code lens j v \<longleftrightarrow> j < length code \<and> j < length lens \<and> 1 \<le> lens ! j \<and> lens ! j \<le> 16
     \<and> bit_len (magnitude v) \<le> 16"

lemma put_symbol_holds:
  assumes "coder_holds hdr c T" and "symbol_ok code lens j v"
  shows "\<exists>d. put_symbol code lens j v c = Inr d \<and>
    coder_holds hdr d (T @ symbol_bits code lens j v) \<and> dc (fst d) = dc (fst c)"
proof -
  let ?nb = "bit_len (magnitude v)"
  have l: "0 < lens ! j" "lens ! j \<le> 16" and j: "j < length code" "j < length lens"
    and nb: "?nb \<le> 16"
    using assms(2) by (auto simp: symbol_ok_def)
  have w: "bits_msb (lens ! j) (of_nat (code ! j) :: u32) = nat_bits (lens ! j) (code ! j)"
    using l by (simp add: bits_msb_of_nat)
  obtain d where d: "jpec_huff_write_bits (of_nat (code ! j)) (lens ! j) c = Inr d"
    "coder_holds hdr d (T @ nat_bits (lens ! j) (code ! j))" "dc (fst d) = dc (fst c)"
    using write_bits_holds [OF assms(1) l, of "of_nat (code ! j)"] w by auto
  show ?thesis
  proof (cases "?nb = 0")
    case True
    with d j show ?thesis by (simp add: put_symbol_def rd_def symbol_bits_def)
  next
    case False
    then obtain e where "jpec_huff_write_bits (value_bits v) ?nb d = Inr e"
      "coder_holds hdr e ((T @ nat_bits (lens ! j) (code ! j)) @ bits_msb ?nb (value_bits v))"
      "dc (fst e) = dc (fst d)"
      using write_bits_holds [OF d(2) _ nb, of "value_bits v"] by auto
    with False d j show ?thesis by (simp add: put_symbol_def rd_def symbol_bits_def)
  qed
qed

lemma ac_symbol_ok:
  assumes "ac_symbol j" and "bit_len (magnitude v) \<le> 16"
  shows "symbol_ok jpec_ac_code jpec_ac_len j v"
  using code_of_ac [OF assms(1)] assms(2) by (simp add: symbol_ok_def)

lemma zrl_loop_holds:
  "coder_holds hdr c T \<Longrightarrow>
     \<exists>d. zrl_loop nz c = Inr (nz mod 16, d) \<and> coder_holds hdr d (T @ zrl_bits nz)
       \<and> dc (fst d) = dc (fst c)"
proof (induction nz arbitrary: c T rule: less_induct)
  case (less nz)
  show ?case
  proof (cases "16 \<le> nz")
    case True
    have "symbol_ok jpec_ac_code jpec_ac_len 0xF0 0"
      by (rule ac_symbol_ok) (simp_all add: ac_symbol_def magnitude_def)
    from put_symbol_holds [OF less.prems this] obtain d
      where d: "put_symbol jpec_ac_code jpec_ac_len 0xF0 0 c = Inr d"
      "coder_holds hdr d (T @ symbol_bits jpec_ac_code jpec_ac_len 0xF0 0)" "dc (fst d) = dc (fst c)"
      by blast
    have "nz - 16 < nz" using True by simp
    from less.IH [OF this d(2)] d True show ?thesis
      by (subst zrl_loop.simps, subst zrl_bits.simps) (auto simp: le_mod_geq)
  next
    case False
    with less.prems show ?thesis by (subst zrl_loop.simps, subst zrl_bits.simps) simp
  qed
qed

definition ac_ok :: "int list \<Rightarrow> bool" where
  "ac_ok vs \<longleftrightarrow> list_all (\<lambda>v. \<bar>v\<bar> < 1024) vs"

lemma ac_coeff_symbol:
  assumes "v \<noteq> 0" and "\<bar>v\<bar> < 1024"
  shows "1 \<le> bit_len (magnitude v)" and "bit_len (magnitude v) \<le> 10"
    and "ac_symbol (16 * (nz mod 16) + bit_len (magnitude v))"
proof -
  have "0 < magnitude v" "magnitude v < 2 ^ 10" using assms by (simp_all add: magnitude_def)
  then show a: "1 \<le> bit_len (magnitude v)" and b: "bit_len (magnitude v) \<le> 10"
    using bit_len_pos [of "magnitude v"] bit_len_le by (simp_all add: Suc_le_eq)
  have "nz mod 16 < 16" by simp
  with a b show "ac_symbol (16 * (nz mod 16) + bit_len (magnitude v))"
    unfolding ac_symbol_def by blast
qed

lemma ac_loop_holds:
  "\<lbrakk>coder_holds hdr c T; ac_ok vs\<rbrakk> \<Longrightarrow>
     \<exists>d. ac_loop vs nz c = Inr d \<and> coder_holds hdr d (T @ ac_bits vs nz) \<and> dc (fst d) = dc (fst c)"
proof (induction vs arbitrary: nz c T)
  case (Cons v vs)
  show ?case
  proof (cases "v = 0")
    case True
    with Cons show ?thesis by (simp add: ac_ok_def)
  next
    case False
    have small: "\<bar>v\<bar> < 1024" using Cons.prems(2) by (simp add: ac_ok_def)
    note sym = ac_coeff_symbol [OF False small]
    obtain d where d: "zrl_loop nz c = Inr (nz mod 16, d)" "coder_holds hdr d (T @ zrl_bits nz)"
      "dc (fst d) = dc (fst c)"
      using zrl_loop_holds [OF Cons.prems(1)] by blast
    have "symbol_ok jpec_ac_code jpec_ac_len (16 * (nz mod 16) + bit_len (magnitude v)) v"
      by (rule ac_symbol_ok) (use sym in auto)
    from put_symbol_holds [OF d(2) this] obtain e
      where e: "put_symbol jpec_ac_code jpec_ac_len (16 * (nz mod 16) + bit_len (magnitude v)) v d = Inr e"
        "coder_holds hdr e ((T @ zrl_bits nz) @ symbol_bits jpec_ac_code jpec_ac_len
            (16 * (nz mod 16) + bit_len (magnitude v)) v)" "dc (fst e) = dc (fst d)"
      by blast
    from Cons.IH [OF e(2), of 0] Cons.prems(2) d e False show ?thesis by (auto simp: ac_ok_def)
  qed
qed simp

text \<open>The predictions and coefficients the code tables can express.\<close>

definition block_ok :: "int \<Rightarrow> jpec_block_t \<Rightarrow> bool" where
  "block_ok prev b \<longleftrightarrow> length (zz b) = 64 \<and> blen b \<le> 64 \<and>
     (\<forall>i < 64. blen b \<le> i \<longrightarrow> zz b ! i = 0) \<and>
     (blen b \<noteq> 0 \<longrightarrow> zz b ! (blen b - 1) \<noteq> 0) \<and>
     \<bar>zz b ! 0 - prev\<bar> < 2048 \<and> ac_ok (tl (zz b))"

lemma block_dc: "block_ok prev b \<Longrightarrow> (if 0 < blen b then zz b ! 0 else 0) = zz b ! 0"
  by (auto simp: block_ok_def)

lemma dc_symbol_ok:
  assumes "\<bar>v\<bar> < 2048"
  shows "bit_len (magnitude v) < 12"
    and "symbol_ok jpec_dc_code jpec_dc_len (bit_len (magnitude v)) v"
proof -
  have "magnitude v < 2 ^ 11" using assms by (simp add: magnitude_def)
  then have "bit_len (magnitude v) \<le> 11" by (rule bit_len_le)
  then show "bit_len (magnitude v) < 12" by simp
  with code_of_dc show "symbol_ok jpec_dc_code jpec_dc_len (bit_len (magnitude v)) v"
    by (simp add: symbol_ok_def)
qed

lemma encode_block_holds:
  assumes "coder_holds hdr c T \<or> \<not> buf_set (fst c) \<and>
      coder_holds hdr ((fst c)\<lparr>buf_set := True\<rparr>, snd c) T"
    and ok: "block_ok (dc (fst c)) b"
  shows "\<exists>d. jpec_huff_encode_block b c = Inr d \<and>
    coder_holds hdr d (T @ block_bits (dc (fst c)) b) \<and> dc (fst d) = zz b ! 0"
proof -
  let ?v = "zz b ! 0 - dc (fst c)"
  let ?c = "((fst c)\<lparr>dc := zz b ! 0, buf_set := True\<rparr>, snd c)"
  let ?ac = "drop 1 (take (blen b) (zz b))"
  have h: "coder_holds hdr ?c T" using assms(1) by (auto simp: coder_holds_def)
  have small: "\<bar>?v\<bar> < 2048" and acs: "ac_ok (tl (zz b))" using ok by (auto simp: block_ok_def)
  from put_symbol_holds [OF h dc_symbol_ok(2) [OF small]] obtain d1
    where d1: "put_symbol jpec_dc_code jpec_dc_len (bit_len (magnitude ?v)) ?v ?c = Inr d1"
      "coder_holds hdr d1 (T @ symbol_bits jpec_dc_code jpec_dc_len (bit_len (magnitude ?v)) ?v)"
      "dc (fst d1) = zz b ! 0"
    by auto
  have "ac_ok ?ac"
    using acs by (auto simp: ac_ok_def list_all_iff drop_take dest!: in_set_takeD)
      (simp add: drop_Suc)
  from ac_loop_holds [OF d1(2) this, of 0] obtain d2
    where d2: "ac_loop ?ac 0 d1 = Inr d2" "coder_holds hdr d2 ((T @ symbol_bits jpec_dc_code jpec_dc_len
      (bit_len (magnitude ?v)) ?v) @ ac_bits ?ac 0)" "dc (fst d2) = dc (fst d1)"
    by blast
  have "symbol_ok jpec_ac_code jpec_ac_len 0 0"
    by (rule ac_symbol_ok) (simp_all add: ac_symbol_def magnitude_def)
  from put_symbol_holds [OF d2(2) this] obtain d3
    where "put_symbol jpec_ac_code jpec_ac_len 0 0 d2 = Inr d3" "coder_holds hdr d3 (((T @ symbol_bits
      jpec_dc_code jpec_dc_len (bit_len (magnitude ?v)) ?v) @ ac_bits ?ac 0)
      @ symbol_bits jpec_ac_code jpec_ac_len 0 0)" "dc (fst d3) = dc (fst d2)"
    by blast
  with d1 d2 show ?thesis
    unfolding jpec_huff_encode_block_def block_bits_def block_dc [OF ok] Let_def
    by (cases "blen b < 64") simp_all
qed

end
