(* ===== verification/Jpec_Decode.thy ===== *)
theory Jpec_Decode
  imports Jpec_Huff
begin

unbundle bit_operations_syntax

text \<open>
  The reference decoder for one component, after the JPEG standard: Huffman symbols by the
  canonical procedure, value bits extended to a signed value, runs of zeros. It is the
  specification that the output of \<^verbatim>\<open>jpec-master/src/huff.c\<close> is read with.
\<close>

section \<open>The decoder\<close>

fun bits_nat :: "bool list \<Rightarrow> nat" where
  "bits_nat [] = 0"
| "bits_nat (b # bs) = of_bool b * 2 ^ length bs + bits_nat bs"

definition extend :: "nat \<Rightarrow> nat \<Rightarrow> int" where
  "extend n r = (if n = 0 then 0 else if r < 2 ^ (n - 1) then int r - 2 ^ n + 1 else int r)"

definition dec_value :: "nat \<Rightarrow> bool list \<Rightarrow> (int \<times> bool list) option" where
  "dec_value n bs =
     (if n \<le> length bs then Some (extend n (bits_nat (take n bs)), drop n bs) else None)"

definition dec_ac_symbol :: "bool list \<Rightarrow> (nat \<times> bool list) option" where
  "dec_ac_symbol bs = canon_dec 0 0 (tl jpec_ac_nodes) jpec_ac_vals bs"

definition dec_dc_symbol :: "bool list \<Rightarrow> (nat \<times> bool list) option" where
  "dec_dc_symbol bs = canon_dec 0 0 (tl jpec_dc_nodes) jpec_dc_vals bs"

function dec_ac :: "nat \<Rightarrow> bool list \<Rightarrow> (int list \<times> bool list) option" where
  "dec_ac k bs =
     (if k = 0 then Some ([], bs)
      else case dec_ac_symbol bs of
        None \<Rightarrow> None
      | Some (j, bs1) \<Rightarrow>
          if j = 0 then Some (replicate k 0, bs1)
          else if j = 0xF0 then
            (if k < 16 then None
             else map_option (\<lambda>(vs, r). (replicate 16 0 @ vs, r)) (dec_ac (k - 16) bs1))
          else if k < j div 16 + 1 then None
          else case dec_value (j mod 16) bs1 of
            None \<Rightarrow> None
          | Some (v, bs2) \<Rightarrow>
              map_option (\<lambda>(vs, r). (replicate (j div 16) 0 @ v # vs, r))
                (dec_ac (k - (j div 16 + 1)) bs2))"
  by pat_completeness auto
termination by (relation "measure fst") auto

declare dec_ac.simps [simp del]

definition dec_block :: "int \<Rightarrow> bool list \<Rightarrow> (int list \<times> bool list) option" where
  "dec_block prev bs =
     (case dec_dc_symbol bs of
        None \<Rightarrow> None
      | Some (n, bs1) \<Rightarrow>
          (case dec_value n bs1 of
             None \<Rightarrow> None
           | Some (diff, bs2) \<Rightarrow> map_option (\<lambda>(vs, r). ((prev + diff) # vs, r)) (dec_ac 63 bs2)))"

text \<open>A sequence of blocks, each predicted from the one before.\<close>

fun dec_blocks :: "nat \<Rightarrow> int \<Rightarrow> bool list \<Rightarrow> (int list list \<times> bool list) option" where
  "dec_blocks 0 prev bs = Some ([], bs)"
| "dec_blocks (Suc n) prev bs =
     (case dec_block prev bs of
        None \<Rightarrow> None
      | Some (b, r) \<Rightarrow> map_option (\<lambda>(bs', r'). (b # bs', r')) (dec_blocks n (hd b) r))"

section \<open>Value bits\<close>

lemma bits_nat_nat_bits: "bits_nat (nat_bits n m) = m mod 2 ^ n"
proof (induction n)
  case (Suc n)
  have "m mod (2 ^ n * 2) = 2 ^ n * (m div 2 ^ n mod 2) + m mod 2 ^ n" by (rule mod_mult2_eq)
  with Suc show ?case by (simp add: mod_2_eq_odd mult.commute)
qed simp

lemma bits_nat_Not: "bits_nat (map Not bs) + bits_nat bs = 2 ^ length bs - 1"
  by (induction bs) (auto simp: of_bool_def algebra_simps)

lemma bits_msb_not:
  "k \<le> LENGTH('a) \<Longrightarrow> bits_msb k (NOT w) = map Not (bits_msb k (w :: 'a::len word))"
  by (induction k) (auto simp: bit_simps)

lemma dec_value_bits:
  assumes "bit_len (magnitude v) \<le> 16"
  shows "dec_value (bit_len (magnitude v)) (bits_msb (bit_len (magnitude v)) (value_bits v) @ rest)
    = Some (v, rest)"
proof (cases "v = 0")
  case True
  then show ?thesis by (simp add: dec_value_def extend_def magnitude_def)
next
  case False
  let ?m = "magnitude v" and ?n = "bit_len (magnitude v)"
  have pos: "0 < ?m" using False by (simp add: magnitude_def)
  note b = bit_len_bounds [OF pos]
  have n: "0 < ?n" by (rule bit_len_pos [OF pos])
  have plain: "bits_msb ?n (of_nat ?m :: u32) = nat_bits ?n ?m"
    using assms by (intro bits_msb_of_nat) simp
  have m: "bits_nat (nat_bits ?n ?m) = ?m" using b by (simp add: bits_nat_nat_bits)
  have two: "(2 :: nat) ^ ?n = 2 * 2 ^ (?n - 1)" using n by (cases ?n) auto
  have "extend ?n (bits_nat (bits_msb ?n (value_bits v))) = v"
  proof (cases "v < 0")
    case True
    have "bits_msb ?n (value_bits v) = map Not (nat_bits ?n ?m)"
      using True assms plain by (simp add: value_bits_def bits_msb_not)
    then have s: "bits_nat (bits_msb ?n (value_bits v)) + ?m = 2 ^ ?n - 1"
      using bits_nat_Not [of "nat_bits ?n ?m"] m by simp
    then have "bits_nat (bits_msb ?n (value_bits v)) < 2 ^ (?n - 1)"
      using b two by linarith
    moreover have "int (bits_nat (bits_msb ?n (value_bits v))) + int ?m = 2 ^ ?n - 1"
      using s by (metis (mono_tags) of_nat_1 of_nat_add of_nat_diff of_nat_numeral of_nat_power
          one_le_numeral one_le_power)
    moreover have "int ?m = - v" using True by (simp add: magnitude_def)
    ultimately show ?thesis using n by (simp add: extend_def)
  next
    case pos': False
    then have "bits_nat (bits_msb ?n (value_bits v)) = ?m" using plain m by (simp add: value_bits_def)
    moreover have "int ?m = v" using pos' by (simp add: magnitude_def)
    ultimately show ?thesis using n b by (simp add: extend_def)
  qed
  then show ?thesis by (simp add: dec_value_def)
qed

section \<open>Symbols\<close>

lemma dec_dc_code:
  assumes "s < 12"
  shows "dec_dc_symbol (nat_bits (jpec_dc_len ! s) (jpec_dc_code ! s) @ rest) = Some (s, rest)"
  using canon_dec_canon [of s "jpec_dc_code ! s" "jpec_dc_len ! s" 1 0 "tl jpec_dc_nodes"
      jpec_dc_vals "jpec_dc_len ! s" rest] code_of_dc [OF assms]
  by (simp add: dec_dc_symbol_def dc_codes_def)

lemma dec_ac_code:
  assumes "ac_symbol s"
  shows "dec_ac_symbol (nat_bits (jpec_ac_len ! s) (jpec_ac_code ! s) @ rest) = Some (s, rest)"
  using canon_dec_canon [of s "jpec_ac_code ! s" "jpec_ac_len ! s" 1 0 "tl jpec_ac_nodes"
      jpec_ac_vals "jpec_ac_len ! s" rest] code_of_ac [OF assms]
  by (simp add: dec_ac_symbol_def ac_codes_def)

lemma zrl_symbol_bits: "symbol_bits code lens j 0 = nat_bits (lens ! j) (code ! j)"
  by (simp add: symbol_bits_def magnitude_def)

lemma dec_zrl:
  "dec_ac (nz mod 16 + k) bs = Some (vs, r) \<Longrightarrow>
     dec_ac (nz + k) (zrl_bits nz @ bs) = Some (replicate (nz - nz mod 16) 0 @ vs, r)"
proof (induction nz rule: less_induct)
  case (less nz)
  show ?case
  proof (cases "16 \<le> nz")
    case True
    then have m: "(nz - 16) mod 16 = nz mod 16" by (simp add: le_mod_geq)
    have "dec_ac (nz - 16 + k) (zrl_bits (nz - 16) @ bs)
        = Some (replicate (nz - 16 - (nz - 16) mod 16) 0 @ vs, r)"
      by (rule less.IH) (use True less.prems m in simp_all)
    moreover have "ac_symbol 0xF0" by (simp add: ac_symbol_def)
    moreover have "nz - nz mod 16 = 16 + (nz - 16 - nz mod 16)"
      using True m by (metis add_diff_assoc le_add_diff_inverse mod_less_eq_dividend)
    then have "replicate (nz - nz mod 16) (0 :: int) = replicate 16 0 @ replicate (nz - 16 - nz mod 16) 0"
      by (simp only: replicate_add)
    moreover have "zrl_bits nz = symbol_bits jpec_ac_code jpec_ac_len 0xF0 0 @ zrl_bits (nz - 16)"
      using True by (subst zrl_bits.simps) simp
    ultimately show ?thesis
      using True m by (subst dec_ac.simps) (simp add: zrl_symbol_bits dec_ac_code)
  next
    case False
    with less.prems show ?thesis by (subst zrl_bits.simps) simp
  qed
qed

section \<open>Decoding inverts encoding\<close>

definition eob :: "nat \<Rightarrow> bool list" where
  "eob z = (if 0 < z then symbol_bits jpec_ac_code jpec_ac_len 0 0 else [])"

lemma run_size:
  fixes a n :: nat
  assumes "1 \<le> n" "n \<le> 10"
  shows "(16 * a + n) div 16 = a" "(16 * a + n) mod 16 = n" "16 * a + n \<noteq> 0" "16 * a + n \<noteq> 240"
proof -
  show m: "(16 * a + n) mod 16 = n" and "(16 * a + n) div 16 = a" and "16 * a + n \<noteq> 0"
    using assms by simp_all
  show "16 * a + n \<noteq> 240"
  proof
    assume "16 * a + n = 240"
    then have "(16 * a + n) mod 16 = 240 mod 16" by simp
    with m assms show False by simp
  qed
qed

lemma dec_ac_bits:
  "\<lbrakk>ac_ok vs; if vs = [] then nz = 0 else last vs \<noteq> 0\<rbrakk> \<Longrightarrow>
     dec_ac (nz + length vs + z) (ac_bits vs nz @ eob z @ rest)
       = Some (replicate nz 0 @ vs @ replicate z 0, rest)"
proof (induction vs arbitrary: nz)
  case Nil
  have "ac_symbol 0" by (simp add: ac_symbol_def)
  with Nil show ?case by (subst dec_ac.simps) (simp add: eob_def zrl_symbol_bits dec_ac_code)
next
  case (Cons v vs)
  show ?case
  proof (cases "v = 0")
    case True
    then have "vs \<noteq> []" "last vs \<noteq> 0" using Cons.prems(2) by (auto split: if_splits)
    then show ?thesis
      using Cons.IH [of "Suc nz"] Cons.prems(1) True by (simp add: ac_ok_def replicate_app_Cons_same)
  next
    case False
    have small: "\<bar>v\<bar> < 1024" and acs: "ac_ok vs" using Cons.prems(1) by (simp_all add: ac_ok_def)
    let ?n = "bit_len (magnitude v)"
    let ?j = "16 * (nz mod 16) + ?n"
    note sym = ac_coeff_symbol [OF False small]
    note dm = run_size [OF sym(1,2), of "nz mod 16"]
    have rest: "dec_ac (length vs + z) (ac_bits vs 0 @ eob z @ rest)
        = Some (vs @ replicate z 0, rest)"
      using Cons.IH [of 0] acs Cons.prems(2) by (auto split: if_splits)
    have "dec_ac (nz mod 16 + (Suc (length vs) + z))
        (symbol_bits jpec_ac_code jpec_ac_len ?j v @ ac_bits vs 0 @ eob z @ rest)
      = Some (replicate (nz mod 16) 0 @ v # vs @ replicate z 0, rest)"
      using rest dm sym(1,2) dec_ac_code [OF sym(3)] dec_value_bits [of v]
      by (subst dec_ac.simps) (simp add: symbol_bits_def)
    from dec_zrl [OF this] False show ?thesis
      by (simp add: replicate_add [symmetric] append_assoc [symmetric] add.assoc del: append_assoc)
  qed
qed

lemma block_ac:
  assumes "block_ok prev b"
  shows "drop 1 (take (blen b) (zz b)) @ replicate (63 - (blen b - 1)) 0 = tl (zz b)"
proof (rule nth_equalityI)
  have len: "length (zz b) = 64" "blen b \<le> 64" using assms by (auto simp: block_ok_def)
  then show "length (drop 1 (take (blen b) (zz b)) @ replicate (63 - (blen b - 1)) 0)
      = length (tl (zz b))" by simp
  fix i assume "i < length (drop 1 (take (blen b) (zz b)) @ replicate (63 - (blen b - 1)) 0)"
  then have i: "i < 63" using len by simp
  show "(drop 1 (take (blen b) (zz b)) @ replicate (63 - (blen b - 1)) 0) ! i = tl (zz b) ! i"
  proof (cases "Suc i < blen b")
    case True
    then have "i < blen b - Suc 0" by simp
    then show ?thesis using True len i by (simp add: nth_append nth_tl)
  next
    case False
    then have "zz b ! Suc i = 0" using assms i by (auto simp: block_ok_def)
    moreover have "\<not> i < blen b - Suc 0" using False by simp
    ultimately show ?thesis using len i by (simp add: nth_append nth_tl)
  qed
qed

lemma dec_block_bits:
  assumes ok: "block_ok prev b"
  shows "dec_block prev (block_bits prev b @ rest) = Some (zz b, rest)"
proof -
  let ?v = "zz b ! 0 - prev" and ?ac = "drop 1 (take (blen b) (zz b))" and ?z = "63 - (blen b - 1)"
  let ?n = "bit_len (magnitude ?v)"
  have len: "length (zz b) = 64" "blen b \<le> 64" and small: "\<bar>?v\<bar> < 2048"
    and acs: "ac_ok (tl (zz b))" and last: "blen b \<noteq> 0 \<longrightarrow> zz b ! (blen b - 1) \<noteq> 0"
    using ok by (auto simp: block_ok_def)
  have n: "?n < 12" by (rule dc_symbol_ok(1) [OF small])
  have "ac_ok ?ac"
    using acs block_ac [OF ok] by (metis ac_ok_def list_all_append)
  moreover have "if ?ac = [] then (0 :: nat) = 0 else last ?ac \<noteq> 0"
  proof (cases "blen b \<le> 1")
    case False
    then have "last ?ac = zz b ! (blen b - 1)"
      using len by (simp add: last_conv_nth) (metis Suc_diff_Suc Suc_eq_plus1 not_le)
    with False last len show ?thesis by simp
  qed simp
  ultimately have "dec_ac (0 + length ?ac + ?z) (ac_bits ?ac 0 @ eob ?z @ rest)
      = Some (replicate 0 0 @ ?ac @ replicate ?z 0, rest)"
    by (rule dec_ac_bits)
  moreover have "0 + length ?ac + ?z = 63" using len by simp
  moreover have "eob ?z = (if blen b < 64 then symbol_bits jpec_ac_code jpec_ac_len 0 0 else [])"
    using len by (auto simp: eob_def)
  ultimately have ac: "dec_ac 63 (ac_bits ?ac 0 @
      (if blen b < 64 then symbol_bits jpec_ac_code jpec_ac_len 0 0 else []) @ rest)
      = Some (tl (zz b), rest)"
    using block_ac [OF ok] by simp
  have "zz b = zz b ! 0 # tl (zz b)" using len by (cases "zz b") auto
  then show ?thesis
    using ac n dec_dc_code [OF n] dec_value_bits [of ?v]
    by (simp add: dec_block_def block_bits_def block_dc [OF ok] Let_def symbol_bits_def)
qed

section \<open>Whole scans\<close>

text \<open>Reading the bytes of a scan back into bits: stuffed zeros are dropped.\<close>

fun unstuff :: "u8 list \<Rightarrow> u8 list" where
  "unstuff [] = []"
| "unstuff [x] = [x]"
| "unstuff (x # y # r) = x # (if x = 0xFF \<and> y = 0 then unstuff r else unstuff (y # r))"

definition bits_of_bytes :: "u8 list \<Rightarrow> bool list" where
  "bits_of_bytes bs = concat (map (bits_msb 8) bs)"

lemma unstuff_stuff: "unstuff (stuff bs) = bs"
proof (induction bs)
  case (Cons b bs)
  show ?case
  proof (cases "stuff bs")
    case Nil
    then have "bs = []" by (cases bs) (auto simp: stuff_def split: if_splits)
    then show ?thesis by (simp add: stuff_def)
  next
    case (Cons y r)
    with Cons.IH show ?thesis by (simp add: stuff_def)
  qed
qed simp

lemma bits_of_byte_at:
  assumes "8 * k + 8 \<le> length T"
  shows "bits_msb 8 (byte_at T k) = take 8 (drop (8 * k) T)"
  by (rule nth_equalityI) (use assms in \<open>auto simp: nth_bits_msb bit_byte_at\<close>)

lemma bits_of_bytes_at:
  "8 * q \<le> length T \<Longrightarrow> bits_of_bytes (map (byte_at T) [0..<q]) = take (8 * q) T"
proof (induction q)
  case (Suc q)
  then have "bits_of_bytes (map (byte_at T) [0..<Suc q]) = take (8 * q) T @ take 8 (drop (8 * q) T)"
    by (simp add: bits_of_bytes_def bits_of_byte_at)
  also have "\<dots> = take (8 * Suc q) T" by (metis mult_Suc_right add.commute take_add)
  finally show ?case .
qed (simp add: bits_of_bytes_def)

fun blocks_ok :: "int \<Rightarrow> jpec_block_t list \<Rightarrow> bool" where
  "blocks_ok prev [] = True"
| "blocks_ok prev (b # bs) = (block_ok prev b \<and> blocks_ok (zz b ! 0) bs)"

fun blocks_bits :: "int \<Rightarrow> jpec_block_t list \<Rightarrow> bool list" where
  "blocks_bits prev [] = []"
| "blocks_bits prev (b # bs) = block_bits prev b @ blocks_bits (zz b ! 0) bs"

lemma encode_blocks_holds:
  "\<lbrakk>coder_holds hdr c T; blocks_ok (dc (fst c)) bs\<rbrakk> \<Longrightarrow>
     \<exists>d. foldR jpec_huff_encode_block bs c = Inr d \<and>
       coder_holds hdr d (T @ blocks_bits (dc (fst c)) bs)"
proof (induction bs arbitrary: c T)
  case (Cons b bs)
  then obtain d where d: "jpec_huff_encode_block b c = Inr d"
    "coder_holds hdr d (T @ block_bits (dc (fst c)) b)" "dc (fst d) = zz b ! 0"
    using encode_block_holds [of hdr c T b] by auto
  from Cons.IH [OF d(2)] Cons.prems(2) d show ?case by auto
qed simp

lemma dec_blocks_bits:
  "blocks_ok prev bs \<Longrightarrow> dec_blocks (length bs) prev (blocks_bits prev bs @ rest) = Some (map zz bs, rest)"
proof (induction bs arbitrary: prev)
  case (Cons b bs)
  then have "zz b \<noteq> []" by (auto simp: block_ok_def)
  with Cons show ?case by (simp add: dec_block_bits hd_conv_nth)
qed simp

definition scan_bytes :: "bool list \<Rightarrow> u8 list" where
  "scan_bytes T = stuff (whole_bytes (T @ replicate 7 True))"

lemma scan_bits:
  "\<exists>p < 8. bits_of_bytes (unstuff (scan_bytes T)) = T @ replicate p True"
proof -
  let ?T = "T @ replicate 7 True"
  let ?q = "length ?T div 8"
  have "bits_of_bytes (unstuff (scan_bytes T)) = take (8 * ?q) ?T"
    unfolding scan_bytes_def unstuff_stuff whole_bytes_def
    by (rule bits_of_bytes_at) simp
  also have "\<dots> = T @ replicate (8 * ?q - length T) True"
  proof -
    have "length T \<le> 8 * ?q" "8 * ?q - length T \<le> 7" by simp_all
    then show ?thesis by (simp add: min_absorb1)
  qed
  finally have "bits_of_bytes (unstuff (scan_bytes T)) = T @ replicate (8 * ?q - length T) True" .
  moreover have "8 * ?q - length T < 8" by simp
  ultimately show ?thesis by blast
qed

lemma scan_encoded:
  assumes "buffer_ok b0" and "bs \<noteq> []" and "blocks_ok 0 bs"
  shows "\<exists>d. bindR (foldR jpec_huff_encode_block bs (jpec_huff_new, b0)) jpec_huff_del = Inr d \<and>
    written (snd d) = written b0 @ scan_bytes (blocks_bits 0 bs) \<and> buffer_ok (snd d)"
proof -
  let ?hdr = "written b0" and ?c = "(jpec_huff_new, b0)"
  have start: "coder_holds ?hdr (jpec_huff_new\<lparr>buf_set := True\<rparr>, b0) []"
    using assms(1) by (simp add: coder_holds_def partial_def jpec_huff_new_def stuff_def)
  obtain b bs' where bs: "bs = b # bs'" using assms(2) by (cases bs) auto
  have dc0: "dc (fst ?c) = 0" by (simp add: jpec_huff_new_def)
  obtain d where d: "jpec_huff_encode_block b ?c = Inr d" "coder_holds ?hdr d (block_bits 0 b)"
    "dc (fst d) = zz b ! 0"
    using encode_block_holds [of ?hdr ?c "[]" b] start assms(3) bs
    by (auto simp: jpec_huff_new_def)
  obtain e where e: "foldR jpec_huff_encode_block bs' d = Inr e"
    "coder_holds ?hdr e (blocks_bits 0 bs)"
    using encode_blocks_holds [OF d(2), of bs'] assms(3) bs d(3) by auto
  have "bits_msb 7 (0x7F :: u32) = replicate 7 True"
    by (simp add: numeral_eq_Suc bit_numeral_rec)
  then obtain f where f: "jpec_huff_write_bits 0x7F 7 e = Inr f"
    "coder_holds ?hdr f (blocks_bits 0 bs @ replicate 7 True)"
    using write_bits_holds [OF e(2), of 7 "0x7F"] by auto
  have "written (snd f) = ?hdr @ scan_bytes (blocks_bits 0 bs)" "buffer_ok (snd f)"
    using f(2) by (auto simp: coder_holds_def partial_def scan_bytes_def whole_bytes_def)
  with d e f bs show ?thesis by (auto simp: jpec_huff_del_def)
qed

section \<open>Properties\<close>

text \<open>the bit writer keeps every bit in order. From a state that holds the bits \<open>T\<close> of a scan
  started after the bytes \<open>hdr\<close>, writing the low \<open>n\<close> bits of a value, for \<open>n\<close> from 1 to 16,
  does not fault and leaves a state that holds \<open>T\<close> followed by these bits, most significant
  first: whole bytes are in the output buffer with a zero after every \<open>0xFF\<close>, fewer than eight
  bits wait in the 32-bit buffer, whatever is left in its upper eight bits.\<close>

theorem write_bits_in_order:
  assumes "coder_holds hdr c T" and "0 < n" and "n \<le> 16"
  shows "\<exists>d. jpec_huff_write_bits v n c = Inr d \<and> coder_holds hdr d (T @ bits_msb n v)"
  using hb.put_bits_holds [OF assms] .

theorem write_bits_in_order_witness:
  "\<exists>d. jpec_huff_write_bits 0xABCD 13 (jpec_huff_new\<lparr>buf_set := True\<rparr>, jpec_buffer_new) = Inr d \<and>
     coder_holds [] d (bits_msb 13 (0xABCD :: u32))"
proof -
  have "coder_holds [] (jpec_huff_new\<lparr>buf_set := True\<rparr>, jpec_buffer_new) []"
    using buffer_ok_new [of "-1"]
    by (simp add: coder_holds_def partial_def jpec_huff_new_def stuff_def jpec_buffer_new_def)
  from write_bits_in_order [OF this, of 13 "0xABCD"] show ?thesis by simp
qed

text \<open>C26: the scan can be decoded. For any non-empty sequence of blocks whose differences of DC
  coefficients are below 2048 and whose AC coefficients are below 1024 in magnitude, encoding all
  of them and closing the coder does not fault, appends bytes to the output, and reading these
  bytes back with the decoder of the standard (stuffed zeros dropped, canonical codes of the
  tables written into the file) gives exactly the coefficients, with fewer than eight padding
  ones left over.\<close>

theorem jpeg_scan_round_trip:
  assumes "buffer_ok b0" and "bs \<noteq> []" and "blocks_ok 0 bs"
  shows "\<exists>d scan p. bindR (foldR jpec_huff_encode_block bs (jpec_huff_new, b0)) jpec_huff_del = Inr d \<and>
    written (snd d) = written b0 @ scan \<and> p < 8 \<and>
    dec_blocks (length bs) 0 (bits_of_bytes (unstuff scan)) = Some (map zz bs, replicate p True)"
proof -
  obtain d where d: "bindR (foldR jpec_huff_encode_block bs (jpec_huff_new, b0)) jpec_huff_del = Inr d"
    "written (snd d) = written b0 @ scan_bytes (blocks_bits 0 bs)"
    using scan_encoded [OF assms] by blast
  obtain p where "p < 8" "bits_of_bytes (unstuff (scan_bytes (blocks_bits 0 bs)))
      = blocks_bits 0 bs @ replicate p True"
    using scan_bits by blast
  with d dec_blocks_bits [OF assms(3)] show ?thesis by metis
qed

definition demo_block :: jpec_block_t where
  "demo_block = \<lparr>zz = [5, 0, -3] @ replicate 61 0, blen = 3\<rparr>"

theorem jpeg_scan_round_trip_witness:
  "\<exists>d scan p. bindR (foldR jpec_huff_encode_block [demo_block, demo_block] (jpec_huff_new, jpec_buffer_new))
      jpec_huff_del = Inr d \<and> written (snd d) = scan \<and>
    dec_blocks 2 0 (bits_of_bytes (unstuff scan)) = Some ([zz demo_block, zz demo_block], replicate p True)"
proof -
  have z: "zz demo_block ! i = 0" if "3 \<le> i" "i < 64" for i
    using that by (simp add: demo_block_def nth_append nth_Cons')
  have "block_ok 0 demo_block" "block_ok 5 demo_block"
    using z by (auto simp: block_ok_def demo_block_def ac_ok_def list_all_iff)
  moreover have "zz demo_block ! 0 = 5" by (simp add: demo_block_def)
  ultimately have "blocks_ok 0 [demo_block, demo_block]" by simp
  moreover have "buffer_ok jpec_buffer_new" "written jpec_buffer_new = []"
    using buffer_ok_new [of "-1"] by (simp_all add: jpec_buffer_new_def)
  ultimately show ?thesis
    using jpeg_scan_round_trip [of jpec_buffer_new "[demo_block, demo_block]"]
    by (auto simp: numeral_2_eq_2)
qed

end
