(* ===== verification/Jpec_Enc.thy ===== *)
theory Jpec_Enc
  imports Complex_Main Jpec_Decode
begin

unbundle bit_operations_syntax

text \<open>
  The JPEG encoder, \<^verbatim>\<open>jpec-master/src/enc.c\<close>: the file header, the walk over the 8x8 blocks,
  the cosine transform, quantisation and the zig-zag order, and the loop that ties them to the
  entropy coder. Single-precision arithmetic is arithmetic on rationals followed by a rounding
  \<open>fl\<close>, which is a parameter; the properties only use that its error is small. Contraction of a
  product and a sum into one rounding is not modelled.
\<close>

section \<open>The encoder\<close>

record jpec_enc_t =
  img :: "u8 list"
  w :: nat
  h :: nat
  w8 :: nat
  buf :: jpec_buffer_t
  qual :: int
  dqt :: "int list"
  bmax :: int
  bnum :: int
  bx :: nat
  bY :: nat
  block :: jpec_block_t
  hskel :: jpec_huff_state_t

definition JPEG_ENC_DEF_QUAL :: int where "JPEG_ENC_DEF_QUAL = 50"
definition JPEC_ENC_HEAD_SIZ :: int where "JPEC_ENC_HEAD_SIZ = 330"
definition JPEC_ENC_BLOCK_SIZ :: int where "JPEC_ENC_BLOCK_SIZ = 30"

text \<open>
  \<^verbatim>\<open>jpec_enc_new2\<close>. The fields that \<^verbatim>\<open>malloc\<close> leaves uninitialised get empty values; they
  are set before they are read. \<open>w8\<close>, \<open>bx\<close> and \<open>bY\<close> are 16-bit fields.
\<close>

definition jpec_enc_new2 :: "u8 list \<Rightarrow> u16 \<Rightarrow> u16 \<Rightarrow> int \<Rightarrow> jpec_enc_t result" where
  "jpec_enc_new2 im wd ht q =
     (if \<not> (0 < wd \<and> wd AND 7 = 0 \<and> 0 < ht \<and> ht AND 7 = 0) then Inl Assert_Hang
      else
        let wn = unat wd; hn = unat ht;
            nb = ((wn - 1) div 8 + 1) * ((hn - 1) div 8 + 1)
        in Inr \<lparr>img = im, w = wn, h = hn, w8 = (((wn - 1) div 8 + 1) * 8) mod 2 ^ 16,
                buf = jpec_buffer_new2 (JPEC_ENC_HEAD_SIZ + int nb * JPEC_ENC_BLOCK_SIZ),
                qual = q, dqt = [], bmax = int nb, bnum = -1, bx = 2 ^ 16 - 1, bY = 2 ^ 16 - 1,
                block = \<lparr>zz = [], blen = 0\<rparr>, hskel = jpec_huff_new\<rparr>)"

definition jpec_enc_new :: "u8 list \<Rightarrow> u16 \<Rightarrow> u16 \<Rightarrow> jpec_enc_t result" where
  "jpec_enc_new im wd ht = jpec_enc_new2 im wd ht JPEG_ENC_DEF_QUAL"

section \<open>Quantisation table\<close>

text \<open>The conversion of a floating-point value to \<^verbatim>\<open>int\<close> drops the fraction.\<close>

definition to_int :: "rat \<Rightarrow> int" where
  "to_int x = (if 0 \<le> x then \<lfloor>x\<rfloor> else - \<lfloor>- x\<rfloor>)"

text \<open>A quality of zero divides by zero, and the infinite result is converted to an integer.\<close>

definition jpec_enc_init_dqt :: "(rat \<Rightarrow> rat) \<Rightarrow> jpec_enc_t \<Rightarrow> jpec_enc_t result" where
  "jpec_enc_init_dqt fl e =
     (if qual e = 0 then Inl Bad_Conversion
      else
        let qualf = fl (of_int (qual e));
            scale = (if qual e < 50 then fl (50 / qualf) else fl (2 - fl (qualf / 50)))
        in Inr (e\<lparr>dqt := map (\<lambda>i.
             let a = to_int (fl (of_nat (jpec_qzr ! i) * scale) + 1 / 2)
             in if a < 1 then 1 else if 255 < a then 255 else a) [0..<64]\<rparr>))"

section \<open>The header\<close>

definition wb :: "nat \<Rightarrow> jpec_buffer_t \<Rightarrow> jpec_buffer_t" where
  "wb v b = jpec_buffer_write_byte b (of_nat v)"

definition w2 :: "nat \<Rightarrow> jpec_buffer_t \<Rightarrow> jpec_buffer_t" where
  "w2 v b = jpec_buffer_write_2bytes b (of_nat v)"

definition on_buf :: "(jpec_buffer_t \<Rightarrow> jpec_buffer_t) list \<Rightarrow> jpec_enc_t \<Rightarrow> jpec_enc_t" where
  "on_buf fs e = e\<lparr>buf := fold (\<lambda>f. f) fs (buf e)\<rparr>"

definition jpec_enc_write_soi :: "jpec_enc_t \<Rightarrow> jpec_enc_t" where
  "jpec_enc_write_soi e = on_buf [w2 0xFFD8] e"

definition jpec_enc_write_app0 :: "jpec_enc_t \<Rightarrow> jpec_enc_t" where
  "jpec_enc_write_app0 e = on_buf
     [w2 0xFFE0, w2 0x0010, wb 0x4A, wb 0x46, wb 0x49, wb 0x46, wb 0x00, w2 0x0101, wb 0x00,
      w2 0x0001, w2 0x0001, wb 0x00, wb 0x00] e"

definition jpec_enc_write_dqt :: "jpec_enc_t \<Rightarrow> jpec_enc_t" where
  "jpec_enc_write_dqt e = on_buf
     ([w2 0xFFDB, w2 0x0043, wb 0x00] @ map (\<lambda>i. wb (nat (dqt e ! (jpec_zz ! i)))) [0..<64]) e"

definition jpec_enc_write_sof0 :: "jpec_enc_t \<Rightarrow> jpec_enc_t" where
  "jpec_enc_write_sof0 e = on_buf
     [w2 0xFFC0, w2 0x000B, wb 0x08, w2 (h e), w2 (w e), wb 0x01, wb 0x01, wb 0x11, wb 0x00] e"

definition jpec_enc_write_dht :: "jpec_enc_t \<Rightarrow> jpec_enc_t" where
  "jpec_enc_write_dht e = on_buf
     ([w2 0xFFC4, w2 (19 + jpec_dc_nb_vals), wb 0x00]
      @ map (\<lambda>i. wb (jpec_dc_nodes ! (i + 1))) [0..<16]
      @ map (\<lambda>i. wb (jpec_dc_vals ! i)) [0..<jpec_dc_nb_vals]
      @ [w2 0xFFC4, w2 (19 + jpec_ac_nb_vals), wb 0x10]
      @ map (\<lambda>i. wb (jpec_ac_nodes ! (i + 1))) [0..<16]
      @ map (\<lambda>i. wb (jpec_ac_vals ! i)) [0..<jpec_ac_nb_vals]) e"

definition jpec_enc_write_sos :: "jpec_enc_t \<Rightarrow> jpec_enc_t" where
  "jpec_enc_write_sos e = on_buf
     [w2 0xFFDA, w2 8, wb 0x01, wb 0x01, wb 0x00, wb 0x00, wb 0x3F, wb 0x00] e"

definition jpec_enc_open :: "(rat \<Rightarrow> rat) \<Rightarrow> jpec_enc_t \<Rightarrow> jpec_enc_t result" where
  "jpec_enc_open fl e =
     bindR (jpec_enc_init_dqt fl (e\<lparr>hskel := jpec_huff_new\<rparr>)) (\<lambda>e.
       Inr (jpec_enc_write_sos (jpec_enc_write_dht (jpec_enc_write_sof0 (jpec_enc_write_dqt
         (jpec_enc_write_app0 (jpec_enc_write_soi e)))))))"

definition jpec_enc_close :: "jpec_enc_t \<Rightarrow> jpec_enc_t result" where
  "jpec_enc_close e =
     bindR (jpec_huff_del (hskel e, buf e)) (\<lambda>(s, b).
       Inr (on_buf [w2 0xFFD9] (e\<lparr>hskel := s, buf := b\<rparr>)))"

section \<open>Blocks\<close>

definition jpec_enc_next_block :: "jpec_enc_t \<Rightarrow> bool \<times> jpec_enc_t" where
  "jpec_enc_next_block e =
     (let n = bnum e + 1; e1 = e\<lparr>bnum := n\<rparr> in
      if bmax e \<le> n then (False, e1)
      else (True, e1\<lparr>bx := nat ((n * 8) mod int (w8 e)) mod 2 ^ 16,
                     bY := nat (((n * 8) div int (w8 e)) * 8) mod 2 ^ 16\<rparr>))"

definition jpec_block_pixel :: "jpec_enc_t \<Rightarrow> nat \<Rightarrow> nat \<Rightarrow> u8 result" where
  "jpec_block_pixel e col row =
     rd (img e) ((if bY e + row < h e then bY e + row else h e - 1) * w e
                 + (if bx e + col < w e then bx e + col else w e - 1))"

definition jpec_dct :: "rat list" where
  "jpec_dct = [0.49039, 0.46194, 0.41573, 0.35355, 0.27779, 0.19134, 0.09755]"

text \<open>
  The eight outputs of one pass, from the four sums and the four differences of opposite inputs,
  in the order and with the roundings of the C expressions. The passes over rows and over
  columns use the same formulas.
\<close>

definition dct_pass :: "(rat \<Rightarrow> rat) \<Rightarrow> (nat \<Rightarrow> rat) \<Rightarrow> (nat \<Rightarrow> rat) \<Rightarrow> rat list" where
  "dct_pass fl s d =
     (let c = (\<lambda>i. fl (jpec_dct ! i));
          add = (\<lambda>a b. fl (a + b)); sub = (\<lambda>a b. fl (a - b)); mul = (\<lambda>a b. fl (a * b))
      in [mul (c 3) (add (add (add (s 0) (s 1)) (s 2)) (s 3)),
          add (add (add (mul (c 0) (d 0)) (mul (c 2) (d 1))) (mul (c 4) (d 2))) (mul (c 6) (d 3)),
          add (mul (c 1) (sub (s 0) (s 3))) (mul (c 5) (sub (s 1) (s 2))),
          sub (sub (sub (mul (c 2) (d 0)) (mul (c 6) (d 1))) (mul (c 0) (d 2))) (mul (c 4) (d 3)),
          mul (c 3) (add (sub (sub (s 0) (s 1)) (s 2)) (s 3)),
          add (add (sub (mul (c 4) (d 0)) (mul (c 0) (d 1))) (mul (c 6) (d 2))) (mul (c 2) (d 3)),
          add (mul (c 5) (sub (s 0) (s 3))) (mul (c 1) (sub (s 2) (s 1))),
          sub (add (sub (mul (c 6) (d 0)) (mul (c 4) (d 1))) (mul (c 2) (d 2))) (mul (c 0) (d 3))])"

definition dct_row :: "(rat \<Rightarrow> rat) \<Rightarrow> u8 list \<Rightarrow> nat \<Rightarrow> rat list" where
  "dct_row fl px row =
     (let p = (\<lambda>col. int (unat (px ! (8 * row + col)))) in
      dct_pass fl (\<lambda>i. fl (of_int (p i + p (7 - i) - 256))) (\<lambda>i. fl (of_int (p i - p (7 - i)))))"

definition dct_col :: "(rat \<Rightarrow> rat) \<Rightarrow> rat list \<Rightarrow> nat \<Rightarrow> rat list" where
  "dct_col fl tmp col =
     dct_pass fl (\<lambda>i. fl (tmp ! (8 * i + col) + tmp ! (8 * (7 - i) + col)))
                 (\<lambda>i. fl (tmp ! (8 * i + col) - tmp ! (8 * (7 - i) + col)))"

definition dct_of_pixels :: "(rat \<Rightarrow> rat) \<Rightarrow> u8 list \<Rightarrow> rat list" where
  "dct_of_pixels fl px =
     (let tmp = concat (map (dct_row fl px) [0..<8]);
          cols = map (dct_col fl tmp) [0..<8]
      in map (\<lambda>i. cols ! (i mod 8) ! (i div 8)) [0..<64])"

definition jpec_enc_block_dct :: "(rat \<Rightarrow> rat) \<Rightarrow> jpec_enc_t \<Rightarrow> rat list result" where
  "jpec_enc_block_dct fl e =
     (if bnum e < 0 then Inl Assert_Hang
      else bindR (mapR (\<lambda>i. jpec_block_pixel e (i mod 8) (i div 8)) [0..<64]) (\<lambda>px.
             Inr (dct_of_pixels fl px)))"

definition jpec_enc_block_quant :: "(rat \<Rightarrow> rat) \<Rightarrow> jpec_enc_t \<Rightarrow> rat list \<Rightarrow> int list" where
  "jpec_enc_block_quant fl e dct =
     map (\<lambda>i. to_int (fl (dct ! i / of_int (dqt e ! i)))) [0..<64]"

text \<open>The zig-zag order, and one more than the index of the last coefficient that is not zero.\<close>

definition jpec_enc_block_zz :: "int list \<Rightarrow> jpec_block_t" where
  "jpec_enc_block_zz quant =
     (let z = map (\<lambda>i. quant ! (jpec_zz ! i)) [0..<64] in
      \<lparr>zz = z, blen = fold (\<lambda>i l. if z ! i \<noteq> 0 then i + 1 else l) [0..<64] 0\<rparr>)"

function enc_loop :: "(rat \<Rightarrow> rat) \<Rightarrow> jpec_enc_t \<Rightarrow> jpec_enc_t result" where
  "enc_loop fl e =
     (let (more, e1) = jpec_enc_next_block e in
      if \<not> more then Inr e1
      else bindR (jpec_enc_block_dct fl e1) (\<lambda>dct.
             let blk = jpec_enc_block_zz (jpec_enc_block_quant fl e1 dct) in
             bindR (jpec_huff_encode_block blk (hskel e1, buf e1)) (\<lambda>(s, b).
               enc_loop fl (e1\<lparr>block := blk, hskel := s, buf := b\<rparr>))))"
  by pat_completeness auto
termination
  by (relation "measure (\<lambda>(fl, e). nat (bmax e - bnum e))")
    (auto simp: jpec_enc_next_block_def Let_def split: if_splits)

declare enc_loop.simps [simp del]

definition jpec_enc_run :: "(rat \<Rightarrow> rat) \<Rightarrow> jpec_enc_t \<Rightarrow> jpec_enc_t result" where
  "jpec_enc_run fl e =
     bindR (jpec_enc_open fl e) (\<lambda>e. bindR (enc_loop fl e) jpec_enc_close)"

section \<open>The header as segments\<close>

text \<open>A marker segment of the format: the marker, the length of the rest, the payload.\<close>

definition segment :: "u8 \<Rightarrow> u8 list \<Rightarrow> u8 list" where
  "segment m payload = 0xFF # m # be16 (of_nat (length payload + 2)) @ payload"

definition bytes :: "nat list \<Rightarrow> u8 list" where
  "bytes = map of_nat"

definition jpeg_header :: "nat \<Rightarrow> nat \<Rightarrow> int list \<Rightarrow> u8 list" where
  "jpeg_header wd ht q =
     [0xFF, 0xD8]
     @ segment 0xE0 (bytes [0x4A, 0x46, 0x49, 0x46, 0, 1, 1, 0, 0, 1, 0, 1, 0, 0])
     @ segment 0xDB (0 # map (\<lambda>i. of_nat (nat (q ! (jpec_zz ! i)))) [0..<64])
     @ segment 0xC0 (8 # be16 (of_nat ht) @ be16 (of_nat wd) @ bytes [1, 1, 0x11, 0])
     @ segment 0xC4 (0 # bytes (tl jpec_dc_nodes) @ bytes jpec_dc_vals)
     @ segment 0xC4 (0x10 # bytes (tl jpec_ac_nodes) @ bytes jpec_ac_vals)
     @ segment 0xDA (bytes [1, 1, 0, 0, 0x3F, 0])"

definition emits :: "(jpec_buffer_t \<Rightarrow> jpec_buffer_t) list \<Rightarrow> u8 list \<Rightarrow> bool" where
  "emits fs bs \<longleftrightarrow> (\<forall>b. buffer_ok b \<longrightarrow>
     buffer_ok (fold (\<lambda>f. f) fs b) \<and> written (fold (\<lambda>f. f) fs b) = written b @ bs)"

lemma emits_Nil: "emits [] []"
  by (simp add: emits_def)

lemma ucast_of_nat: "(ucast (of_nat v :: u32) :: u8) = of_nat v"
  by (rule bit_word_eqI) (simp add: bit_simps)

lemma emits_wb: "emits fs bs \<Longrightarrow> emits (wb v # fs) (of_nat v # bs)"
  by (simp add: emits_def wb_def jb.put_out jb.put_ok ucast_of_nat)

lemma emits_w2: "emits fs bs \<Longrightarrow> emits (w2 v # fs) (be16 (of_nat v) @ bs)"
  by (simp add: emits_def w2_def write_2bytes_out)

lemma emits_append: "emits fs bs \<Longrightarrow> emits gs cs \<Longrightarrow> emits (fs @ gs) (bs @ cs)"
  by (simp add: emits_def)

lemma emits_map: "emits (map (\<lambda>i. wb (g i)) xs) (map (\<lambda>i. of_nat (g i)) xs)"
  by (induction xs) (auto intro: emits_Nil emits_wb)

lemmas emits_intros = emits_Nil emits_wb emits_w2 emits_append emits_map

lemma on_buf_simps [simp]:
  "img (on_buf fs e) = img e" "w (on_buf fs e) = w e" "h (on_buf fs e) = h e"
  "w8 (on_buf fs e) = w8 e" "qual (on_buf fs e) = qual e" "dqt (on_buf fs e) = dqt e"
  "bmax (on_buf fs e) = bmax e" "bnum (on_buf fs e) = bnum e" "hskel (on_buf fs e) = hskel e"
  by (simp_all add: on_buf_def)

lemma on_buf_emits:
  assumes "emits fs bs" and "buffer_ok (buf e)"
  shows "buffer_ok (buf (on_buf fs e))" and "written (buf (on_buf fs e)) = written (buf e) @ bs"
  using assms by (auto simp: emits_def on_buf_def)

lemma map_nth_tl: "map (\<lambda>i. of_nat (xs ! (i + 1))) [0..<n] = bytes (take n (tl xs))"
  if "n < length xs"
  using that by (intro nth_equalityI) (auto simp: bytes_def nth_tl)

lemma map_nth_all: "map (\<lambda>i. of_nat (xs ! i)) [0..<length xs] = bytes xs"
  by (intro nth_equalityI) (simp_all add: bytes_def)

definition write_header :: "jpec_enc_t \<Rightarrow> jpec_enc_t" where
  "write_header e = jpec_enc_write_sos (jpec_enc_write_dht (jpec_enc_write_sof0
     (jpec_enc_write_dqt (jpec_enc_write_app0 (jpec_enc_write_soi e)))))"

lemmas writers = jpec_enc_write_sos_def jpec_enc_write_dht_def jpec_enc_write_sof0_def
  jpec_enc_write_dqt_def jpec_enc_write_app0_def jpec_enc_write_soi_def

lemma table_lengths:
  "length jpec_dc_nodes = 17" "length jpec_ac_nodes = 17" "length jpec_dc_vals = jpec_dc_nb_vals"
  "length jpec_ac_vals = jpec_ac_nb_vals" "length jpec_zz = 64" "length jpec_qzr = 64"
  by (simp_all add: jpec_dc_nodes_def jpec_ac_nodes_def jpec_dc_vals_def jpec_ac_vals_def
      jpec_zz_def jpec_qzr_def jpec_dc_nb_vals_def jpec_ac_nb_vals_def)

lemma dht_bytes:
  "map (\<lambda>i. of_nat (jpec_dc_nodes ! (i + 1))) [0..<16] = bytes (tl jpec_dc_nodes)"
  "map (\<lambda>i. of_nat (jpec_ac_nodes ! (i + 1))) [0..<16] = bytes (tl jpec_ac_nodes)"
  "map (\<lambda>i. of_nat (jpec_dc_vals ! i)) [0..<jpec_dc_nb_vals] = bytes jpec_dc_vals"
  "map (\<lambda>i. of_nat (jpec_ac_vals ! i)) [0..<jpec_ac_nb_vals] = bytes jpec_ac_vals"
  using map_nth_tl [of 16 jpec_dc_nodes] map_nth_tl [of 16 jpec_ac_nodes]
    map_nth_all [of jpec_dc_vals] map_nth_all [of jpec_ac_vals]
  by (simp_all add: table_lengths)

lemma emits_header:
  "emits [w2 0xFFD8] [0xFF, 0xD8]"
  "emits [w2 0xFFE0, w2 0x0010, wb 0x4A, wb 0x46, wb 0x49, wb 0x46, wb 0x00, w2 0x0101, wb 0x00,
      w2 0x0001, w2 0x0001, wb 0x00, wb 0x00]
    (segment 0xE0 (bytes [0x4A, 0x46, 0x49, 0x46, 0, 1, 1, 0, 0, 1, 0, 1, 0, 0]))"
  "emits ([w2 0xFFDB, w2 0x0043, wb 0x00] @ map (\<lambda>i. wb (nat (q ! (jpec_zz ! i)))) [0..<64])
    (segment 0xDB (0 # map (\<lambda>i. of_nat (nat (q ! (jpec_zz ! i)))) [0..<64]))"
  "emits [w2 0xFFC0, w2 0x000B, wb 0x08, w2 ht, w2 wd, wb 0x01, wb 0x01, wb 0x11, wb 0x00]
    (segment 0xC0 (8 # be16 (of_nat ht) @ be16 (of_nat wd) @ bytes [1, 1, 0x11, 0]))"
  "emits [w2 0xFFDA, w2 8, wb 0x01, wb 0x01, wb 0x00, wb 0x00, wb 0x3F, wb 0x00]
    (segment 0xDA (bytes [1, 1, 0, 0, 0x3F, 0]))"
proof -
  have e: "emits fs bs \<Longrightarrow> bs = cs \<Longrightarrow> emits fs cs" for fs bs cs by simp
  show "emits [w2 0xFFD8] [0xFF, 0xD8]"
    by (rule e, (rule emits_intros)+) (simp add: be16_def)
  show "emits [w2 0xFFE0, w2 0x0010, wb 0x4A, wb 0x46, wb 0x49, wb 0x46, wb 0x00, w2 0x0101, wb 0x00,
      w2 0x0001, w2 0x0001, wb 0x00, wb 0x00]
    (segment 0xE0 (bytes [0x4A, 0x46, 0x49, 0x46, 0, 1, 1, 0, 0, 1, 0, 1, 0, 0]))"
    by (rule e, (rule emits_Nil emits_wb emits_w2)+) (simp add: be16_def segment_def bytes_def)
  show "emits ([w2 0xFFDB, w2 0x0043, wb 0x00] @ map (\<lambda>i. wb (nat (q ! (jpec_zz ! i)))) [0..<64])
    (segment 0xDB (0 # map (\<lambda>i. of_nat (nat (q ! (jpec_zz ! i)))) [0..<64]))"
    by (rule e, rule emits_append, (rule emits_Nil emits_wb emits_w2)+, rule emits_map)
      (simp add: be16_def segment_def)
  show "emits [w2 0xFFC0, w2 0x000B, wb 0x08, w2 ht, w2 wd, wb 0x01, wb 0x01, wb 0x11, wb 0x00]
    (segment 0xC0 (8 # be16 (of_nat ht) @ be16 (of_nat wd) @ bytes [1, 1, 0x11, 0]))"
    by (rule e, (rule emits_Nil emits_wb emits_w2)+) (simp add: be16_def segment_def bytes_def)
  show "emits [w2 0xFFDA, w2 8, wb 0x01, wb 0x01, wb 0x00, wb 0x00, wb 0x3F, wb 0x00]
    (segment 0xDA (bytes [1, 1, 0, 0, 0x3F, 0]))"
    by (rule e, (rule emits_Nil emits_wb emits_w2)+) (simp add: be16_def segment_def bytes_def)
qed

lemma emits_dht:
  "emits ([w2 0xFFC4, w2 (19 + jpec_dc_nb_vals), wb 0x00]
      @ map (\<lambda>i. wb (jpec_dc_nodes ! (i + 1))) [0..<16]
      @ map (\<lambda>i. wb (jpec_dc_vals ! i)) [0..<jpec_dc_nb_vals]
      @ [w2 0xFFC4, w2 (19 + jpec_ac_nb_vals), wb 0x10]
      @ map (\<lambda>i. wb (jpec_ac_nodes ! (i + 1))) [0..<16]
      @ map (\<lambda>i. wb (jpec_ac_vals ! i)) [0..<jpec_ac_nb_vals])
    (segment 0xC4 (0 # bytes (tl jpec_dc_nodes) @ bytes jpec_dc_vals)
     @ segment 0xC4 (0x10 # bytes (tl jpec_ac_nodes) @ bytes jpec_ac_vals))"
proof -
  have e: "emits fs bs \<Longrightarrow> bs = cs \<Longrightarrow> emits fs cs" for fs bs cs by simp
  have len: "length (bytes xs) = length xs" for xs by (simp add: bytes_def)
  show ?thesis
    by (rule e, (rule emits_append emits_map | rule emits_Nil emits_wb emits_w2)+)
      (simp only: dht_bytes, simp add: be16_def segment_def len table_lengths jpec_dc_nb_vals_def
        jpec_ac_nb_vals_def)
qed

lemma on_buf_twice: "on_buf gs (on_buf fs e) = on_buf (fs @ gs) e"
  by (simp add: on_buf_def)

lemma write_header_emits:
  "\<exists>fs. write_header e = on_buf fs e \<and> emits fs (jpeg_header (w e) (h e) (dqt e))"
proof -
  have e: "emits fs bs \<Longrightarrow> bs = cs \<Longrightarrow> emits fs cs" for fs bs cs by simp
  show ?thesis
    unfolding write_header_def writers on_buf_simps on_buf_twice
    by (rule exI, rule conjI, rule refl, rule e, (rule emits_append emits_header emits_dht)+)
      (simp add: jpeg_header_def)
qed

lemma write_header_spec:
  assumes "buffer_ok (buf e)"
  shows "buffer_ok (buf (write_header e))"
    and "written (buf (write_header e)) = written (buf e) @ jpeg_header (w e) (h e) (dqt e)"
    and "write_header e = e\<lparr>buf := buf (write_header e)\<rparr>"
proof -
  obtain fs where fs: "write_header e = on_buf fs e" "emits fs (jpeg_header (w e) (h e) (dqt e))"
    using write_header_emits by blast
  show "buffer_ok (buf (write_header e))"
    "written (buf (write_header e)) = written (buf e) @ jpeg_header (w e) (h e) (dqt e)"
    "write_header e = e\<lparr>buf := buf (write_header e)\<rparr>"
    using on_buf_emits [OF fs(2) assms] by (simp_all add: fs(1)) (simp add: on_buf_def)
qed

end
