(* ===== verification/Jpec_Run.thy ===== *)
theory Jpec_Run
  imports Jpec_Enc
begin

unbundle bit_operations_syntax

text \<open>
  The encoder of \<^verbatim>\<open>jpec-master/src/enc.c\<close> from end to end: the blocks it visits, the range of
  the quantised coefficients, and the file that \<^verbatim>\<open>jpec_enc_run\<close> produces.
\<close>

section \<open>Rounding\<close>

text \<open>
  The hypothesis on the floating-point unit: below a million the error of a rounding is at most
  a millionth of the value plus a millionth. IEEE single precision is an order of magnitude
  better.
\<close>

definition fl_ok :: "(rat \<Rightarrow> rat) \<Rightarrow> bool" where
  "fl_ok fl \<longleftrightarrow> (\<forall>x. \<bar>x\<bar> \<le> 1000000 \<longrightarrow> \<bar>fl x - x\<bar> \<le> (\<bar>x\<bar> + 1) / 1000000)"

lemma fl_err: "fl_ok fl \<Longrightarrow> \<bar>x\<bar> \<le> 1000000 \<Longrightarrow> \<bar>fl x - x\<bar> \<le> (\<bar>x\<bar> + 1) / 1000000"
  by (simp add: fl_ok_def)

lemma fl_bound:
  assumes "fl_ok fl" and "\<bar>x\<bar> \<le> B" and "B \<le> 900000"
  shows "\<bar>fl x\<bar> \<le> B + 1"
proof -
  have "\<bar>fl x - x\<bar> \<le> (\<bar>x\<bar> + 1) / 1000000" using assms by (intro fl_err) simp_all
  also have "\<dots> \<le> 1" using assms by (simp add: field_simps)
  finally show ?thesis using assms(2) by linarith
qed

lemma fl_add_bound:
  "\<lbrakk>fl_ok fl; \<bar>a\<bar> \<le> A; \<bar>b\<bar> \<le> B; A + B \<le> 900000\<rbrakk> \<Longrightarrow> \<bar>fl (a + b)\<bar> \<le> A + B + 1"
  by (rule fl_bound) auto

lemma fl_sub_bound:
  "\<lbrakk>fl_ok fl; \<bar>a\<bar> \<le> A; \<bar>b\<bar> \<le> B; A + B \<le> 900000\<rbrakk> \<Longrightarrow> \<bar>fl (a - b)\<bar> \<le> A + B + 1"
  by (rule fl_bound) auto

lemma fl_mul_bound:
  assumes "fl_ok fl" and "\<bar>c\<bar> \<le> 1 / 2" and "\<bar>b\<bar> \<le> B" and "B \<le> 900000"
  shows "\<bar>fl (c * b)\<bar> \<le> B / 2 + 1"
proof (rule fl_bound [OF assms(1)])
  have "\<bar>c\<bar> * \<bar>b\<bar> \<le> 1 / 2 * B" using assms(2,3) by (intro mult_mono) auto
  then show "\<bar>c * b\<bar> \<le> B / 2" by (simp add: abs_mult)
qed (use assms in auto)

lemma coeff_bound:
  assumes "fl_ok fl" and "i < 7"
  shows "\<bar>fl (jpec_dct ! i)\<bar> \<le> 1 / 2"
proof -
  have "0 \<le> jpec_dct ! i" "jpec_dct ! i \<le> 0.4904"
    using assms(2) by (auto simp: jpec_dct_def less_Suc_eq numeral_eq_Suc)
  then have a: "\<bar>jpec_dct ! i\<bar> \<le> 0.4904" by simp
  then have "\<bar>jpec_dct ! i\<bar> \<le> 1000000" by (rule order_trans) simp
  from fl_err [OF assms(1) this] have "\<bar>fl (jpec_dct ! i) - jpec_dct ! i\<bar> \<le> 0.001"
    by (rule order_trans) (use a in simp)
  moreover have "\<bar>x\<bar> \<le> \<bar>x - y\<bar> + \<bar>y\<bar>" for x y :: rat by linarith
  from this [of "fl (jpec_dct ! i)" "jpec_dct ! i"]
  have "\<bar>fl (jpec_dct ! i)\<bar> \<le> \<bar>fl (jpec_dct ! i) - jpec_dct ! i\<bar> + \<bar>jpec_dct ! i\<bar>" .
  ultimately have "\<bar>fl (jpec_dct ! i)\<bar> \<le> 0.001 + 0.4904"
    using a by (meson add_mono order_trans)
  then show ?thesis by (rule order_trans) simp
qed

text \<open>One pass grows its inputs by a factor of at most two and a little.\<close>

lemma dct_pass_bound:
  assumes fl: "fl_ok fl" and s: "\<And>i. i < 4 \<Longrightarrow> \<bar>s i\<bar> \<le> B" and d: "\<And>i. i < 4 \<Longrightarrow> \<bar>d i\<bar> \<le> B"
    and B: "0 \<le> B" "B \<le> 100000" and y: "y \<in> set (dct_pass fl s d)"
  shows "\<bar>y\<bar> \<le> 2 * B + 7"
proof -
  let ?c = "\<lambda>i. fl (jpec_dct ! i)"
  note c = coeff_bound [OF fl]
  note rules = fl_add_bound [OF fl] fl_sub_bound [OF fl] fl_mul_bound [OF fl]
  have s4: "\<bar>s 0\<bar> \<le> B" "\<bar>s 1\<bar> \<le> B" "\<bar>s 2\<bar> \<le> B" "\<bar>s 3\<bar> \<le> B"
    and d4: "\<bar>d 0\<bar> \<le> B" "\<bar>d 1\<bar> \<le> B" "\<bar>d 2\<bar> \<le> B" "\<bar>d 3\<bar> \<le> B" using s d by auto
  have c7: "\<bar>?c 0\<bar> \<le> 1 / 2" "\<bar>?c 1\<bar> \<le> 1 / 2" "\<bar>?c 2\<bar> \<le> 1 / 2" "\<bar>?c 3\<bar> \<le> 1 / 2"
    "\<bar>?c 4\<bar> \<le> 1 / 2" "\<bar>?c 5\<bar> \<le> 1 / 2" "\<bar>?c 6\<bar> \<le> 1 / 2" by (rule c; simp)+
  have sum4: "\<bar>fl (?c 3 * fl (fl (fl (p + q) + r) + t))\<bar> \<le> 2 * B + 7"
    and diff4: "\<bar>fl (?c 3 * fl (fl (fl (p - q) - r) + t))\<bar> \<le> 2 * B + 7"
    if "\<bar>p\<bar> \<le> B" "\<bar>q\<bar> \<le> B" "\<bar>r\<bar> \<le> B" "\<bar>t\<bar> \<le> B" for p q r t
  proof -
    have "\<bar>fl (fl (fl (p + q) + r) + t)\<bar> \<le> B + B + 1 + B + 1 + B + 1"
      "\<bar>fl (fl (fl (p - q) - r) + t)\<bar> \<le> B + B + 1 + B + 1 + B + 1"
      using B that by (intro rules(1,2); linarith)+
    then have "\<bar>fl (?c 3 * fl (fl (fl (p + q) + r) + t))\<bar> \<le> (B + B + 1 + B + 1 + B + 1) / 2 + 1"
      "\<bar>fl (?c 3 * fl (fl (fl (p - q) - r) + t))\<bar> \<le> (B + B + 1 + B + 1 + B + 1) / 2 + 1"
      using c7 B by (intro rules(3); linarith)+
    then show "\<bar>fl (?c 3 * fl (fl (fl (p + q) + r) + t))\<bar> \<le> 2 * B + 7"
      "\<bar>fl (?c 3 * fl (fl (fl (p - q) - r) + t))\<bar> \<le> 2 * B + 7" by (simp_all add: field_simps)
  qed
  have m: "\<bar>fl (k * x)\<bar> \<le> B / 2 + 1" if "\<bar>k\<bar> \<le> 1 / 2" "\<bar>x\<bar> \<le> B" for k x
    using that B by (intro rules(3)) auto
  have four: "\<bar>f3 (f2 (f1 a b) e) g\<bar> \<le> 2 * B + 7"
    if "\<bar>a\<bar> \<le> B / 2 + 1" "\<bar>b\<bar> \<le> B / 2 + 1" "\<bar>e\<bar> \<le> B / 2 + 1" "\<bar>g\<bar> \<le> B / 2 + 1"
      "f1 \<in> {\<lambda>x y. fl (x + y), \<lambda>x y. fl (x - y)}" "f2 \<in> {\<lambda>x y. fl (x + y), \<lambda>x y. fl (x - y)}"
      "f3 \<in> {\<lambda>x y. fl (x + y), \<lambda>x y. fl (x - y)}" for a b e g :: rat and f1 f2 f3
  proof -
    have step: "\<bar>f x z\<bar> \<le> X + Z + 1"
      if "f \<in> {\<lambda>x y. fl (x + y), \<lambda>x y. fl (x - y)}" "\<bar>x\<bar> \<le> X" "\<bar>z\<bar> \<le> Z" "X + Z \<le> 900000"
      for f and x z X Z :: rat
      using that rules(1) [of x X z Z] rules(2) [of x X z Z] by auto
    have "\<bar>f1 a b\<bar> \<le> B / 2 + 1 + (B / 2 + 1) + 1"
      by (rule step [OF that(5,1,2)]) (use B in auto)
    then have "\<bar>f2 (f1 a b) e\<bar> \<le> B / 2 + 1 + (B / 2 + 1) + 1 + (B / 2 + 1) + 1"
      by (rule step [OF that(6) _ that(3)]) (use B in auto)
    then have "\<bar>f3 (f2 (f1 a b) e) g\<bar>
        \<le> B / 2 + 1 + (B / 2 + 1) + 1 + (B / 2 + 1) + 1 + (B / 2 + 1) + 1"
      by (rule step [OF that(7) _ that(4)]) (use B in auto)
    then show ?thesis by (simp add: field_simps)
  qed
  have two: "\<bar>fl (fl (k * fl (p - q)) + fl (l * fl (r - t)))\<bar> \<le> 2 * B + 7"
    if "\<bar>k\<bar> \<le> 1 / 2" "\<bar>l\<bar> \<le> 1 / 2" "\<bar>p\<bar> \<le> B" "\<bar>q\<bar> \<le> B" "\<bar>r\<bar> \<le> B" "\<bar>t\<bar> \<le> B"
    for k l p q r t
  proof -
    have "\<bar>fl (p - q)\<bar> \<le> B + B + 1" "\<bar>fl (r - t)\<bar> \<le> B + B + 1"
      using that B by (intro rules(2); linarith)+
    then have "\<bar>fl (k * fl (p - q))\<bar> \<le> (B + B + 1) / 2 + 1"
      "\<bar>fl (l * fl (r - t))\<bar> \<le> (B + B + 1) / 2 + 1"
      using that B by (intro rules(3); linarith)+
    then have "\<bar>fl (fl (k * fl (p - q)) + fl (l * fl (r - t)))\<bar>
        \<le> (B + B + 1) / 2 + 1 + ((B + B + 1) / 2 + 1) + 1"
      by (rule rules(1)) (use B in auto)
    then show ?thesis by (simp add: field_simps)
  qed
  let ?A = "\<lambda>x y. fl (x + y)" and ?S = "\<lambda>x y. fl (x - y)"
  note f = four [where ?f1.0 = ?A and ?f2.0 = ?A and ?f3.0 = ?A]
    four [where ?f1.0 = ?S and ?f2.0 = ?S and ?f3.0 = ?S]
    four [where ?f1.0 = ?S and ?f2.0 = ?A and ?f3.0 = ?A]
    four [where ?f1.0 = ?S and ?f2.0 = ?A and ?f3.0 = ?S]
  from y show ?thesis
    unfolding dct_pass_def Let_def set_simps insert_iff empty_iff
    by (elim disjE FalseE; hypsubst)
      (rule sum4 diff4 two f; (rule m)?; (rule s4 d4 c7)?; simp?)+
qed

lemma length_dct_pass [simp]: "length (dct_pass fl s d) = 8"
  by (simp add: dct_pass_def Let_def)

lemma length_dct_row [simp]: "length (dct_row fl px r) = 8"
  by (simp add: dct_row_def Let_def)

lemma dct_row_bound:
  assumes "fl_ok fl" and "y \<in> set (dct_row fl px r)"
  shows "\<bar>y\<bar> \<le> 521"
proof -
  have int: "\<bar>fl (of_int k)\<bar> \<le> 257" if "\<bar>k\<bar> \<le> 256" for k :: int
  proof -
    have "\<bar>of_int k :: rat\<bar> \<le> 256" using that by (metis of_int_abs of_int_le_iff of_int_numeral)
    from fl_bound [OF assms(1) this] show ?thesis by simp
  qed
  have p: "0 \<le> int (unat x)" "int (unat x) \<le> 255" for x :: u8
    using unat_u8_lt [of x] by linarith+
  have b: "\<bar>int (unat x) + int (unat z) - 256\<bar> \<le> 256" "\<bar>int (unat x) - int (unat z)\<bar> \<le> 256"
    for x z :: u8 using p [of x] p [of z] by linarith+
  have "\<bar>y\<bar> \<le> 2 * 257 + 7"
    using assms(2) unfolding dct_row_def Let_def
    by (rule dct_pass_bound [OF assms(1), rotated 4]) (intro int b | simp)+
  then show ?thesis by simp
qed

lemma concat_rows_nth:
  assumes "\<And>r. r < n \<Longrightarrow> length (f r) = 8" and "r < n" "c < 8"
  shows "concat (map f [0..<n]) ! (8 * r + c) = f r ! c" and "length (concat (map f [0..<n])) = 8 * n"
proof -
  have len: "length (concat (map f [0..<m])) = 8 * m" if "m \<le> n" for m
    using that by (induction m) (simp_all add: assms(1))
  then show "length (concat (map f [0..<n])) = 8 * n" by simp
  have "[0..<n] = [0..<r] @ r # [Suc r..<n]"
    using upt_add_eq_append [of 0 r "n - r"] assms(2) by (simp add: upt_conv_Cons)
  then have "concat (map f [0..<n])
      = concat (map f [0..<r]) @ f r @ concat (map f [Suc r..<n])" by simp
  then show "concat (map f [0..<n]) ! (8 * r + c) = f r ! c"
    using len [of r] assms by (simp add: nth_append)
qed

lemma dct_bound:
  assumes fl: "fl_ok fl" and i: "i < 64"
  shows "\<bar>dct_of_pixels fl px ! i\<bar> \<le> 2093"
proof -
  let ?tmp = "concat (map (dct_row fl px) [0..<8])"
  have t: "\<bar>?tmp ! (8 * r + c)\<bar> \<le> 521" if "r < 8" "c < 8" for r c
    using concat_rows_nth(1) [of 8 "dct_row fl px" r c] that dct_row_bound [OF fl]
    by (metis length_dct_row nth_mem)
  have col: "\<bar>y\<bar> \<le> 2 * 1043 + 7" if c: "c < 8" and y: "y \<in> set (dct_col fl ?tmp c)" for c y
    using y unfolding dct_col_def
  proof (rule dct_pass_bound [OF fl, rotated 4])
    fix j :: nat assume "j < 4"
    then have "\<bar>?tmp ! (8 * j + c)\<bar> \<le> 521" "\<bar>?tmp ! (8 * (7 - j) + c)\<bar> \<le> 521"
      using t c by simp_all
    from fl_add_bound [OF fl this] fl_sub_bound [OF fl this]
    show "\<bar>fl (?tmp ! (8 * j + c) + ?tmp ! (8 * (7 - j) + c))\<bar> \<le> 1043"
      and "\<bar>fl (?tmp ! (8 * j + c) - ?tmp ! (8 * (7 - j) + c))\<bar> \<le> 1043" by simp_all
  qed simp_all
  have "dct_of_pixels fl px ! i = dct_col fl ?tmp (i mod 8) ! (i div 8)"
    using i by (simp add: dct_of_pixels_def Let_def)
  moreover have "dct_col fl ?tmp (i mod 8) ! (i div 8) \<in> set (dct_col fl ?tmp (i mod 8))"
    using i by (intro nth_mem) (simp add: dct_col_def)
  ultimately show ?thesis using col [of "i mod 8"] by simp
qed

section \<open>Quantisation at the default quality\<close>

lemma to_int_abs: "\<bar>to_int x\<bar> \<le> B" if "\<bar>x\<bar> \<le> of_int B"
  using that by (auto simp: to_int_def abs_le_iff floor_le_iff) linarith+

text \<open>At quality 50 the scale is one, and small rounding errors do not change the table.\<close>

lemma qzr_range: "list_all (\<lambda>q. 10 \<le> q \<and> q \<le> 121) jpec_qzr"
  by (simp add: jpec_qzr_def)

lemma to_int_near: "to_int (x + 1 / 2) = int q" if "\<bar>x - of_nat q\<bar> < 1 / 2" for x :: rat
proof -
  have "0 \<le> x + 1 / 2" "\<lfloor>x + 1 / 2\<rfloor> = int q"
    using that unfolding floor_eq_iff abs_less_iff by simp_all
  then show ?thesis by (simp add: to_int_def)
qed

lemma init_dqt_50:
  assumes fl: "fl_ok fl" and q: "qual e = 50"
  shows "jpec_enc_init_dqt fl e = Inr (e\<lparr>dqt := map int jpec_qzr\<rparr>)"
proof -
  let ?qf = "fl 50" and ?s = "fl (2 - fl (fl 50 / 50))"
  have a: "\<bar>?qf - 50\<bar> \<le> 51 / 1000000" using fl_err [OF fl, of 50] by simp
  then have b: "\<bar>?qf / 50 - 1\<bar> \<le> 2 / 1000000" by (simp add: field_simps abs_if split: if_splits)
  then have "\<bar>?qf / 50\<bar> \<le> 2" by linarith
  then have "\<bar>fl (?qf / 50) - ?qf / 50\<bar> \<le> 3 / 1000000" using fl_err [OF fl, of "?qf / 50"] by simp
  with b have c: "\<bar>fl (?qf / 50) - 1\<bar> \<le> 5 / 1000000" by linarith
  then have "\<bar>2 - fl (?qf / 50)\<bar> \<le> 2" by linarith
  then have "\<bar>?s - (2 - fl (?qf / 50))\<bar> \<le> 3 / 1000000"
    using fl_err [OF fl, of "2 - fl (?qf / 50)"] by simp
  with c have s: "\<bar>?s - 1\<bar> \<le> 8 / 1000000" by linarith
  have entry: "(let a = to_int (fl (of_nat k * ?s) + 1 / 2) in if a < 1 then 1 else if 255 < a then 255 else a)
      = int k" if k: "10 \<le> k" "k \<le> 121" for k
  proof -
    have k': "0 \<le> (of_nat k :: rat)" "(of_nat k :: rat) \<le> 121"
      using k by simp_all
    have "\<bar>of_nat k * ?s - of_nat k\<bar> = of_nat k * \<bar>?s - 1\<bar>"
    proof -
      have "of_nat k * ?s - of_nat k = of_nat k * (?s - 1)" by (simp only: right_diff_distrib mult_1_right)
      then show ?thesis by (simp only: abs_mult abs_of_nat)
    qed
    also have "\<dots> \<le> 121 * (8 / 1000000)" using s k' by (intro mult_mono) auto
    finally have d: "\<bar>of_nat k * ?s - of_nat k\<bar> \<le> 968 / 1000000" by simp
    then have "\<bar>of_nat k * ?s\<bar> \<le> 122" using k' by linarith
    then have "\<bar>fl (of_nat k * ?s) - of_nat k * ?s\<bar> \<le> 123 / 1000000"
      using fl_err [OF fl, of "of_nat k * ?s"] by simp
    with d have "\<bar>fl (of_nat k * ?s) - of_nat k\<bar> < 1 / 2" by linarith
    then have "to_int (fl (of_nat k * ?s) + 1 / 2) = int k" by (rule to_int_near)
    then show ?thesis using k by (simp add: Let_def)
  qed
  have "(let a = to_int (fl (of_nat (jpec_qzr ! i) * ?s) + 1 / 2) in
      if a < 1 then 1 else if 255 < a then 255 else a) = int (jpec_qzr ! i)" if "i < 64" for i
    by (rule entry) (use qzr_range that in \<open>auto simp: list_all_length table_lengths\<close>)
  then have "map (\<lambda>i. let a = to_int (fl (of_nat (jpec_qzr ! i) * ?s) + 1 / 2) in
      if a < 1 then 1 else if 255 < a then 255 else a) [0..<64] = map int jpec_qzr"
    by (intro nth_equalityI) (simp_all add: table_lengths)
  then show ?thesis using q by (simp add: jpec_enc_init_dqt_def Let_def)
qed

lemma quant_bound:
  assumes "fl_ok fl" and "dqt e = map int jpec_qzr" and "i < 64"
  shows "\<bar>jpec_enc_block_quant fl e (dct_of_pixels fl px) ! i\<bar> \<le> 300"
proof -
  let ?d = "dct_of_pixels fl px ! i" and ?q = "of_int (dqt e ! i) :: rat"
  have "10 \<le> jpec_qzr ! i" using qzr_range assms(3) by (auto simp: list_all_length table_lengths)
  then have q: "10 \<le> ?q" using assms by (simp add: table_lengths)
  have "\<bar>?d / ?q\<bar> \<le> 2093 / 10"
    unfolding abs_divide using dct_bound [OF assms(1,3), of px] q by (intro frac_le) auto
  then have "\<bar>fl (?d / ?q)\<bar> \<le> 2093 / 10 + 1" by (intro fl_bound [OF assms(1)]) auto
  then have "\<bar>fl (?d / ?q)\<bar> \<le> of_int 300" by (rule order_trans) simp
  then show ?thesis using assms(3) by (simp add: jpec_enc_block_quant_def to_int_abs)
qed

section \<open>Zig-zag\<close>

lemma jpec_zz_perm: "distinct jpec_zz" "list_all (\<lambda>i. i < 64) jpec_zz"
  by (simp_all add: jpec_zz_def)

lemma jpec_zz_less: "i < 64 \<Longrightarrow> jpec_zz ! i < 64"
  using jpec_zz_perm(2) by (simp add: list_all_length table_lengths)

lemma fold_last:
  "let l = fold (\<lambda>i l. if P i then i + 1 else l) [0..<n] 0 in
     l \<le> n \<and> (\<forall>i < n. l \<le> i \<longrightarrow> \<not> P i) \<and> (l \<noteq> 0 \<longrightarrow> P (l - 1))"
  by (induction n) (auto simp: Let_def less_Suc_eq)

lemma block_zz_ok:
  assumes "length q = 64" and "\<And>i. i < 64 \<Longrightarrow> \<bar>q ! i\<bar> \<le> 300" and "\<bar>prev\<bar> \<le> 300"
  shows "block_ok prev (jpec_enc_block_zz q)" and "\<bar>zz (jpec_enc_block_zz q) ! 0\<bar> \<le> 300"
proof -
  let ?b = "jpec_enc_block_zz q"
  have z: "length (zz ?b) = 64" "\<And>i. i < 64 \<Longrightarrow> \<bar>zz ?b ! i\<bar> \<le> 300"
    using assms jpec_zz_less by (simp_all add: jpec_enc_block_zz_def Let_def)
  then show z0: "\<bar>zz ?b ! 0\<bar> \<le> 300" by simp
  have len: "fold (\<lambda>i l. if zz ?b ! i \<noteq> 0 then i + 1 else l) [0..<64] 0 = blen ?b"
    by (simp only: jpec_enc_block_zz_def Let_def jpec_block_t.simps)
  note last = fold_last [of "\<lambda>i. zz ?b ! i \<noteq> 0" 64, unfolded Let_def len]
  have "ac_ok (tl (zz ?b))"
    unfolding ac_ok_def list_all_length
  proof (intro allI impI)
    fix n assume "n < length (tl (zz ?b))"
    then have "Suc n < 64" using z(1) by simp
    then show "\<bar>tl (zz ?b) ! n\<bar> < 1024" using z(2) [of "Suc n"] z(1) by (simp add: nth_tl)
  qed
  moreover have "\<bar>zz ?b ! 0 - prev\<bar> < 2048" using z0 assms(3) by linarith
  ultimately show "block_ok prev ?b"
    using z last by (auto simp: block_ok_def)
qed

section \<open>The blocks\<close>

text \<open>
  The dimensions of an accepted picture, and what the loop of \<^verbatim>\<open>jpec_enc_run\<close> does with the
  block number \<open>k\<close>.
\<close>

definition enc_dims :: "jpec_enc_t \<Rightarrow> bool" where
  "enc_dims e \<longleftrightarrow> 0 < w e \<and> w e mod 8 = 0 \<and> w e < 2 ^ 16 \<and> 0 < h e \<and> h e mod 8 = 0 \<and> h e < 2 ^ 16 \<and>
     w8 e = w e \<and> bmax e = int (w e div 8 * (h e div 8)) \<and> length (img e) = w e * h e"

definition at_block :: "nat \<Rightarrow> jpec_enc_t \<Rightarrow> jpec_enc_t" where
  "at_block k e = e\<lparr>bnum := int k, bx := 8 * (k mod (w e div 8)), bY := 8 * (k div (w e div 8))\<rparr>"

definition pixels_of :: "jpec_enc_t \<Rightarrow> u8 list" where
  "pixels_of e = map (\<lambda>i. img e ! ((bY e + i div 8) * w e + (bx e + i mod 8))) [0..<64]"

definition encoded_block :: "(rat \<Rightarrow> rat) \<Rightarrow> jpec_enc_t \<Rightarrow> nat \<Rightarrow> jpec_block_t" where
  "encoded_block fl e k =
     jpec_enc_block_zz (jpec_enc_block_quant fl e (dct_of_pixels fl (pixels_of (at_block k e))))"

lemma block_number:
  "enc_dims e \<Longrightarrow> int k < bmax e \<Longrightarrow> k < w e div 8 * (h e div 8)"
  by (simp only: enc_dims_def of_nat_less_iff)

lemma next_block_at:
  assumes "enc_dims e" and "bnum e = int k - 1" and "int k < bmax e"
  shows "jpec_enc_next_block e = (True, at_block k e)"
proof -
  have w: "w8 e = w e" "w e = 8 * (w e div 8)" "0 < w e" "w e < 2 ^ 16"
    using assms(1) by (auto simp: enc_dims_def)
  let ?m = "w e div 8"
  have m: "0 < ?m" using w by simp
  have k: "k < ?m * (h e div 8)" by (rule block_number [OF assms(1,3)])
  have x: "nat (int k * 8 mod int (w8 e)) = 8 * (k mod ?m)"
  proof -
    have "int k * 8 mod int (w8 e) = int (8 * k mod (8 * ?m))" using w by (simp add: zmod_int mult.commute)
    then show ?thesis by (simp add: mult_mod_right [symmetric] del: of_nat_mod)
  qed
  have y: "nat (int k * 8 div int (w8 e) * 8) = 8 * (k div ?m)"
  proof -
    have "int k * 8 div int (w8 e) = int (8 * k div (8 * ?m))" using w by (simp add: zdiv_int mult.commute)
    then show ?thesis by (simp del: of_nat_div)
  qed
  have "k mod ?m < ?m" using m by simp
  then have "8 * (k mod ?m) < w e" using w(2) by linarith
  then have xb: "8 * (k mod ?m) < 2 ^ 16" using w(4) by linarith
  have "k div ?m < h e div 8" using k m by (simp add: less_mult_imp_div_less mult.commute)
  then have "8 * (k div ?m) < h e" by linarith
  then have yb: "8 * (k div ?m) < 2 ^ 16" using assms(1) by (simp add: enc_dims_def)
  show ?thesis
    using assms(2,3) x y xb yb
    by (simp add: jpec_enc_next_block_def at_block_def Let_def del: of_nat_mod of_nat_div)
qed

lemma block_pixels:
  assumes "enc_dims e" and "int k < bmax e"
  shows "mapR (\<lambda>i. jpec_block_pixel (at_block k e) (i mod 8) (i div 8)) [0..<64]
    = Inr (pixels_of (at_block k e))"
  unfolding pixels_of_def
proof (rule mapR_Inr)
  fix i assume "i \<in> set [0..<64 :: nat]"
  then have i: "i < 64" by simp
  let ?m = "w e div 8" and ?e = "at_block k e"
  have w: "w e = 8 * ?m" "0 < ?m" and h: "h e = 8 * (h e div 8)"
    and len: "length (img e) = w e * h e"
    using assms by (auto simp: enc_dims_def)
  have k: "k < ?m * (h e div 8)" by (rule block_number [OF assms])
  have c: "k mod ?m < ?m" using w by simp
  have r: "k div ?m < h e div 8" using k w by (simp add: less_mult_imp_div_less mult.commute)
  have "i mod 8 < 8" "i div 8 < 8" using i by simp_all
  then have x: "8 * (k mod ?m) + i mod 8 < w e" and y: "8 * (k div ?m) + i div 8 < h e"
    using c r w h by linarith+
  have "(8 * (k div ?m) + i div 8) * w e + (8 * (k mod ?m) + i mod 8) < Suc (8 * (k div ?m) + i div 8) * w e"
    using x by simp
  also have "\<dots> \<le> h e * w e" using y by (intro mult_le_mono1) simp
  finally have "(8 * (k div ?m) + i div 8) * w e + (8 * (k mod ?m) + i mod 8) < length (img e)"
    using len by (simp add: mult.commute)
  with x y show "jpec_block_pixel ?e (i mod 8) (i div 8)
      = Inr (img ?e ! ((bY ?e + i div 8) * w ?e + (bx ?e + i mod 8)))"
    by (simp add: jpec_block_pixel_def at_block_def rd_def)
qed

lemma encoded_block_cong:
  "img e' = img e \<Longrightarrow> w e' = w e \<Longrightarrow> dqt e' = dqt e \<Longrightarrow> encoded_block fl e' k = encoded_block fl e k"
  by (simp add: encoded_block_def at_block_def pixels_of_def jpec_enc_block_quant_def)

text \<open>The loop hands the blocks to the entropy coder in order.\<close>

lemma enc_loop_blocks:
  assumes "enc_dims e" and "bnum e = int k - 1" and "bmax e = int n" and "k \<le> n"
  shows "case foldR jpec_huff_encode_block (map (encoded_block fl e) [k..<n]) (hskel e, buf e) of
      Inl f \<Rightarrow> enc_loop fl e = Inl f
    | Inr (s, b) \<Rightarrow> \<exists>e'. enc_loop fl e = Inr e' \<and> hskel e' = s \<and> buf e' = b"
  using assms
proof (induction "n - k" arbitrary: k e)
  case 0
  then show ?case
    by (subst enc_loop.simps, subst enc_loop.simps) (simp add: jpec_enc_next_block_def Let_def)
next
  case (Suc d)
  then have k: "k < n" and kb: "int k < bmax e" by auto
  let ?e = "at_block k e" and ?blk = "encoded_block fl e k"
  have dct: "jpec_enc_block_dct fl ?e = Inr (dct_of_pixels fl (pixels_of ?e))"
    using block_pixels [OF Suc.prems(1) kb] by (simp add: jpec_enc_block_dct_def at_block_def)
  have blk: "jpec_enc_block_zz (jpec_enc_block_quant fl ?e (dct_of_pixels fl (pixels_of ?e))) = ?blk"
    by (simp add: encoded_block_def jpec_enc_block_quant_def at_block_def)
  have same: "hskel ?e = hskel e" "buf ?e = buf e" by (simp_all add: at_block_def)
  have step: "enc_loop fl e = bindR (jpec_huff_encode_block ?blk (hskel e, buf e)) (\<lambda>(s, b).
      enc_loop fl (?e\<lparr>block := ?blk, hskel := s, buf := b\<rparr>))"
    by (subst enc_loop.simps)
      (simp add: next_block_at [OF Suc.prems(1,2) kb] dct blk same Let_def)
  have up: "[k..<n] = k # [Suc k..<n]" using k by (simp add: upt_conv_Cons)
  show ?case
  proof (cases "jpec_huff_encode_block ?blk (hskel e, buf e)")
    case (Inl f)
    then show ?thesis unfolding up step by simp
  next
    case (Inr sb)
    obtain s b where sb: "sb = (s, b)" by (cases sb)
    let ?u = "?e\<lparr>block := ?blk, hskel := s, buf := b\<rparr>"
    have "encoded_block fl ?u = encoded_block fl e"
      by (rule ext, rule encoded_block_cong) (simp_all add: at_block_def)
    note eq = this
    have ih: "case foldR jpec_huff_encode_block (map (encoded_block fl ?u) [Suc k..<n]) (hskel ?u, buf ?u) of
        Inl f \<Rightarrow> enc_loop fl ?u = Inl f
      | Inr (s, b) \<Rightarrow> \<exists>e'. enc_loop fl ?u = Inr e' \<and> hskel e' = s \<and> buf e' = b"
      by (rule Suc.hyps(1)) (use Suc.prems Suc.hyps(2) k in \<open>auto simp: at_block_def enc_dims_def\<close>)
    show ?thesis using ih [unfolded eq]
      unfolding up step list.map foldR.simps Inr sb bindR.simps split by simp
  qed
qed

lemma encoded_blocks_ok:
  assumes "fl_ok fl" and "dqt e = map int jpec_qzr"
  shows "\<bar>prev\<bar> \<le> 300 \<Longrightarrow> blocks_ok prev (map (encoded_block fl e) ks)"
proof (induction ks arbitrary: prev)
  case (Cons k ks)
  let ?q = "jpec_enc_block_quant fl e (dct_of_pixels fl (pixels_of (at_block k e)))"
  have "length ?q = 64" by (simp add: jpec_enc_block_quant_def)
  from block_zz_ok [OF this quant_bound [OF assms] Cons.prems]
  show ?case using Cons.IH by (simp add: encoded_block_def)
qed simp

section \<open>Properties\<close>

lemma new_fields:
  assumes "jpec_enc_new im wd ht = Inr e" and "length im = unat wd * unat ht"
  shows "enc_dims e" "qual e = 50" "bnum e = -1" "w e = unat wd" "h e = unat ht" "img e = im"
    "buffer_ok (buf e)" "written (buf e) = []"
proof -
  have and7: "unat x mod 8 = 0" if "x AND 7 = 0" for x :: u16
  proof -
    have "take_bit 3 x = 0" using that by (simp add: take_bit_eq_mask mask_eq_exp_minus_1)
    then have "take_bit 3 (unat x) = 0" by (metis unsigned_0 unsigned_take_bit_eq)
    then show ?thesis by (simp add: take_bit_eq_mod)
  qed
  have lt: "unat x < 2 ^ 16" for x :: u16 using unsigned_less [of x] by simp
  have c: "0 < wd" "wd AND 7 = 0" "0 < ht" "ht AND 7 = 0"
    using assms(1) by (auto simp: jpec_enc_new_def jpec_enc_new2_def split: if_splits)
  have m: "unat wd mod 8 = 0" "unat ht mod 8 = 0" using c and7 by blast+
  have p: "0 < unat wd" "0 < unat ht" using c by (simp_all add: word_less_nat_alt)
  have r: "(n - 1) div 8 + 1 = n div 8" if "0 < n" "n mod 8 = 0" for n :: nat
  proof -
    have n: "n = 8 * (n div 8)" using that(2) mult_div_mod_eq [of 8 n] by linarith
    then have "n div 8 \<noteq> 0" using that(1) by linarith
    then obtain j where j: "n div 8 = Suc j" by (cases "n div 8") auto
    have "(n - 1) div 8 = (8 * Suc j - 1) div 8" using n j by simp
    also have "\<dots> = j" by simp
    finally show ?thesis using j by simp
  qed
  have r': "(unat wd - 1) div 8 + 1 = unat wd div 8" "(unat ht - 1) div 8 + 1 = unat ht div 8"
    by (rule r [OF p(1) m(1)], rule r [OF p(2) m(2)])
  have "unat wd div 8 * 8 = unat wd" using m(1) div_mult_mod_eq [of "unat wd" 8] by linarith
  then have s: "(unat wd div 8 * 8) mod 2 ^ 16 = unat wd" by (simp only: mod_less [OF lt])
  let ?r = "\<lparr>img = im, w = unat wd, h = unat ht, w8 = unat wd,
      buf = jpec_buffer_new2 (JPEC_ENC_HEAD_SIZ + int (unat wd div 8 * (unat ht div 8)) * JPEC_ENC_BLOCK_SIZ),
      qual = 50, dqt = [], bmax = int (unat wd div 8 * (unat ht div 8)), bnum = -1,
      bx = 2 ^ 16 - 1, bY = 2 ^ 16 - 1, block = \<lparr>zz = [], blen = 0\<rparr>, hskel = jpec_huff_new\<rparr>"
  have "Inr e = (Inr ?r :: jpec_enc_t result)"
    unfolding assms(1) [symmetric] jpec_enc_new_def jpec_enc_new2_def Let_def r' s JPEG_ENC_DEF_QUAL_def
    using c by (simp only: simp_thms if_False)
  then have e: "e = ?r" by (simp only: sum.inject)
  show "enc_dims e"
    using m p lt [of wd] lt [of ht] assms(2) unfolding e enc_dims_def by simp
  show "qual e = 50" "bnum e = -1" "w e = unat wd" "h e = unat ht" "img e = im"
    "buffer_ok (buf e)" "written (buf e) = []"
    unfolding e by (simp_all add: buffer_ok_new)
qed

text \<open>The bytes of the file, in terms of the blocks.\<close>

definition picture_blocks :: "(rat \<Rightarrow> rat) \<Rightarrow> jpec_enc_t \<Rightarrow> jpec_block_t list" where
  "picture_blocks fl e = map (encoded_block fl (e\<lparr>dqt := map int jpec_qzr\<rparr>)) [0..<w e div 8 * (h e div 8)]"

lemma run_bytes:
  assumes "fl_ok fl" and "jpec_enc_new im wd ht = Inr e" and "length im = unat wd * unat ht"
  shows "blocks_ok 0 (picture_blocks fl e)" and "\<exists>e'. jpec_enc_run fl e = Inr e' \<and> buffer_ok (buf e') \<and>
    written (buf e') = jpeg_header (unat wd) (unat ht) (map int jpec_qzr)
      @ scan_bytes (blocks_bits 0 (picture_blocks fl e)) @ [0xFF, 0xD9]"
proof -
  note f = new_fields [OF assms(2,3)]
  let ?n = "unat wd div 8 * (unat ht div 8)"
  let ?e0 = "e\<lparr>hskel := jpec_huff_new, dqt := map int jpec_qzr\<rparr>"
  let ?e1 = "write_header ?e0"
  have "buffer_ok (buf ?e0)" using f by simp
  note wh = write_header_spec [OF this]
  have open': "jpec_enc_open fl e = Inr ?e1"
    using init_dqt_50 [OF assms(1), of "e\<lparr>hskel := jpec_huff_new\<rparr>"] f(2)
    by (simp add: jpec_enc_open_def write_header_def)
  have e1: "hskel ?e1 = jpec_huff_new" "img ?e1 = img e" "w ?e1 = w e" "dqt ?e1 = map int jpec_qzr"
    "bnum ?e1 = -1" "bmax ?e1 = int ?n" "enc_dims ?e1"
    by (subst wh(3), use f in \<open>simp add: enc_dims_def\<close>)+
  have hdr: "written (buf ?e1) = jpeg_header (unat wd) (unat ht) (map int jpec_qzr)"
    using wh(2) f by simp
  let ?e2 = "e\<lparr>dqt := map int jpec_qzr\<rparr>"
  let ?bs = "map (encoded_block fl ?e2) [0..<?n]"
  have bs: "picture_blocks fl e = ?bs" using f(4,5) by (simp add: picture_blocks_def)
  have e12: "encoded_block fl ?e1 = encoded_block fl ?e2"
    using e1 by (intro ext encoded_block_cong) simp_all
  have n: "0 < ?n" using f(1,4,5) by (auto simp: enc_dims_def)
  have ok: "blocks_ok 0 ?bs" by (rule encoded_blocks_ok [OF assms(1)]) simp_all
  then show "blocks_ok 0 (picture_blocks fl e)" by (simp add: bs)
  obtain d where d: "bindR (foldR jpec_huff_encode_block ?bs (jpec_huff_new, buf ?e1)) jpec_huff_del = Inr d"
    "written (snd d) = written (buf ?e1) @ scan_bytes (blocks_bits 0 ?bs)" "buffer_ok (snd d)"
    using scan_encoded [OF wh(1) _ ok] n by auto
  then obtain s b where fold: "foldR jpec_huff_encode_block ?bs (jpec_huff_new, buf ?e1) = Inr (s, b)"
    and del: "jpec_huff_del (s, b) = Inr d"
    by (auto simp: bindR_eq_Inr_iff)
  obtain e' where loop: "enc_loop fl ?e1 = Inr e'" "hskel e' = s" "buf e' = b"
    using enc_loop_blocks [OF e1(7) _ e1(6), of 0 fl, unfolded e12] e1(1,5) fold by auto
  let ?e' = "on_buf [w2 0xFFD9] (e'\<lparr>hskel := fst d, buf := snd d\<rparr>)"
  have "jpec_enc_run fl e = Inr ?e'"
    using open' loop del by (simp add: jpec_enc_run_def jpec_enc_close_def split_beta)
  moreover have "emits [w2 0xFFD9] [0xFF, 0xD9]"
  proof -
    have "be16 (of_nat 0xFFD9) = [0xFF, 0xD9]" by (simp add: be16_def)
    with emits_w2 [OF emits_Nil, of "0xFFD9"] show ?thesis by (simp only: append_Nil2)
  qed
  then have "written (buf ?e') = written (snd d) @ [0xFF, 0xD9]" "buffer_ok (buf ?e')"
    using on_buf_emits(1,2) [of "[w2 0xFFD9]" _ "e'\<lparr>hskel := fst d, buf := snd d\<rparr>"] d(3) by simp_all
  ultimately show "\<exists>e'. jpec_enc_run fl e = Inr e' \<and> buffer_ok (buf e') \<and>
      written (buf e') = jpeg_header (unat wd) (unat ht) (map int jpec_qzr)
        @ scan_bytes (blocks_bits 0 (picture_blocks fl e)) @ [0xFF, 0xD9]"
    using d(2) hdr by (intro exI [of _ ?e']) (simp add: bs)
qed

text \<open>C1: the encoder always produces a readable picture. For every picture of the expected size,
  whatever its pixels, encoding at the default quality never fails an assertion and never leaves
  a table or buffer; the file is the header in well-formed marker segments, the scan and the end
  marker, and the scan decodes, by the decoder of the standard, to exactly the quantised
  coefficients of each 8x8 block in zig-zag order, the blocks being taken row by row.\<close>

theorem jpec_encodes_any_picture:
  assumes "fl_ok fl" and "jpec_enc_new im wd ht = Inr e" and "length im = unat wd * unat ht"
  shows "\<exists>e' scan p. jpec_enc_run fl e = Inr e' \<and>
    written (buf e') = jpeg_header (unat wd) (unat ht) (map int jpec_qzr) @ scan @ [0xFF, 0xD9] \<and>
    p < 8 \<and>
    dec_blocks (unat wd div 8 * (unat ht div 8)) 0 (bits_of_bytes (unstuff scan)) =
      Some (map (\<lambda>k. zz (encoded_block fl (e\<lparr>dqt := map int jpec_qzr\<rparr>) k))
              [0..<unat wd div 8 * (unat ht div 8)], replicate p True)"
proof -
  let ?bs = "picture_blocks fl e"
  obtain p where "p < 8" "bits_of_bytes (unstuff (scan_bytes (blocks_bits 0 ?bs))) = blocks_bits 0 ?bs @ replicate p True"
    using scan_bits by blast
  then show ?thesis
    using run_bytes(2) [OF assms] dec_blocks_bits [OF run_bytes(1) [OF assms], of "replicate p True"]
      new_fields(4,5) [OF assms(2,3)]
    by (auto simp: picture_blocks_def comp_def)
qed

theorem jpec_encodes_any_picture_witness:
  "\<exists>e e'. jpec_enc_new (replicate 64 0) 8 8 = Inr e \<and> jpec_enc_run (\<lambda>x. x) e = Inr e'"
proof -
  have "fl_ok (\<lambda>x. x)" by (simp add: fl_ok_def)
  moreover obtain e where e: "jpec_enc_new (replicate 64 0) 8 8 = Inr e"
    by (simp add: jpec_enc_new_def jpec_enc_new2_def Let_def)
  ultimately obtain e' where "jpec_enc_run (\<lambda>x. x) e = Inr e'"
    using jpec_encodes_any_picture [of "\<lambda>x. x" "replicate 64 0" 8 8 e] by auto
  with e show ?thesis by blast
qed

end
