(* ===== verification/Compress.thy ===== *)
theory Compress
  imports Jpec_Run Base64
begin

unbundle bit_operations_syntax

text \<open>
  \<^verbatim>\<open>compress_and_send_photo\<close>: the picture is compressed by the encoder of the JPEG library and the
  text of its Base64 encoding is written over the picture itself. What comes out depends on the
  size of the file alone, which is bounded here.
\<close>

definition compress_picture :: "(rat \<Rightarrow> rat) \<Rightarrow> u8 list \<Rightarrow> (u8 list \<times> u32) result" where
  "compress_picture fl bitmap =
     bindR (jpec_enc_new bitmap 320 240) (\<lambda>e.
     bindR (jpec_enc_run fl e) (\<lambda>e1.
     encode_base64 bitmap (320 * 240) (written (buf e1)) (of_nat (len (buf e1)))))"

section \<open>The size of the file\<close>

lemma code_lengths: "length jpec_ac_len = 256" "list_all (\<lambda>l. l \<le> 16) jpec_ac_len" "jpec_ac_len ! 0xF0 = 11"
  "length jpec_dc_len = 12" "list_all (\<lambda>l. l \<le> 16) jpec_dc_len"
  by code_simp+

lemma length_symbol_bits: "length (symbol_bits code lens j v) = lens ! j + bit_len (magnitude v)"
  by (simp add: symbol_bits_def)

lemma length_zrl: "length (zrl_bits nz) \<le> nz"
proof (induction nz rule: zrl_bits.induct)
  case (1 nz)
  then show ?case by (subst zrl_bits.simps) (auto simp: length_symbol_bits code_lengths magnitude_def)
qed

lemma ac_len_le: "j < 256 \<Longrightarrow> jpec_ac_len ! j \<le> 16"
  using code_lengths(1,2) by (auto simp: list_all_length)

lemma length_ac_bits: "ac_ok vs \<Longrightarrow> length (ac_bits vs nz) \<le> nz + 27 * length vs"
proof (induction vs arbitrary: nz)
  case (Cons v vs)
  then have ok: "ac_ok vs" by (simp add: ac_ok_def)
  show ?case
  proof (cases "v = 0")
    case True
    then show ?thesis using Cons.IH [OF ok, of "nz + 1"] by simp
  next
    case False
    then have b: "bit_len (magnitude v) \<le> 10" using ac_coeff_symbol(2) [of v] Cons.prems by (simp add: ac_ok_def)
    moreover have "nz mod 16 < 16" by simp
    ultimately have "16 * (nz mod 16) + bit_len (magnitude v) < 256" by linarith
    then have "jpec_ac_len ! (16 * (nz mod 16) + bit_len (magnitude v)) \<le> 16" by (rule ac_len_le)
    then show ?thesis using False b length_zrl [of nz] Cons.IH [OF ok, of 0] by (simp add: length_symbol_bits)
  qed
qed simp

lemma length_block_bits:
  assumes "block_ok prev b"
  shows "length (block_bits prev b) \<le> 2000"
proof -
  define dv where "dv = zz b ! 0 - prev"
  have "\<bar>dv\<bar> < 2048" using assms by (simp add: block_ok_def dv_def)
  then have "magnitude dv < 2 ^ 11" by (simp add: magnitude_def)
  then have m: "bit_len (magnitude dv) \<le> 11" by (rule bit_len_le)
  then have "jpec_dc_len ! bit_len (magnitude dv) \<le> 16" using code_lengths(4,5) by (auto simp: list_all_length)
  moreover have "ac_ok (drop 1 (take (blen b) (zz b)))"
    using assms by (auto simp: block_ok_def ac_ok_def list_all_iff drop_Suc tl_take dest: in_set_takeD)
  then have "length (ac_bits (drop 1 (take (blen b) (zz b))) 0) \<le> 27 * 64"
    by (rule order_trans [OF length_ac_bits]) (use assms in \<open>auto simp: block_ok_def\<close>)
  moreover have "jpec_ac_len ! 0 \<le> 16" by (simp add: ac_len_le)
  ultimately show ?thesis
    using m unfolding block_bits_def block_dc [OF assms] Let_def dv_def [symmetric]
    by (simp add: length_symbol_bits magnitude_def [of 0])
qed

lemma length_blocks_bits: "blocks_ok prev bs \<Longrightarrow> length (blocks_bits prev bs) \<le> 2000 * length bs"
proof (induction bs arbitrary: prev)
  case (Cons b bs)
  then have "length (block_bits prev b) \<le> 2000" "length (blocks_bits (zz b ! 0) bs) \<le> 2000 * length bs"
    using length_block_bits by simp_all
  then show ?case by simp
qed simp

lemma length_stuff: "length (stuff bs) \<le> 2 * length bs"
  by (induction bs) (simp_all add: stuff_def)

lemma length_scan: "4 * length (scan_bytes T) \<le> length T + 7"
proof -
  have "length (scan_bytes T) \<le> 2 * ((length T + 7) div 8)"
    using length_stuff [of "whole_bytes (T @ replicate 7 True)"] by (simp add: scan_bytes_def whole_bytes_def)
  then show ?thesis by presburger
qed

lemma length_header: "length (jpeg_header wd ht q) \<le> 1000"
proof -
  have "length jpec_dc_nodes = 17" "length jpec_dc_vals = 12" "length jpec_ac_nodes = 17" "length jpec_ac_vals = 162"
    by code_simp+
  then show ?thesis by (simp add: jpeg_header_def segment_def bytes_def be16_def)
qed

text \<open>The file of a picture of the camera, and its size.\<close>

lemma new_picture: "\<exists>e. jpec_enc_new bitmap 320 240 = Inr e"
  by (simp add: jpec_enc_new_def jpec_enc_new2_def Let_def)

lemma picture_file:
  assumes "fl_ok fl" and "jpec_enc_new bitmap 320 240 = Inr e" and "length bitmap = 320 * 240"
  shows "length (picture_blocks fl e) = 1200" and "\<exists>e1. jpec_enc_run fl e = Inr e1 \<and> length (written (buf e1)) = len (buf e1) \<and>
    len (buf e1) \<le> 1002 + length (scan_bytes (blocks_bits 0 (picture_blocks fl e))) \<and> len (buf e1) + 2 < 2 ^ 30"
proof -
  have l: "length bitmap = unat (320 :: u16) * unat (240 :: u16)" using assms(3) by simp
  show n: "length (picture_blocks fl e) = 1200"
    using new_fields(4,5) [OF assms(2) l] by (simp add: picture_blocks_def)
  obtain e1 where e1: "jpec_enc_run fl e = Inr e1" "buffer_ok (buf e1)"
    "written (buf e1) = jpeg_header (unat (320 :: u16)) (unat (240 :: u16)) (map int jpec_qzr)
      @ scan_bytes (blocks_bits 0 (picture_blocks fl e)) @ [0xFF, 0xD9]"
    using run_bytes(2) [OF assms(1,2) l] by blast
  have w: "length (written (buf e1)) = len (buf e1)"
    using e1(2) by (auto simp: buffer_ok_def written_def split: option.splits)
  moreover have s: "len (buf e1) \<le> 1002 + length (scan_bytes (blocks_bits 0 (picture_blocks fl e)))"
    using length_header [of "unat (320 :: u16)" "unat (240 :: u16)" "map int jpec_qzr"] w [symmetric] by (simp add: e1(3))
  moreover have "length (blocks_bits 0 (picture_blocks fl e)) \<le> 2000 * 1200"
    using length_blocks_bits [OF run_bytes(1) [OF assms(1,2) l]] n by simp
  then have "4 * length (scan_bytes (blocks_bits 0 (picture_blocks fl e))) \<le> 2000 * 1200 + 7"
    using length_scan [of "blocks_bits 0 (picture_blocks fl e)"] by linarith
  then have "len (buf e1) + 2 < 2 ^ 30" using s by simp
  ultimately show "\<exists>e1. jpec_enc_run fl e = Inr e1 \<and> length (written (buf e1)) = len (buf e1) \<and>
    len (buf e1) \<le> 1002 + length (scan_bytes (blocks_bits 0 (picture_blocks fl e))) \<and> len (buf e1) + 2 < 2 ^ 30"
    using e1(1) by blast
qed

section \<open>The compressed picture\<close>

lemma compress_cases:
  assumes "jpec_enc_new bitmap 320 240 = Inr e" and "jpec_enc_run fl e = Inr e1" and "length bitmap = 320 * 240"
    and "length (written (buf e1)) = len (buf e1)" and "len (buf e1) + 2 < 2 ^ 30"
  shows "compress_picture fl bitmap =
    (if len (buf e1) \<le> 57600
     then Inr (b64_text (written (buf e1)) @ drop (b64_size (len (buf e1))) bitmap, of_nat (b64_size (len (buf e1))))
     else Inl Out_Of_Bounds)"
proof -
  have "b64_size n \<le> 76800 \<longleftrightarrow> (n + 2) div 3 \<le> 19200" for n unfolding b64_size_def by linarith
  moreover have "(n + 2) div 3 \<le> 19200 \<longleftrightarrow> n \<le> 57600" for n :: nat by linarith
  ultimately have size: "b64_size (len (buf e1)) \<le> 76800 \<longleftrightarrow> len (buf e1) \<le> 57600" by simp
  have call: "compress_picture fl bitmap =
      encode_base64 bitmap (320 * 240) (written (buf e1)) (of_nat (len (buf e1)))"
    by (simp only: compress_picture_def assms(1,2) bindR.simps)
  have whole: "take (len (buf e1)) (written (buf e1)) = written (buf e1)" "length bitmap = 76800"
    using assms(3,4) by simp_all
  have "len (buf e1) \<le> length (written (buf e1))" using assms(4) by simp
  from encode_base64_eq [OF assms(5) this, of bitmap "320 * 240", unfolded whole] show ?thesis
    unfolding call using size length_b64_text [of "written (buf e1)"] assms(4) by (simp add: write_bytes_def whole)
qed

lemma compress_result:
  assumes "fl_ok fl" and "length bitmap = 320 * 240"
  obtains e e1 where "jpec_enc_new bitmap 320 240 = Inr e" "jpec_enc_run fl e = Inr e1"
    "length (written (buf e1)) = len (buf e1)" "len (buf e1) + 2 < 2 ^ 30"
    "compress_picture fl bitmap =
      (if len (buf e1) \<le> 57600
       then Inr (b64_text (written (buf e1)) @ drop (b64_size (len (buf e1))) bitmap, of_nat (b64_size (len (buf e1))))
       else Inl Out_Of_Bounds)"
    "len (buf e1) \<le> 57600 \<Longrightarrow> length (b64_text (written (buf e1))) = b64_size (len (buf e1))"
    "len (buf e1) \<le> 57600 \<Longrightarrow> b64_size (len (buf e1)) \<le> 320 * 240"
proof -
  obtain e where e: "jpec_enc_new bitmap 320 240 = Inr e" using new_picture by blast
  obtain e1 where e1: "jpec_enc_run fl e = Inr e1" "length (written (buf e1)) = len (buf e1)" "len (buf e1) + 2 < 2 ^ 30"
    using picture_file(2) [OF assms(1) e assms(2)] by blast
  note c = compress_cases [OF e e1(1) assms(2) e1(2,3)]
  have "b64_size (len (buf e1)) \<le> 320 * 240" if "len (buf e1) \<le> 57600" using that unfolding b64_size_def by simp
  moreover have "length (b64_text (written (buf e1))) = b64_size (len (buf e1))"
    using length_b64_text [of "written (buf e1)"] e1(2) by simp
  ultimately show ?thesis using that [OF e e1 c] by blast
qed

text \<open>C7: The picture of the door goes out readable. Whatever the camera stored, the encoder finishes;
  when its file has at most 57600 bytes, the Base64 text that replaces the picture fits the array of
  the picture, and reading it back gives the very file; a longer file is written past the end of
  the array.\<close>

theorem picture_becomes_text:
  assumes "fl_ok fl" and "length bitmap = 320 * 240"
  shows "\<exists>e e1. jpec_enc_new bitmap 320 240 = Inr e \<and> jpec_enc_run fl e = Inr e1 \<and>
    (if length (written (buf e1)) \<le> 57600
     then \<exists>out n. compress_picture fl bitmap = Inr (out, n) \<and> length out = 320 * 240 \<and> unat n \<le> 320 * 240 \<and>
       b64_read (take (unat n) out) = written (buf e1)
     else compress_picture fl bitmap = Inl Out_Of_Bounds)"
proof (rule compress_result [OF assms])
  fix e e1
  assume e: "jpec_enc_new bitmap 320 240 = Inr e" "jpec_enc_run fl e = Inr e1" and w: "length (written (buf e1)) = len (buf e1)"
    and n: "len (buf e1) + 2 < 2 ^ 30"
    and c: "compress_picture fl bitmap = (if len (buf e1) \<le> 57600
       then Inr (b64_text (written (buf e1)) @ drop (b64_size (len (buf e1))) bitmap, of_nat (b64_size (len (buf e1))))
       else Inl Out_Of_Bounds)"
    and l: "len (buf e1) \<le> 57600 \<Longrightarrow> length (b64_text (written (buf e1))) = b64_size (len (buf e1))"
      "len (buf e1) \<le> 57600 \<Longrightarrow> b64_size (len (buf e1)) \<le> 320 * 240"
  show ?thesis
    using e w c l assms(2) by (auto simp: encode_lengths(4) [OF n] b64_read_text)
qed

text \<open>A picture that is grey all over: nothing but zeros to encode, six bits for a block.\<close>

lemma flat_dct:
  assumes "px = replicate 64 128"
  shows "dct_of_pixels (\<lambda>x. x) px = replicate 64 0"
proof -
  have pass: "dct_pass (\<lambda>x. x) (\<lambda>i. 0) (\<lambda>i. 0) = replicate 8 0" by (simp add: dct_pass_def numeral_eq_Suc)
  have n: "px ! k = 128" if "k < 64" for k using that by (simp add: assms)
  have row: "dct_row (\<lambda>x. x) px r = replicate 8 0" if "r < 8" for r
  proof -
    have "dct_row (\<lambda>x. x) px r = dct_pass (\<lambda>x. x) (\<lambda>i. 0) (\<lambda>i. 0)"
      unfolding dct_row_def Let_def dct_pass_def using that by (simp add: n)
    then show ?thesis using pass by simp
  qed
  have "map (dct_row (\<lambda>x. x) px) [0..<8] = replicate 8 (replicate 8 0)"
    by (rule nth_equalityI) (simp_all add: row)
  then have tmp: "concat (map (dct_row (\<lambda>x. x) px) [0..<8]) = replicate 64 0" by (simp add: numeral_eq_Suc)
  have col: "dct_col (\<lambda>x. x) (replicate 64 0) c = replicate 8 0" if "c < 8" for c
  proof -
    have "dct_col (\<lambda>x. x) (replicate 64 0) c = dct_pass (\<lambda>x. x) (\<lambda>i. 0) (\<lambda>i. 0)"
      unfolding dct_col_def Let_def dct_pass_def using that by simp
    then show ?thesis using pass by simp
  qed
  show ?thesis unfolding dct_of_pixels_def Let_def tmp
    by (rule nth_equalityI) (auto simp: col)
qed

lemma pixels_in_picture:
  assumes "enc_dims e" and "int k < bmax e"
  shows "length (pixels_of (at_block k e)) = 64" and "set (pixels_of (at_block k e)) \<subseteq> set (img e)"
proof -
  note m = block_pixels [OF assms]
  show l: "length (pixels_of (at_block k e)) = 64" by (simp add: pixels_of_def)
  show "set (pixels_of (at_block k e)) \<subseteq> set (img e)"
  proof
    fix x
    assume "x \<in> set (pixels_of (at_block k e))"
    then obtain i where i: "i < 64" "x = pixels_of (at_block k e) ! i" using l by (metis in_set_conv_nth)
    have "jpec_block_pixel (at_block k e) ([0..<64] ! i mod 8) ([0..<64] ! i div 8) = Inr x"
      using mapR_nth(2) [OF m, of i] i by simp
    then show "x \<in> set (img e)"
      by (auto simp: jpec_block_pixel_def at_block_def rd_def split: if_splits)
  qed
qed

definition grey :: "u8 list" where
  "grey = replicate (320 * 240) 128"

lemma grey_blocks:
  assumes "jpec_enc_new grey 320 240 = Inr e"
  shows "picture_blocks (\<lambda>x. x) e = replicate 1200 \<lparr>zz = replicate 64 0, blen = 0\<rparr>"
proof -
  have l: "length grey = unat (320 :: u16) * unat (240 :: u16)" by (simp add: grey_def)
  note f = new_fields [OF assms l]
  have "encoded_block (\<lambda>x. x) (e\<lparr>dqt := map int jpec_qzr\<rparr>) k = \<lparr>zz = replicate 64 0, blen = 0\<rparr>" if "k < 1200" for k
  proof -
    let ?e = "e\<lparr>dqt := map int jpec_qzr\<rparr>"
    have "enc_dims ?e" "int k < bmax ?e" using f(1,4,5) that by (simp_all add: enc_dims_def)
    note px = pixels_in_picture [OF this]
    have "set (pixels_of (at_block k ?e)) \<subseteq> {128}" using px(2) f(6) by (auto simp: grey_def)
    then have "pixels_of (at_block k ?e) = replicate 64 128"
      using px(1) by (intro nth_equalityI) (auto simp: subset_iff)
    then have dct: "dct_of_pixels (\<lambda>x. x) (pixels_of (at_block k ?e)) = replicate 64 0" by (rule flat_dct)
    have q: "jpec_enc_block_quant (\<lambda>x. x) ?e (replicate 64 0) = replicate 64 0"
      unfolding jpec_enc_block_quant_def by (rule nth_equalityI) (simp_all add: to_int_def)
    have "list_all (\<lambda>i. i < 64) jpec_zz" "length jpec_zz = 64" by code_simp+
    then have z: "map (\<lambda>i. replicate 64 (0 :: int) ! (jpec_zz ! i)) [0..<64] = replicate 64 0"
      by (intro nth_equalityI) (simp_all add: list_all_length)
    have "fold (\<lambda>i l. if replicate 64 (0 :: int) ! i \<noteq> 0 then i + 1 else l) [0..<64] 0 = (0 :: nat)"
      by (simp add: upt_rec numeral_eq_Suc)
    then show ?thesis unfolding encoded_block_def dct q jpec_enc_block_zz_def z Let_def by (simp only:)
  qed
  then show ?thesis
    using f(4,5) unfolding picture_blocks_def by (intro nth_equalityI) simp_all
qed

lemma grey_bits: "length (blocks_bits 0 (replicate n \<lparr>zz = replicate 64 0, blen = 0\<rparr>)) = 6 * n"
proof -
  have "block_bits 0 \<lparr>zz = replicate 64 0, blen = 0\<rparr> =
      symbol_bits jpec_dc_code jpec_dc_len 0 0 @ symbol_bits jpec_ac_code jpec_ac_len 0 0"
    by (simp add: block_bits_def magnitude_def)
  moreover have "jpec_dc_len ! 0 = 2" "jpec_ac_len ! 0 = 4" by code_simp+
  ultimately show ?thesis by (induction n) (simp_all add: length_symbol_bits magnitude_def)
qed

lemma grey_compressed: "\<exists>out n. compress_picture (\<lambda>x. x) grey = Inr (out, n)"
proof -
  have fl: "fl_ok (\<lambda>x. x)" by (simp add: fl_ok_def)
  have l: "length grey = 320 * 240" by (simp add: grey_def)
  obtain e where e: "jpec_enc_new grey 320 240 = Inr e" using new_picture by blast
  obtain e1 where e1: "jpec_enc_run (\<lambda>x. x) e = Inr e1" "length (written (buf e1)) = len (buf e1)"
      "len (buf e1) \<le> 1002 + length (scan_bytes (blocks_bits 0 (picture_blocks (\<lambda>x. x) e)))" "len (buf e1) + 2 < 2 ^ 30"
    using picture_file(2) [OF fl e l] by blast
  have "4 * length (scan_bytes (blocks_bits 0 (picture_blocks (\<lambda>x. x) e))) \<le> 7207"
    using length_scan [of "blocks_bits 0 (picture_blocks (\<lambda>x. x) e)"] grey_bits [of 1200]
    by (simp add: grey_blocks [OF e])
  then have "len (buf e1) \<le> 57600" using e1(3) by linarith
  then show ?thesis using compress_cases [OF e e1(1) l e1(2,4)] by simp
qed

lemma picture_becomes_text_witness:
  "\<exists>e e1 out n. jpec_enc_new grey 320 240 = Inr e \<and> jpec_enc_run (\<lambda>x. x) e = Inr e1 \<and>
     compress_picture (\<lambda>x. x) grey = Inr (out, n) \<and> b64_read (take (unat n) out) = written (buf e1)"
proof -
  have "fl_ok (\<lambda>x. x)" "length grey = 320 * 240" by (simp_all add: fl_ok_def grey_def)
  from picture_becomes_text [OF this] obtain e e1 where e: "jpec_enc_new grey 320 240 = Inr e"
      "jpec_enc_run (\<lambda>x. x) e = Inr e1"
      "if length (written (buf e1)) \<le> 57600
       then \<exists>out n. compress_picture (\<lambda>x. x) grey = Inr (out, n) \<and> length out = 320 * 240 \<and> unat n \<le> 320 * 240 \<and>
         b64_read (take (unat n) out) = written (buf e1)
       else compress_picture (\<lambda>x. x) grey = Inl Out_Of_Bounds" by blast
  show ?thesis using e grey_compressed by (cases "length (written (buf e1)) \<le> 57600") auto
qed

end
