(* ===== verification/I2C.thy ===== *)
theory I2C
  imports C_Prelude
begin

unbundle bit_operations_syntax

text \<open>
  The interrupt-driven I2C master of \<^verbatim>\<open>source/I2C_Driver.c\<close>: the description of the running
  transfer, the module's registers as far as the driver uses them, the routine that starts a
  transfer and the interrupt handler that advances it. The bytes the driver writes to the data
  register are kept in the order of writing, a read of it yields what the bus delivered. The
  queues of a transfer are pointers into a store, since the caller keeps the arrays.
\<close>

section \<open>Memory and registers\<close>

type_synonym ptr = "nat option"
type_synonym store = "nat \<Rightarrow> u8 list option"

definition rd_ptr :: "store \<Rightarrow> ptr \<Rightarrow> nat \<Rightarrow> u8 result" where
  "rd_ptr m p i = (case p of None \<Rightarrow> Inl Null_Dereference
     | Some a \<Rightarrow> (case m a of None \<Rightarrow> Inl Null_Dereference | Some xs \<Rightarrow> rd xs i))"

definition wr_ptr :: "store \<Rightarrow> ptr \<Rightarrow> nat \<Rightarrow> u8 \<Rightarrow> store result" where
  "wr_ptr m p i v = (case p of None \<Rightarrow> Inl Null_Dereference
     | Some a \<Rightarrow> (case m a of None \<Rightarrow> Inl Null_Dereference
         | Some xs \<Rightarrow> bindR (wr xs i v) (\<lambda>ys. Inr (m(a \<mapsto> ys)))))"

definition I2C_C1_IICEN_MASK :: u8 where "I2C_C1_IICEN_MASK = 0x80"
definition I2C_C1_IICIE_MASK :: u8 where "I2C_C1_IICIE_MASK = 0x40"
definition I2C_C1_MST_MASK :: u8 where "I2C_C1_MST_MASK = 0x20"
definition I2C_C1_TX_MASK :: u8 where "I2C_C1_TX_MASK = 0x10"
definition I2C_C1_TXAK_MASK :: u8 where "I2C_C1_TXAK_MASK = 0x08"
definition I2C_C1_RSTA_MASK :: u8 where "I2C_C1_RSTA_MASK = 0x04"
definition I2C_S_TCF_MASK :: u8 where "I2C_S_TCF_MASK = 0x80"
definition I2C_S_ARBL_MASK :: u8 where "I2C_S_ARBL_MASK = 0x10"
definition I2C_S_IICIF_MASK :: u8 where "I2C_S_IICIF_MASK = 0x02"
definition I2C_S_RXAK_MASK :: u8 where "I2C_S_RXAK_MASK = 0x01"
definition I2C_FLT_STARTF_MASK :: u8 where "I2C_FLT_STARTF_MASK = 0x10"
definition I2C_FLT_STOPF_MASK :: u8 where "I2C_FLT_STOPF_MASK = 0x40"

lemmas i2c_masks = I2C_C1_IICEN_MASK_def I2C_C1_IICIE_MASK_def I2C_C1_MST_MASK_def
  I2C_C1_TX_MASK_def I2C_C1_TXAK_MASK_def I2C_C1_RSTA_MASK_def I2C_S_TCF_MASK_def
  I2C_S_ARBL_MASK_def I2C_S_IICIF_MASK_def I2C_S_RXAK_MASK_def I2C_FLT_STARTF_MASK_def
  I2C_FLT_STOPF_MASK_def

text \<open>The value a field macro such as \<^verbatim>\<open>I2C_C1_MST(x)\<close> yields: shifted, then masked.\<close>

definition I2C_F_ICR :: "u8 \<Rightarrow> u8" where "I2C_F_ICR x = x AND 0x3F"
definition I2C_F_MULT :: "u8 \<Rightarrow> u8" where "I2C_F_MULT x = push_bit 6 x AND 0xC0"
definition I2C_C1_MST :: "u8 \<Rightarrow> u8" where "I2C_C1_MST x = push_bit 5 x AND I2C_C1_MST_MASK"
definition I2C_C1_TX :: "u8 \<Rightarrow> u8" where "I2C_C1_TX x = push_bit 4 x AND I2C_C1_TX_MASK"
definition I2C_C1_TXAK :: "u8 \<Rightarrow> u8" where "I2C_C1_TXAK x = push_bit 3 x AND I2C_C1_TXAK_MASK"
definition I2C_C1_RSTA :: "u8 \<Rightarrow> u8" where "I2C_C1_RSTA x = push_bit 2 x AND I2C_C1_RSTA_MASK"

record i2c_regs =
  reg_C1 :: u8
  reg_S :: u8
  reg_F :: u8
  reg_FLT :: u8
  D_rx :: u8
  D_tx :: "u8 list"

text \<open>In the status register the two interrupt causes are cleared by writing a one; the bits
  the driver looks at otherwise cannot be written.\<close>

definition write_S :: "u8 \<Rightarrow> i2c_regs \<Rightarrow> i2c_regs" where
  "write_S v r = r\<lparr>reg_S := reg_S r AND NOT (v AND (I2C_S_IICIF_MASK OR I2C_S_ARBL_MASK))\<rparr>"

definition write_D :: "u8 \<Rightarrow> i2c_regs \<Rightarrow> i2c_regs" where
  "write_D v r = r\<lparr>D_tx := D_tx r @ [v]\<rparr>"

section \<open>The driver's state\<close>

datatype I2C_State_Type = I2C_IDLE | I2C_COM_CONFIG | I2C_END | I2C_ERROR

record 'c I2C_Communication_Type =
  com_state :: I2C_State_Type
  readnotwrite :: bool
  slave_address :: u32
  write_queue :: ptr
  read_queue :: ptr
  write_queue_size :: u8
  read_queue_size :: u8
  writing_byte_counter :: u8
  reading_byte_counter :: u8
  end_routine :: "'c option"

record 'c i2c_state =
  i2c_com :: "'c I2C_Communication_Type"
  I2C0 :: i2c_regs
  mem :: store
  i2c_inited :: bool
  SIM_SCGC4 :: u32
  SIM_SCGC5 :: u32
  PCR_SDA :: u32
  PCR_SCL :: u32
  I2C0_irq :: bool

definition ALEX_DEBUG :: bool where "ALEX_DEBUG = False"

definition I2C_PORT_CONFIG :: u32 where
  "I2C_PORT_CONFIG = push_bit 5 1 OR push_bit 8 5 OR push_bit 16 0 OR 0x1000000"

definition I2C_Init :: "'c i2c_state \<Rightarrow> 'c i2c_state" where
  "I2C_Init s =
     (if i2c_inited s then s
      else s\<lparr>SIM_SCGC4 := SIM_SCGC4 s OR 0x40, SIM_SCGC5 := SIM_SCGC5 s OR 0x2000,
             PCR_SDA := I2C_PORT_CONFIG, PCR_SCL := I2C_PORT_CONFIG,
             I2C0 := write_S I2C_S_IICIF_MASK ((I2C0 s)\<lparr>reg_C1 := I2C_C1_IICEN_MASK,
                        reg_F := I2C_F_ICR 0x2B OR I2C_F_MULT 0x1\<rparr>),
             I2C0_irq := True, i2c_inited := True\<rparr>)"

definition I2C_Communication_Config ::
    "bool \<Rightarrow> u32 \<Rightarrow> ptr \<Rightarrow> ptr \<Rightarrow> u8 \<Rightarrow> u8 \<Rightarrow> 'c i2c_state \<Rightarrow> 'c i2c_state" where
  "I2C_Communication_Config rnotw s_addr w_q r_q w_q_s r_q_s s =
     (let com = (i2c_com s)\<lparr>com_state := I2C_COM_CONFIG, readnotwrite := rnotw,
            slave_address := s_addr, write_queue := w_q, read_queue := r_q,
            write_queue_size := w_q_s, read_queue_size := r_q_s,
            writing_byte_counter := 0, reading_byte_counter := 0\<rparr>;
          r1 = (I2C0 s)\<lparr>reg_FLT := I2C_FLT_STARTF_MASK OR I2C_FLT_STOPF_MASK\<rparr>;
          r2 = write_S (I2C_S_IICIF_MASK OR I2C_S_ARBL_MASK) r1;
          r3 = r2\<lparr>reg_C1 := reg_C1 r2 OR (I2C_C1_TX_MASK OR I2C_C1_MST_MASK OR I2C_C1_IICIE_MASK)\<rparr>;
          r4 = write_D (ucast (push_bit 1 s_addr) OR (if rnotw then 1 else 0)) r3
      in s\<lparr>i2c_com := com, I2C0 := r4\<rparr>)"

definition I2C_get_State :: "'c i2c_state \<Rightarrow> I2C_State_Type \<times> 'c i2c_state" where
  "I2C_get_State s =
     (let st = com_state (i2c_com s) in
      (st, if st = I2C_END \<or> st = I2C_ERROR
           then s\<lparr>i2c_com := (i2c_com s)\<lparr>com_state := I2C_IDLE\<rparr>\<rparr> else s))"

definition I2C_End_Routine :: "'c option \<Rightarrow> 'c i2c_state \<Rightarrow> 'c i2c_state" where
  "I2C_End_Routine cb s = s\<lparr>i2c_com := (i2c_com s)\<lparr>end_routine := cb\<rparr>\<rparr>"

section \<open>The interrupt handler\<close>

text \<open>
  The handler returns the new state and the end routine it calls, if it does: the call is the
  last thing a branch does. Calling through a null pointer is a fault.
\<close>

definition finish ::
    "'c i2c_state \<Rightarrow> ('c i2c_state \<times> 'c option) result" where
  "finish s = (case end_routine (i2c_com s) of
      None \<Rightarrow> Inl Null_Dereference | Some c \<Rightarrow> Inr (s, Some c))"

definition set_C1 :: "(u8 \<Rightarrow> u8) \<Rightarrow> 'c i2c_state \<Rightarrow> 'c i2c_state" where
  "set_C1 f s = s\<lparr>I2C0 := (I2C0 s)\<lparr>reg_C1 := f (reg_C1 (I2C0 s))\<rparr>\<rparr>"

definition put_D :: "u8 \<Rightarrow> 'c i2c_state \<Rightarrow> 'c i2c_state" where
  "put_D v s = s\<lparr>I2C0 := write_D v (I2C0 s)\<rparr>"

definition clear_MST :: "u8 \<Rightarrow> u8" where
  "clear_MST c = (c AND NOT I2C_C1_MST_MASK) OR I2C_C1_MST 0"

definition isr_tx_done :: "'c i2c_state \<Rightarrow> ('c i2c_state \<times> 'c option) result" where
  "isr_tx_done s =
     (let com = i2c_com s in
      if read_queue_size com \<noteq> 0 then
        if reg_S (I2C0 s) AND I2C_S_RXAK_MASK \<noteq> 0 \<and> ALEX_DEBUG then
          Inr (set_C1 clear_MST (s\<lparr>i2c_com := com\<lparr>com_state := I2C_ERROR\<rparr>\<rparr>), None)
        else if readnotwrite com then
          (let s1 = set_C1 (\<lambda>c. (c AND NOT I2C_C1_TX_MASK) OR I2C_C1_TX 0) s;
               s2 = (if read_queue_size com = 1
                     then set_C1 (\<lambda>c. (c AND NOT I2C_C1_TXAK_MASK) OR I2C_C1_TXAK 1) s1 else s1)
           in Inr (s2, None))
        else
          (let s1 = set_C1 (\<lambda>c. (c AND NOT I2C_C1_RSTA_MASK) OR I2C_C1_RSTA 1) s;
               s2 = put_D (ucast (push_bit 1 (slave_address com AND 0x7F) OR 1)) s1
           in Inr (s2\<lparr>i2c_com := com\<lparr>readnotwrite := True\<rparr>\<rparr>, None))
      else
        finish (set_C1 clear_MST (s\<lparr>i2c_com := com\<lparr>com_state := I2C_END\<rparr>\<rparr>)))"

definition isr_tx_next :: "'c i2c_state \<Rightarrow> ('c i2c_state \<times> 'c option) result" where
  "isr_tx_next s =
     (let com = i2c_com s in
      if reg_S (I2C0 s) AND I2C_S_RXAK_MASK \<noteq> 0 \<and> ALEX_DEBUG then
        Inr (set_C1 clear_MST (s\<lparr>i2c_com := com\<lparr>com_state := I2C_ERROR\<rparr>\<rparr>), None)
      else
        bindR (rd_ptr (mem s) (write_queue com) (unat (writing_byte_counter com))) (\<lambda>b.
        Inr (put_D b
          (s\<lparr>i2c_com := com\<lparr>writing_byte_counter := writing_byte_counter com + 1\<rparr>\<rparr>), None)))"

text \<open>The last byte is stored at the index \<^verbatim>\<open>read_queue_size++\<close>, not at the counter.\<close>

definition isr_rx :: "'c i2c_state \<Rightarrow> ('c i2c_state \<times> 'c option) result" where
  "isr_rx s =
     (let com = i2c_com s in
      if int (unat (reading_byte_counter com)) = int (unat (read_queue_size com)) - 1 then
        bindR (wr_ptr (mem s) (read_queue com) (unat (read_queue_size com)) (D_rx (I2C0 s))) (\<lambda>m.
        finish ((set_C1 clear_MST s)\<lparr>mem := m,
          i2c_com := com\<lparr>read_queue_size := read_queue_size com + 1, com_state := I2C_END\<rparr>\<rparr>))
      else
        (let s1 = (if int (unat (reading_byte_counter com)) = int (unat (read_queue_size com)) - 2
                   then set_C1 (\<lambda>c. (c AND NOT I2C_C1_TXAK_MASK) OR I2C_C1_TXAK 1) s else s) in
        bindR (wr_ptr (mem s) (read_queue com) (unat (reading_byte_counter com))
                 (D_rx (I2C0 s))) (\<lambda>m.
        Inr (s1\<lparr>mem := m,
          i2c_com := com\<lparr>reading_byte_counter := reading_byte_counter com + 1\<rparr>\<rparr>, None))))"

definition I2C_ISR_FSM :: "'c i2c_state \<Rightarrow> ('c i2c_state \<times> 'c option) result" where
  "I2C_ISR_FSM s0 =
     (let status_r = reg_S (I2C0 s0);
          s = s0\<lparr>I2C0 := write_S (I2C_S_TCF_MASK OR I2C_S_IICIF_MASK) (I2C0 s0)\<rparr>;
          com = i2c_com s in
      if status_r AND I2C_S_TCF_MASK \<noteq> 0 then
        if reg_C1 (I2C0 s) AND I2C_C1_TX_MASK \<noteq> 0 then
          if writing_byte_counter com = write_queue_size com then isr_tx_done s
          else if writing_byte_counter com < write_queue_size com then isr_tx_next s
          else Inr (s, None)
        else isr_rx s
      else Inr (s, None))"

section \<open>The bus\<close>

text \<open>
  When a byte has crossed the bus the module raises the transfer-complete and interrupt flags
  and, in receive mode, holds the byte it took in; then the handler runs. A run is a sequence of
  such interrupts, the end routines called are collected in order.
\<close>

definition byte_done :: "u8 \<Rightarrow> 'c i2c_state \<Rightarrow> 'c i2c_state" where
  "byte_done b s = s\<lparr>I2C0 := (I2C0 s)\<lparr>reg_S := reg_S (I2C0 s) OR I2C_S_TCF_MASK OR I2C_S_IICIF_MASK,
     D_rx := b\<rparr>\<rparr>"

definition i2c_irq ::
    "u8 \<Rightarrow> 'c i2c_state \<times> 'c list \<Rightarrow> ('c i2c_state \<times> 'c list) result" where
  "i2c_irq b = (\<lambda>(s, cbs). bindR (I2C_ISR_FSM (byte_done b s)) (\<lambda>(s', cb).
     Inr (s', cbs @ (case cb of None \<Rightarrow> [] | Some c \<Rightarrow> [c]))))"

definition i2c_run ::
    "u8 list \<Rightarrow> 'c i2c_state \<Rightarrow> ('c i2c_state \<times> 'c list) result" where
  "i2c_run bs s = foldR i2c_irq bs (s, [])"

interpretation i2c_init: init_once I2C_Init i2c_inited
  by unfold_locales (simp_all add: I2C_Init_def)

section \<open>One interrupt\<close>

lemma and_mask_bit:
  "(v AND I2C_C1_TX_MASK \<noteq> 0) = bit v 4" "(v AND I2C_S_TCF_MASK \<noteq> 0) = bit v 7"
  for v :: u8
proof -
  have single: "(v AND 2 ^ n \<noteq> 0) = bit v n" for n and v :: u8
    by (metis and_exp_eq_0_iff_not_bit)
  show "(v AND I2C_C1_TX_MASK \<noteq> 0) = bit v 4" "(v AND I2C_S_TCF_MASK \<noteq> 0) = bit v 7"
    using single [of v 4] single [of v 7] by (simp_all add: i2c_masks)
qed

lemma clear_MST_bits: "\<not> bit (clear_MST c) 5" "bit (clear_MST c) 4 = bit c 4"
  "bit (clear_MST c) 3 = bit c 3"
  by (simp_all add: clear_MST_def I2C_C1_MST_def i2c_masks bit_simps bit_numeral_rec)

lemma set_C1_simps [simp]:
  "i2c_com (set_C1 f s) = i2c_com s" "mem (set_C1 f s) = mem s"
  "reg_C1 (I2C0 (set_C1 f s)) = f (reg_C1 (I2C0 s))" "D_tx (I2C0 (set_C1 f s)) = D_tx (I2C0 s)"
  "D_rx (I2C0 (set_C1 f s)) = D_rx (I2C0 s)" "reg_S (I2C0 (set_C1 f s)) = reg_S (I2C0 s)"
  by (simp_all add: set_C1_def)

lemma put_D_simps [simp]:
  "i2c_com (put_D v s) = i2c_com s" "mem (put_D v s) = mem s"
  "reg_C1 (I2C0 (put_D v s)) = reg_C1 (I2C0 s)" "D_tx (I2C0 (put_D v s)) = D_tx (I2C0 s) @ [v]"
  by (simp_all add: put_D_def write_D_def)

lemma set_C1_upd [simp]:
  "set_C1 f (s\<lparr>i2c_com := c\<rparr>) = (set_C1 f s)\<lparr>i2c_com := c\<rparr>"
  "put_D v (s\<lparr>i2c_com := c\<rparr>) = (put_D v s)\<lparr>i2c_com := c\<rparr>"
  by (simp_all add: set_C1_def put_D_def)

text \<open>What the handler sees of the interrupt of a finished byte.\<close>

definition acked :: "u8 \<Rightarrow> 'c i2c_state \<Rightarrow> 'c i2c_state" where
  "acked b s = (let s1 = byte_done b s in
     s1\<lparr>I2C0 := write_S (I2C_S_TCF_MASK OR I2C_S_IICIF_MASK) (I2C0 s1)\<rparr>)"

lemma acked_simps [simp]:
  "i2c_com (acked b s) = i2c_com s" "mem (acked b s) = mem s"
  "reg_C1 (I2C0 (acked b s)) = reg_C1 (I2C0 s)" "D_tx (I2C0 (acked b s)) = D_tx (I2C0 s)"
  "D_rx (I2C0 (acked b s)) = b"
  by (simp_all add: acked_def byte_done_def write_S_def)

lemma isr_on_byte:
  "I2C_ISR_FSM (byte_done b s) =
     (if bit (reg_C1 (I2C0 s)) 4 then
        if writing_byte_counter (i2c_com s) = write_queue_size (i2c_com s) then isr_tx_done (acked b s)
        else if writing_byte_counter (i2c_com s) < write_queue_size (i2c_com s)
        then isr_tx_next (acked b s) else Inr (acked b s, None)
      else isr_rx (acked b s))"
proof -
  have "bit (reg_S (I2C0 (byte_done b s))) 7"
    by (simp add: byte_done_def i2c_masks bit_simps bit_numeral_rec)
  moreover have "reg_C1 (write_S v (I2C0 (byte_done b s))) = reg_C1 (I2C0 s)" for v
    by (simp add: byte_done_def write_S_def)
  moreover have "i2c_com (byte_done b s) = i2c_com s" by (simp add: byte_done_def)
  ultimately show ?thesis
    by (simp add: I2C_ISR_FSM_def and_mask_bit acked_def Let_def)
qed

lemma irq_tx_next:
  assumes "bit (reg_C1 (I2C0 s)) 4" and "writing_byte_counter (i2c_com s) < write_queue_size (i2c_com s)"
    and "write_queue (i2c_com s) = Some a" and "mem s a = Some xs"
    and "unat (writing_byte_counter (i2c_com s)) < length xs"
  shows "\<exists>s'. i2c_irq b (s, cbs) = Inr (s', cbs) \<and> mem s' = mem s \<and>
    reg_C1 (I2C0 s') = reg_C1 (I2C0 s) \<and>
    D_tx (I2C0 s') = D_tx (I2C0 s) @ [xs ! unat (writing_byte_counter (i2c_com s))] \<and>
    i2c_com s' = (i2c_com s)\<lparr>writing_byte_counter := writing_byte_counter (i2c_com s) + 1\<rparr>"
  using assms
  by (simp add: i2c_irq_def isr_on_byte isr_tx_next_def ALEX_DEBUG_def rd_ptr_def rd_in less_imp_neq Let_def)

lemma irq_tx_end:
  assumes "bit (reg_C1 (I2C0 s)) 4" and "writing_byte_counter (i2c_com s) = write_queue_size (i2c_com s)"
    and "read_queue_size (i2c_com s) = 0" and "end_routine (i2c_com s) = Some c"
  shows "\<exists>s'. i2c_irq b (s, cbs) = Inr (s', cbs @ [c]) \<and> mem s' = mem s \<and>
    reg_C1 (I2C0 s') = clear_MST (reg_C1 (I2C0 s)) \<and> D_tx (I2C0 s') = D_tx (I2C0 s) \<and>
    i2c_com s' = (i2c_com s)\<lparr>com_state := I2C_END\<rparr>"
  using assms by (simp add: i2c_irq_def isr_on_byte isr_tx_done_def finish_def Let_def)

lemma irq_tx_to_rx:
  assumes "bit (reg_C1 (I2C0 s)) 4" and "writing_byte_counter (i2c_com s) = write_queue_size (i2c_com s)"
    and "read_queue_size (i2c_com s) \<noteq> 0" and "readnotwrite (i2c_com s)"
  shows "\<exists>s'. i2c_irq b (s, cbs) = Inr (s', cbs) \<and> mem s' = mem s \<and>
    D_tx (I2C0 s') = D_tx (I2C0 s) \<and> i2c_com s' = i2c_com s \<and> \<not> bit (reg_C1 (I2C0 s')) 4 \<and>
    bit (reg_C1 (I2C0 s')) 5 = bit (reg_C1 (I2C0 s)) 5 \<and>
    (read_queue_size (i2c_com s) = 1 \<longrightarrow> bit (reg_C1 (I2C0 s')) 3)"
  using assms
  by (cases "read_queue_size (i2c_com s) = 1")
     (simp_all add: i2c_irq_def isr_on_byte isr_tx_done_def ALEX_DEBUG_def i2c_masks I2C_C1_TX_def
      I2C_C1_TXAK_def bit_simps bit_numeral_rec Let_def)

lemma irq_rx_mid:
  assumes "\<not> bit (reg_C1 (I2C0 s)) 4" and "unat (reading_byte_counter (i2c_com s)) + 1 < unat (read_queue_size (i2c_com s))"
    and "read_queue (i2c_com s) = Some a" and "mem s a = Some xs"
    and "unat (reading_byte_counter (i2c_com s)) < length xs"
  shows "\<exists>s'. i2c_irq b (s, cbs) = Inr (s', cbs) \<and>
    mem s' = (mem s)(a \<mapsto> xs[unat (reading_byte_counter (i2c_com s)) := b]) \<and>
    D_tx (I2C0 s') = D_tx (I2C0 s) \<and>
    i2c_com s' = (i2c_com s)\<lparr>reading_byte_counter := reading_byte_counter (i2c_com s) + 1\<rparr> \<and>
    \<not> bit (reg_C1 (I2C0 s')) 4 \<and> bit (reg_C1 (I2C0 s')) 5 = bit (reg_C1 (I2C0 s)) 5 \<and>
    (unat (reading_byte_counter (i2c_com s)) + 2 = unat (read_queue_size (i2c_com s)) \<longrightarrow>
       bit (reg_C1 (I2C0 s')) 3)"
proof -
  let ?r = "unat (reading_byte_counter (i2c_com s))" and ?q = "unat (read_queue_size (i2c_com s))"
  have ne: "int ?r \<noteq> int ?q - 1" using assms(2) by linarith
  have pen: "(int ?r = int ?q - 2) = (?r + 2 = ?q)" by linarith
  show ?thesis
    using assms ne unfolding pen [symmetric]
    by (cases "int ?r = int ?q - 2")
       (simp_all add: i2c_irq_def isr_on_byte isr_rx_def wr_ptr_def wr_in i2c_masks I2C_C1_TXAK_def
        bit_simps bit_numeral_rec Let_def)
qed

lemma irq_rx_last:
  assumes "\<not> bit (reg_C1 (I2C0 s)) 4" and "unat (reading_byte_counter (i2c_com s)) + 1 = unat (read_queue_size (i2c_com s))"
    and "read_queue (i2c_com s) = Some a" and "mem s a = Some xs"
    and "end_routine (i2c_com s) = Some c"
  shows "if unat (read_queue_size (i2c_com s)) < length xs
    then \<exists>s'. i2c_irq b (s, cbs) = Inr (s', cbs @ [c]) \<and>
      mem s' = (mem s)(a \<mapsto> xs[unat (read_queue_size (i2c_com s)) := b]) \<and>
      com_state (i2c_com s') = I2C_END \<and> reg_C1 (I2C0 s') = clear_MST (reg_C1 (I2C0 s)) \<and>
      D_tx (I2C0 s') = D_tx (I2C0 s)
    else i2c_irq b (s, cbs) = Inl Out_Of_Bounds"
proof -
  have "int (unat (reading_byte_counter (i2c_com s))) = int (unat (read_queue_size (i2c_com s))) - 1"
    using assms(2) by linarith
  then show ?thesis
    using assms
    by (simp add: i2c_irq_def isr_on_byte isr_rx_def wr_ptr_def wr_def finish_def Let_def)
qed

section \<open>A whole transfer\<close>

lemma config_simps [simp]:
  "mem (I2C_Communication_Config rnotw addr w r n m s) = mem s"
  "i2c_com (I2C_Communication_Config rnotw addr w r n m s) = (i2c_com s)\<lparr>com_state := I2C_COM_CONFIG, readnotwrite := rnotw,
     slave_address := addr, write_queue := w, read_queue := r, write_queue_size := n,
     read_queue_size := m, writing_byte_counter := 0, reading_byte_counter := 0\<rparr>"
  "bit (reg_C1 (I2C0 (I2C_Communication_Config rnotw addr w r n m s))) 4"
  "bit (reg_C1 (I2C0 (I2C_Communication_Config rnotw addr w r n m s))) 5"
  "bit (reg_C1 (I2C0 s)) 3 \<Longrightarrow>
     bit (reg_C1 (I2C0 (I2C_Communication_Config rnotw addr w r n m s))) 3"
  "D_tx (I2C0 (I2C_Communication_Config rnotw addr w r n m s)) =
     D_tx (I2C0 s) @ [ucast (push_bit 1 addr) OR (if rnotw then 1 else 0)]"
  by (simp_all add: I2C_Communication_Config_def Let_def write_D_def write_S_def i2c_masks
      bit_simps bit_numeral_rec)

lemma tx_phase:
  assumes "bit (reg_C1 (I2C0 s)) 4" and "writing_byte_counter (i2c_com s) = 0"
    and "write_queue (i2c_com s) = Some a" and "mem s a = Some xs"
    and "unat (write_queue_size (i2c_com s)) \<le> length xs"
    and "length bs \<le> unat (write_queue_size (i2c_com s))"
  shows "\<exists>s'. foldR i2c_irq bs (s, cbs) = Inr (s', cbs) \<and> mem s' = mem s \<and>
    reg_C1 (I2C0 s') = reg_C1 (I2C0 s) \<and> D_tx (I2C0 s') = D_tx (I2C0 s) @ take (length bs) xs \<and>
    i2c_com s' = (i2c_com s)\<lparr>writing_byte_counter := of_nat (length bs)\<rparr>"
  using assms(6)
proof (induction bs rule: rev_induct)
  case Nil
  then show ?case using assms(2) by simp
next
  case (snoc b bs)
  then obtain u where u: "foldR i2c_irq bs (s, cbs) = Inr (u, cbs)" "mem u = mem s"
      "reg_C1 (I2C0 u) = reg_C1 (I2C0 s)" "D_tx (I2C0 u) = D_tx (I2C0 s) @ take (length bs) xs"
      "i2c_com u = (i2c_com s)\<lparr>writing_byte_counter := of_nat (length bs)\<rparr>" by auto
  have k: "length bs < unat (write_queue_size (i2c_com s))" using snoc.prems by simp
  then have "length bs < 256" using unat_u8_lt [of "write_queue_size (i2c_com s)"] by linarith
  then have cnt: "unat (of_nat (length bs) :: u8) = length bs" by (simp add: unat_of_nat)
  have "\<exists>s'. i2c_irq b (u, cbs) = Inr (s', cbs) \<and> mem s' = mem u \<and>
    reg_C1 (I2C0 s') = reg_C1 (I2C0 u) \<and>
    D_tx (I2C0 s') = D_tx (I2C0 u) @ [xs ! unat (writing_byte_counter (i2c_com u))] \<and>
    i2c_com s' = (i2c_com u)\<lparr>writing_byte_counter := writing_byte_counter (i2c_com u) + 1\<rparr>"
    by (rule irq_tx_next [where a = a])
       (use u assms k cnt in \<open>simp_all add: word_less_nat_alt\<close>)
  moreover have "take (Suc (length bs)) xs = take (length bs) xs @ [xs ! length bs]"
    using k assms(5) by (simp add: take_Suc_conv_app_nth)
  ultimately show ?case using u cnt by (auto simp: foldR_append add.commute)
qed

lemma rx_phase:
  assumes "\<not> bit (reg_C1 (I2C0 s)) 4" and "reading_byte_counter (i2c_com s) = 0"
    and "read_queue (i2c_com s) = Some a" and "mem s a = Some ys"
    and "unat (read_queue_size (i2c_com s)) \<le> length ys"
    and "Suc (length bs) \<le> unat (read_queue_size (i2c_com s))"
  shows "\<exists>s'. foldR i2c_irq bs (s, cbs) = Inr (s', cbs) \<and>
    mem s' = (mem s)(a \<mapsto> bs @ drop (length bs) ys) \<and>
    D_tx (I2C0 s') = D_tx (I2C0 s) \<and>
    i2c_com s' = (i2c_com s)\<lparr>reading_byte_counter := of_nat (length bs)\<rparr> \<and>
    \<not> bit (reg_C1 (I2C0 s')) 4 \<and>
    (length bs \<noteq> 0 \<and> Suc (length bs) = unat (read_queue_size (i2c_com s)) \<longrightarrow>
       bit (reg_C1 (I2C0 s')) 3)"
  using assms(6)
proof (induction bs rule: rev_induct)
  case Nil
  then show ?case using assms by auto
next
  case (snoc b bs)
  then have "Suc (length bs) \<le> unat (read_queue_size (i2c_com s))" by simp
  from snoc.IH [OF this] obtain u where u: "foldR i2c_irq bs (s, cbs) = Inr (u, cbs)"
      "mem u = (mem s)(a \<mapsto> bs @ drop (length bs) ys)" "D_tx (I2C0 u) = D_tx (I2C0 s)"
      "i2c_com u = (i2c_com s)\<lparr>reading_byte_counter := of_nat (length bs)\<rparr>"
      "\<not> bit (reg_C1 (I2C0 u)) 4" by blast
  have k: "Suc (Suc (length bs)) \<le> unat (read_queue_size (i2c_com s))" using snoc.prems by simp
  then have "length bs < 256" using unat_u8_lt [of "read_queue_size (i2c_com s)"] by linarith
  then have cnt: "unat (of_nat (length bs) :: u8) = length bs" by (simp add: unat_of_nat)
  let ?ys = "bs @ drop (length bs) ys"
  have "\<exists>s'. i2c_irq b (u, cbs) = Inr (s', cbs) \<and>
    mem s' = (mem u)(a \<mapsto> ?ys[unat (reading_byte_counter (i2c_com u)) := b]) \<and>
    D_tx (I2C0 s') = D_tx (I2C0 u) \<and>
    i2c_com s' = (i2c_com u)\<lparr>reading_byte_counter := reading_byte_counter (i2c_com u) + 1\<rparr> \<and>
    \<not> bit (reg_C1 (I2C0 s')) 4 \<and> bit (reg_C1 (I2C0 s')) 5 = bit (reg_C1 (I2C0 u)) 5 \<and>
    (unat (reading_byte_counter (i2c_com u)) + 2 = unat (read_queue_size (i2c_com u)) \<longrightarrow>
       bit (reg_C1 (I2C0 s')) 3)"
    by (rule irq_rx_mid [where a = a]) (use u assms k cnt in simp_all)
  moreover have "?ys[length bs := b] = (bs @ [b]) @ drop (length (bs @ [b])) ys"
    using k assms(5) by (simp add: list_update_append Cons_nth_drop_Suc [symmetric])
  ultimately show ?case using u cnt by (auto simp: foldR_append add.commute)
qed

section \<open>Any sequence of operations\<close>

datatype 'c i2c_op =
    Op_Config bool u32 ptr ptr u8 u8
  | Op_Byte u8
  | Op_Get_State
  | Op_End_Routine "'c option"
  | Op_Init


fun i2c_do ::
    "'c i2c_op \<Rightarrow> 'c i2c_state \<times> 'c list \<Rightarrow> ('c i2c_state \<times> 'c list) result" where
  "i2c_do (Op_Config rnotw addr w r n m) (s, cbs) =
     Inr (I2C_Communication_Config rnotw addr w r n m s, cbs)"
| "i2c_do (Op_Byte b) (s, cbs) = i2c_irq b (s, cbs)"
| "i2c_do Op_Get_State (s, cbs) = Inr (snd (I2C_get_State s), cbs)"
| "i2c_do (Op_End_Routine c) (s, cbs) = Inr (I2C_End_Routine c s, cbs)"
| "i2c_do Op_Init (s, cbs) = Inr (I2C_Init s, cbs)"

definition txak_set :: "'c i2c_state \<Rightarrow> bool" where
  "txak_set s \<longleftrightarrow> i2c_inited s \<and> bit (reg_C1 (I2C0 s)) 3"

lemma inited_simps [simp]:
  "i2c_inited (set_C1 f s) = i2c_inited s" "i2c_inited (put_D v s) = i2c_inited s"
  "i2c_inited (acked b s) = i2c_inited s"
  "i2c_inited (I2C_Communication_Config rnotw addr w r n m s) = i2c_inited s"
  by (simp_all add: set_C1_def put_D_def acked_def byte_done_def I2C_Communication_Config_def Let_def)

lemma txak_masks:
  "bit c 3 \<Longrightarrow> bit ((c AND NOT I2C_C1_TX_MASK) OR I2C_C1_TX 0) 3"
  "bit ((c AND NOT I2C_C1_TXAK_MASK) OR I2C_C1_TXAK 1) 3"
  "bit c 3 \<Longrightarrow> bit ((c AND NOT I2C_C1_RSTA_MASK) OR I2C_C1_RSTA 1) 3"
  by (simp_all add: i2c_masks I2C_C1_TX_def I2C_C1_TXAK_def I2C_C1_RSTA_def bit_simps
      bit_numeral_rec)

lemma txak_finish: "finish s = Inr (t, cb) \<Longrightarrow> txak_set s \<Longrightarrow> txak_set t"
  by (auto simp: finish_def split: option.splits)

lemma txak_set_C1: "txak_set s \<Longrightarrow> bit (f (reg_C1 (I2C0 s))) 3 \<Longrightarrow> txak_set (set_C1 f s)"
  by (simp add: txak_set_def)

lemma txak_upd [simp]:
  "txak_set (s\<lparr>i2c_com := c\<rparr>) = txak_set s" "txak_set (s\<lparr>mem := m\<rparr>) = txak_set s"
  "txak_set (put_D v s) = txak_set s" "txak_set (acked b s) = txak_set s"
  by (simp_all add: txak_set_def)

lemma txak_C1_ops:
  assumes "txak_set s"
  shows "txak_set (set_C1 clear_MST s)"
    and "txak_set (set_C1 (\<lambda>c. (c AND NOT I2C_C1_TX_MASK) OR I2C_C1_TX 0) s)"
    and "txak_set (set_C1 (\<lambda>c. (c AND NOT I2C_C1_TXAK_MASK) OR I2C_C1_TXAK 1) s)"
    and "txak_set (set_C1 (\<lambda>c. (c AND NOT I2C_C1_RSTA_MASK) OR I2C_C1_RSTA 1) s)"
  using assms by (auto intro!: txak_set_C1 txak_masks simp: clear_MST_bits txak_set_def)

lemma txak_branches:
  assumes "txak_set s"
  shows "isr_tx_done s = Inr (t, cb) \<Longrightarrow> txak_set t"
    and "isr_tx_next s = Inr (t, cb) \<Longrightarrow> txak_set t"
    and "isr_rx s = Inr (t, cb) \<Longrightarrow> txak_set t"
proof -
  note ops = txak_C1_ops [OF assms] txak_C1_ops [OF txak_C1_ops(2) [OF assms]]
  show "isr_tx_done s = Inr (t, cb) \<Longrightarrow> txak_set t"
    using assms ops
    by (auto simp: isr_tx_done_def Let_def dest!: txak_finish split: if_splits)
  show "isr_tx_next s = Inr (t, cb) \<Longrightarrow> txak_set t"
    using assms ops by (auto simp: isr_tx_next_def Let_def bindR_eq_Inr_iff split: if_splits)
  show "isr_rx s = Inr (t, cb) \<Longrightarrow> txak_set t"
    using assms ops
    by (auto simp: isr_rx_def Let_def bindR_eq_Inr_iff dest!: txak_finish split: if_splits)
qed

lemma txak_do:
  assumes "txak_set s" and "i2c_do op (s, cbs) = Inr (t, cbs')"
  shows "txak_set t"
proof (cases op)
  case (Op_Byte b)
  with assms(2) obtain cb where "I2C_ISR_FSM (byte_done b s) = Inr (t, cb)"
    by (auto simp: i2c_irq_def bindR_eq_Inr_iff)
  with txak_branches [of "acked b s"] assms(1) show ?thesis
    by (auto simp: isr_on_byte split: if_splits)
qed (use assms in \<open>auto simp: txak_set_def I2C_get_State_def I2C_End_Routine_def I2C_Init_def Let_def\<close>)

section \<open>Properties\<close>

text \<open>C29: A write transfer of \<open>n\<close> bytes: after the address the driver puts exactly the first
  \<open>n\<close> bytes of the queue on the bus, in order, one per interrupt; the transfer is pending
  until then, and the next interrupt releases the bus, reports the end and calls the end routine
  once. The memory is not changed.\<close>

theorem i2c_write_transfer:
  assumes "mem s a = Some xs" and "unat n \<le> length xs" and "end_routine (i2c_com s) = Some c"
    and "length bs = unat n"
  shows "\<exists>u t. i2c_run bs (I2C_Communication_Config False addr (Some a) r n 0 s) = Inr (u, []) \<and>
    com_state (i2c_com u) = I2C_COM_CONFIG \<and>
    D_tx (I2C0 u) = D_tx (I2C0 s) @ ucast (push_bit 1 addr) # take (unat n) xs \<and>
    i2c_irq b (u, []) = Inr (t, [c]) \<and> com_state (i2c_com t) = I2C_END \<and>
    D_tx (I2C0 t) = D_tx (I2C0 u) \<and> \<not> bit (reg_C1 (I2C0 t)) 5 \<and> mem t = mem s"
proof -
  let ?s = "I2C_Communication_Config False addr (Some a) r n 0 s"
  obtain u where u: "foldR i2c_irq bs (?s, []) = Inr (u, [])" "mem u = mem s"
      "reg_C1 (I2C0 u) = reg_C1 (I2C0 ?s)" "D_tx (I2C0 u) = D_tx (I2C0 ?s) @ take (length bs) xs"
      "i2c_com u = (i2c_com ?s)\<lparr>writing_byte_counter := of_nat (length bs)\<rparr>"
    using tx_phase [of ?s a xs bs "[]"] assms by auto
  have "\<exists>t. i2c_irq b (u, []) = Inr (t, [] @ [c]) \<and> mem t = mem u \<and>
    reg_C1 (I2C0 t) = clear_MST (reg_C1 (I2C0 u)) \<and> D_tx (I2C0 t) = D_tx (I2C0 u) \<and>
    i2c_com t = (i2c_com u)\<lparr>com_state := I2C_END\<rparr>"
    by (rule irq_tx_end) (use u assms in simp_all)
  with u show ?thesis using assms by (auto simp: i2c_run_def clear_MST_bits)
qed

lemma i2c_state_eq:
  "mem s a = Some xs \<Longrightarrow> (mem s)(a \<mapsto> xs) = mem s"
  by (simp add: fun_upd_idem)

text \<open>The bytes that go out in a transfer that writes \<open>n\<close> bytes and then reads.\<close>

lemma rstart_phase:
  assumes "mem s a = Some xs" and "unat n \<le> length xs" and "m \<noteq> 0" and "length bs = unat n"
  shows "\<exists>t. foldR i2c_irq (bs @ [d1, d2]) (I2C_Communication_Config False addr (Some a) (Some r) n m s, []) =
      Inr (t, []) \<and> mem t = mem s \<and> \<not> bit (reg_C1 (I2C0 t)) 4 \<and>
    (m = 1 \<longrightarrow> bit (reg_C1 (I2C0 t)) 3) \<and>
    reading_byte_counter (i2c_com t) = 0 \<and> read_queue (i2c_com t) = Some r \<and>
    read_queue_size (i2c_com t) = m \<and> end_routine (i2c_com t) = end_routine (i2c_com s) \<and>
    D_tx (I2C0 t) = D_tx (I2C0 s) @ ucast (push_bit 1 addr) # take (unat n) xs @
      [ucast (push_bit 1 (addr AND 0x7F) OR 1)]"
proof -
  let ?s = "I2C_Communication_Config False addr (Some a) (Some r) n m s"
  obtain u where u: "foldR i2c_irq bs (?s, []) = Inr (u, [])" "mem u = mem s"
      "reg_C1 (I2C0 u) = reg_C1 (I2C0 ?s)" "D_tx (I2C0 u) = D_tx (I2C0 ?s) @ take (length bs) xs"
      "i2c_com u = (i2c_com ?s)\<lparr>writing_byte_counter := of_nat (length bs)\<rparr>"
    using tx_phase [of ?s a xs bs "[]"] assms by auto
  have tx: "bit (reg_C1 (I2C0 u)) 4" by (simp add: u)
  have full: "writing_byte_counter (i2c_com u) = write_queue_size (i2c_com u)"
    using assms(4) by (simp add: u)
  let ?v = "(put_D (ucast (push_bit 1 (addr AND 0x7F) OR 1))
     (set_C1 (\<lambda>c. (c AND NOT I2C_C1_RSTA_MASK) OR I2C_C1_RSTA 1) (acked d1 u)))
       \<lparr>i2c_com := (i2c_com u)\<lparr>readnotwrite := True\<rparr>\<rparr>"
  have v: "i2c_irq d1 (u, []) = Inr (?v, [])"
    using tx full assms(3)
    by (simp add: i2c_irq_def isr_on_byte isr_tx_done_def ALEX_DEBUG_def Let_def u(5))
  have "\<exists>t. i2c_irq d2 (?v, []) = Inr (t, []) \<and> mem t = mem ?v \<and>
    D_tx (I2C0 t) = D_tx (I2C0 ?v) \<and> i2c_com t = i2c_com ?v \<and> \<not> bit (reg_C1 (I2C0 t)) 4 \<and>
    bit (reg_C1 (I2C0 t)) 5 = bit (reg_C1 (I2C0 ?v)) 5 \<and>
    (read_queue_size (i2c_com ?v) = 1 \<longrightarrow> bit (reg_C1 (I2C0 t)) 3)"
  proof (rule irq_tx_to_rx)
    show "bit (reg_C1 (I2C0 ?v)) 4"
      using tx by (simp add: i2c_masks I2C_C1_RSTA_def bit_simps bit_numeral_rec)
    show "writing_byte_counter (i2c_com ?v) = write_queue_size (i2c_com ?v)" using full by simp
    show "read_queue_size (i2c_com ?v) \<noteq> 0" using assms(3) by (simp add: u(5))
  qed simp
  then obtain t where t: "i2c_irq d2 (?v, []) = Inr (t, [])" "mem t = mem s"
      "D_tx (I2C0 t) = D_tx (I2C0 u) @ [ucast (push_bit 1 (addr AND 0x7F) OR 1)]"
      "i2c_com t = (i2c_com u)\<lparr>readnotwrite := True\<rparr>" "\<not> bit (reg_C1 (I2C0 t)) 4"
      "m = 1 \<longrightarrow> bit (reg_C1 (I2C0 t)) 3"
    by (auto simp: u)
  have "foldR i2c_irq (bs @ [d1, d2]) (?s, []) = Inr (t, [])"
    by (simp only: foldR_append foldR.simps bindR.simps u(1) v t(1))
  then show ?thesis using t u assms(4) by (intro exI [of _ t]) simp
qed

text \<open>A register read writes \<open>n\<close> bytes, addresses the device again for reading and takes in
  \<open>m\<close> bytes. All but the last land at their places in the caller's array and the end of
  transmission is announced to the device before the last byte; but the last byte is stored one
  place too far, behind the \<open>m\<close> places of the queue: an array of exactly \<open>m\<close> bytes is
  overrun, in a longer one the place of the last byte keeps its old value.\<close>

theorem i2c_register_read:
  assumes "mem s a = Some xs" and "unat n \<le> length xs" and "m \<noteq> 0" and "length bs = unat n"
    and "mem s r = Some ys" and "unat m \<le> length ys" and "end_routine (i2c_com s) = Some c"
    and "Suc (length ds) = unat m"
  shows "\<exists>u. i2c_run (bs @ [d1, d2] @ ds)
      (I2C_Communication_Config False addr (Some a) (Some r) n m s) = Inr (u, []) \<and>
    D_tx (I2C0 u) = D_tx (I2C0 s) @ ucast (push_bit 1 addr) # take (unat n) xs @
      [ucast (push_bit 1 (addr AND 0x7F) OR 1)] \<and>
    bit (reg_C1 (I2C0 u)) 3 \<and> mem u r = Some (ds @ drop (length ds) ys) \<and>
    (if unat m < length ys
     then \<exists>t. i2c_irq d (u, []) = Inr (t, [c]) \<and> com_state (i2c_com t) = I2C_END \<and>
       mem t r = Some (ds @ [ys ! length ds, d] @ drop (Suc (unat m)) ys)
     else i2c_irq d (u, []) = Inl Out_Of_Bounds)"
proof -
  let ?s = "I2C_Communication_Config False addr (Some a) (Some r) n m s"
  obtain v where v: "foldR i2c_irq (bs @ [d1, d2]) (?s, []) = Inr (v, [])" "mem v = mem s"
      "\<not> bit (reg_C1 (I2C0 v)) 4" "m = 1 \<longrightarrow> bit (reg_C1 (I2C0 v)) 3"
      "reading_byte_counter (i2c_com v) = 0" "read_queue (i2c_com v) = Some r"
      "read_queue_size (i2c_com v) = m" "end_routine (i2c_com v) = Some c"
      "D_tx (I2C0 v) = D_tx (I2C0 s) @ ucast (push_bit 1 addr) # take (unat n) xs @
      [ucast (push_bit 1 (addr AND 0x7F) OR 1)]"
    using rstart_phase [OF assms(1-4), of d1 d2 addr r] assms(7) by auto
  have "\<exists>u. foldR i2c_irq ds (v, []) = Inr (u, []) \<and>
    mem u = (mem v)(r \<mapsto> ds @ drop (length ds) ys) \<and> D_tx (I2C0 u) = D_tx (I2C0 v) \<and>
    i2c_com u = (i2c_com v)\<lparr>reading_byte_counter := of_nat (length ds)\<rparr> \<and>
    \<not> bit (reg_C1 (I2C0 u)) 4 \<and>
    (length ds \<noteq> 0 \<and> Suc (length ds) = unat (read_queue_size (i2c_com v)) \<longrightarrow> bit (reg_C1 (I2C0 u)) 3)"
    by (rule rx_phase) (use v assms in simp_all)
  then obtain u where u: "foldR i2c_irq ds (v, []) = Inr (u, [])"
      "mem u = (mem v)(r \<mapsto> ds @ drop (length ds) ys)" "D_tx (I2C0 u) = D_tx (I2C0 v)"
      "i2c_com u = (i2c_com v)\<lparr>reading_byte_counter := of_nat (length ds)\<rparr>"
      "\<not> bit (reg_C1 (I2C0 u)) 4" "length ds \<noteq> 0 \<longrightarrow> bit (reg_C1 (I2C0 u)) 3"
    using v(7) assms(8) by auto
  have nack: "bit (reg_C1 (I2C0 u)) 3"
  proof (cases "length ds = 0")
    case True
    with assms(8) have "m = 1" by (simp add: word_unat_eq_iff)
    with v True u(1) show ?thesis by simp
  qed (use u in simp)
  have cnt: "unat (of_nat (length ds) :: u8) = length ds"
    using assms(8) unat_u8_lt [of m] by (simp add: unat_of_nat)
  let ?zs = "ds @ drop (length ds) ys"
  have last: "if unat (read_queue_size (i2c_com u)) < length ?zs
    then \<exists>t. i2c_irq d (u, []) = Inr (t, [] @ [c]) \<and>
      mem t = (mem u)(r \<mapsto> ?zs[unat (read_queue_size (i2c_com u)) := d]) \<and>
      com_state (i2c_com t) = I2C_END \<and> reg_C1 (I2C0 t) = clear_MST (reg_C1 (I2C0 u)) \<and>
      D_tx (I2C0 t) = D_tx (I2C0 u)
    else i2c_irq d (u, []) = Inl Out_Of_Bounds"
    by (rule irq_rx_last) (use u v assms cnt in simp_all)
  have shape: "?zs[unat m := d] = ds @ [ys ! length ds, d] @ drop (Suc (unat m)) ys"
    if "unat m < length ys"
  proof -
    have k: "length ds < length ys" "Suc (length ds) < length ys" using that assms(8) by simp_all
    have "drop (length ds) ys =
        ys ! length ds # ys ! Suc (length ds) # drop (Suc (Suc (length ds))) ys"
      using Cons_nth_drop_Suc [OF k(1)] Cons_nth_drop_Suc [OF k(2)] by simp
    then show ?thesis unfolding assms(8) [symmetric] by (simp add: list_update_append)
  qed
  have run: "i2c_run (bs @ [d1, d2] @ ds) ?s = Inr (u, [])"
    using foldR_append [of i2c_irq "bs @ [d1, d2]" ds "(?s, [])"] v(1) u(1)
    by (simp add: i2c_run_def)
  have memu: "mem u r = Some ?zs" using u(2) by simp
  have sz: "unat (read_queue_size (i2c_com u)) = unat m" using u(4) v(7) by simp
  have len: "length ?zs = length ys" using assms(6,8) by simp
  show ?thesis
  proof (cases "unat m < length ys")
    case True
    with last sz len obtain t where "i2c_irq d (u, []) = Inr (t, [c])"
        "mem t = (mem u)(r \<mapsto> ?zs[unat m := d])" "com_state (i2c_com t) = I2C_END"
      by fastforce
    with True shape [OF True] show ?thesis
      using run memu nack u(3) v(9) by (intro exI [of _ u]) simp
  next
    case False
    with last sz len have "i2c_irq d (u, []) = Inl Out_Of_Bounds" by simp
    with False show ?thesis
      using run memu nack u(3) v(9) by (intro exI [of _ u]) simp
  qed
qed

text \<open>The acknowledge control is set to "no acknowledge" at the end of the first read
  transfer and no operation of the driver ever clears it again: once set it stays set through
  every further transfer, so a later read of several bytes refuses all of them from the first.\<close>

theorem i2c_txak_sticks:
  assumes "i2c_inited s" and "bit (reg_C1 (I2C0 s)) 3" and "foldR i2c_do ops (s, cbs) = Inr (t, cbs')"
  shows "bit (reg_C1 (I2C0 t)) 3"
proof -
  have "txak_set (fst (t, cbs'))"
    by (rule foldR_invariant [OF assms(3), where P = "\<lambda>u. txak_set (fst u)"])
       (use assms txak_do in \<open>auto simp: txak_set_def [of s]\<close>)
  then show ?thesis by (simp add: txak_set_def)
qed

section \<open>Witnesses\<close>

definition i2c_idle :: "store \<Rightarrow> u8 \<Rightarrow> nat i2c_state" where
  "i2c_idle m c1 = \<lparr>i2c_com = \<lparr>com_state = I2C_IDLE, readnotwrite = False, slave_address = 0,
       write_queue = None, read_queue = None, write_queue_size = 0, read_queue_size = 0,
       writing_byte_counter = 0, reading_byte_counter = 0, end_routine = Some 7\<rparr>,
     I2C0 = \<lparr>reg_C1 = c1, reg_S = 0, reg_F = 0, reg_FLT = 0, D_rx = 0, D_tx = []\<rparr>,
     mem = m, i2c_inited = True, SIM_SCGC4 = 0, SIM_SCGC5 = 0, PCR_SDA = 0, PCR_SCL = 0,
     I2C0_irq = True\<rparr>"

lemma i2c_idle_simps [simp]:
  "mem (i2c_idle m c1) = m" "end_routine (i2c_com (i2c_idle m c1)) = Some 7"
  "D_tx (I2C0 (i2c_idle m c1)) = []" "reg_C1 (I2C0 (i2c_idle m c1)) = c1"
  "i2c_inited (i2c_idle m c1)"
  by (simp_all add: i2c_idle_def)

lemma i2c_write_transfer_witness:
  "\<exists>u t. i2c_run [0, 0] (I2C_Communication_Config False 0x21 (Some 1) None 2 0
        (i2c_idle [1 \<mapsto> [0x11, 0x0F]] 0x80)) = Inr (u, []) \<and>
     D_tx (I2C0 u) = [0x42, 0x11, 0x0F] \<and>
     i2c_irq 0 (u, []) = Inr (t, [7]) \<and> com_state (i2c_com t) = I2C_END"
  using i2c_write_transfer [of "i2c_idle [1 \<mapsto> [0x11, 0x0F]] 0x80" 1 "[0x11, 0x0F]" 2 7 "[0, 0]"
      "0x21" None 0] by auto

lemma i2c_register_read_witness:
  "\<exists>u. i2c_run ([0] @ [0, 0] @ []) (I2C_Communication_Config False 0x21 (Some 1) (Some 2) 1 1
        (i2c_idle [1 \<mapsto> [0x0A], 2 \<mapsto> [0]] 0x80)) = Inr (u, []) \<and>
     i2c_irq 0x76 (u, []) = Inl Out_Of_Bounds"
  using i2c_register_read [of "i2c_idle [1 \<mapsto> [0x0A], 2 \<mapsto> [0]] 0x80" 1 "[0x0A]" 1 1 "[0]" 2 "[0]" 7
      "[]" 0 0 "0x21" "0x76"] by auto

lemma i2c_txak_sticks_witness:
  "\<exists>t. foldR i2c_do [Op_Config True 0x21 None (Some 2) 0 2, Op_Byte 0]
       (i2c_idle [2 \<mapsto> [0, 0]] 0x88, []) = Inr (t, []) \<and> bit (reg_C1 (I2C0 t)) 3"
proof -
  let ?s = "i2c_idle [2 \<mapsto> [0, 0]] 0x88"
  let ?ops = "[Op_Config True 0x21 None (Some 2) 0 2, Op_Byte 0]"
  have "\<exists>t. foldR i2c_do ?ops (?s, []) = Inr (t, [])"
    using irq_tx_to_rx [of "I2C_Communication_Config True 0x21 None (Some 2) 0 2 ?s" 0 "[]"] by auto
  then obtain t where t: "foldR i2c_do ?ops (?s, []) = Inr (t, [])" by blast
  with i2c_txak_sticks [OF _ _ t] show ?thesis by (auto simp: bit_numeral_rec)
qed

end
