(* ===== verification/Timer.thy ===== *)
theory Timer
  imports C_Prelude
begin

text \<open>
  The software timers, \<^verbatim>\<open>source/timer.c\<close>: sixteen timers counted down by the tick of the
  operating system. A callback is a function pointer: callbacks are values of a type \<open>'c\<close>, and
  \<open>run_cb\<close>, a parameter, is what calling one does to the timers and to the rest of the
  system, \<open>'w\<close>. The tick also advances the clock of the network stack (\<^verbatim>\<open>time_isr\<close> in
  \<^verbatim>\<open>lwip/port/sys_arch.c\<close>).
\<close>

section \<open>State and services\<close>

datatype tim_mode = TIM_MODE_SINGLESHOT | TIM_MODE_PERIODIC

definition CANT_TIM_MODES :: nat where "CANT_TIM_MODES = 2"

record 'c timer_t =
  period :: u32
  cnt :: u32
  callback :: "'c option"
  mode :: nat
  running :: bool
  expired :: bool

record 'c timers_state =
  timers :: "'c timer_t list"
  timers_cant :: u8
  yaInit :: bool
  tick_hook :: bool
  time_now :: u32

definition TIMERS_MAX_CANT :: nat where "TIMERS_MAX_CANT = 16"

definition TIMER_INVALID_ID :: u8 where "TIMER_INVALID_ID = 255"

definition TIMER_ID_INTERNAL :: u8 where "TIMER_ID_INTERNAL = 0"

primrec mode_index :: "tim_mode \<Rightarrow> nat" where
  "mode_index TIM_MODE_SINGLESHOT = 0"
| "mode_index TIM_MODE_PERIODIC = 1"

definition timer_zero :: "'c timer_t" where
  "timer_zero = \<lparr>period = 0, cnt = 0, callback = None, mode = 0, running = False, expired = False\<rparr>"

definition timers_power_on :: "'c timers_state" where
  "timers_power_on = \<lparr>timers = replicate TIMERS_MAX_CANT timer_zero,
     timers_cant = TIMER_ID_INTERNAL + 1, yaInit = False, tick_hook = False, time_now = 0\<rparr>"

definition upd_timer :: "nat \<Rightarrow> ('c timer_t \<Rightarrow> 'c timer_t) \<Rightarrow> 'c timers_state \<Rightarrow> 'c timers_state" where
  "upd_timer i f s = s\<lparr>timers := (timers s)[i := f (timers s ! i)]\<rparr>"

definition timerInit :: "'c timers_state \<Rightarrow> 'c timers_state" where
  "timerInit s =
     (if yaInit s then s
      else (upd_timer (unat TIMER_ID_INTERNAL) (\<lambda>t. t\<lparr>running := False\<rparr>) s)
             \<lparr>tick_hook := True, yaInit := True\<rparr>)"

definition timerGetId :: "'c timers_state \<Rightarrow> u8 \<times> 'c timers_state" where
  "timerGetId s =
     (if TIMERS_MAX_CANT \<le> unat (timers_cant s) then (TIMER_INVALID_ID, s)
      else (timers_cant s, upd_timer (unat (timers_cant s)) (\<lambda>t. t\<lparr>running := False\<rparr>)
              (s\<lparr>timers_cant := timers_cant s + 1\<rparr>)))"

definition timerStart :: "u8 \<Rightarrow> u32 \<Rightarrow> nat \<Rightarrow> 'c option \<Rightarrow> 'c timers_state \<Rightarrow> 'c timers_state" where
  "timerStart tid ticks md cb s =
     (if tid < timers_cant s \<and> md < CANT_TIM_MODES
      then upd_timer (unat tid) (\<lambda>t. \<lparr>period = ticks, cnt = 0, callback = cb, mode = md,
              running = True, expired = False\<rparr>) s
      else s)"

text \<open>The other services index the array without the guard.\<close>

definition timerStop :: "u8 \<Rightarrow> 'c timers_state \<Rightarrow> 'c timers_state result" where
  "timerStop tid s =
     (if unat tid < length (timers s)
      then Inr (upd_timer (unat tid) (\<lambda>t. t\<lparr>running := False, expired := True\<rparr>) s)
      else Inl Out_Of_Bounds)"

definition timerRunning :: "u8 \<Rightarrow> 'c timers_state \<Rightarrow> bool result" where
  "timerRunning tid s = bindR (rd (timers s) (unat tid)) (\<lambda>t. Inr (running t))"

definition timerExpired :: "u8 \<Rightarrow> 'c timers_state \<Rightarrow> bool result" where
  "timerExpired tid s = bindR (rd (timers s) (unat tid)) (\<lambda>t. Inr (expired t))"

section \<open>The tick\<close>

definition time_isr :: "'c timers_state \<Rightarrow> 'c timers_state" where
  "time_isr s = s\<lparr>time_now := time_now s + 1\<rparr>"

text \<open>
  One round of the loop, for a timer that is running: count, and at the end of the period call
  back, restart the count and, in single-shot mode, stop. The callback may start and stop
  timers, this one included; what it stored is read again afterwards.
\<close>

definition isr_body ::
    "('c \<Rightarrow> 'c timers_state \<times> 'w \<Rightarrow> 'c timers_state \<times> 'w) \<Rightarrow> nat \<Rightarrow>
     'c timers_state \<times> 'w \<Rightarrow> 'c timers_state \<times> 'w" where
  "isr_body run_cb i = (\<lambda>(s, w).
     if \<not> running (timers s ! i) then (s, w)
     else
       let s1 = upd_timer i (\<lambda>t. t\<lparr>cnt := cnt t + 1\<rparr>) s in
       if cnt (timers s1 ! i) < period (timers s1 ! i) then (s1, w)
       else
         let (s2, w2) = (case callback (timers s1 ! i) of
                           Some c \<Rightarrow> run_cb c (s1, w) | None \<Rightarrow> (s1, w));
             s3 = upd_timer i (\<lambda>t. t\<lparr>cnt := 0\<rparr>) s2
         in if mode (timers s3 ! i) = mode_index TIM_MODE_SINGLESHOT
            then (upd_timer i (\<lambda>t. t\<lparr>running := False, expired := True\<rparr>) s3, w2)
            else (s3, w2))"

function isr_loop ::
    "('c \<Rightarrow> 'c timers_state \<times> 'w \<Rightarrow> 'c timers_state \<times> 'w) \<Rightarrow> nat \<Rightarrow>
     'c timers_state \<times> 'w \<Rightarrow> 'c timers_state \<times> 'w" where
  "isr_loop run_cb i sw =
     (if i < unat (timers_cant (fst sw)) \<and> i < TIMERS_MAX_CANT
      then isr_loop run_cb (i + 1) (isr_body run_cb i sw) else sw)"
  by pat_completeness auto
termination by (relation "measure (\<lambda>(r, i, s). TIMERS_MAX_CANT - i)") auto

declare isr_loop.simps [simp del]

definition timer_isr ::
    "('c \<Rightarrow> 'c timers_state \<times> 'w \<Rightarrow> 'c timers_state \<times> 'w) \<Rightarrow>
     'c timers_state \<times> 'w \<Rightarrow> 'c timers_state \<times> 'w" where
  "timer_isr run_cb = (\<lambda>(s, w). isr_loop run_cb 0 (time_isr s, w))"

text \<open>
  \<^verbatim>\<open>timerDelay\<close> starts the internal timer and spins until it has expired; with \<open>k\<close> the
  number of ticks that arrive while it spins, it has returned when the flag is up.
\<close>

definition timerDelay_returned ::
    "('c \<Rightarrow> 'c timers_state \<times> 'w \<Rightarrow> 'c timers_state \<times> 'w) \<Rightarrow> u32 \<Rightarrow> nat \<Rightarrow>
     'c timers_state \<times> 'w \<Rightarrow> bool result" where
  "timerDelay_returned run_cb ticks k = (\<lambda>(s, w).
     timerExpired TIMER_ID_INTERNAL
       (fst ((timer_isr run_cb ^^ k)
         (timerStart TIMER_ID_INTERNAL ticks (mode_index TIM_MODE_SINGLESHOT) None s, w))))"

section \<open>Invariant\<close>

definition timers_inv :: "'c timers_state \<Rightarrow> bool" where
  "timers_inv s \<longleftrightarrow> length (timers s) = TIMERS_MAX_CANT \<and>
     1 \<le> unat (timers_cant s) \<and> unat (timers_cant s) \<le> TIMERS_MAX_CANT"

lemma upd_timer_simps [simp]:
  "length (timers (upd_timer i f s)) = length (timers s)"
  "timers_cant (upd_timer i f s) = timers_cant s"
  "yaInit (upd_timer i f s) = yaInit s" "time_now (upd_timer i f s) = time_now s"
  "i < length (timers s) \<Longrightarrow> timers (upd_timer i f s) ! i = f (timers s ! i)"
  "i \<noteq> j \<Longrightarrow> timers (upd_timer i f s) ! j = timers s ! j"
  by (simp_all add: upd_timer_def)

lemma upd_timer_twice: "upd_timer i f (upd_timer i g s) = upd_timer i (f \<circ> g) s"
  by (cases "i < length (timers s)") (simp_all add: upd_timer_def list_update_beyond)

lemma timers_inv_upd [simp]: "timers_inv (upd_timer i f s) = timers_inv s"
  by (simp add: timers_inv_def)

lemma timers_inv_power_on: "timers_inv timers_power_on"
  by (simp add: timers_inv_def timers_power_on_def TIMERS_MAX_CANT_def TIMER_ID_INTERNAL_def)

lemma timers_inv_services:
  assumes "timers_inv s"
  shows "timers_inv (timerInit s)" and "timers_inv (snd (timerGetId s))"
    and "timers_inv (timerStart tid n md cb s)"
    and "timerStop tid s = Inr t \<Longrightarrow> timers_inv t"
proof -
  show "timers_inv (timerInit s)"
    using assms by (simp add: timerInit_def timers_inv_def)
  show "timers_inv (timerStart tid n md cb s)" using assms by (simp add: timerStart_def)
  show "timerStop tid s = Inr t \<Longrightarrow> timers_inv t"
    using assms by (auto simp: timerStop_def split: if_splits)
  show "timers_inv (snd (timerGetId s))"
  proof (cases "TIMERS_MAX_CANT \<le> unat (timers_cant s)")
    case False
    then have "unat (timers_cant s + 1) = unat (timers_cant s) + 1"
      by (simp add: TIMERS_MAX_CANT_def unat_word_ariths)
    with False assms show ?thesis by (simp add: timerGetId_def timers_inv_def)
  qed (use assms in \<open>simp add: timerGetId_def\<close>)
qed

interpretation timer_init: init_once timerInit yaInit
  by unfold_locales (simp_all add: timerInit_def)

section \<open>One timer on its own\<close>

text \<open>
  What a tick does to one timer when the callbacks leave the timers alone, and which callbacks
  it runs. The loop over the array is shown to do exactly this to every allocated timer.
\<close>

definition due :: "'c timer_t \<Rightarrow> bool" where
  "due t \<longleftrightarrow> running t \<and> period t \<le> cnt t + 1"

definition tick_timer :: "'c timer_t \<Rightarrow> 'c timer_t" where
  "tick_timer t =
     (if \<not> running t then t
      else if \<not> due t then t\<lparr>cnt := cnt t + 1\<rparr>
      else if mode t = mode_index TIM_MODE_SINGLESHOT
      then t\<lparr>cnt := 0, running := False, expired := True\<rparr> else t\<lparr>cnt := 0\<rparr>)"

definition due_callbacks :: "'c timer_t list \<Rightarrow> 'c list" where
  "due_callbacks ts = concat (map (\<lambda>t. if due t then (case callback t of Some c \<Rightarrow> [c] | None \<Rightarrow> [])
     else []) ts)"

definition quiet_cb :: "('c \<Rightarrow> 'w \<Rightarrow> 'w) \<Rightarrow> 'c \<Rightarrow> 'c timers_state \<times> 'w \<Rightarrow> 'c timers_state \<times> 'w" where
  "quiet_cb g c = (\<lambda>(s, w). (s, g c w))"

lemma isr_body_quiet:
  assumes "i < length (timers s)"
  shows "isr_body (quiet_cb g) i (s, w)
    = (upd_timer i tick_timer s, fold g (due_callbacks [timers s ! i]) w)"
proof -
  have id: "upd_timer i (\<lambda>t. t) s = s" by (simp add: upd_timer_def)
  have same: "upd_timer i f s = upd_timer i g s" if "f (timers s ! i) = g (timers s ! i)" for f g
    using that by (simp add: upd_timer_def)
  show ?thesis
  proof (cases "running (timers s ! i)")
    case False
    then show ?thesis
      using same [of tick_timer "\<lambda>t. t"] id
      by (simp add: isr_body_def due_callbacks_def due_def tick_timer_def)
  next
    case run: True
    show ?thesis
    proof (cases "due (timers s ! i)")
      case False
      then have "cnt (timers s ! i) + 1 < period (timers s ! i)" using run by (simp add: due_def)
      with run False assms same [of tick_timer "\<lambda>t. t\<lparr>cnt := cnt t + 1\<rparr>"] show ?thesis
        by (simp add: isr_body_def due_callbacks_def tick_timer_def Let_def)
    next
      case True
      then have "\<not> cnt (timers s ! i) + 1 < period (timers s ! i)" by (simp add: due_def not_less)
      with run True assms show ?thesis
        by (cases "callback (timers s ! i)")
          (auto simp: isr_body_def due_callbacks_def tick_timer_def Let_def quiet_cb_def
            upd_timer_twice comp_def intro!: same)
    qed
  qed
qed

lemma isr_loop_quiet:
  assumes "i \<le> n" and "n = unat (timers_cant s)" and "n \<le> TIMERS_MAX_CANT"
    and "length (timers s) = TIMERS_MAX_CANT"
  shows "isr_loop (quiet_cb g) i (s, w)
    = (s\<lparr>timers := take i (timers s) @ map tick_timer (take (n - i) (drop i (timers s)))
          @ drop n (timers s)\<rparr>,
       fold g (due_callbacks (take (n - i) (drop i (timers s)))) w)"
  using assms
proof (induction "n - i" arbitrary: i s w)
  case 0
  then show ?case by (subst isr_loop.simps) (simp add: due_callbacks_def)
next
  case (Suc d)
  let ?u = "upd_timer i tick_timer s" and ?ts = "timers s"
  have i: "i < n" "i < length ?ts" using Suc by auto
  have split: "take (n - i) (drop i ?ts) = ?ts ! i # take (n - Suc i) (drop (Suc i) ?ts)"
    using i by (metis Cons_nth_drop_Suc Suc_diff_Suc take_Suc_Cons)
  have drop: "drop (Suc i) (timers ?u) = drop (Suc i) ?ts" "drop n (timers ?u) = drop n ?ts"
    and take: "take (Suc i) (timers ?u) = take i ?ts @ [tick_timer (?ts ! i)]"
    using i by (simp_all add: upd_timer_def take_Suc_conv_app_nth)
  have "isr_loop (quiet_cb g) i (s, w)
      = isr_loop (quiet_cb g) (Suc i) (?u, fold g (due_callbacks [?ts ! i]) w)"
    using i Suc.prems by (subst isr_loop.simps) (simp add: isr_body_quiet)
  also have "\<dots> = (?u\<lparr>timers := take (Suc i) (timers ?u)
        @ map tick_timer (take (n - Suc i) (drop (Suc i) (timers ?u))) @ drop n (timers ?u)\<rparr>,
      fold g (due_callbacks (take (n - Suc i) (drop (Suc i) (timers ?u))))
        (fold g (due_callbacks [?ts ! i]) w))"
    by (rule Suc.hyps(1)) (use Suc i in simp_all)
  also have "\<dots> = (s\<lparr>timers := take i ?ts @ map tick_timer (take (n - i) (drop i ?ts)) @ drop n ?ts\<rparr>,
      fold g (due_callbacks (take (n - i) (drop i ?ts))) w)"
    unfolding drop take split by (simp add: upd_timer_def due_callbacks_def)
  finally show ?case .
qed

lemma timer_isr_quiet:
  assumes "timers_inv s"
  shows "timer_isr (quiet_cb g) (s, w) =
    (let n = unat (timers_cant s) in
     (s\<lparr>time_now := time_now s + 1,
        timers := map tick_timer (take n (timers s)) @ drop n (timers s)\<rparr>,
      fold g (due_callbacks (take n (timers s))) w))"
proof -
  let ?n = "unat (timers_cant s)" and ?s = "time_isr s"
  have "isr_loop (quiet_cb g) 0 (?s, w)
    = (?s\<lparr>timers := take 0 (timers ?s) @ map tick_timer (take (?n - 0) (drop 0 (timers ?s)))
          @ drop ?n (timers ?s)\<rparr>,
       fold g (due_callbacks (take (?n - 0) (drop 0 (timers ?s)))) w)"
    by (rule isr_loop_quiet) (use assms in \<open>auto simp: timers_inv_def time_isr_def\<close>)
  then show ?thesis by (simp add: timer_isr_def time_isr_def Let_def)
qed

lemma ticks_quiet:
  assumes "timers_inv s" and "j < unat (timers_cant s)"
  shows "timers (fst ((timer_isr (quiet_cb g) ^^ k) (s, w))) ! j = (tick_timer ^^ k) (timers s ! j)
    \<and> timers_inv (fst ((timer_isr (quiet_cb g) ^^ k) (s, w)))
    \<and> timers_cant (fst ((timer_isr (quiet_cb g) ^^ k) (s, w))) = timers_cant s"
proof (induction k)
  case (Suc k)
  obtain u v where uv: "(timer_isr (quiet_cb g) ^^ k) (s, w) = (u, v)" by fastforce
  with Suc have u: "timers_inv u" "timers_cant u = timers_cant s"
    "timers u ! j = (tick_timer ^^ k) (timers s ! j)" by simp_all
  then have "j < length (timers u)" "j < unat (timers_cant u)"
    using assms(2) by (simp_all add: timers_inv_def)
  then show ?case
    using timer_isr_quiet [OF u(1), of g v] u uv by (simp add: Let_def nth_append timers_inv_def)
qed (use assms in simp)

text \<open>A started timer, tick by tick.\<close>

lemma started_single_shot:
  fixes cb :: "'c option"
  defines "t0 \<equiv> \<lambda>n. \<lparr>period = n, cnt = 0, callback = cb, mode = mode_index TIM_MODE_SINGLESHOT,
    running = True, expired = False\<rparr>"
  shows "(tick_timer ^^ k) (t0 n) =
    (if k < max 1 (unat n) then (t0 n)\<lparr>cnt := of_nat k\<rparr>
     else (t0 n)\<lparr>running := False, expired := True\<rparr>)"
proof (induction k)
  case (Suc k)
  show ?case
  proof (cases "k < max 1 (unat n)")
    case True
    then have "Suc k < 2 ^ 32" using unat_u32_lt [of n] by (simp add: max_def split: if_splits)
    then have "unat (of_nat k + 1 :: u32) = Suc k"
      using unat_of_nat_u32 [of "Suc k"] by (simp add: add.commute)
    then have sk: "n \<le> of_nat k + 1 \<longleftrightarrow> unat n \<le> Suc k" by (simp add: word_le_nat_alt)
    have "tick_timer ((t0 n)\<lparr>cnt := of_nat k\<rparr>) =
        (if unat n \<le> Suc k then (t0 n)\<lparr>running := False, expired := True\<rparr>
         else (t0 n)\<lparr>cnt := of_nat (Suc k)\<rparr>)"
      using sk by (simp add: tick_timer_def due_def t0_def add.commute)
    with Suc True show ?thesis by auto
  next
    case False
    with Suc show ?thesis by (auto simp: tick_timer_def t0_def)
  qed
qed (simp add: t0_def)

lemma started_periodic:
  fixes cb :: "'c option"
  defines "t0 \<equiv> \<lambda>n. \<lparr>period = n, cnt = 0, callback = cb, mode = mode_index TIM_MODE_PERIODIC,
    running = True, expired = False\<rparr>"
  assumes n: "0 < n"
  shows "(tick_timer ^^ k) (t0 n) = (t0 n)\<lparr>cnt := of_nat (k mod unat n)\<rparr>"
proof (induction k)
  case (Suc k)
  let ?m = "k mod unat n"
  have pos: "0 < unat n" using n by (simp add: word_less_nat_alt)
  then have lt: "?m < unat n" by simp
  then have "Suc ?m < 2 ^ 32" using unat_u32_lt [of n] by simp
  then have "unat (of_nat ?m + 1 :: u32) = Suc ?m"
    using unat_of_nat_u32 [of "Suc ?m"] by (simp add: add.commute)
  then have sk: "n \<le> of_nat ?m + 1 \<longleftrightarrow> Suc ?m = unat n"
    using lt by (simp only: word_le_nat_alt) linarith
  have "tick_timer ((t0 n)\<lparr>cnt := of_nat ?m\<rparr>) =
      (if Suc ?m = unat n then t0 n else (t0 n)\<lparr>cnt := of_nat (Suc ?m)\<rparr>)"
    using sk by (simp add: tick_timer_def due_def t0_def add.commute)
  moreover have "Suc k mod unat n = (if Suc ?m = unat n then 0 else Suc ?m)"
    by (simp add: mod_Suc)
  ultimately show ?case using Suc by (simp add: t0_def)
qed (simp add: t0_def)

lemma timer_after_start:
  assumes "timers_inv s" and "tid < timers_cant s"
  shows "timers (timerStart tid n (mode_index m) cb s) ! unat tid =
      \<lparr>period = n, cnt = 0, callback = cb, mode = mode_index m, running = True, expired = False\<rparr>"
    and "unat tid < length (timers s)" and "unat tid < unat (timers_cant s)"
proof -
  show lt: "unat tid < unat (timers_cant s)" using assms(2) by (simp add: word_less_nat_alt)
  then show len: "unat tid < length (timers s)" using assms(1) by (simp add: timers_inv_def)
  show "timers (timerStart tid n (mode_index m) cb s) ! unat tid =
      \<lparr>period = n, cnt = 0, callback = cb, mode = mode_index m, running = True, expired = False\<rparr>"
    using assms(2) len by (cases m) (simp_all add: timerStart_def CANT_TIM_MODES_def)
qed

lemma ticks_after_start:
  fixes g :: "'c \<Rightarrow> 'w \<Rightarrow> 'w" and cb :: "'c option" and w :: 'w and n :: u32 and m :: tim_mode
  assumes "timers_inv s" and "tid < timers_cant s"
  defines "u \<equiv> \<lambda>k. fst ((timer_isr (quiet_cb g) ^^ k) (timerStart tid n (mode_index m) cb s, w))"
  shows "timers (u k) ! unat tid = (tick_timer ^^ k) \<lparr>period = n, cnt = 0, callback = cb,
      mode = mode_index m, running = True, expired = False\<rparr>"
    and "unat tid < length (timers (u k))"
proof -
  let ?s = "timerStart tid n (mode_index m) cb s"
  have "timers_inv ?s" by (rule timers_inv_services(3) [OF assms(1)])
  moreover have "timers_cant ?s = timers_cant s" by (simp add: timerStart_def)
  ultimately have "timers (u k) ! unat tid = (tick_timer ^^ k) (timers ?s ! unat tid)
      \<and> timers_inv (u k) \<and> timers_cant (u k) = timers_cant ?s"
    unfolding u_def using ticks_quiet [of ?s "unat tid"] timer_after_start(3) [OF assms(1,2)] by simp
  then show "timers (u k) ! unat tid = (tick_timer ^^ k) \<lparr>period = n, cnt = 0, callback = cb,
      mode = mode_index m, running = True, expired = False\<rparr>"
    and "unat tid < length (timers (u k))"
    using timer_after_start(1) [OF assms(1,2), of n m cb] timer_after_start(2,3) [OF assms(1,2)] assms(1)
    by (simp_all add: timers_inv_def)
qed

lemma isr_loop_skip:
  assumes "\<forall>j. i \<le> j \<and> j < unat (timers_cant s) \<and> j \<noteq> t \<longrightarrow> \<not> running (timers s ! j)"
    and "i \<le> t" "t < unat (timers_cant s)" "t < TIMERS_MAX_CANT"
  shows "isr_loop run_cb i (s, w) = isr_loop run_cb t (s, w)"
  using assms
proof (induction "t - i" arbitrary: i)
  case (Suc d)
  then have "isr_loop run_cb i (s, w) = isr_loop run_cb (Suc i) (s, w)"
    by (subst isr_loop.simps) (simp add: isr_body_def)
  also have "\<dots> = isr_loop run_cb t (s, w)" by (rule Suc.hyps(1)) (use Suc in auto)
  finally show ?case .
qed simp

lemma isr_loop_idle:
  assumes "\<forall>j. i \<le> j \<and> j < unat (timers_cant s) \<longrightarrow> \<not> running (timers s ! j)"
  shows "isr_loop run_cb i (s, w) = (s, w)"
  using assms
proof (induction "TIMERS_MAX_CANT - i" arbitrary: i)
  case 0
  then show ?case by (subst isr_loop.simps) simp
next
  case (Suc d)
  show ?case
  proof (cases "i < unat (timers_cant s)")
    case True
    with Suc have "isr_loop run_cb i (s, w) = isr_loop run_cb (Suc i) (s, w)"
      by (subst isr_loop.simps) (simp add: isr_body_def)
    also have "\<dots> = (s, w)" by (rule Suc.hyps(1)) (use Suc in auto)
    finally show ?thesis .
  qed (subst isr_loop.simps, simp)
qed

section \<open>Properties\<close>

text \<open>C5: the tick refines a tick of every allocated timer on its own. When the callbacks leave
  the timers alone, one interrupt advances each allocated timer by \<open>tick_timer\<close>, leaves the
  others untouched, runs exactly the callbacks of the timers that are due, in the order of their
  numbers, and advances the clock of the network stack.\<close>

theorem timer_tick_refines:
  assumes "timers_inv s"
  shows "timer_isr (quiet_cb g) (s, w) =
    (let n = unat (timers_cant s) in
     (s\<lparr>time_now := time_now s + 1,
        timers := map tick_timer (take n (timers s)) @ drop n (timers s)\<rparr>,
      fold g (due_callbacks (take n (timers s))) w))"
  by (rule timer_isr_quiet [OF assms])

theorem timer_tick_refines_witness:
  "timers_cant (fst (timer_isr (quiet_cb (\<lambda>c w. c # w)) (timers_power_on :: nat timers_state, [])))
     = TIMER_ID_INTERNAL + 1"
  using timer_tick_refines [OF timers_inv_power_on, where g = "\<lambda>c w. c # w" and w = "[] :: nat list"]
  by (simp add: Let_def timers_power_on_def)

text \<open>a single-shot timer expires after exactly its period, at the first tick when the period
  is zero: before that it runs, from then on it is stopped and reported as expired.\<close>

theorem timer_single_shot_expires:
  assumes "timers_inv s" and "tid < timers_cant s"
  shows "let t = fst ((timer_isr (quiet_cb g) ^^ k)
             (timerStart tid n (mode_index TIM_MODE_SINGLESHOT) cb s, w)) in
    timerExpired tid t = Inr (max 1 (unat n) \<le> k) \<and> timerRunning tid t = Inr (k < max 1 (unat n))"
  using ticks_after_start [OF assms, where m = TIM_MODE_SINGLESHOT, of k g n cb w]
  by (cases "k < max 1 (unat n)")
    (simp_all add: Let_def timerExpired_def timerRunning_def rd_def started_single_shot max_def
      del: mode_index.simps)

theorem timer_single_shot_expires_witness:
  "timerExpired 0 (fst ((timer_isr (quiet_cb (\<lambda>c w. w)) ^^ 3000)
     (timerStart 0 3000 (mode_index TIM_MODE_SINGLESHOT) None (timers_power_on :: nat timers_state), ())))
     = Inr True"
proof -
  have "(0 :: u8) < timers_cant (timers_power_on :: nat timers_state)"
    by (simp add: timers_power_on_def TIMER_ID_INTERNAL_def)
  from timer_single_shot_expires [OF timers_inv_power_on this,
      where k = 3000 and g = "\<lambda>c w. w" and n = 3000 and cb = None and w = "()"]
  show ?thesis by (simp add: Let_def)
qed

text \<open>a periodic timer is due at every multiple of its period and at no other tick, and never
  stops by itself.\<close>

theorem timer_periodic_fires:
  assumes "timers_inv s" and "tid < timers_cant s" and "0 < n"
  shows "let t = fst ((timer_isr (quiet_cb g) ^^ k)
             (timerStart tid n (mode_index TIM_MODE_PERIODIC) cb s, w)) in
    (due (timers t ! unat tid) \<longleftrightarrow> Suc k mod unat n = 0) \<and> timerRunning tid t = Inr True"
proof -
  let ?m = "k mod unat n"
  have lt: "?m < unat n" using assms(3) by (simp add: word_less_nat_alt)
  then have "Suc ?m < 2 ^ 32" using unat_u32_lt [of n] by simp
  then have "unat (of_nat ?m + 1 :: u32) = Suc ?m"
    using unat_of_nat_u32 [of "Suc ?m"] by (simp add: add.commute)
  then have "n \<le> of_nat ?m + 1 \<longleftrightarrow> Suc k mod unat n = 0"
    using lt by (simp add: word_le_nat_alt mod_Suc)
  then show ?thesis
    using ticks_after_start [OF assms(1,2), where m = TIM_MODE_PERIODIC, of k g n cb w]
    by (simp add: Let_def timerRunning_def rd_def started_periodic [OF assms(3)] due_def
        del: mode_index.simps)
qed

theorem timer_periodic_fires_witness:
  "due (timers (fst ((timer_isr (quiet_cb (\<lambda>c w. w)) ^^ 19)
     (timerStart 0 5 (mode_index TIM_MODE_PERIODIC) None (timers_power_on :: nat timers_state), ()))) ! 0)"
proof -
  have "(0 :: u8) < timers_cant (timers_power_on :: nat timers_state)"
    by (simp add: timers_power_on_def TIMER_ID_INTERNAL_def)
  from timer_periodic_fires [OF timers_inv_power_on this, where n = 5 and k = 19 and g = "\<lambda>c w. w"
      and cb = None and w = "()"]
  show ?thesis by (simp add: Let_def)
qed

text \<open>a single-shot timer cannot be restarted from its own callback. The handler stops the
  timer after the callback has returned, so the restart is lost and the timer stays expired.\<close>

theorem timer_restart_lost:
  assumes "timers_inv s" and "tid < timers_cant s"
    and "due (timers s ! unat tid)" and "callback (timers s ! unat tid) = Some c"
    and "\<forall>j. j < unat (timers_cant s) \<and> j \<noteq> unat tid \<longrightarrow> \<not> running (timers s ! j)"
    and "\<And>u v. run_cb c (u, v) =
      (timerStart tid n (mode_index TIM_MODE_SINGLESHOT) (Some c) u, v :: 'w)"
  shows "let t = fst (timer_isr run_cb (s, w)) in
    timerRunning tid t = Inr False \<and> timerExpired tid t = Inr True"
proof -
  let ?i = "unat tid" and ?s = "time_isr s"
  note st = timer_after_start(2,3) [OF assms(1,2)]
  have max: "?i < TIMERS_MAX_CANT" using st assms(1) by (simp add: timers_inv_def)
  have "isr_loop run_cb 0 (?s, w) = isr_loop run_cb ?i (?s, w)"
    by (rule isr_loop_skip) (use assms(5) st max in \<open>auto simp: time_isr_def\<close>)
  also have "\<dots> = isr_loop run_cb (Suc ?i) (isr_body run_cb ?i (?s, w))"
    using st max by (subst isr_loop.simps) (simp add: time_isr_def)
  finally have loop: "isr_loop run_cb 0 (?s, w) = isr_loop run_cb (Suc ?i) (isr_body run_cb ?i (?s, w))" .
  let ?f = "\<lambda>_. \<lparr>period = n, cnt = 0, callback = Some c, mode = mode_index TIM_MODE_SINGLESHOT,
      running = False, expired = True\<rparr>"
  have "isr_body run_cb ?i (?s, w) = (upd_timer ?i ?f ?s, w)"
    using assms(2,3,4) st
    by (simp add: isr_body_def due_def time_isr_def Let_def not_less [symmetric] assms(6) timerStart_def
        CANT_TIM_MODES_def upd_timer_twice comp_def)
  moreover have "isr_loop run_cb (Suc ?i) (upd_timer ?i ?f ?s, w) = (upd_timer ?i ?f ?s, w)"
    by (rule isr_loop_idle) (use assms(5) st in \<open>auto simp: time_isr_def\<close>)
  ultimately show ?thesis
    using loop st
    by (simp add: timer_isr_def Let_def timerRunning_def timerExpired_def rd_def time_isr_def)
qed

theorem timer_restart_lost_witness:
  "timerRunning 0 (fst (timer_isr (\<lambda>(c :: nat) (u, v). (timerStart 0 7 (mode_index TIM_MODE_SINGLESHOT) (Some c) u, v))
      (timerStart 0 1 (mode_index TIM_MODE_SINGLESHOT) (Some 4) timers_power_on, ()))) = Inr False"
proof -
  let ?p = "timers_power_on :: nat timers_state"
  let ?s = "timerStart 0 1 (mode_index TIM_MODE_SINGLESHOT) (Some (4 :: nat)) ?p"
  have z: "(0 :: u8) < timers_cant ?p" by (simp add: timers_power_on_def TIMER_ID_INTERNAL_def)
  have t: "timers ?s ! 0 = \<lparr>period = 1, cnt = 0, callback = Some 4,
      mode = mode_index TIM_MODE_SINGLESHOT, running = True, expired = False\<rparr>"
    using timer_after_start(1) [OF timers_inv_power_on z, of 1 TIM_MODE_SINGLESHOT "Some 4"] by simp
  have c: "timers_cant ?s = 1"
    by (simp add: timerStart_def timers_power_on_def TIMER_ID_INTERNAL_def)
  have idle: "\<forall>j. j < unat (timers_cant ?s) \<and> j \<noteq> unat (0 :: u8) \<longrightarrow> \<not> running (timers ?s ! j)"
    unfolding c by auto
  have due: "due (timers ?s ! unat (0 :: u8))" "callback (timers ?s ! unat (0 :: u8)) = Some 4"
    and lt: "0 < timers_cant ?s"
    using t c by (simp_all add: due_def)
  show ?thesis
    using timer_restart_lost [OF timers_inv_services(3) [OF timers_inv_power_on] lt due idle,
        where n = 7 and w = "()" and run_cb = "\<lambda>(c :: nat) (u, v).
          (timerStart 0 7 (mode_index TIM_MODE_SINGLESHOT) (Some c) u, v)"]
    by (simp add: Let_def)
qed

text \<open>identifiers. While fewer than sixteen timers are taken, a request yields a number that
  no earlier request got and that \<^verbatim>\<open>timerStart\<close> accepts; when all are taken it yields the
  invalid number, which \<^verbatim>\<open>timerStart\<close> ignores but which makes \<^verbatim>\<open>timerStop\<close>,
  \<^verbatim>\<open>timerRunning\<close> and \<^verbatim>\<open>timerExpired\<close> access the array outside its bounds.\<close>

theorem timer_ids:
  assumes "timers_inv s"
  shows "let (tid, t) = timerGetId s in
    if unat (timers_cant s) < TIMERS_MAX_CANT
    then tid = timers_cant s \<and> tid < timers_cant t \<and> unat tid < length (timers t)
    else tid = TIMER_INVALID_ID \<and> t = s \<and> timerStart tid n md cb s = s
      \<and> timerStop tid s = Inl Out_Of_Bounds \<and> timerRunning tid s = Inl Out_Of_Bounds
      \<and> timerExpired tid s = Inl Out_Of_Bounds"
proof (cases "unat (timers_cant s) < TIMERS_MAX_CANT")
  case True
  then have "unat (timers_cant s + 1) = unat (timers_cant s) + 1"
    by (simp add: TIMERS_MAX_CANT_def unat_word_ariths)
  with True assms show ?thesis by (simp add: timerGetId_def timers_inv_def word_less_nat_alt)
next
  case False
  with assms have "unat (timers_cant s) = 16" "length (timers s) = 16"
    by (simp_all add: timers_inv_def TIMERS_MAX_CANT_def)
  with False show ?thesis
    by (simp add: timerGetId_def timerStart_def timerStop_def timerRunning_def timerExpired_def rd_def
        TIMER_INVALID_ID_def word_less_nat_alt)
qed

theorem timer_ids_witness:
  "fst (timerGetId (timers_power_on :: nat timers_state)) = 1"
  using timer_ids [OF timers_inv_power_on, where n = 0 and md = 0 and cb = "None :: nat option"]
  by (simp add: timers_power_on_def TIMERS_MAX_CANT_def TIMER_ID_INTERNAL_def split: prod.splits)

end
