(* ===== verification/I2C_Fifo.thy ===== *)
theory I2C_Fifo
  imports I2C Timer
begin

unbundle bit_operations_syntax

text \<open>
  The message queue in front of the I2C driver, \<^verbatim>\<open>source/I2C_FIFO_driver.c\<close>: a ring of
  sixteen cells. A periodic timer takes the oldest message out and starts its transfer; the end
  routine of the driver tells the user when nothing is left. The contract of a bounded queue is a
  locale with the ring as its instance; the properties say what goes out on the bus and when.
\<close>

section \<open>State\<close>

record I2C_FIFO_cell =
  cell_rnotw :: bool
  cell_s_addr :: u32
  cell_w_q :: ptr
  cell_r_q :: ptr
  cell_w_q_s :: u8
  cell_r_q_s :: u8

text \<open>The function pointers in play: the two routines of this module and those of its user.\<close>

datatype 'c fn =
    I2C_FIFO_send_next_message_fn
  | I2C_FIFO_end_routine_callback_fn
  | User_fn 'c

definition I2C_FIFO_SIZE :: nat where "I2C_FIFO_SIZE = 16"

record 'c fifo_state =
  I2C_FIFO :: "I2C_FIFO_cell list"
  I2C_FIFO_head :: nat
  I2C_FIFO_tail :: nat
  I2C_FIFO_timer :: u8
  I2C_is_sending_message :: bool
  I2C_FIFO_emptycallback :: "'c fn option"
  fifo_inited :: bool
  fifo_i2c :: "'c fn i2c_state"

section \<open>Operations\<close>

definition I2C_FIFO_is_empty :: "'c fifo_state \<Rightarrow> bool" where
  "I2C_FIFO_is_empty s \<longleftrightarrow> I2C_FIFO_head s = I2C_FIFO_tail s"

definition I2C_FIFO_init ::
    "'c fn timers_state \<times> 'c fifo_state \<Rightarrow> 'c fn timers_state \<times> 'c fifo_state" where
  "I2C_FIFO_init = (\<lambda>(ts, s).
     if fifo_inited s then (ts, s)
     else
       let s1 = s\<lparr>I2C_FIFO_head := 0, I2C_FIFO_tail := 0, I2C_is_sending_message := False\<rparr>;
           (tid, ts2) = timerGetId (timerInit ts);
           s2 = s1\<lparr>I2C_FIFO_timer := tid\<rparr>;
           ts3 = timerStart tid 10 (mode_index TIM_MODE_PERIODIC)
                   (Some I2C_FIFO_send_next_message_fn) ts2;
           s3 = s2\<lparr>fifo_i2c := I2C_End_Routine (Some I2C_FIFO_end_routine_callback_fn)
                     (I2C_Init (fifo_i2c s2))\<rparr>
       in (ts3, s3\<lparr>fifo_inited := True\<rparr>))"

definition wrap_index :: "nat \<Rightarrow> nat" where
  "wrap_index i = (if I2C_FIFO_SIZE \<le> i + 1 then 0 else i + 1)"

definition I2C_FIFO_new_message :: "I2C_FIFO_cell \<Rightarrow> 'c fifo_state \<Rightarrow> 'c fifo_state" where
  "I2C_FIFO_new_message m s =
     (let s1 = s\<lparr>I2C_FIFO := (I2C_FIFO s)[I2C_FIFO_tail s := m]\<rparr>;
          s2 = s1\<lparr>I2C_FIFO_tail := wrap_index (I2C_FIFO_tail s1)\<rparr>
      in if I2C_FIFO_tail s2 = I2C_FIFO_head s2
         then s2\<lparr>I2C_FIFO_head := wrap_index (I2C_FIFO_head s2)\<rparr> else s2)"

definition I2C_FIFO_send_next_message :: "'c fifo_state \<Rightarrow> 'c fifo_state" where
  "I2C_FIFO_send_next_message s =
     (if I2C_FIFO_is_empty s then s
      else
        let m = I2C_FIFO s ! I2C_FIFO_head s;
            s1 = s\<lparr>I2C_is_sending_message := True,
                   fifo_i2c := I2C_Communication_Config (cell_rnotw m) (cell_s_addr m)
                     (cell_w_q m) (cell_r_q m) (cell_w_q_s m) (cell_r_q_s m) (fifo_i2c s)\<rparr>
        in s1\<lparr>I2C_FIFO_head := wrap_index (I2C_FIFO_head s1)\<rparr>)"

definition I2C_FIFO_empty_callback :: "'c fn option \<Rightarrow> 'c fifo_state \<Rightarrow> 'c fifo_state" where
  "I2C_FIFO_empty_callback cb s = s\<lparr>I2C_FIFO_emptycallback := cb\<rparr>"

text \<open>The end routine returns the user's callback when it calls it.\<close>

definition I2C_FIFO_end_routine_callback :: "'c fifo_state \<Rightarrow> 'c fn option" where
  "I2C_FIFO_end_routine_callback s =
     (if I2C_FIFO_is_empty s \<and> I2C_FIFO_emptycallback s \<noteq> None
      then I2C_FIFO_emptycallback s else None)"

text \<open>What calling one of the function pointers from the timer's tick does.\<close>

fun fifo_timer_cb :: "'c fn \<Rightarrow> 'c fifo_state \<Rightarrow> 'c fifo_state" where
  "fifo_timer_cb I2C_FIFO_send_next_message_fn s = I2C_FIFO_send_next_message s"
| "fifo_timer_cb _ s = s"

section \<open>The contract of a bounded queue\<close>

text \<open>
  \<open>put\<close> appends and drops the oldest entry when the queue is full, \<open>pop\<close> removes the oldest
  one. What a sequence of both leaves follows from these laws alone.
\<close>

locale bounded_queue =
  fixes put :: "'m \<Rightarrow> 's \<Rightarrow> 's"
    and pop :: "'s \<Rightarrow> 's"
    and contents :: "'s \<Rightarrow> 'm list"
    and ok :: "'s \<Rightarrow> bool"
    and cap :: nat
  assumes put_ok: "ok s \<Longrightarrow> ok (put m s)"
    and pop_ok: "ok s \<Longrightarrow> ok (pop s)"
    and contents_put: "ok s \<Longrightarrow> contents (put m s) =
      (if length (contents s) = cap then tl (contents s) else contents s) @ [m]"
    and contents_pop: "ok s \<Longrightarrow> contents (pop s) = tl (contents s)"
    and bounded: "ok s \<Longrightarrow> length (contents s) \<le> cap"
    and room: "0 < cap"
begin

lemma puts_ok: "ok s \<Longrightarrow> ok (fold put ms s)"
  by (induction ms arbitrary: s) (simp_all add: put_ok)

lemma pops_ok: "ok s \<Longrightarrow> ok ((pop ^^ k) s)"
  by (induction k) (simp_all add: pop_ok)

lemma puts_contents:
  "ok s \<Longrightarrow> contents (fold put ms s) =
     drop (length (contents s @ ms) - cap) (contents s @ ms)"
proof (induction ms arbitrary: s)
  case Nil
  then show ?case using bounded by simp
next
  case (Cons m ms)
  have IH: "contents (fold put ms (put m s)) =
      drop (length (contents (put m s) @ ms) - cap) (contents (put m s) @ ms)"
    by (rule Cons.IH) (rule put_ok [OF Cons.prems])
  show ?case
  proof (cases "length (contents s) = cap")
    case True
    with room obtain x xs where "contents s = x # xs" by (cases "contents s") auto
    with True IH show ?thesis
      by (simp add: contents_put [OF Cons.prems] drop_Cons')
  next
    case False
    with IH show ?thesis by (simp add: contents_put [OF Cons.prems])
  qed
qed

lemma pops_contents: "ok s \<Longrightarrow> contents ((pop ^^ k) s) = drop k (contents s)"
  by (induction k) (simp_all add: contents_pop pops_ok drop_Suc tl_drop)

end

section \<open>The ring is a bounded queue\<close>

definition fifo_ok :: "'c fifo_state \<Rightarrow> bool" where
  "fifo_ok s \<longleftrightarrow> length (I2C_FIFO s) = I2C_FIFO_SIZE \<and>
     I2C_FIFO_head s < I2C_FIFO_SIZE \<and> I2C_FIFO_tail s < I2C_FIFO_SIZE"

definition fifo_count :: "'c fifo_state \<Rightarrow> nat" where
  "fifo_count s = (I2C_FIFO_tail s + I2C_FIFO_SIZE - I2C_FIFO_head s) mod I2C_FIFO_SIZE"

definition fifo_contents :: "'c fifo_state \<Rightarrow> I2C_FIFO_cell list" where
  "fifo_contents s =
     map (\<lambda>i. I2C_FIFO s ! ((I2C_FIFO_head s + i) mod I2C_FIFO_SIZE)) [0..<fifo_count s]"

lemma wrap_index_mod: "i < I2C_FIFO_SIZE \<Longrightarrow> wrap_index i = (i + 1) mod I2C_FIFO_SIZE"
  by (cases "i = 15") (auto simp: wrap_index_def I2C_FIFO_SIZE_def)

lemma wrap_index_less [simp]: "wrap_index i < I2C_FIFO_SIZE"
  by (simp add: wrap_index_def I2C_FIFO_SIZE_def)

text \<open>The distance from head to tail, written without the remainder.\<close>

lemma fifo_count_cases:
  "fifo_ok s \<Longrightarrow> fifo_count s = (if I2C_FIFO_head s \<le> I2C_FIFO_tail s
     then I2C_FIFO_tail s - I2C_FIFO_head s
     else I2C_FIFO_tail s + I2C_FIFO_SIZE - I2C_FIFO_head s)"
  by (auto simp: fifo_count_def fifo_ok_def mod_if)

lemma fifo_empty_iff: "fifo_ok s \<Longrightarrow> I2C_FIFO_is_empty s \<longleftrightarrow> fifo_contents s = []"
  by (auto simp: fifo_contents_def I2C_FIFO_is_empty_def fifo_count_cases fifo_ok_def)

lemma length_fifo_contents: "length (fifo_contents s) = fifo_count s"
  by (simp add: fifo_contents_def)

lemma send_ok: "fifo_ok s \<Longrightarrow> fifo_ok (I2C_FIFO_send_next_message s)"
  by (simp add: fifo_ok_def I2C_FIFO_send_next_message_def Let_def)

lemma new_message_ok: "fifo_ok s \<Longrightarrow> fifo_ok (I2C_FIFO_new_message m s)"
  by (simp add: fifo_ok_def I2C_FIFO_new_message_def Let_def)

definition ring :: "nat \<Rightarrow> nat \<Rightarrow> 'a list \<Rightarrow> 'a list" where
  "ring h n c = map (\<lambda>i. c ! ((h + i) mod I2C_FIFO_SIZE)) [0..<n]"

lemma ring_Suc: "ring h (Suc n) c = ring h n c @ [c ! ((h + n) mod I2C_FIFO_SIZE)]"
  by (simp add: ring_def)

lemma ring_mod: "ring (h mod I2C_FIFO_SIZE) n c = ring h n c"
  by (simp add: ring_def mod_add_left_eq)

lemma tl_ring: "tl (ring h n c) = ring (h + 1) (n - 1) c"
proof (cases n)
  case (Suc m)
  have "[0..<Suc m] = 0 # map Suc [0..<m]" by (simp add: upt_conv_Cons map_Suc_upt del: upt_Suc)
  then show ?thesis by (simp add: ring_def Suc comp_def del: upt_Suc)
qed (simp add: ring_def)

lemma ring_update:
  assumes "t = (h + n) mod I2C_FIFO_SIZE" and "n < I2C_FIFO_SIZE"
  shows "ring h n (c[t := m]) = ring h n c"
proof -
  have "(h + n) mod I2C_FIFO_SIZE \<noteq> (h + i) mod I2C_FIFO_SIZE" if "i < n" for i
  proof
    assume "(h + n) mod I2C_FIFO_SIZE = (h + i) mod I2C_FIFO_SIZE"
    then have "(h + n - (h + i)) mod I2C_FIFO_SIZE = 0"
      by (metis mod_eq_dvd_iff_nat dvd_imp_mod_0 add_le_cancel_left less_imp_le that)
    with that assms(2) show False by simp
  qed
  then show ?thesis by (auto simp: ring_def assms(1) intro!: nth_list_update_neq)
qed

lemma fifo_contents_ring:
  "fifo_contents s = ring (I2C_FIFO_head s) (fifo_count s) (I2C_FIFO s)"
  by (simp add: fifo_contents_def ring_def)

lemma fifo_tail_pos:
  assumes "fifo_ok s"
  shows "I2C_FIFO_tail s = (I2C_FIFO_head s + fifo_count s) mod I2C_FIFO_SIZE"
    and "fifo_count s < I2C_FIFO_SIZE"
proof -
  show "I2C_FIFO_tail s = (I2C_FIFO_head s + fifo_count s) mod I2C_FIFO_SIZE"
    using assms by (simp add: fifo_count_cases fifo_ok_def mod_if)
  show "fifo_count s < I2C_FIFO_SIZE" by (simp add: fifo_count_def I2C_FIFO_SIZE_def)
qed

lemma fifo_count_unique:
  assumes "fifo_ok s" and "I2C_FIFO_tail s = (I2C_FIFO_head s + n) mod I2C_FIFO_SIZE"
    and "n < I2C_FIFO_SIZE"
  shows "fifo_count s = n"
  using assms by (auto simp: fifo_count_cases fifo_ok_def mod_if split: if_splits)

lemma new_message_i2c: "fifo_i2c (I2C_FIFO_new_message m s) = fifo_i2c s"
  by (simp add: I2C_FIFO_new_message_def Let_def)

lemma fifo_head:
  assumes "fifo_ok s" and "fifo_contents s = m # ms"
  shows "\<not> I2C_FIFO_is_empty s" and "I2C_FIFO s ! I2C_FIFO_head s = m"
proof -
  show "\<not> I2C_FIFO_is_empty s" using fifo_empty_iff [OF assms(1)] assms(2) by simp
  have cnt: "fifo_count s = Suc (length ms)" using length_fifo_contents [of s] assms(2) by simp
  have "fifo_contents s ! 0 = I2C_FIFO s ! (I2C_FIFO_head s mod I2C_FIFO_SIZE)"
    unfolding fifo_contents_def by (subst nth_map) (simp_all add: cnt del: upt_Suc)
  then show "I2C_FIFO s ! I2C_FIFO_head s = m" using assms by (simp add: fifo_ok_def)
qed

lemma send_contents:
  assumes "fifo_ok s"
  shows "fifo_contents (I2C_FIFO_send_next_message s) = tl (fifo_contents s)"
proof (cases "I2C_FIFO_is_empty s")
  case True
  then show ?thesis using fifo_empty_iff [OF assms] by (simp add: I2C_FIFO_send_next_message_def)
next
  case False
  let ?t = "I2C_FIFO_send_next_message s"
  have pos: "0 < fifo_count s"
    using False fifo_empty_iff [OF assms] length_fifo_contents [of s] by (cases "fifo_contents s") auto
  have t: "I2C_FIFO ?t = I2C_FIFO s" "I2C_FIFO_tail ?t = I2C_FIFO_tail s"
    "I2C_FIFO_head ?t = (I2C_FIFO_head s + 1) mod I2C_FIFO_SIZE"
    using False assms
    by (simp_all add: I2C_FIFO_send_next_message_def Let_def wrap_index_mod fifo_ok_def)
  have "fifo_count ?t = fifo_count s - 1"
  proof (rule fifo_count_unique)
    show "I2C_FIFO_tail ?t = (I2C_FIFO_head ?t + (fifo_count s - 1)) mod I2C_FIFO_SIZE"
      unfolding t mod_add_left_eq using fifo_tail_pos(1) [OF assms] pos by simp
  qed (use fifo_tail_pos(2) [OF assms] send_ok [OF assms] in simp_all)
  then show ?thesis by (simp only: fifo_contents_ring t ring_mod tl_ring)
qed

lemma new_message_contents:
  assumes "fifo_ok s"
  shows "fifo_contents (I2C_FIFO_new_message m s) =
    (if length (fifo_contents s) = 15 then tl (fifo_contents s) else fifo_contents s) @ [m]"
proof -
  let ?t = "I2C_FIFO_new_message m s" and ?h = "I2C_FIFO_head s" and ?n = "fifo_count s"
  let ?c = "(I2C_FIFO s)[I2C_FIFO_tail s := m]"
  note tail = fifo_tail_pos [OF assms]
  have len: "I2C_FIFO_tail s < length (I2C_FIFO s)" "?h < I2C_FIFO_SIZE"
    using assms by (simp_all add: fifo_ok_def)
  have all: "ring ?h (Suc ?n) ?c = fifo_contents s @ [m]"
    using len(1) by (simp add: ring_Suc ring_update [OF tail] fifo_contents_ring flip: tail(1))
  have t: "I2C_FIFO ?t = ?c" "I2C_FIFO_tail ?t = (?h + Suc ?n) mod I2C_FIFO_SIZE"
    using tail(1) len assms
    by (simp_all add: I2C_FIFO_new_message_def Let_def wrap_index_mod fifo_ok_def mod_Suc_eq)
  show ?thesis
  proof (cases "?n = 15")
    case True
    then have "(?h + Suc ?n) mod I2C_FIFO_SIZE = ?h"
      using len(2) by (simp add: I2C_FIFO_SIZE_def)
    then have h: "I2C_FIFO_head ?t = (?h + 1) mod I2C_FIFO_SIZE"
      using t(2) len(2) by (simp add: I2C_FIFO_new_message_def Let_def wrap_index_mod split: if_splits)
    have "fifo_count ?t = 15"
      by (rule fifo_count_unique)
         (use h t(2) True new_message_ok [OF assms] in
           \<open>simp_all add: mod_simps I2C_FIFO_SIZE_def\<close>)
    then have "fifo_contents ?t = tl (ring ?h (Suc ?n) ?c)"
      by (simp only: fifo_contents_ring t(1) h ring_mod tl_ring True) simp
    moreover have "fifo_contents s \<noteq> []"
      using True length_fifo_contents [of s] by auto
    ultimately show ?thesis using True all by (simp add: length_fifo_contents)
  next
    case False
    then have n: "Suc ?n < I2C_FIFO_SIZE" using tail(2) by (simp add: I2C_FIFO_SIZE_def)
    have "(?h + Suc ?n) mod I2C_FIFO_SIZE \<noteq> ?h"
      using n len(2) by (auto simp: mod_if I2C_FIFO_SIZE_def)
    then have h: "I2C_FIFO_head ?t = ?h"
      using t(2) by (simp add: I2C_FIFO_new_message_def Let_def split: if_splits)
    have "fifo_count ?t = Suc ?n"
      by (rule fifo_count_unique) (use h t(2) n new_message_ok [OF assms] in simp_all)
    then have "fifo_contents ?t = ring ?h (Suc ?n) ?c" by (simp only: fifo_contents_ring t(1) h)
    then show ?thesis using all False by (simp add: length_fifo_contents)
  qed
qed

interpretation fifo: bounded_queue I2C_FIFO_new_message I2C_FIFO_send_next_message
    fifo_contents fifo_ok 15
  by unfold_locales
     (use fifo_tail_pos(2) in \<open>force simp: new_message_ok send_ok new_message_contents
        send_contents length_fifo_contents I2C_FIFO_SIZE_def\<close>)+

section \<open>The timer drives the queue\<close>

text \<open>After the initialisation from power-on the timer of the queue is the only one that runs.\<close>

definition fifo_timers :: "u32 \<Rightarrow> nat \<Rightarrow> 'c fn timers_state" where
  "fifo_timers now j = \<lparr>timers = timer_zero #
       \<lparr>period = 10, cnt = of_nat j, callback = Some I2C_FIFO_send_next_message_fn,
        mode = mode_index TIM_MODE_PERIODIC, running = True, expired = False\<rparr> #
       replicate 14 timer_zero,
     timers_cant = 2, yaInit = True, tick_hook = True, time_now = now\<rparr>"

lemma replicate_Suc_numeral: "replicate (numeral n) x = x # replicate (pred_numeral n) x"
  by (simp add: numeral_eq_Suc)

lemma init_timers:
  assumes "\<not> fifo_inited s"
  shows "fst (I2C_FIFO_init (timers_power_on, s)) = fifo_timers 0 0"
  using assms
  by (simp add: I2C_FIFO_init_def timerGetId_def timerInit_def timerStart_def timers_power_on_def
      upd_timer_def TIMERS_MAX_CANT_def TIMER_ID_INTERNAL_def CANT_TIM_MODES_def fifo_timers_def
      timer_zero_def replicate_Suc_numeral)

lemma tick_fifo:
  assumes "j < 10"
  shows "timer_isr (quiet_cb fifo_timer_cb) (fifo_timers now j, s) =
    (fifo_timers (now + 1) ((j + 1) mod 10),
     if j = 9 then I2C_FIFO_send_next_message s else s)"
proof -
  have inv: "timers_inv (fifo_timers now j :: 'a fn timers_state)"
    by (simp add: timers_inv_def fifo_timers_def TIMERS_MAX_CANT_def)
  have "j < 2 ^ 32" "Suc j < 2 ^ 32" using assms by simp_all
  then have cj: "unat (of_nat j + 1 :: u32) = Suc j"
    using unat_of_nat_u32 [of "Suc j"] by (simp add: add.commute)
  have due: "(10 \<le> (of_nat j + 1 :: u32)) = (j = 9)"
    using assms by (simp only: word_le_nat_alt cj) auto
  show ?thesis
    unfolding timer_isr_quiet [OF inv] Let_def
    using assms due
    by (cases "j = 9")
       (simp_all add: fifo_timers_def due_callbacks_def due_def tick_timer_def timer_zero_def
          add.commute take_Cons_numeral drop_Cons_numeral)
qed

lemma ticks_fifo:
  "(timer_isr (quiet_cb fifo_timer_cb) ^^ k) (fifo_timers 0 0, s) =
     (fifo_timers (of_nat k) (k mod 10), (I2C_FIFO_send_next_message ^^ (k div 10)) s)"
proof (induction k)
  case (Suc k)
  have "Suc k mod 10 = (k mod 10 + 1) mod 10" by (simp add: mod_Suc_eq)
  moreover have "Suc k div 10 = (if k mod 10 = 9 then Suc (k div 10) else k div 10)"
    by (simp add: div_Suc mod_Suc)
  ultimately show ?case
    using tick_fifo [of "k mod 10" "of_nat k" "(I2C_FIFO_send_next_message ^^ (k div 10)) s"]
    by (cases "k mod 10 = 9") (simp_all add: Suc add.commute)
qed simp

section \<open>Properties\<close>

text \<open>C24: The queue hands messages over in the order in which they were queued. When more than
  fifteen wait, the oldest are lost: of everything queued exactly the last fifteen remain, and
  \<open>k\<close> sends take the first \<open>k\<close> of those.\<close>

theorem fifo_order:
  assumes "fifo_ok s"
  shows "fifo_contents ((I2C_FIFO_send_next_message ^^ k) (fold I2C_FIFO_new_message ms s)) =
    drop k (drop (length (fifo_contents s @ ms) - 15) (fifo_contents s @ ms))"
  by (simp add: fifo.pops_contents fifo.puts_ok fifo.puts_contents assms)

text \<open>From power-on, with the messages \<open>ms\<close> queued after the initialisation, the tick of
  the system starts one transfer every ten ticks, in the order of the queue: after \<open>k\<close> ticks
  \<open>k div 10\<close> messages have been taken out, and the last one taken out is the transfer the
  driver has been given.\<close>

theorem fifo_timer_sends:
  assumes "\<not> fifo_inited s" and "length (I2C_FIFO s) = I2C_FIFO_SIZE" and "length ms \<le> 15"
    and "I2C_FIFO_init (timers_power_on, s) = (ts, s1)"
    and "(timer_isr (quiet_cb fifo_timer_cb) ^^ k) (ts, fold I2C_FIFO_new_message ms s1) = (ts', t)"
  shows "fifo_contents t = drop (k div 10) ms \<and>
    (10 \<le> k \<and> k < 10 * Suc (length ms) \<longrightarrow>
      (let m = ms ! (k div 10 - 1); com = i2c_com (fifo_i2c t) in
       com_state com = I2C_COM_CONFIG \<and> slave_address com = cell_s_addr m \<and>
       readnotwrite com = cell_rnotw m \<and> write_queue com = cell_w_q m \<and>
       write_queue_size com = cell_w_q_s m \<and> read_queue com = cell_r_q m \<and>
       read_queue_size com = cell_r_q_s m \<and> writing_byte_counter com = 0))"
proof (intro conjI impI)
  let ?q = "fold I2C_FIFO_new_message ms s1"
  have ts: "ts = fifo_timers 0 0" using init_timers [OF assms(1)] assms(4) by simp
  have s1: "fifo_ok s1" "I2C_FIFO_head s1 = I2C_FIFO_tail s1"
    using assms(1,2,4)
    by (auto simp: I2C_FIFO_init_def fifo_ok_def I2C_FIFO_SIZE_def Let_def split: prod.splits)
  then have "fifo_contents s1 = []"
    using fifo_empty_iff [of s1] by (simp add: I2C_FIFO_is_empty_def)
  then have q: "fifo_contents ?q = ms" "fifo_ok ?q"
    using fifo.puts_contents [OF s1(1), of ms] fifo.puts_ok [OF s1(1)] assms(3) by simp_all
  have t: "t = (I2C_FIFO_send_next_message ^^ (k div 10)) ?q"
    using assms(5) unfolding ts ticks_fifo by simp
  show "fifo_contents t = drop (k div 10) ms"
    by (simp add: t fifo.pops_contents q)
  assume "10 \<le> k \<and> k < 10 * Suc (length ms)"
  then have k: "10 \<le> k" "k < Suc (length ms) * 10" by simp_all
  define j where "j = k div 10 - 1"
  have "0 < k div 10" "k div 10 < Suc (length ms)" 
    using k(1) less_mult_imp_div_less [OF k(2)] by (simp_all add: div_greater_zero_iff)
  then have j: "k div 10 = Suc j" "j < length ms" by (simp_all add: j_def)
  let ?u = "(I2C_FIFO_send_next_message ^^ j) ?q"
  have u: "fifo_contents ?u = drop j ms" "fifo_ok ?u"
    by (simp_all add: fifo.pops_contents fifo.pops_ok q)
  have "drop j ms = ms ! j # drop (Suc j) ms" using j(2) by (rule Cons_nth_drop_Suc [symmetric])
  note hd = fifo_head [OF u(2), unfolded u(1), OF this]
  have m: "I2C_FIFO ?u ! I2C_FIFO_head ?u = ms ! (k div 10 - 1)" using hd(2) by (simp add: j_def)
  show "let m = ms ! (k div 10 - 1); com = i2c_com (fifo_i2c t) in
       com_state com = I2C_COM_CONFIG \<and> slave_address com = cell_s_addr m \<and>
       readnotwrite com = cell_rnotw m \<and> write_queue com = cell_w_q m \<and>
       write_queue_size com = cell_w_q_s m \<and> read_queue com = cell_r_q m \<and>
       read_queue_size com = cell_r_q_s m \<and> writing_byte_counter com = 0"
    using hd(1) m by (simp add: t j(1) I2C_FIFO_send_next_message_def Let_def)
qed

text \<open>Sending does not look whether a transfer is under way. When the timer fires during
  one, whatever the transfer has left to write is dropped: the driver is set to the new message
  from its first byte, and the bytes that went out before are followed by the new address.\<close>

theorem fifo_send_preempts:
  assumes "fifo_ok s" and "fifo_contents s = m # ms"
  shows "let c = fifo_i2c s; c' = fifo_i2c (I2C_FIFO_send_next_message s) in
    D_tx (I2C0 c') = D_tx (I2C0 c) @
      [ucast (push_bit 1 (cell_s_addr m)) OR (if cell_rnotw m then 1 else 0)] \<and>
    write_queue (i2c_com c') = cell_w_q m \<and> write_queue_size (i2c_com c') = cell_w_q_s m \<and>
    writing_byte_counter (i2c_com c') = 0 \<and> com_state (i2c_com c') = I2C_COM_CONFIG"
proof -
  show ?thesis
    using fifo_head [OF assms] by (simp add: I2C_FIFO_send_next_message_def Let_def)
qed

section \<open>Witnesses\<close>

definition fifo_example :: "nat fifo_state" where
  "fifo_example = \<lparr>I2C_FIFO = replicate 16 \<lparr>cell_rnotw = False, cell_s_addr = 0x21,
       cell_w_q = Some 1, cell_r_q = None, cell_w_q_s = 2, cell_r_q_s = 0\<rparr>,
     I2C_FIFO_head = 3, I2C_FIFO_tail = 3, I2C_FIFO_timer = 0, I2C_is_sending_message = False,
     I2C_FIFO_emptycallback = None, fifo_inited = False,
     fifo_i2c = \<lparr>i2c_com = \<lparr>com_state = I2C_IDLE, readnotwrite = False, slave_address = 0,
       write_queue = None, read_queue = None, write_queue_size = 0, read_queue_size = 0,
       writing_byte_counter = 0, reading_byte_counter = 0, end_routine = None\<rparr>,
     I2C0 = \<lparr>reg_C1 = 0x80, reg_S = 0, reg_F = 0, reg_FLT = 0, D_rx = 0, D_tx = []\<rparr>,
     mem = Map.empty, i2c_inited = True, SIM_SCGC4 = 0, SIM_SCGC5 = 0, PCR_SDA = 0, PCR_SCL = 0,
     I2C0_irq = True\<rparr>\<rparr>"

definition msg :: "nat \<Rightarrow> I2C_FIFO_cell" where
  "msg i = \<lparr>cell_rnotw = False, cell_s_addr = 0x21, cell_w_q = Some i, cell_r_q = None,
     cell_w_q_s = 2, cell_r_q_s = 0\<rparr>"

lemma fifo_example_ok: "fifo_ok fifo_example" "fifo_contents fifo_example = []"
  by (simp_all add: fifo_ok_def fifo_contents_def fifo_count_def fifo_example_def I2C_FIFO_SIZE_def)

lemma fifo_example_tx: "D_tx (I2C0 (fifo_i2c fifo_example)) = []"
  by (simp add: fifo_example_def)

lemma fifo_order_witness:
  "fifo_contents ((I2C_FIFO_send_next_message ^^ 2)
     (fold I2C_FIFO_new_message (map msg [0..<17]) fifo_example)) = drop 4 (map msg [0..<17])"
  using fifo_order [OF fifo_example_ok(1), of 2 "map msg [0..<17]"]
  by (simp add: fifo_example_ok(2))

lemma fifo_timer_sends_witness:
  "fifo_contents (snd ((timer_isr (quiet_cb fifo_timer_cb) ^^ 25)
     (fst (I2C_FIFO_init (timers_power_on, fifo_example)),
      fold I2C_FIFO_new_message [msg 1, msg 2, msg 3]
        (snd (I2C_FIFO_init (timers_power_on, fifo_example)))))) = [msg 3]"
proof -
  have "\<not> fifo_inited fifo_example" "length (I2C_FIFO fifo_example) = I2C_FIFO_SIZE"
    by (simp_all add: fifo_example_def I2C_FIFO_SIZE_def)
  note sends = fifo_timer_sends [OF this, of "[msg 1, msg 2, msg 3]" _ _ 25]
  let ?i = "I2C_FIFO_init (timers_power_on, fifo_example)"
  let ?r = "(timer_isr (quiet_cb fifo_timer_cb) ^^ 25)
    (fst ?i, fold I2C_FIFO_new_message [msg 1, msg 2, msg 3] (snd ?i))"
  show ?thesis
    using sends [of "fst ?i" "snd ?i" "fst ?r" "snd ?r"] by simp
qed

lemma fifo_send_preempts_witness:
  "D_tx (I2C0 (fifo_i2c (I2C_FIFO_send_next_message (I2C_FIFO_new_message (msg 1) fifo_example))))
     = [0x42]"
proof -
  have "fifo_contents (I2C_FIFO_new_message (msg 1) fifo_example) = [msg 1]"
    by (simp add: new_message_contents fifo_example_ok)
  from fifo_send_preempts [OF new_message_ok [OF fifo_example_ok(1)] this] show ?thesis
    by (simp add: Let_def new_message_i2c fifo_example_tx) (simp add: msg_def)
qed

end
