(* ===== verification/Dma.thy ===== *)
theory Dma
  imports Gpio
begin

unbundle bit_operations_syntax

text \<open>
  The DMA controller of \<^verbatim>\<open>source/DMA.c\<close>: the transfer descriptors as the driver fills them,
  the request multiplexer and the interrupt handlers. What the controller does with a descriptor
  on a request is written down as a step of the hardware, \<open>dma_request\<close>: one minor loop, and at
  the end of the major loop the adjustment of the addresses and the interrupt.
\<close>

section \<open>Descriptors\<close>

record tcd_t =
  SADDR :: u32
  DADDR :: u32
  SOFF :: u16
  DOFF :: u16
  ATTR :: u16
  NBYTES :: u32
  CITER :: u16
  BITER :: u16
  SLAST :: u32
  DLAST_SGA :: u32
  CSR :: u16

record 'c dma_state =
  TCD :: "nat \<Rightarrow> tcd_t"
  ERQ :: u32
  CHCFG :: "nat \<Rightarrow> u8"
  dma_SCGC6 :: u32
  dma_SCGC7 :: u32
  dma_nvic :: "nat \<Rightarrow> bool"
  dma_irqhandler :: "'c option"
  dma_gpio :: "'c gpio_state"

datatype DMA_transferSize = DMA_8bit | DMA_16bit | DMA_32bit | DMA_16byte | DMA_32byte

fun size_code :: "DMA_transferSize \<Rightarrow> u16" where
  "size_code DMA_8bit = 0"
| "size_code DMA_16bit = 1"
| "size_code DMA_32bit = 2"
| "size_code DMA_16byte = 4"
| "size_code DMA_32byte = 5"

definition DMA_ATTR_SSIZE :: "u16 \<Rightarrow> u16" where "DMA_ATTR_SSIZE x = push_bit 8 x AND 0x700"
definition DMA_ATTR_DSIZE :: "u16 \<Rightarrow> u16" where "DMA_ATTR_DSIZE x = x AND 0x7"
definition DMA_CITER_ELINKNO_CITER :: "u16 \<Rightarrow> u16" where "DMA_CITER_ELINKNO_CITER x = x AND 0x7FFF"
definition DMA_BITER_ELINKNO_BITER :: "u16 \<Rightarrow> u16" where "DMA_BITER_ELINKNO_BITER x = x AND 0x7FFF"
definition DMA_CSR_INTMAJOR_MASK :: u16 where "DMA_CSR_INTMAJOR_MASK = 0x2"
definition DMAMUX_CHCFG_ENBL_MASK :: u8 where "DMAMUX_CHCFG_ENBL_MASK = 0x80"
definition DMAMUX_CHCFG_SOURCE :: "u8 \<Rightarrow> u8" where "DMAMUX_CHCFG_SOURCE x = x AND 0x3F"

section \<open>Services\<close>

definition upd_tcd :: "nat \<Rightarrow> (tcd_t \<Rightarrow> tcd_t) \<Rightarrow> 'c dma_state \<Rightarrow> 'c dma_state" where
  "upd_tcd ch f s = s\<lparr>TCD := (TCD s)(ch := f (TCD s ch))\<rparr>"

definition DMA_Init :: "'c dma_state \<Rightarrow> 'c dma_state" where
  "DMA_Init s = s\<lparr>dma_SCGC7 := dma_SCGC7 s OR 0x2, dma_SCGC6 := dma_SCGC6 s OR 0x2\<rparr>"

definition DMA_quick_config ::
    "nat \<Rightarrow> u32 \<Rightarrow> u32 \<Rightarrow> u32 \<Rightarrow> u32 \<Rightarrow> DMA_transferSize \<Rightarrow> u32 \<Rightarrow> u32 \<Rightarrow> u32 \<Rightarrow> u32 \<Rightarrow>
     'c dma_state \<Rightarrow> 'c dma_state" where
  "DMA_quick_config ch saddr daddr soff doff tSize mlno citer slast dlast =
     upd_tcd ch (\<lambda>t. t\<lparr>SADDR := saddr, DADDR := daddr, SOFF := ucast soff, DOFF := ucast doff,
       ATTR := DMA_ATTR_SSIZE (size_code tSize) OR DMA_ATTR_DSIZE (size_code tSize),
       NBYTES := mlno, CITER := DMA_CITER_ELINKNO_CITER (ucast citer),
       BITER := DMA_BITER_ELINKNO_BITER (ucast citer), SLAST := slast, DLAST_SGA := dlast\<rparr>)"

definition DMA_Config ::
    "nat \<Rightarrow> u32 \<Rightarrow> u32 \<Rightarrow> u32 \<Rightarrow> u32 \<Rightarrow> DMA_transferSize \<Rightarrow> u32 \<Rightarrow> u32 \<Rightarrow> u32 \<Rightarrow> u32 \<Rightarrow>
     'c dma_state \<Rightarrow> 'c dma_state" where
  "DMA_Config ch saddr daddr soff doff tSize mlno citer slast dlast s =
     (let s1 = s\<lparr>dma_nvic := (dma_nvic s)(ch := True)\<rparr>;
          s2 = DMA_quick_config ch saddr daddr soff doff tSize mlno citer slast dlast s1;
          s3 = upd_tcd ch (\<lambda>t. t\<lparr>CSR := DMA_CSR_INTMAJOR_MASK\<rparr>) s2
      in s3\<lparr>ERQ := push_bit ch 1\<rparr>)"

definition DMA_quick_enable_IRQ :: "pin_t \<Rightarrow> u8 \<Rightarrow> 'c dma_state \<Rightarrow> 'c dma_state result" where
  "DMA_quick_enable_IRQ pin m s =
     bindR (gpioDMA pin m (dma_gpio s)) (\<lambda>(r, g). Inr (s\<lparr>dma_gpio := g\<rparr>))"

definition DMA_quick_disable_IRQ :: "pin_t \<Rightarrow> 'c dma_state \<Rightarrow> 'c dma_state result" where
  "DMA_quick_disable_IRQ pin s =
     bindR (gpioDMA pin 0 (dma_gpio s)) (\<lambda>(r, g). Inr (s\<lparr>dma_gpio := g\<rparr>))"

definition DMA_Request_Config :: "nat \<Rightarrow> pin_t \<Rightarrow> u8 \<Rightarrow> 'c dma_state \<Rightarrow> 'c dma_state result" where
  "DMA_Request_Config ch pin m s =
     (let s1 = s\<lparr>CHCFG := (CHCFG s)(ch := CHCFG s ch OR
            (DMAMUX_CHCFG_ENBL_MASK OR DMAMUX_CHCFG_SOURCE (49 + of_nat (PIN2PORT pin))))\<rparr> in
      bindR (gpioMode pin INPUT 0 0 0 0 0 0 (dma_gpio s1)) (\<lambda>g.
      DMA_quick_enable_IRQ pin m (s1\<lparr>dma_gpio := g\<rparr>)))"

definition DMA_get_saddr :: "nat \<Rightarrow> 'c dma_state \<Rightarrow> u32" where
  "DMA_get_saddr ch s = SADDR (TCD s ch)"

definition DMA_get_daddr :: "nat \<Rightarrow> 'c dma_state \<Rightarrow> u32" where
  "DMA_get_daddr ch s = DADDR (TCD s ch)"

definition DMA_Set_IRQ_Handler :: "'c option \<Rightarrow> 'c dma_state \<Rightarrow> 'c dma_state" where
  "DMA_Set_IRQ_Handler cb s = s\<lparr>dma_irqhandler := cb\<rparr>"

text \<open>The handlers: the first returns the routine it calls, the second blinks the red light.\<close>

definition DMA0_IRQHandler :: "'c dma_state \<Rightarrow> 'c option" where
  "DMA0_IRQHandler s = dma_irqhandler s"

definition DMA_Error_IRQHandler :: "'c dma_state \<Rightarrow> 'c dma_state result" where
  "DMA_Error_IRQHandler s =
     bindR (gpioToggle (PORTNUM2PIN 1 22) (dma_gpio s)) (\<lambda>g. Inr (s\<lparr>dma_gpio := g\<rparr>))"

section \<open>What the controller does on a request\<close>

text \<open>
  A request moves \<open>NBYTES\<close> bytes, one unit of the transfer size here, and advances both
  addresses by their offsets. The last request of the major loop reloads the count, adds the last
  adjustments and interrupts. The outcome says where the unit was stored and whether the
  interrupt is raised.
\<close>

definition dma_request :: "tcd_t \<Rightarrow> tcd_t \<times> u32 \<times> bool" where
  "dma_request t =
     (let sa = SADDR t + ucast (SOFF t); da = DADDR t + ucast (DOFF t) in
      if CITER t = 1
      then (t\<lparr>SADDR := sa + SLAST t, DADDR := da + DLAST_SGA t, CITER := BITER t\<rparr>, DADDR t,
            CSR t AND DMA_CSR_INTMAJOR_MASK \<noteq> 0)
      else (t\<lparr>SADDR := sa, DADDR := da, CITER := CITER t - 1\<rparr>, DADDR t, False))"

fun dma_requests :: "nat \<Rightarrow> tcd_t \<Rightarrow> tcd_t \<times> u32 list \<times> nat" where
  "dma_requests 0 t = (t, [], 0)"
| "dma_requests (Suc k) t =
     (let (t1, as, n) = dma_requests k t; (t2, a, i) = dma_request t1
      in (t2, as @ [a], if i then Suc n else n))"

definition row_tcd :: "u32 \<Rightarrow> u32 \<Rightarrow> nat \<Rightarrow> tcd_t" where
  "row_tcd src dst k = \<lparr>SADDR = src, DADDR = dst + 2 * of_nat k, SOFF = 0, DOFF = 2,
     ATTR = 0x101, NBYTES = 2, CITER = of_nat (1280 - k), BITER = 1280, SLAST = 0,
     DLAST_SGA = - 2560, CSR = DMA_CSR_INTMAJOR_MASK\<rparr>"

lemma row_config:
  assumes "CSR (TCD s ch) = DMA_CSR_INTMAJOR_MASK"
  shows "TCD (DMA_quick_config ch src dst 0 2 DMA_16bit 2 (320 * 4) 0 (- (2 * 4 * 320)) s) ch =
    row_tcd src dst 0"
  using assms
  by (simp add: DMA_quick_config_def upd_tcd_def row_tcd_def DMA_ATTR_SSIZE_def DMA_ATTR_DSIZE_def
      DMA_CITER_ELINKNO_CITER_def DMA_BITER_ELINKNO_BITER_def)

lemma row_requests:
  "k < 1280 \<Longrightarrow> dma_requests k (row_tcd src dst 0) =
     (row_tcd src dst k, map (\<lambda>i. dst + 2 * of_nat i) [0..<k], 0)"
proof (induction k)
  case (Suc k)
  have "(of_nat (1280 - k) :: u16) \<noteq> 1"
  proof
    assume "(of_nat (1280 - k) :: u16) = 1"
    then have "unat (of_nat (1280 - k) :: u16) = 1" by simp
    moreover have "unat (of_nat (1280 - k) :: u16) = 1280 - k"
      by (rule unat_of_nat_u16) simp
    ultimately show False using Suc.prems by simp
  qed
  moreover have "(of_nat (1280 - k) :: u16) - 1 = of_nat (1280 - Suc k)"
    using Suc.prems by (simp add: of_nat_diff)
  ultimately have "dma_request (row_tcd src dst k) =
      (row_tcd src dst (Suc k), dst + 2 * of_nat k, False)"
    by (simp add: dma_request_def row_tcd_def Let_def algebra_simps)
  with Suc show ?case by simp
qed simp

text \<open>C32: A row of the camera is 1280 requests of the configured descriptor: they fill the 1280
  places of the buffer in order, the destination is back at the start of the buffer after the
  last one and at no earlier point, and exactly one interrupt is raised, at the end.\<close>

theorem dma_row:
  assumes "CSR (TCD s ch) = DMA_CSR_INTMAJOR_MASK"
    and "t = TCD (DMA_quick_config ch src dst 0 2 DMA_16bit 2 (320 * 4) 0 (- (2 * 4 * 320)) s) ch"
  shows "dma_requests 1280 t = (t, map (\<lambda>i. dst + 2 * of_nat i) [0..<1280], 1) \<and>
    (0 < k \<and> k < 1280 \<longrightarrow> DADDR (fst (dma_requests k t)) \<noteq> dst \<and> snd (snd (dma_requests k t)) = 0)"
proof (intro conjI impI)
  have t: "t = row_tcd src dst 0" using row_config [OF assms(1)] assms(2) by simp
  have last: "dma_request (row_tcd src dst 1279) = (row_tcd src dst 0, dst + 2 * of_nat 1279, True)"
    by (simp add: dma_request_def row_tcd_def Let_def DMA_CSR_INTMAJOR_MASK_def)
  have split: "[0..<1280] = [0..<1279] @ [1279]"
    using upt_Suc_append [of 0 1279] by simp
  have "dma_requests (Suc 1279) t = (t, map (\<lambda>i. dst + 2 * of_nat i) ([0..<1279] @ [1279]), 1)"
    using row_requests [of 1279 src dst] last by (simp only: dma_requests.simps t) simp
  moreover have "Suc 1279 = 1280" by simp
  ultimately show "dma_requests 1280 t = (t, map (\<lambda>i. dst + 2 * of_nat i) [0..<1280], 1)"
    by (simp only: split)
  assume k: "0 < k \<and> k < 1280"
  then have r: "dma_requests k t = (row_tcd src dst k, map (\<lambda>i. dst + 2 * of_nat i) [0..<k], 0)"
    by (simp add: t row_requests)
  then show "snd (snd (dma_requests k t)) = 0" by simp
  have "2 * of_nat k = (of_nat (2 * k) :: u32)" by simp
  moreover have "unat (of_nat (2 * k) :: u32) = 2 * k" using k by (intro unat_of_nat_u32) simp
  ultimately have "(2 * of_nat k :: u32) \<noteq> 0" using k by (metis unat_0 mult_eq_0_iff not_gr_zero zero_neq_numeral)
  then show "DADDR (fst (dma_requests k t)) \<noteq> dst" by (simp add: r row_tcd_def)
qed

definition dma_example :: "nat dma_state" where
  "dma_example = \<lparr>TCD = (\<lambda>i. \<lparr>SADDR = 0, DADDR = 0, SOFF = 0, DOFF = 0, ATTR = 0, NBYTES = 0, CITER = 0,
       BITER = 0, SLAST = 0, DLAST_SGA = 0, CSR = DMA_CSR_INTMAJOR_MASK\<rparr>),
     ERQ = 0, CHCFG = (\<lambda>i. 0), dma_SCGC6 = 0, dma_SCGC7 = 0, dma_nvic = (\<lambda>i. False),
     dma_irqhandler = Some 5, dma_gpio = gpio_example\<rparr>"

lemma dma_row_witness:
  "snd (snd (dma_requests 1280 (TCD (DMA_quick_config 0 0x400FF090 0x20000000 0 2 DMA_16bit 2 (320 * 4)
     0 (- (2 * 4 * 320)) dma_example) 0))) = 1"
proof -
  have "CSR (TCD dma_example 0) = DMA_CSR_INTMAJOR_MASK" by (simp add: dma_example_def)
  from dma_row [OF this refl] show ?thesis by simp
qed

end
