(* ===== verification/Ftm.thy ===== *)
theory Ftm
  imports C_Prelude
begin

unbundle bit_operations_syntax

text \<open>
  The flexible timer module of \<^verbatim>\<open>source/FTM.c\<close>, which makes the clock of the camera: the
  setters and getters of the registers and the set-up of the pulse-width output. The modules
  FTM0 to FTM3 are indexed by their number; a module has eight channels, a larger channel number
  indexes the register array out of bounds.
\<close>

section \<open>Registers\<close>

record ftm_channel =
  CnSC :: u32
  CnV :: u32

record ftm_regs =
  SC :: u32
  CNT :: u32
  MOD :: u32
  CNTIN :: u32
  PWMLOAD :: u32
  CONTROLS :: "ftm_channel list"

record ftm_state =
  FTM :: "nat \<Rightarrow> ftm_regs"
  PWM_modulus :: u16
  PWM_duty :: u16
  ftm_SCGC3 :: u32
  ftm_SCGC6 :: u32
  ftm_irqs :: "nat \<Rightarrow> bool"
  PORTD_PCR0 :: u32

definition FTM_SC_PS :: "u32 \<Rightarrow> u32" where "FTM_SC_PS x = x AND 0x7"
definition FTM_SC_CLKS :: "u32 \<Rightarrow> u32" where "FTM_SC_CLKS x = push_bit 3 x AND 0x18"
definition FTM_SC_TOIE :: "u32 \<Rightarrow> u32" where "FTM_SC_TOIE x = push_bit 6 x AND 0x40"
definition FTM_SC_TOF_MASK :: u32 where "FTM_SC_TOF_MASK = 0x80"
definition FTM_MOD_MOD :: "u32 \<Rightarrow> u32" where "FTM_MOD_MOD x = x AND 0xFFFF"
definition FTM_CnSC_ELSA :: "u32 \<Rightarrow> u32" where "FTM_CnSC_ELSA x = push_bit 2 x AND 0x4"
definition FTM_CnSC_ELSB :: "u32 \<Rightarrow> u32" where "FTM_CnSC_ELSB x = push_bit 3 x AND 0x8"
definition FTM_CnSC_MSA :: "u32 \<Rightarrow> u32" where "FTM_CnSC_MSA x = push_bit 4 x AND 0x10"
definition FTM_CnSC_MSB :: "u32 \<Rightarrow> u32" where "FTM_CnSC_MSB x = push_bit 5 x AND 0x20"
definition FTM_CnSC_CHIE :: "u32 \<Rightarrow> u32" where "FTM_CnSC_CHIE x = push_bit 6 x AND 0x40"
definition FTM_CnSC_CHF_MASK :: u32 where "FTM_CnSC_CHF_MASK = 0x80"
definition FTM_CnV_VAL :: "u32 \<Rightarrow> u32" where "FTM_CnV_VAL x = x AND 0xFFFF"

lemmas ftm_fields = FTM_SC_PS_def FTM_SC_CLKS_def FTM_SC_TOIE_def FTM_SC_TOF_MASK_def
  FTM_MOD_MOD_def FTM_CnSC_ELSA_def FTM_CnSC_ELSB_def FTM_CnSC_MSA_def FTM_CnSC_MSB_def
  FTM_CnSC_CHIE_def FTM_CnSC_CHF_MASK_def FTM_CnV_VAL_def

section \<open>Setters and getters\<close>

definition FTM_SetPrescaler :: "u32 \<Rightarrow> ftm_regs \<Rightarrow> ftm_regs" where
  "FTM_SetPrescaler d f = f\<lparr>SC := (SC f AND NOT 0x7) OR FTM_SC_PS d\<rparr>"

definition FTM_SetModulus :: "u16 \<Rightarrow> ftm_regs \<Rightarrow> ftm_regs" where
  "FTM_SetModulus d f = f\<lparr>CNTIN := 0, CNT := 0, MOD := FTM_MOD_MOD (ucast d)\<rparr>"

definition FTM_GetModulus :: "ftm_regs \<Rightarrow> u16" where
  "FTM_GetModulus f = ucast (MOD f AND 0xFFFF)"

definition FTM_StartClock :: "ftm_regs \<Rightarrow> ftm_regs" where
  "FTM_StartClock f = f\<lparr>SC := SC f OR FTM_SC_CLKS 1\<rparr>"

definition FTM_StopClock :: "ftm_regs \<Rightarrow> ftm_regs" where
  "FTM_StopClock f = f\<lparr>SC := SC f AND NOT (FTM_SC_CLKS 1)\<rparr>"

definition FTM_SetOverflowMode :: "bool \<Rightarrow> ftm_regs \<Rightarrow> ftm_regs" where
  "FTM_SetOverflowMode m f = f\<lparr>SC := (SC f AND NOT 0x40) OR FTM_SC_TOIE (if m then 1 else 0)\<rparr>"

definition FTM_IsOverflowPending :: "ftm_regs \<Rightarrow> bool" where
  "FTM_IsOverflowPending f \<longleftrightarrow> SC f AND FTM_SC_TOF_MASK \<noteq> 0"

definition FTM_ClearOverflowFlag :: "ftm_regs \<Rightarrow> ftm_regs" where
  "FTM_ClearOverflowFlag f = f\<lparr>SC := SC f AND NOT FTM_SC_TOF_MASK\<rparr>"

definition on_channel ::
    "nat \<Rightarrow> (ftm_channel \<Rightarrow> ftm_channel) \<Rightarrow> ftm_regs \<Rightarrow> ftm_regs result" where
  "on_channel ch g f =
     bindR (rd (CONTROLS f) ch) (\<lambda>c. Inr (f\<lparr>CONTROLS := (CONTROLS f)[ch := g c]\<rparr>))"

definition FTM_SetWorkingMode :: "nat \<Rightarrow> u32 \<Rightarrow> ftm_regs \<Rightarrow> ftm_regs result" where
  "FTM_SetWorkingMode ch mode = on_channel ch (\<lambda>c. c\<lparr>CnSC :=
     (CnSC c AND NOT (0x20 OR 0x10)) OR
     (FTM_CnSC_MSB (drop_bit 1 mode AND 1) OR FTM_CnSC_MSA (drop_bit 0 mode AND 1))\<rparr>)"

definition FTM_GetWorkingMode :: "nat \<Rightarrow> ftm_regs \<Rightarrow> u32 result" where
  "FTM_GetWorkingMode ch f =
     bindR (rd (CONTROLS f) ch) (\<lambda>c. Inr (drop_bit 4 (CnSC c AND (0x20 OR 0x10))))"

definition set_ELS :: "u32 \<Rightarrow> ftm_channel \<Rightarrow> ftm_channel" where
  "set_ELS v c = c\<lparr>CnSC := (CnSC c AND NOT (0x8 OR 0x4)) OR
     (FTM_CnSC_ELSB (drop_bit 1 v AND 1) OR FTM_CnSC_ELSA (drop_bit 0 v AND 1))\<rparr>"

definition get_ELS :: "ftm_channel \<Rightarrow> u32" where
  "get_ELS c = drop_bit 2 (CnSC c AND (0x8 OR 0x4))"

definition FTM_SetInputCaptureEdge :: "nat \<Rightarrow> u32 \<Rightarrow> ftm_regs \<Rightarrow> ftm_regs result" where
  "FTM_SetInputCaptureEdge ch v = on_channel ch (set_ELS v)"
definition FTM_GetInputCaptureEdge :: "nat \<Rightarrow> ftm_regs \<Rightarrow> u32 result" where
  "FTM_GetInputCaptureEdge ch f = bindR (rd (CONTROLS f) ch) (\<lambda>c. Inr (get_ELS c))"
definition FTM_SetOutputCompareEffect :: "nat \<Rightarrow> u32 \<Rightarrow> ftm_regs \<Rightarrow> ftm_regs result" where
  "FTM_SetOutputCompareEffect ch v = on_channel ch (set_ELS v)"
definition FTM_GetOutputCompareEffect :: "nat \<Rightarrow> ftm_regs \<Rightarrow> u32 result" where
  "FTM_GetOutputCompareEffect ch f = bindR (rd (CONTROLS f) ch) (\<lambda>c. Inr (get_ELS c))"
definition FTM_SetPulseWidthModulationLogic :: "nat \<Rightarrow> u32 \<Rightarrow> ftm_regs \<Rightarrow> ftm_regs result" where
  "FTM_SetPulseWidthModulationLogic ch v = on_channel ch (set_ELS v)"
definition FTM_GetPulseWidthModulationLogic :: "nat \<Rightarrow> ftm_regs \<Rightarrow> u32 result" where
  "FTM_GetPulseWidthModulationLogic ch f = bindR (rd (CONTROLS f) ch) (\<lambda>c. Inr (get_ELS c))"

definition FTM_SetCounter :: "nat \<Rightarrow> u16 \<Rightarrow> ftm_regs \<Rightarrow> ftm_regs result" where
  "FTM_SetCounter ch d = on_channel ch (\<lambda>c. c\<lparr>CnV := FTM_CnV_VAL (ucast d)\<rparr>)"

definition FTM_GetCounter :: "nat \<Rightarrow> ftm_regs \<Rightarrow> u16 result" where
  "FTM_GetCounter ch f = bindR (rd (CONTROLS f) ch) (\<lambda>c. Inr (ucast (CnV c AND 0xFFFF)))"

definition FTM_SetInterruptMode :: "nat \<Rightarrow> bool \<Rightarrow> ftm_regs \<Rightarrow> ftm_regs result" where
  "FTM_SetInterruptMode ch m = on_channel ch (\<lambda>c. c\<lparr>CnSC :=
     (CnSC c AND NOT 0x40) OR FTM_CnSC_CHIE (if m then 1 else 0)\<rparr>)"

definition FTM_IsInterruptPending :: "nat \<Rightarrow> ftm_regs \<Rightarrow> bool result" where
  "FTM_IsInterruptPending ch f =
     bindR (rd (CONTROLS f) ch) (\<lambda>c. Inr (CnSC c AND FTM_CnSC_CHF_MASK \<noteq> 0))"

definition FTM_ClearInterruptFlag :: "nat \<Rightarrow> ftm_regs \<Rightarrow> ftm_regs result" where
  "FTM_ClearInterruptFlag ch = on_channel ch (\<lambda>c. c\<lparr>CnSC := CnSC c AND NOT FTM_CnSC_CHF_MASK\<rparr>)"

section \<open>The pulse-width output\<close>

definition on_module :: "nat \<Rightarrow> (ftm_regs \<Rightarrow> ftm_regs result) \<Rightarrow> ftm_state \<Rightarrow> ftm_state result" where
  "on_module i g s = bindR (g (FTM s i)) (\<lambda>f. Inr (s\<lparr>FTM := (FTM s)(i := f)\<rparr>))"

text \<open>Alternative 4 of the multiplexer in an otherwise empty pin control register.\<close>

definition PWM_PCR :: u32 where "PWM_PCR = push_bit 8 4"

definition PWM_Init :: "ftm_state \<Rightarrow> ftm_state result" where
  "PWM_Init s =
     on_module 3 (\<lambda>f0.
       let f1 = FTM_SetPrescaler 0 f0;
           f2 = FTM_SetModulus (PWM_modulus s) f1;
           f3 = FTM_SetOverflowMode False f2 in
       bindR (FTM_SetWorkingMode 0 2 f3) (\<lambda>f4.
       bindR (FTM_SetPulseWidthModulationLogic 0 2 f4) (\<lambda>f5.
       bindR (FTM_SetCounter 0 (PWM_duty s) f5) (\<lambda>f6. Inr (FTM_StartClock f6)))))
     (s\<lparr>PORTD_PCR0 := PWM_PCR\<rparr>)"

definition FTM_Init :: "ftm_state \<Rightarrow> ftm_state result" where
  "FTM_Init s =
     PWM_Init (s\<lparr>ftm_SCGC6 := ftm_SCGC6 s OR 0x1000000 OR 0x2000000 OR 0x4000000,
        ftm_SCGC3 := ftm_SCGC3 s OR 0x1000000 OR 0x2000000,
        ftm_irqs := (\<lambda>i. i < 4 \<or> ftm_irqs s i),
        FTM := (\<lambda>i. if i < 4 then (FTM s i)\<lparr>PWMLOAD := 0x200 OR 0x0F\<rparr> else FTM s i)\<rparr>)"

definition PWM_ISR :: "ftm_state \<Rightarrow> ftm_state result" where
  "PWM_ISR s =
     bindR (on_module 0 (\<lambda>f. FTM_SetCounter 0 (PWM_duty s) (FTM_ClearOverflowFlag f)) s) (\<lambda>t.
     Inr (t\<lparr>PWM_duty := (PWM_duty t + 1) mod PWM_modulus t\<rparr>))"

definition FTM0_IRQHandler :: "ftm_state \<Rightarrow> ftm_state result" where
  "FTM0_IRQHandler s = PWM_ISR s"

definition ftm_power_on :: ftm_state where
  "ftm_power_on = \<lparr>FTM = (\<lambda>i. \<lparr>SC = 0, CNT = 0, MOD = 0, CNTIN = 0, PWMLOAD = 0,
       CONTROLS = replicate 8 \<lparr>CnSC = 0, CnV = 0\<rparr>\<rparr>),
     PWM_modulus = 2 - 1, PWM_duty = 1, ftm_SCGC3 = 0, ftm_SCGC6 = 0,
     ftm_irqs = (\<lambda>i. False), PORTD_PCR0 = 0\<rparr>"

section \<open>Two-bit fields\<close>

lemma bit_pow32: "n < 32 \<Longrightarrow> bit (2 ^ n :: u32) m = (m = n)"
  by (auto simp: bit_simps)

definition put_two :: "nat \<Rightarrow> u32 \<Rightarrow> u32 \<Rightarrow> u32" where
  "put_two k v c = (c AND NOT (2 ^ Suc k OR 2 ^ k)) OR
     ((push_bit (Suc k) (drop_bit 1 v AND 1) AND 2 ^ Suc k) OR
      (push_bit k (drop_bit 0 v AND 1) AND 2 ^ k))"

lemma field_bit: "k < 32 \<Longrightarrow> bit (push_bit k x AND 2 ^ k) n = (n = k \<and> bit (x :: u32) 0)"
  by (auto simp: bit_and_iff bit_push_bit_iff bit_pow32)

lemma low_bits: "bit (drop_bit 1 v AND 1 :: u32) 0 = bit v 1" "bit (drop_bit 0 v AND 1 :: u32) 0 = bit v 0"
  by (simp_all add: bit_and_iff bit_drop_bit_eq)

lemma bit_put_two:
  assumes "Suc k < 32"
  shows "bit (put_two k v c) n =
    (if n = k then bit v 0 else if n = Suc k then bit v 1 else bit c n)"
proof -
  have k: "k < 32" using assms by simp
  have n: "bit c n \<Longrightarrow> n < 32" using bit_imp_le_length [of c n] by simp
  have hi: "bit (push_bit (Suc k) (drop_bit 1 v AND 1) AND 2 ^ Suc k) n = (n = Suc k \<and> bit v 1)"
    and lo: "bit (push_bit k (drop_bit 0 v AND 1) AND 2 ^ k) n = (n = k \<and> bit v 0)"
    by (simp_all only: field_bit [OF assms] field_bit [OF k] low_bits)
  have keep: "bit (c AND NOT (2 ^ Suc k OR 2 ^ k)) n = (bit c n \<and> n \<noteq> Suc k \<and> n \<noteq> k)"
    unfolding bit_and_iff bit_not_iff bit_or_iff bit_pow32 [OF assms] bit_pow32 [OF k]
    using n by auto
  show ?thesis
    unfolding put_two_def bit_or_iff hi lo keep by auto
qed

lemma get_put_two:
  assumes "Suc k < 32"
  shows "drop_bit k (put_two k v c AND (2 ^ Suc k OR 2 ^ k)) = v AND 3"
proof (rule bit_word_eqI)
  fix n
  assume "n < LENGTH(32)"
  have k: "k < 32" using assms by simp
  have "(3 :: u32) = 2 ^ 1 OR 2 ^ 0" by simp
  then have three: "bit (3 :: u32) n = (n = 0 \<or> n = 1)"
    using bit_or_iff [of "2 ^ 1 :: u32" "2 ^ 0" n] bit_pow32 [of 1 n] bit_pow32 [of 0 n] by auto
  show "bit (drop_bit k (put_two k v c AND (2 ^ Suc k OR 2 ^ k))) n = bit (v AND 3) n"
    unfolding bit_drop_bit_eq comp_def bit_and_iff bit_or_iff bit_put_two [OF assms] three
      bit_pow32 [OF assms] bit_pow32 [OF k]
    by auto
qed

lemma put_two_ELS: "set_ELS v c = c\<lparr>CnSC := put_two 2 v (CnSC c)\<rparr>"
  by (simp add: set_ELS_def put_two_def ftm_fields)

lemma put_two_MS: "(\<lambda>c. c\<lparr>CnSC := (CnSC c AND NOT (0x20 OR 0x10)) OR
     (FTM_CnSC_MSB (drop_bit 1 m AND 1) OR FTM_CnSC_MSA (drop_bit 0 m AND 1))\<rparr>) =
   (\<lambda>c. c\<lparr>CnSC := put_two 4 m (CnSC c)\<rparr>)"
  by (simp add: put_two_def ftm_fields)

lemma get_fields: "drop_bit 4 (put_two 4 m c AND (0x20 OR 0x10)) = m AND 3"
  "drop_bit 2 (put_two 2 m c AND (0x8 OR 0x4)) = m AND 3"
  using get_put_two [of 4 m c] get_put_two [of 2 m c] by simp_all

text \<open>The two fields of a channel's status register do not disturb each other.\<close>

lemma fields_apart: "put_two 4 m c AND (0x8 OR 0x4) = c AND (0x8 OR 0x4)"
  "put_two 2 m c AND (0x20 OR 0x10) = c AND (0x20 OR 0x10)"
proof -
  have p: "(8 :: u32) = 2 ^ 3" "(4 :: u32) = 2 ^ 2" "(0x20 :: u32) = 2 ^ 5" "(0x10 :: u32) = 2 ^ 4"
    by simp_all
  show "put_two 4 m c AND (0x8 OR 0x4) = c AND (0x8 OR 0x4)"
    unfolding p by (rule bit_word_eqI) (auto simp: bit_and_iff bit_or_iff bit_put_two bit_pow32
        simp del: power_numeral)
  show "put_two 2 m c AND (0x20 OR 0x10) = c AND (0x20 OR 0x10)"
    unfolding p by (rule bit_word_eqI) (auto simp: bit_and_iff bit_or_iff bit_put_two bit_pow32
        simp del: power_numeral)
qed

lemma fields_apart_read: "drop_bit 2 (put_two 4 m c) AND 3 = drop_bit 2 c AND 3"
  "drop_bit 4 (put_two 2 m c) AND 3 = drop_bit 4 c AND 3"
  using arg_cong [OF fields_apart(1) [of m c], of "drop_bit 2"]
    arg_cong [OF fields_apart(2) [of m c], of "drop_bit 4"] by simp_all

section \<open>Properties\<close>

lemma on_channel_ok: "ch < length (CONTROLS f) \<Longrightarrow>
    on_channel ch g f = Inr (f\<lparr>CONTROLS := (CONTROLS f)[ch := g (CONTROLS f ! ch)]\<rparr>)"
  by (simp add: on_channel_def rd_in)

lemma modulus_back: "FTM_GetModulus (FTM_SetModulus d f) = d"
  and counter_back: "(ucast (FTM_CnV_VAL (ucast d) AND 0xFFFF) :: u16) = d"
proof -
  have d: "bit (d :: u16) n \<Longrightarrow> n < 16" for n using bit_imp_le_length [of d n] by simp
  have m: "(0xFFFF :: u32) = mask 16" by (simp add: mask_eq_exp_minus_1)
  have "(ucast (ucast d AND (0xFFFF :: u32) AND 0xFFFF) :: u16) = d"
    unfolding m using d by (intro bit_word_eqI) (auto simp: bit_simps)
  then show "FTM_GetModulus (FTM_SetModulus d f) = d" "(ucast (FTM_CnV_VAL (ucast d) AND 0xFFFF) :: u16) = d"
    by (simp_all add: FTM_GetModulus_def FTM_SetModulus_def ftm_fields)
qed



text \<open>The initialisation starts the pulse-width output on channel 0 of the module FTM3 with
  the set modulus and compare value; but the handler that is to change the compare value writes
  to the module FTM0 and leaves the output alone, and since the modulus is 1 the value it keeps
  is 0 after every run.\<close>

theorem pwm_init_and_isr:
  assumes "\<forall>i. length (CONTROLS (FTM s i)) = 8"
  shows "\<exists>t. FTM_Init s = Inr t \<and>
    FTM_GetModulus (FTM t 3) = PWM_modulus s \<and> FTM_GetWorkingMode 0 (FTM t 3) = Inr 2 \<and>
    FTM_GetPulseWidthModulationLogic 0 (FTM t 3) = Inr 2 \<and>
    FTM_GetCounter 0 (FTM t 3) = Inr (PWM_duty s) \<and>
    (\<exists>u. FTM0_IRQHandler t = Inr u \<and> FTM u 3 = FTM t 3 \<and>
       (PWM_modulus s = 1 \<longrightarrow> PWM_duty u = 0))"
proof -
  have l: "length (CONTROLS (FTM s 3)) = 8" "length (CONTROLS (FTM s 0)) = 8" using assms by auto
  show ?thesis
    using l counter_back [of "PWM_duty s"] get_fields(1) [of 2] get_fields(2) [of 2]
      fields_apart_read(2) [of 2] modulus_back [of "PWM_modulus s"]
    by (simp add: FTM_Init_def PWM_Init_def on_module_def FTM_SetPrescaler_def FTM_SetModulus_def
        FTM_SetOverflowMode_def FTM_SetWorkingMode_def [unfolded put_two_MS] put_two_ELS on_channel_ok
        FTM_SetPulseWidthModulationLogic_def FTM_SetCounter_def FTM_StartClock_def Let_def
        FTM_GetModulus_def FTM_GetWorkingMode_def FTM_GetPulseWidthModulationLogic_def rd_in
        get_ELS_def FTM_GetCounter_def FTM0_IRQHandler_def PWM_ISR_def FTM_ClearOverflowFlag_def)
qed

lemma pwm_init_and_isr_witness:
  "\<exists>t. FTM_Init ftm_power_on = Inr t \<and> FTM_GetCounter 0 (FTM t 3) = Inr 1"
  using pwm_init_and_isr [of ftm_power_on] by (auto simp: ftm_power_on_def)

end
