(* ===== verification/Camera.thy ===== *)
theory Camera
  imports I2C_Fifo Dma Ftm
begin

unbundle bit_operations_syntax

text \<open>
  The camera of \<^verbatim>\<open>source/OV7670.c\<close>: a state machine run by the synchronisation signals of the
  sensor, the interrupt of the DMA controller that has stored a line, and a task that turns the
  stored line into a row of the bitmap. The model contains the drivers the module calls: the pin
  services, the DMA descriptor, the clock output and the queue of register writes. Routines the
  handlers call through pointers of the user are returned.
\<close>

section \<open>State\<close>

datatype OV7670_state =
    OV7670_not_initialized
  | OV7670_is_ready
  | OV7670_is_busy
  | OV7670_is_taking_picture
  | OV7670_new_picture
  | OV7670_error

text \<open>The routines of the module that it hands to the drivers.\<close>

datatype cam_fn =
    vertical_sync_rising_fn
  | horizontal_ref_falling_fn
  | DMA_mayor_int_fn
  | I2C_finished_callback_fn

definition OV6760_VS :: pin_t where "OV6760_VS = PORTNUM2PIN 3 1"
definition OV6760_HS :: pin_t where "OV6760_HS = PORTNUM2PIN 3 3"
definition OV6760_PLK :: pin_t where "OV6760_PLK = PORTNUM2PIN 3 2"

definition OV6760_data_pins :: "pin_t list" where
  "OV6760_data_pins = map (PORTNUM2PIN 2) [0, 1, 2, 3, 4, 5, 7, 8]"

definition OV7670_init :: "u8 list list" where
  "OV7670_init = [[0x11, 0x0F], [0x15, 0x20], [0x32, 0xF6], [0x17, 0x13], [0x18, 0x01]]"

text \<open>\<open>aux_addr\<close> is the address of the line buffer, \<open>init_addr\<close> the place of the register table.\<close>

record 'c camera_state =
  ov7670_state :: OV7670_state
  semProcessNewLine :: nat
  picture_requested :: bool
  current_row :: nat
  active_row :: bool
  row_complete :: bool
  picture_ready_callback :: "'c option"
  aux_buffer :: "u16 list"
  aux_addr :: u32
  init_addr :: nat
  bitmap_matrix :: "u8 list"
  cam_dma :: "cam_fn dma_state"
  cam_fifo :: "cam_fn fifo_state"
  cam_ftm :: ftm_state

definition PTC_PDIR_addr :: u32 where "PTC_PDIR_addr = 0x400FF090"

section \<open>Services\<close>

definition OV7670_Config :: "ptr \<Rightarrow> 'c camera_state \<Rightarrow> 'c camera_state" where
  "OV7670_Config p s = s\<lparr>ov7670_state := OV7670_is_busy,
     cam_fifo := I2C_FIFO_new_message \<lparr>cell_rnotw = False, cell_s_addr = 0x0021, cell_w_q = p,
        cell_r_q = None, cell_w_q_s = 2, cell_r_q_s = 0\<rparr> (cam_fifo s)\<rparr>"

definition I2C_finished_callback :: "'c camera_state \<Rightarrow> 'c camera_state" where
  "I2C_finished_callback s = s\<lparr>ov7670_state := OV7670_is_ready\<rparr>"

definition OV7670_GetState :: "'c camera_state \<Rightarrow> OV7670_state" where
  "OV7670_GetState s = ov7670_state s"

definition OV7670_TakePicture :: "'c option \<Rightarrow> 'c camera_state \<Rightarrow> 'c camera_state" where
  "OV7670_TakePicture cb s = s\<lparr>picture_ready_callback := cb, picture_requested := True\<rparr>"

definition OV7670_GetPicture :: "'c camera_state \<Rightarrow> u8 list \<times> bool" where
  "OV7670_GetPicture s = (bitmap_matrix s, ov7670_state s = OV7670_new_picture)"

definition on_gpio ::
    "(cam_fn gpio_state \<Rightarrow> cam_fn gpio_state result) \<Rightarrow> 'c camera_state \<Rightarrow> 'c camera_state result" where
  "on_gpio f s = bindR (f (dma_gpio (cam_dma s))) (\<lambda>g.
     Inr (s\<lparr>cam_dma := (cam_dma s)\<lparr>dma_gpio := g\<rparr>\<rparr>))"

definition sync_pin :: "pin_t \<Rightarrow> u8 \<Rightarrow> cam_fn \<Rightarrow> 'c camera_state \<Rightarrow> 'c camera_state result" where
  "sync_pin p m f s =
     bindR (on_gpio (gpioMode p INPUT 0 0 0 0 0 0) s) (\<lambda>s1.
     on_gpio (\<lambda>g. bindR (gpioIRQ p m (Some f) g) (\<lambda>(r, g'). Inr g')) s1)"

definition OV7670_Init ::
    "cam_fn fn timers_state \<times> 'c camera_state \<Rightarrow> (cam_fn fn timers_state \<times> 'c camera_state) result" where
  "OV7670_Init = (\<lambda>(ts, s).
     if ov7670_state s \<noteq> OV7670_not_initialized then Inr (ts, s)
     else
       let s1 = s\<lparr>semProcessNewLine := 0, picture_requested := False, picture_ready_callback := None\<rparr> in
       bindR (foldR (\<lambda>p. on_gpio (gpioMode p INPUT 0 0 0 0 0 0)) OV6760_data_pins s1) (\<lambda>s2.
       bindR (sync_pin OV6760_VS 9 vertical_sync_rising_fn s2) (\<lambda>s3.
       bindR (sync_pin OV6760_HS 10 horizontal_ref_falling_fn s3) (\<lambda>s4.
       bindR (FTM_Init (cam_ftm s4)) (\<lambda>ftm.
       let (ts1, q) = I2C_FIFO_init (ts, cam_fifo s4);
           s5 = s4\<lparr>cam_ftm := ftm,
                   cam_fifo := I2C_FIFO_empty_callback (Some (User_fn I2C_finished_callback_fn)) q\<rparr>;
           s6 = fold (\<lambda>i. OV7670_Config (Some (init_addr s5 + i))) [0..<length OV7670_init] s5;
           s7 = s6\<lparr>cam_dma := DMA_Set_IRQ_Handler (Some DMA_mayor_int_fn)
                  (DMA_Config 0 PTC_PDIR_addr (aux_addr s6) 0 2 DMA_16bit 2 (320 * 4) 0 (- (2 * 4 * 320))
                    (DMA_Init (cam_dma s6)))\<rparr>
       in bindR (DMA_Request_Config 0 OV6760_PLK 0 (cam_dma s7)) (\<lambda>d.
          Inr (ts1, s7\<lparr>cam_dma := d\<rparr>)))))))"

section \<open>Handlers\<close>

definition quick_disable :: "'c camera_state \<Rightarrow> 'c camera_state result" where
  "quick_disable s = bindR (DMA_quick_disable_IRQ OV6760_PLK (cam_dma s)) (\<lambda>d.
     Inr (s\<lparr>cam_dma := d\<rparr>))"

definition quick_enable :: "'c camera_state \<Rightarrow> 'c camera_state result" where
  "quick_enable s = bindR (DMA_quick_enable_IRQ OV6760_PLK 1 (cam_dma s)) (\<lambda>d.
     Inr (s\<lparr>cam_dma := d\<rparr>))"

definition vertical_sync_rising :: "'c camera_state \<Rightarrow> ('c camera_state \<times> 'c option) result" where
  "vertical_sync_rising s =
     (if ov7670_state s \<noteq> OV7670_error then
        if ov7670_state s = OV7670_is_taking_picture then
          bindR (quick_disable s) (\<lambda>s1.
          Inr (s1\<lparr>ov7670_state := OV7670_new_picture\<rparr>, picture_ready_callback s1))
        else if picture_requested s \<and>
            (ov7670_state s = OV7670_is_ready \<or> ov7670_state s = OV7670_new_picture) then
          (let s1 = s\<lparr>picture_requested := False, current_row := 0, active_row := True,
                 row_complete := False,
                 cam_dma := DMA_quick_config 0 PTC_PDIR_addr (aux_addr s) 0 2 DMA_16bit 2 (320 * 4)
                    0 (- (2 * 4 * 320)) (cam_dma s),
                 ov7670_state := OV7670_is_taking_picture\<rparr> in
           bindR (quick_enable s1) (\<lambda>s2. Inr (s2, None)))
        else Inr (s, None)
      else Inr (s, None))"

definition DMA_mayor_int :: "'c camera_state \<Rightarrow> 'c camera_state" where
  "DMA_mayor_int s =
     (if ov7670_state s \<noteq> OV7670_error then
        if row_complete s then s\<lparr>ov7670_state := OV7670_error\<rparr> else s\<lparr>row_complete := True\<rparr>
      else s)"

definition horizontal_ref_falling :: "'c camera_state \<Rightarrow> 'c camera_state result" where
  "horizontal_ref_falling s =
     (if ov7670_state s \<noteq> OV7670_error \<and> ov7670_state s = OV7670_is_taking_picture then
        if active_row s then
          bindR (quick_disable s) (\<lambda>s1.
          let s2 = s1\<lparr>active_row := False\<rparr> in
          if 240 \<le> current_row s2 then Inr (s2\<lparr>ov7670_state := OV7670_error\<rparr>)
          else if \<not> row_complete s2 then Inr (s2\<lparr>ov7670_state := OV7670_error\<rparr>)
          else if DMA_get_daddr 0 (cam_dma s2) \<noteq> aux_addr s2
          then Inr (s2\<lparr>ov7670_state := OV7670_error\<rparr>)
          else Inr (s2\<lparr>row_complete := False, semProcessNewLine := semProcessNewLine s2 + 1\<rparr>))
        else
          quick_enable (s\<lparr>current_row := current_row s + 1, active_row := True\<rparr>)
      else Inr s)"

definition pixel_of :: "u16 \<Rightarrow> u8" where
  "pixel_of aux = ucast ((aux AND 0x003F) OR drop_bit 1 (aux AND 0x0180))"

definition process_col :: "nat \<Rightarrow> 'c camera_state \<Rightarrow> 'c camera_state result" where
  "process_col col s =
     bindR (rd (aux_buffer s) (4 * col + 1)) (\<lambda>aux.
     bindR (wr (bitmap_matrix s) (320 * current_row s + col) (pixel_of aux)) (\<lambda>m.
     Inr (s\<lparr>bitmap_matrix := m\<rparr>)))"

definition OV7670_process_new_line :: "'c camera_state \<Rightarrow> 'c camera_state result" where
  "OV7670_process_new_line s = foldR process_col [0..<320] s"

text \<open>One round of the loop of the task: it waits for the semaphore and processes a line.\<close>

definition OV7670_run_round :: "'c camera_state \<Rightarrow> 'c camera_state result" where
  "OV7670_run_round s =
     (if semProcessNewLine s = 0 then Inr s
      else OV7670_process_new_line (s\<lparr>semProcessNewLine := semProcessNewLine s - 1\<rparr>))"

section \<open>The signals of the sensor\<close>

text \<open>
  A pixel clock edge requests a transfer when the pin is set to do so; the controller stores the
  sampled value at the place the descriptor says and interrupts at the end of a line.
\<close>

datatype 'c cam_event =
    VSync | HRef_Falling | Pixel u16 | Line_Task | Take "'c option" | I2C_Done

definition plk_on :: "'c camera_state \<Rightarrow> bool" where
  "plk_on s \<longleftrightarrow> PCR (PORT_SELECT (dma_gpio (cam_dma s)) 3) 2 AND PORT_PCR_IRQC_MASK \<noteq> 0"

definition pixel_clock :: "u16 \<Rightarrow> 'c camera_state \<Rightarrow> 'c camera_state result" where
  "pixel_clock v s =
     (if plk_on s then
        (let (t, a, irq) = dma_request (TCD (cam_dma s) 0);
             s1 = s\<lparr>cam_dma := upd_tcd 0 (\<lambda>_. t) (cam_dma s)\<rparr> in
         bindR (wr (aux_buffer s1) (unat (a - aux_addr s1) div 2) v) (\<lambda>b.
         let s2 = s1\<lparr>aux_buffer := b\<rparr> in
         Inr (if irq \<and> DMA0_IRQHandler (cam_dma s2) = Some DMA_mayor_int_fn
              then DMA_mayor_int s2 else s2)))
      else Inr s)"

fun cam_step ::
    "'c cam_event \<Rightarrow> 'c camera_state \<times> 'c list \<Rightarrow> ('c camera_state \<times> 'c list) result" where
  "cam_step VSync (s, cbs) = bindR (vertical_sync_rising s) (\<lambda>(t, cb).
     Inr (t, cbs @ (case cb of None \<Rightarrow> [] | Some c \<Rightarrow> [c])))"
| "cam_step HRef_Falling (s, cbs) = bindR (horizontal_ref_falling s) (\<lambda>t. Inr (t, cbs))"
| "cam_step (Pixel v) (s, cbs) = bindR (pixel_clock v s) (\<lambda>t. Inr (t, cbs))"
| "cam_step Line_Task (s, cbs) = bindR (OV7670_run_round s) (\<lambda>t. Inr (t, cbs))"
| "cam_step (Take cb) (s, cbs) = Inr (OV7670_TakePicture cb s, cbs)"
| "cam_step I2C_Done (s, cbs) = Inr (I2C_finished_callback s, cbs)"

section \<open>The pixel clock\<close>

lemma plk_pin: "OV6760_PLK = 0x62" "PIN2PORT 0x62 = 3" "PIN2NUM 0x62 = 2" "port_ok 0x62"
  by (simp_all add: OV6760_PLK_def PORTNUM2PIN_def PIN2PORT_def PIN2NUM_def port_ok_def)

lemma bit_irqc: "bit PORT_PCR_IRQC_MASK n = (n \<in> {16, 17, 18, 19})"
proof -
  have m: "PORT_PCR_IRQC_MASK = 2 ^ 16 OR 2 ^ 17 OR 2 ^ 18 OR 2 ^ 19"
    by (simp add: PORT_PCR_IRQC_MASK_def)
  show ?thesis
    unfolding m bit_or_iff
    using bit_pos [of 16 n] bit_pos [of 17 n] bit_pos [of 18 n] bit_pos [of 19 n] by auto
qed

lemma irqc_field:
  assumes "\<And>b. b \<in> {16, 17, 18, 19} \<Longrightarrow> bit v b = bit (PORT_PCR_IRQC w) b"
  shows "v AND PORT_PCR_IRQC_MASK = PORT_PCR_IRQC w"
proof (rule bit_word_eqI)
  fix n
  assume "n < LENGTH(32)"
  show "bit (v AND PORT_PCR_IRQC_MASK) n = bit (PORT_PCR_IRQC w) n"
    using assms [of n] by (auto simp: bit_and_iff PORT_PCR_IRQC_def bit_irqc)
qed

lemma set_IRQC_field: "PCR (set_IRQC n m r) n AND PORT_PCR_IRQC_MASK = PORT_PCR_IRQC (ucast m)"
  by (rule irqc_field)
     (auto simp: set_IRQC_def bit_or_PCR bit_and_PCR bit_not_iff bit_irqc simp del: insert_iff)

lemma gpioDMA_plk:
  "\<exists>g. gpioDMA OV6760_PLK m s = Inr (True, g) \<and>
     PCR (PORT_SELECT g 3) 2 AND PORT_PCR_IRQC_MASK = PORT_PCR_IRQC (ucast m)"
  using plk_pin set_IRQC_field [of 2 m "PORT_SELECT s 3"]
  by (auto simp: gpioDMA_def interrupt_init_def upd_port_def)

lemma quick_enable_ex:
  "\<exists>d. quick_enable s = Inr (s\<lparr>cam_dma := d\<rparr>) \<and> TCD d = TCD (cam_dma s) \<and>
     dma_irqhandler d = dma_irqhandler (cam_dma s) \<and> plk_on (s\<lparr>cam_dma := d\<rparr>)"
proof -
  obtain g where "gpioDMA OV6760_PLK 1 (dma_gpio (cam_dma s)) = Inr (True, g)"
    "PCR (PORT_SELECT g 3) 2 AND PORT_PCR_IRQC_MASK = PORT_PCR_IRQC (ucast (1 :: u8))"
    using gpioDMA_plk [of 1 "dma_gpio (cam_dma s)"] by blast
  then show ?thesis
    by (intro exI [of _ "(cam_dma s)\<lparr>dma_gpio := g\<rparr>"])
       (simp add: quick_enable_def DMA_quick_enable_IRQ_def plk_on_def PORT_PCR_IRQC_def
         PORT_PCR_IRQC_MASK_def)
qed

lemma quick_disable_ex:
  "\<exists>d. quick_disable s = Inr (s\<lparr>cam_dma := d\<rparr>) \<and> TCD d = TCD (cam_dma s) \<and>
     dma_irqhandler d = dma_irqhandler (cam_dma s) \<and> \<not> plk_on (s\<lparr>cam_dma := d\<rparr>)"
proof -
  obtain g where "gpioDMA OV6760_PLK 0 (dma_gpio (cam_dma s)) = Inr (True, g)"
    "PCR (PORT_SELECT g 3) 2 AND PORT_PCR_IRQC_MASK = PORT_PCR_IRQC (ucast (0 :: u8))"
    using gpioDMA_plk [of 0 "dma_gpio (cam_dma s)"] by blast
  then show ?thesis
    by (intro exI [of _ "(cam_dma s)\<lparr>dma_gpio := g\<rparr>"])
       (simp add: quick_disable_def DMA_quick_disable_IRQ_def plk_on_def PORT_PCR_IRQC_def
         PORT_PCR_IRQC_MASK_def)
qed

section \<open>One line\<close>

definition line_tcd :: "'c camera_state \<Rightarrow> nat \<Rightarrow> tcd_t" where
  "line_tcd s k = row_tcd PTC_PDIR_addr (aux_addr s) k"

text \<open>The state in which the module waits for the pixels of row \<open>r\<close>.\<close>

definition row_start :: "'c camera_state \<Rightarrow> nat \<Rightarrow> bool" where
  "row_start s r \<longleftrightarrow> ov7670_state s = OV7670_is_taking_picture \<and> current_row s = r \<and> active_row s \<and>
     \<not> row_complete s \<and> plk_on s \<and> TCD (cam_dma s) 0 = line_tcd s 0 \<and>
     dma_irqhandler (cam_dma s) = Some DMA_mayor_int_fn \<and> length (aux_buffer s) = 1280 \<and>
     length (bitmap_matrix s) = 76800 \<and> semProcessNewLine s = 0"

definition pixels_in :: "nat \<Rightarrow> u16 list \<Rightarrow> 'c camera_state \<Rightarrow> 'c camera_state" where
  "pixels_in k row s = s\<lparr>cam_dma := upd_tcd 0 (\<lambda>_. line_tcd s k) (cam_dma s),
     aux_buffer := take k row @ drop k (aux_buffer s)\<rparr>"

lemma row_tcd_request:
  assumes "k < 1279"
  shows "dma_request (row_tcd a b k) = (row_tcd a b (Suc k), b + 2 * of_nat k, False)"
proof -
  have "dma_requests (Suc k) (row_tcd a b 0) =
      (row_tcd a b (Suc k), map (\<lambda>i. b + 2 * of_nat i) [0..<Suc k], 0)"
    using assms by (intro row_requests) simp
  then show ?thesis
    using row_requests [of k a b] assms
    by (auto simp: Let_def split: prod.splits if_splits)
qed

lemma row_tcd_last: "dma_request (row_tcd a b 1279) = (row_tcd a b 0, b + 2 * of_nat 1279, True)"
  by (simp add: dma_request_def row_tcd_def Let_def DMA_CSR_INTMAJOR_MASK_def)

lemma aux_index: "k < 2 ^ 31 \<Longrightarrow> unat (b + 2 * of_nat k - b :: u32) div 2 = k"
proof -
  assume "k < 2 ^ 31"
  then have "unat (of_nat (2 * k) :: u32) = 2 * k" by (intro unat_of_nat_u32) simp
  then show ?thesis by simp
qed

lemma plk_on_upd [simp]:
  "plk_on (s\<lparr>cam_dma := upd_tcd 0 f (cam_dma s), aux_buffer := b\<rparr>) = plk_on s"
  by (simp add: plk_on_def upd_tcd_def)

lemma pixels_in_step:
  assumes "row_start s r" and "k < 1279" and "length row = 1280"
  shows "pixel_clock (row ! k) (pixels_in k row s) = Inr (pixels_in (Suc k) row s)"
proof -
  let ?s = "pixels_in k row s"
  have on: "plk_on ?s" using assms(1) by (simp add: pixels_in_def row_start_def)
  have req: "dma_request (TCD (cam_dma ?s) 0) = (line_tcd s (Suc k), aux_addr s + 2 * of_nat k, False)"
    using row_tcd_request [OF assms(2)] by (simp add: pixels_in_def upd_tcd_def line_tcd_def)
  have idx: "unat (aux_addr s + 2 * of_nat k - aux_addr s) div 2 = k"
    using assms(2) by (intro aux_index) simp
  have len: "length (aux_buffer s) = 1280" using assms(1) by (simp add: row_start_def)
  have upd: "(take k row @ drop k (aux_buffer s))[k := row ! k] =
      take (Suc k) row @ drop (Suc k) (aux_buffer s)"
    using len assms(2,3)
    by (simp add: list_update_append take_Suc_conv_app_nth Cons_nth_drop_Suc [symmetric])
  have wr: "wr (aux_buffer ?s) k (row ! k) = Inr (take (Suc k) row @ drop (Suc k) (aux_buffer s))"
    using len assms(2,3) upd by (simp add: wr_def pixels_in_def)
  show ?thesis
    unfolding pixel_clock_def req using on idx wr
    by (simp add: Let_def) (simp add: pixels_in_def upd_tcd_def line_tcd_def)
qed

lemma pixels_prefix:
  assumes "row_start s r" and "length row = 1280" and "k \<le> 1279"
  shows "foldR cam_step (map Pixel (take k row)) (s, cbs) = Inr (pixels_in k row s, cbs)"
  using assms(3)
proof (induction k)
  case 0
  have "pixels_in 0 row s = s"
    using assms(1) by (simp add: pixels_in_def upd_tcd_def row_start_def fun_upd_idem)
  then show ?case by simp
next
  case (Suc k)
  then have "take (Suc k) row = take k row @ [row ! k]"
    using assms(2) by (simp add: take_Suc_conv_app_nth)
  with Suc pixels_in_step [OF assms(1), of k row] assms(2) show ?case
    by (simp add: foldR_append)
qed

lemma pixels_row:
  assumes "row_start s r" and "length row = 1280"
  shows "\<exists>d. foldR cam_step (map Pixel row) (s, cbs) =
      Inr (s\<lparr>cam_dma := d, aux_buffer := row, row_complete := True\<rparr>, cbs) \<and>
    TCD d 0 = line_tcd s 0 \<and> dma_irqhandler d = Some DMA_mayor_int_fn"
proof -
  let ?s = "pixels_in 1279 row s"
  have split: "row = take 1279 row @ [row ! 1279]"
    using assms(2) take_Suc_conv_app_nth [of 1279 row] by simp
  have pre: "foldR cam_step (map Pixel (take 1279 row)) (s, cbs) = Inr (?s, cbs)"
    by (rule pixels_prefix [OF assms]) simp
  have on: "plk_on ?s" using assms(1) by (simp add: pixels_in_def row_start_def)
  have req: "dma_request (TCD (cam_dma ?s) 0) = (line_tcd s 0, aux_addr s + 2 * of_nat 1279, True)"
    using row_tcd_last by (simp add: pixels_in_def upd_tcd_def line_tcd_def)
  have idx: "unat (aux_addr s + 2 * of_nat 1279 - aux_addr s) div 2 = 1279"
    by (intro aux_index) simp
  have len: "length (aux_buffer s) = 1280" using assms(1) by (simp add: row_start_def)
  have "length (drop 1279 (aux_buffer s)) = Suc 0" using len by simp
  then obtain x where "drop 1279 (aux_buffer s) = [x]"
    unfolding length_Suc_conv length_0_conv by blast
  then have "(take 1279 row @ drop 1279 (aux_buffer s))[1279 := row ! 1279] =
      take 1279 row @ [row ! 1279]"
    using assms(2) by (simp add: list_update_append)
  then have "(take 1279 row @ drop 1279 (aux_buffer s))[1279 := row ! 1279] = row"
    using split by simp
  then have wr: "wr (aux_buffer ?s) 1279 (row ! 1279) = Inr row"
    using len assms(2) by (simp add: wr_def pixels_in_def)
  let ?d = "upd_tcd 0 (\<lambda>_. line_tcd s 0) (cam_dma s)"
  have "pixel_clock (row ! 1279) ?s = Inr (s\<lparr>cam_dma := ?d, aux_buffer := row, row_complete := True\<rparr>)"
    unfolding pixel_clock_def req using on idx wr assms(1)
    by (simp add: Let_def)
       (simp add: pixels_in_def upd_tcd_def line_tcd_def DMA0_IRQHandler_def row_start_def DMA_mayor_int_def)
  then have "foldR cam_step (map Pixel (take 1279 row @ [row ! 1279])) (s, cbs) =
      Inr (s\<lparr>cam_dma := ?d, aux_buffer := row, row_complete := True\<rparr>, cbs)"
    using pre by (simp add: foldR_append)
  then show ?thesis
    using split assms(1) by (intro exI [of _ ?d]) (simp add: upd_tcd_def row_start_def)
qed

text \<open>The bytes a stored line gives, and the task that writes them to the bitmap.\<close>

definition line_bytes :: "u16 list \<Rightarrow> u8 list" where
  "line_bytes row = map (\<lambda>c. pixel_of (row ! (4 * c + 1))) [0..<320]"

lemma length_line_bytes [simp]: "length (line_bytes row) = 320"
  by (simp add: line_bytes_def)

lemma process_cols:
  assumes "length (aux_buffer s) = 1280" and "320 * current_row s \<le> length (bitmap_matrix s)"
    and "n \<le> 320"
  shows "foldR process_col [0..<n] s =
    bindR (write_bytes (bitmap_matrix s) (320 * current_row s)
       (map (\<lambda>c. pixel_of (aux_buffer s ! (4 * c + 1))) [0..<n])) (\<lambda>m. Inr (s\<lparr>bitmap_matrix := m\<rparr>))"
  using assms(3)
proof (induction n)
  case 0
  then show ?case using assms(2) by (simp add: write_bytes_Nil)
next
  case (Suc n)
  let ?k = "320 * current_row s" and ?f = "\<lambda>c. pixel_of (aux_buffer s ! (4 * c + 1))"
  show ?case
  proof (cases "write_bytes (bitmap_matrix s) ?k (map ?f [0..<n])")
    case (Inr m)
    with Suc assms(1) show ?thesis
      by (simp add: foldR_append write_bytes_append write_bytes_single process_col_def rd_in bindR_assoc)
  qed (use Suc in \<open>simp add: foldR_append write_bytes_append\<close>)
qed

lemma process_line:
  assumes "length (aux_buffer s) = 1280" and "length (bitmap_matrix s) = 76800"
    and "current_row s < 240"
  shows "OV7670_process_new_line s = Inr (s\<lparr>bitmap_matrix := take (320 * current_row s) (bitmap_matrix s) @
      line_bytes (aux_buffer s) @ drop (320 * Suc (current_row s)) (bitmap_matrix s)\<rparr>)"
proof -
  have "320 * current_row s + 320 \<le> length (bitmap_matrix s)" using assms by simp
  then show ?thesis
    using process_cols [of s 320] assms
    by (simp add: OV7670_process_new_line_def write_bytes_def line_bytes_def add.commute)
qed

lemma process_line_out:
  assumes "length (aux_buffer s) = 1280" and "length (bitmap_matrix s) = 76800"
    and "current_row s = 240"
  shows "OV7670_process_new_line s = Inl Out_Of_Bounds"
  using process_cols [of s 320] assms
  by (simp add: OV7670_process_new_line_def write_bytes_def)

text \<open>The signals of one line: its pixels, the end of the line, the task, the line skipped.\<close>

definition row_events :: "u16 list \<Rightarrow> 'c cam_event list" where
  "row_events row = map Pixel row @ [HRef_Falling, Line_Task, HRef_Falling]"

text \<open>The end of a line whose pixels have been stored.\<close>

lemma href_ends_row:
  assumes "ov7670_state s = OV7670_is_taking_picture" and "active_row s" and "row_complete s"
    and "current_row s < 240" and "DADDR (TCD (cam_dma s) 0) = aux_addr s"
  shows "\<exists>d. horizontal_ref_falling s = Inr (s\<lparr>cam_dma := d, active_row := False, row_complete := False,
      semProcessNewLine := semProcessNewLine s + 1\<rparr>) \<and> TCD d = TCD (cam_dma s) \<and>
      dma_irqhandler d = dma_irqhandler (cam_dma s)"
proof -
  obtain d where "quick_disable s = Inr (s\<lparr>cam_dma := d\<rparr>)" "TCD d = TCD (cam_dma s)"
    "dma_irqhandler d = dma_irqhandler (cam_dma s)"
    using quick_disable_ex by blast
  with assms show ?thesis
    by (intro exI [of _ d]) (simp add: horizontal_ref_falling_def DMA_get_daddr_def)
qed

lemma href_skips_row:
  assumes "ov7670_state s = OV7670_is_taking_picture" and "\<not> active_row s"
  shows "\<exists>d. horizontal_ref_falling s = Inr (s\<lparr>current_row := current_row s + 1, active_row := True,
      cam_dma := d\<rparr>) \<and> TCD d = TCD (cam_dma s) \<and>
      dma_irqhandler d = dma_irqhandler (cam_dma s) \<and> plk_on (s\<lparr>cam_dma := d\<rparr>)"
proof -
  let ?s = "s\<lparr>current_row := current_row s + 1, active_row := True\<rparr>"
  obtain d where "quick_enable ?s = Inr (?s\<lparr>cam_dma := d\<rparr>)" "TCD d = TCD (cam_dma s)"
    "dma_irqhandler d = dma_irqhandler (cam_dma s)" "plk_on (?s\<lparr>cam_dma := d\<rparr>)"
    using quick_enable_ex [of ?s] by auto
  with assms show ?thesis
    by (intro exI [of _ d]) (simp add: horizontal_ref_falling_def plk_on_def)
qed

lemma row_tcd_home: "DADDR (line_tcd s 0) = aux_addr s"
  by (simp add: line_tcd_def row_tcd_def)

lemma row_captured:
  assumes "row_start s r" and "r < 240" and "length row = 1280"
  shows "\<exists>t. foldR cam_step (row_events row) (s, cbs) = Inr (t, cbs) \<and> row_start t (Suc r) \<and>
    bitmap_matrix t = take (320 * r) (bitmap_matrix s) @ line_bytes row @
      drop (320 * Suc r) (bitmap_matrix s) \<and>
    picture_ready_callback t = picture_ready_callback s"
proof -
  obtain d1 where d1: "foldR cam_step (map Pixel row) (s, cbs) =
      Inr (s\<lparr>cam_dma := d1, aux_buffer := row, row_complete := True\<rparr>, cbs)"
    "TCD d1 0 = line_tcd s 0" "dma_irqhandler d1 = Some DMA_mayor_int_fn"
    using pixels_row [OF assms(1,3)] by blast
  let ?s1 = "s\<lparr>cam_dma := d1, aux_buffer := row, row_complete := True\<rparr>"
  note st = assms(1) [unfolded row_start_def]
  obtain d2 where d2: "horizontal_ref_falling ?s1 = Inr (?s1\<lparr>cam_dma := d2, active_row := False,
      row_complete := False, semProcessNewLine := semProcessNewLine ?s1 + 1\<rparr>)" "TCD d2 = TCD d1"
    "dma_irqhandler d2 = dma_irqhandler d1"
    using href_ends_row [of ?s1] st assms(2) d1(2) row_tcd_home [of s] by auto
  let ?s2 = "?s1\<lparr>cam_dma := d2, active_row := False, row_complete := False, semProcessNewLine := 1\<rparr>"
  let ?m = "take (320 * r) (bitmap_matrix s) @ line_bytes row @ drop (320 * Suc r) (bitmap_matrix s)"
  have s3: "OV7670_run_round ?s2 = Inr (?s2\<lparr>semProcessNewLine := 0, bitmap_matrix := ?m\<rparr>)"
    using process_line [of "?s2\<lparr>semProcessNewLine := 0\<rparr>"] st assms(2,3)
    by (simp add: OV7670_run_round_def)
  let ?s3 = "?s2\<lparr>semProcessNewLine := 0, bitmap_matrix := ?m\<rparr>"
  obtain d4 where d4: "horizontal_ref_falling ?s3 = Inr (?s3\<lparr>current_row := current_row ?s3 + 1,
      active_row := True, cam_dma := d4\<rparr>)" "TCD d4 = TCD d2" "dma_irqhandler d4 = dma_irqhandler d2"
    "plk_on (?s3\<lparr>cam_dma := d4\<rparr>)"
    using href_skips_row [of ?s3] st by auto
  let ?t = "?s3\<lparr>current_row := Suc r, active_row := True, cam_dma := d4\<rparr>"
  have "semProcessNewLine s = 0" "current_row s = r" using st by simp_all
  then have "foldR cam_step (row_events row) (s, cbs) = Inr (?t, cbs)"
    using d1(1) d2(1) s3 d4(1) by (simp add: row_events_def foldR_append)
  moreover have "row_start ?t (Suc r)"
    using st d1(2,3) d2(2,3) d4(2-) assms(2,3)
    by (simp add: row_start_def line_tcd_def plk_on_def)
  ultimately show ?thesis by (intro exI [of _ ?t]) simp
qed

section \<open>Many lines\<close>

lemma rows_captured:
  assumes "row_start s r" and "r + length rows \<le> 240" and "\<forall>row \<in> set rows. length row = 1280"
  shows "\<exists>t. foldR cam_step (concat (map row_events rows)) (s, cbs) = Inr (t, cbs) \<and>
    row_start t (r + length rows) \<and> picture_ready_callback t = picture_ready_callback s \<and>
    bitmap_matrix t = take (320 * r) (bitmap_matrix s) @ concat (map line_bytes rows) @
      drop (320 * (r + length rows)) (bitmap_matrix s)"
  using assms
proof (induction rows arbitrary: s r)
  case Nil
  then show ?case by simp
next
  case (Cons row rows)
  then have r: "r < 240" "length row = 1280" by auto
  obtain u where u: "foldR cam_step (row_events row) (s, cbs) = Inr (u, cbs)" "row_start u (Suc r)"
    "bitmap_matrix u = take (320 * r) (bitmap_matrix s) @ line_bytes row @
       drop (320 * Suc r) (bitmap_matrix s)"
    "picture_ready_callback u = picture_ready_callback s"
    using row_captured [OF Cons.prems(1) r, of cbs] by blast
  have "Suc r + length rows \<le> 240" "\<forall>row \<in> set rows. length row = 1280"
    using Cons.prems by auto
  from Cons.IH [OF u(2) this] obtain t where t:
    "foldR cam_step (concat (map row_events rows)) (u, cbs) = Inr (t, cbs)"
    "row_start t (Suc r + length rows)" "picture_ready_callback t = picture_ready_callback u"
    "bitmap_matrix t = take (320 * Suc r) (bitmap_matrix u) @ concat (map line_bytes rows) @
      drop (320 * (Suc r + length rows)) (bitmap_matrix u)" by blast
  have len: "length (bitmap_matrix s) = 76800" using Cons.prems(1) by (simp add: row_start_def)
  have tk: "take (320 * Suc r) (bitmap_matrix u) = take (320 * r) (bitmap_matrix s) @ line_bytes row"
    using r(1) Cons.prems(2) len by (simp add: u(3))
  have ix: "320 * Suc r + (320 * (Suc r + length rows) - 320 * r - 320) =
      320 * (r + length (row # rows))" by simp
  have dr: "drop (320 * (Suc r + length rows)) (bitmap_matrix u) =
      drop (320 * (r + length (row # rows))) (bitmap_matrix s)"
    using r(1) Cons.prems(2) len ix by (simp only: u(3) drop_append drop_drop) (simp add: ac_simps)
  from t u tk dr show ?case by (intro exI [of _ t]) (simp add: foldR_append)
qed

lemma vsync_starts:
  assumes "ov7670_state s = OV7670_is_ready \<or> ov7670_state s = OV7670_new_picture"
    and "picture_requested s" and "length (aux_buffer s) = 1280" and "length (bitmap_matrix s) = 76800"
    and "semProcessNewLine s = 0" and "dma_irqhandler (cam_dma s) = Some DMA_mayor_int_fn"
    and "CSR (TCD (cam_dma s) 0) = DMA_CSR_INTMAJOR_MASK"
  shows "\<exists>t. vertical_sync_rising s = Inr (t, None) \<and> row_start t 0 \<and> \<not> picture_requested t \<and>
    bitmap_matrix t = bitmap_matrix s \<and> picture_ready_callback t = picture_ready_callback s"
proof -
  let ?s = "s\<lparr>picture_requested := False, current_row := 0, active_row := True,
     row_complete := False,
     cam_dma := DMA_quick_config 0 PTC_PDIR_addr (aux_addr s) 0 2 DMA_16bit 2 (320 * 4)
       0 (- (2 * 4 * 320)) (cam_dma s), ov7670_state := OV7670_is_taking_picture\<rparr>"
  obtain d where d: "quick_enable ?s = Inr (?s\<lparr>cam_dma := d\<rparr>)" "TCD d = TCD (cam_dma ?s)"
    "dma_irqhandler d = dma_irqhandler (cam_dma ?s)" "plk_on (?s\<lparr>cam_dma := d\<rparr>)"
    using quick_enable_ex by blast
  have "TCD (cam_dma ?s) 0 = line_tcd s 0"
    using row_config [OF assms(7)] by (simp add: line_tcd_def)
  moreover have "dma_irqhandler (cam_dma ?s) = Some DMA_mayor_int_fn"
    using assms(6) by (simp add: DMA_quick_config_def upd_tcd_def)
  ultimately have "row_start (?s\<lparr>cam_dma := d\<rparr>) 0"
    using d(2-) assms(3-5) by (simp add: row_start_def line_tcd_def plk_on_def)
  moreover have "vertical_sync_rising s = Inr (?s\<lparr>cam_dma := d\<rparr>, None)"
    using assms(1,2) d(1) by (auto simp: vertical_sync_rising_def Let_def)
  ultimately show ?thesis by (intro exI [of _ "?s\<lparr>cam_dma := d\<rparr>"]) simp
qed

lemma vsync_ends:
  assumes "ov7670_state s = OV7670_is_taking_picture"
  shows "\<exists>d. vertical_sync_rising s = Inr (s\<lparr>cam_dma := d, ov7670_state := OV7670_new_picture\<rparr>,
      picture_ready_callback s) \<and> \<not> plk_on (s\<lparr>cam_dma := d\<rparr>)"
proof -
  obtain d where "quick_disable s = Inr (s\<lparr>cam_dma := d\<rparr>)" "\<not> plk_on (s\<lparr>cam_dma := d\<rparr>)"
    using quick_disable_ex by blast
  with assms show ?thesis by (intro exI [of _ d]) (simp add: vertical_sync_rising_def)
qed

section \<open>A late task, an error\<close>

lemma line_late:
  assumes "row_start s r" and "r < 240" and "length row = 1280"
  shows "\<exists>u. foldR cam_step (map Pixel row @ [HRef_Falling, HRef_Falling]) (s, cbs) = Inr (u, cbs) \<and>
    semProcessNewLine u = 1 \<and> current_row u = Suc r \<and> aux_buffer u = row \<and>
    bitmap_matrix u = bitmap_matrix s"
proof -
  obtain d1 where d1: "foldR cam_step (map Pixel row) (s, cbs) =
      Inr (s\<lparr>cam_dma := d1, aux_buffer := row, row_complete := True\<rparr>, cbs)"
    "TCD d1 0 = line_tcd s 0" using pixels_row [OF assms(1,3)] by blast
  let ?s1 = "s\<lparr>cam_dma := d1, aux_buffer := row, row_complete := True\<rparr>"
  note st = assms(1) [unfolded row_start_def]
  obtain d2 where d2: "horizontal_ref_falling ?s1 = Inr (?s1\<lparr>cam_dma := d2, active_row := False,
      row_complete := False, semProcessNewLine := semProcessNewLine ?s1 + 1\<rparr>)"
    using href_ends_row [of ?s1] st assms(2) d1(2) row_tcd_home [of s] by auto
  let ?s2 = "?s1\<lparr>cam_dma := d2, active_row := False, row_complete := False,
      semProcessNewLine := semProcessNewLine ?s1 + 1\<rparr>"
  obtain d3 where d3: "horizontal_ref_falling ?s2 = Inr (?s2\<lparr>current_row := current_row ?s2 + 1,
      active_row := True, cam_dma := d3\<rparr>)"
    using href_skips_row [of ?s2] st by auto
  show ?thesis
    using d1(1) d2 d3 st by (simp add: foldR_append)
qed

lemma error_step:
  assumes "ov7670_state s = OV7670_error" and "\<not> plk_on s" and "semProcessNewLine s = 0"
    and "e \<noteq> I2C_Done"
  shows "\<exists>t. cam_step e (s, cbs) = Inr (t, cbs) \<and> ov7670_state t = OV7670_error \<and> \<not> plk_on t \<and>
    semProcessNewLine t = 0 \<and> bitmap_matrix t = bitmap_matrix s"
  using assms
  by (cases e)
     (simp_all add: vertical_sync_rising_def horizontal_ref_falling_def pixel_clock_def
       OV7670_run_round_def OV7670_TakePicture_def plk_on_def)

section \<open>Initialisation\<close>

lemma gpioMode_ok: "port_ok p \<Longrightarrow> \<exists>g. gpioMode p m a b c d e f s = Inr g"
  by (auto simp: gpioMode_def gpioCG_def rd_def port_ok_def SIM_SCGC5_PORT_MASKS_def Let_def)

definition gpio_only :: "'c camera_state \<Rightarrow> 'c camera_state \<Rightarrow> bool" where
  "gpio_only s t \<longleftrightarrow> (\<exists>g. t = s\<lparr>cam_dma := (cam_dma s)\<lparr>dma_gpio := g\<rparr>\<rparr>)"

lemma gpio_only_trans: "gpio_only s t \<Longrightarrow> gpio_only t u \<Longrightarrow> gpio_only s u"
  by (auto simp: gpio_only_def)

lemma mode_pin: "port_ok p \<Longrightarrow> \<exists>t. on_gpio (gpioMode p m a b c d e f) s = Inr t \<and> gpio_only s t"
  using gpioMode_ok [of p m a b c d e f "dma_gpio (cam_dma s)"] by (auto simp: on_gpio_def gpio_only_def)

lemma mode_pins:
  assumes "\<forall>p \<in> set ps. port_ok p"
  shows "\<exists>t. foldR (\<lambda>p. on_gpio (gpioMode p INPUT 0 0 0 0 0 0)) ps s = Inr t \<and> gpio_only s t"
  using assms
proof (induction ps arbitrary: s)
  case Nil
  have "s = s\<lparr>cam_dma := (cam_dma s)\<lparr>dma_gpio := dma_gpio (cam_dma s)\<rparr>\<rparr>" by simp
  then have "gpio_only s s" unfolding gpio_only_def by (rule exI)
  then show ?case by simp
next
  case (Cons p ps)
  then have "port_ok p" by simp
  from mode_pin [OF this] obtain u where u: "on_gpio (gpioMode p INPUT 0 0 0 0 0 0) s = Inr u"
    "gpio_only s u" by blast
  from Cons obtain t where "foldR (\<lambda>p. on_gpio (gpioMode p INPUT 0 0 0 0 0 0)) ps u = Inr t"
    "gpio_only u t" by fastforce
  then show ?case using u(1) gpio_only_trans [OF u(2)] by (intro exI [of _ t]) simp
qed

lemma sync_pin_ok: "port_ok p \<Longrightarrow> \<exists>t. sync_pin p m f s = Inr t \<and> gpio_only s t"
proof -
  assume p: "port_ok p"
  obtain u where u: "on_gpio (gpioMode p INPUT 0 0 0 0 0 0) s = Inr u" "gpio_only s u"
    using mode_pin [OF p] by blast
  have "\<exists>t. on_gpio (\<lambda>g. bindR (gpioIRQ p m (Some f) g) (\<lambda>(r, g'). Inr g')) u = Inr t \<and> gpio_only u t"
    using p by (simp add: on_gpio_def gpioIRQ_def Let_def gpio_only_def) blast
  then obtain t where "on_gpio (\<lambda>g. bindR (gpioIRQ p m (Some f) g) (\<lambda>(r, g'). Inr g')) u = Inr t"
    "gpio_only u t" by blast
  then show ?thesis
    using u(1) gpio_only_trans [OF u(2)] by (intro exI [of _ t]) (simp add: sync_pin_def)
qed

lemma request_config_off:
  "\<exists>d'. DMA_Request_Config ch OV6760_PLK 0 d = Inr d' \<and> TCD d' = TCD d \<and>
     dma_irqhandler d' = dma_irqhandler d \<and> (\<forall>c. \<not> plk_on (c\<lparr>cam_dma := d'\<rparr>))"
proof -
  obtain g where g: "gpioMode OV6760_PLK INPUT 0 0 0 0 0 0 (dma_gpio d) = Inr g"
    using gpioMode_ok plk_pin(1,4) by metis
  obtain h where "gpioDMA OV6760_PLK 0 g = Inr (True, h)"
    "PCR (PORT_SELECT h 3) 2 AND PORT_PCR_IRQC_MASK = PORT_PCR_IRQC (ucast (0 :: u8))"
    using gpioDMA_plk [of 0 g] by blast
  with g show ?thesis
    by (simp add: DMA_Request_Config_def Let_def DMA_quick_enable_IRQ_def plk_on_def PORT_PCR_IRQC_def)
qed

lemma ftm_init_returns:
  assumes "\<forall>i. length (CONTROLS (FTM s i)) = 8"
  shows "\<exists>t. FTM_Init s = Inr t"
proof -
  have "length (CONTROLS (FTM s 3)) = 8" using assms by auto
  then show ?thesis
    by (simp add: FTM_Init_def PWM_Init_def on_module_def FTM_SetPrescaler_def FTM_SetModulus_def
        FTM_SetOverflowMode_def FTM_SetWorkingMode_def on_channel_ok
        FTM_SetPulseWidthModulationLogic_def FTM_SetCounter_def FTM_StartClock_def Let_def)
qed

definition reg_cell :: "nat \<Rightarrow> I2C_FIFO_cell" where
  "reg_cell p = \<lparr>cell_rnotw = False, cell_s_addr = 0x21, cell_w_q = Some p, cell_r_q = None,
     cell_w_q_s = 2, cell_r_q_s = 0\<rparr>"

lemma fifo_init_empty:
  assumes "\<not> fifo_inited q" and "length (I2C_FIFO q) = I2C_FIFO_SIZE" and "I2C_FIFO_init (ts, q) = (ts', q')"
  shows "fifo_ok (I2C_FIFO_empty_callback cb q')" and "fifo_contents (I2C_FIFO_empty_callback cb q') = []"
  using assms
  by (auto simp: I2C_FIFO_init_def Let_def I2C_FIFO_empty_callback_def fifo_ok_def fifo_contents_def
      fifo_count_def I2C_FIFO_SIZE_def split: prod.splits)

section \<open>Properties\<close>

text \<open>C9: A requested picture is taken between two vertical synchronisation signals: when the
  sensor delivers 240 lines of 1280 samples, each followed by the line that is skipped, and the
  task runs after each line, the bitmap holds exactly the picture, line by line, every fourth
  sample from the second on reduced to a grey value; the pixel clock is off again, the state says
  that there is a picture, and the user's routine is called once.\<close>

theorem camera_takes_picture:
  assumes "ov7670_state s = OV7670_is_ready \<or> ov7670_state s = OV7670_new_picture"
    and "picture_requested s" and "length (aux_buffer s) = 1280" and "length (bitmap_matrix s) = 76800"
    and "semProcessNewLine s = 0" and "dma_irqhandler (cam_dma s) = Some DMA_mayor_int_fn"
    and "CSR (TCD (cam_dma s) 0) = DMA_CSR_INTMAJOR_MASK"
    and "picture_ready_callback s = Some c"
    and "length rows = 240" and "\<forall>row \<in> set rows. length row = 1280"
  shows "\<exists>t. foldR cam_step (VSync # concat (map row_events rows) @ [VSync]) (s, []) = Inr (t, [c]) \<and>
    OV7670_GetPicture t = (concat (map line_bytes rows), True) \<and> \<not> plk_on t"
proof -
  obtain u where u: "vertical_sync_rising s = Inr (u, None)" "row_start u 0"
    "bitmap_matrix u = bitmap_matrix s" "picture_ready_callback u = Some c"
    using vsync_starts [OF assms(1-7)] assms(8) by auto
  have "0 + length rows \<le> 240" using assms(9) by simp
  from rows_captured [OF u(2) this assms(10), of "[]"] obtain v where v:
    "foldR cam_step (concat (map row_events rows)) (u, []) = Inr (v, [])" "row_start v 240"
    "bitmap_matrix v = concat (map line_bytes rows)" "picture_ready_callback v = Some c"
    using assms(4,9) u(3,4) by auto
  obtain d where d: "vertical_sync_rising v = Inr (v\<lparr>cam_dma := d, ov7670_state := OV7670_new_picture\<rparr>,
      Some c)" "\<not> plk_on (v\<lparr>cam_dma := d\<rparr>)"
    using vsync_ends [of v] v(2,4) by (auto simp: row_start_def)
  let ?t = "v\<lparr>cam_dma := d, ov7670_state := OV7670_new_picture\<rparr>"
  have "foldR cam_step (VSync # concat (map row_events rows) @ [VSync]) (s, []) = Inr (?t, [c])"
    using u(1) v(1) d(1) by (simp add: foldR_append)
  then show ?thesis
    using d(2) v(3) by (intro exI [of _ ?t]) (simp add: OV7670_GetPicture_def plk_on_def)
qed

definition cam_example :: "nat camera_state" where
  "cam_example = \<lparr>ov7670_state = OV7670_is_ready, semProcessNewLine = 0, picture_requested = True,
     current_row = 0, active_row = False, row_complete = False, picture_ready_callback = Some 7,
     aux_buffer = replicate 1280 0, aux_addr = 0x20000000, init_addr = 0,
     bitmap_matrix = replicate 76800 0,
     cam_dma = \<lparr>TCD = TCD dma_example, ERQ = 0, CHCFG = (\<lambda>i. 0), dma_SCGC6 = 0, dma_SCGC7 = 0,
       dma_nvic = (\<lambda>i. False), dma_irqhandler = Some DMA_mayor_int_fn,
       dma_gpio = \<lparr>PORT_SELECT = PORT_SELECT gpio_example, SCGC5 = 0, port_pin_interrupt = (\<lambda>p i. None),
         pin_irq_configured = (\<lambda>p i. 0), nvic_enabled = (\<lambda>p. False)\<rparr>\<rparr>,
     cam_fifo = \<lparr>I2C_FIFO = I2C_FIFO fifo_example, I2C_FIFO_head = 0, I2C_FIFO_tail = 0,
       I2C_FIFO_timer = 0, I2C_is_sending_message = False, I2C_FIFO_emptycallback = None,
       fifo_inited = False,
       fifo_i2c = \<lparr>i2c_com = \<lparr>com_state = I2C_IDLE, readnotwrite = False, slave_address = 0,
         write_queue = None, read_queue = None, write_queue_size = 0, read_queue_size = 0,
         writing_byte_counter = 0, reading_byte_counter = 0, end_routine = None\<rparr>,
       I2C0 = I2C0 (fifo_i2c fifo_example), mem = Map.empty, i2c_inited = True, SIM_SCGC4 = 0,
       SIM_SCGC5 = 0, PCR_SDA = 0, PCR_SCL = 0, I2C0_irq = True\<rparr>\<rparr>,
     cam_ftm = ftm_power_on\<rparr>"

lemma camera_takes_picture_witness:
  "\<exists>t. foldR cam_step (VSync # concat (map row_events (replicate 240 (replicate 1280 0x3F))) @ [VSync])
     (cam_example, []) = Inr (t, [7])"
  using camera_takes_picture [of cam_example 7 "replicate 240 (replicate 1280 0x3F)"]
  by (simp add: cam_example_def dma_example_def) blast

text \<open>Nothing holds the sensor back until the task has copied a line. When the task runs only
  after the synchronisation of the next line, it writes the line one row too low, over the place
  of the next one; for the last line of the picture that is outside the bitmap.\<close>

theorem camera_line_late:
  assumes "row_start s r" and "r < 240" and "length row = 1280"
  shows "if r = 239
    then foldR cam_step (map Pixel row @ [HRef_Falling, HRef_Falling, Line_Task]) (s, cbs) =
      Inl Out_Of_Bounds
    else \<exists>t. foldR cam_step (map Pixel row @ [HRef_Falling, HRef_Falling, Line_Task]) (s, cbs) =
        Inr (t, cbs) \<and>
      bitmap_matrix t = take (320 * Suc r) (bitmap_matrix s) @ line_bytes row @
        drop (320 * Suc (Suc r)) (bitmap_matrix s)"
proof -
  obtain u where u: "foldR cam_step (map Pixel row @ [HRef_Falling, HRef_Falling]) (s, cbs) = Inr (u, cbs)"
    "semProcessNewLine u = 1" "current_row u = Suc r" "aux_buffer u = row"
    "bitmap_matrix u = bitmap_matrix s"
    using line_late [OF assms] by blast
  let ?u = "u\<lparr>semProcessNewLine := 0\<rparr>"
  have len: "length (bitmap_matrix s) = 76800" using assms(1) by (simp add: row_start_def)
  have "foldR cam_step ((map Pixel row @ [HRef_Falling, HRef_Falling]) @ [Line_Task]) (s, cbs) =
      bindR (OV7670_process_new_line ?u) (\<lambda>t. Inr (t, cbs))"
    unfolding foldR_append [of cam_step "map Pixel row @ [HRef_Falling, HRef_Falling]"] u(1)
    using u(2)
    by (simp add: OV7670_run_round_def) (cases "OV7670_process_new_line ?u"; simp)
  then show ?thesis
    using process_line [of ?u] process_line_out [of ?u] u(3-5) assms(2,3) len by simp
qed

text \<open>An error is final as long as the sensor's interface sends nothing: with the pixel clock
  off, no further signal and no request changes the bitmap, ends the error or makes a call.\<close>

theorem camera_error_stays:
  assumes "ov7670_state s = OV7670_error" and "\<not> plk_on s" and "semProcessNewLine s = 0"
    and "I2C_Done \<notin> set es"
  shows "\<exists>t. foldR cam_step es (s, cbs) = Inr (t, cbs) \<and> ov7670_state t = OV7670_error \<and>
    \<not> plk_on t \<and> semProcessNewLine t = 0 \<and> bitmap_matrix t = bitmap_matrix s"
  using assms
proof (induction es arbitrary: s)
  case (Cons e es)
  then obtain u where "cam_step e (s, cbs) = Inr (u, cbs)" "ov7670_state u = OV7670_error"
    "\<not> plk_on u" "semProcessNewLine u = 0" "bitmap_matrix u = bitmap_matrix s"
    using error_step [of s e cbs] by auto
  with Cons show ?case by fastforce
qed simp

text \<open>The initialisation queues the five register writes of the table in order, sets up the
  controller for one line of samples and leaves the pixel clock off: once the queue has reported
  that it is empty, a requested picture can be taken.\<close>

theorem camera_init_ready:
  fixes s :: "'u camera_state"
  assumes "ov7670_state s = OV7670_not_initialized" and "\<not> fifo_inited (cam_fifo s)"
    and "length (I2C_FIFO (cam_fifo s)) = I2C_FIFO_SIZE"
    and "\<forall>i. length (CONTROLS (FTM (cam_ftm s) i)) = 8"
  shows "\<exists>ts' t. OV7670_Init (ts, s) = Inr (ts', t) \<and> ov7670_state t = OV7670_is_busy \<and>
    fifo_contents (cam_fifo t) = map (\<lambda>i. reg_cell (init_addr s + i)) [0, 1, 2, 3, 4] \<and>
    dma_irqhandler (cam_dma t) = Some DMA_mayor_int_fn \<and>
    CSR (TCD (cam_dma t) 0) = DMA_CSR_INTMAJOR_MASK \<and> semProcessNewLine t = 0 \<and>
    \<not> picture_requested t \<and> \<not> plk_on t \<and>
    ov7670_state (I2C_finished_callback t) = OV7670_is_ready"
proof -
  have pins: "\<forall>p \<in> set OV6760_data_pins. port_ok p" "port_ok OV6760_VS" "port_ok OV6760_HS"
    by (simp_all add: OV6760_data_pins_def OV6760_VS_def OV6760_HS_def PORTNUM2PIN_def port_ok_def
        PIN2PORT_def)
  let ?s1 = "s\<lparr>semProcessNewLine := 0, picture_requested := False, picture_ready_callback := None\<rparr>"
  obtain s2 where s2: "foldR (\<lambda>p. on_gpio (gpioMode p INPUT 0 0 0 0 0 0)) OV6760_data_pins ?s1 = Inr s2"
    "gpio_only ?s1 s2" using mode_pins [OF pins(1)] by blast
  obtain s3 where s3: "sync_pin OV6760_VS 9 vertical_sync_rising_fn s2 = Inr s3" "gpio_only s2 s3"
    using sync_pin_ok [OF pins(2)] by blast
  obtain s4 where s4: "sync_pin OV6760_HS 10 horizontal_ref_falling_fn s3 = Inr s4" "gpio_only s3 s4"
    using sync_pin_ok [OF pins(3)] by blast
  obtain g where g: "s4 = ?s1\<lparr>cam_dma := (cam_dma s)\<lparr>dma_gpio := g\<rparr>\<rparr>"
    using gpio_only_trans [OF gpio_only_trans [OF s2(2) s3(2)] s4(2)] by (auto simp: gpio_only_def)
  obtain ftm where ftm: "FTM_Init (cam_ftm s) = Inr ftm"
    using ftm_init_returns [OF assms(4)] by blast
  obtain ts' q where q: "I2C_FIFO_init (ts, cam_fifo s) = (ts', q)" by fastforce
  let ?q = "I2C_FIFO_empty_callback (Some (User_fn I2C_finished_callback_fn)) q"
  note fq = fifo_init_empty [OF assms(2,3) q, of "Some (User_fn I2C_finished_callback_fn)"]
  let ?q5 = "fold I2C_FIFO_new_message (map (\<lambda>i. reg_cell (init_addr s + i)) [0, 1, 2, 3, 4]) ?q"
  have q5: "fifo_contents ?q5 = map (\<lambda>i. reg_cell (init_addr s + i)) [0, 1, 2, 3, 4]"
    using fifo.puts_contents [OF fq(1), of "map (\<lambda>i. reg_cell (init_addr s + i)) [0, 1, 2, 3, 4]"]
      fq(2) by simp
  have ix: "[0..<length OV7670_init] = [0, 1, 2, 3, 4]" by (simp add: OV7670_init_def upt_rec)
  let ?d = "DMA_Set_IRQ_Handler (Some DMA_mayor_int_fn)
    (DMA_Config 0 PTC_PDIR_addr (aux_addr s) 0 2 DMA_16bit 2 (320 * 4) 0 (- (2 * 4 * 320))
      (DMA_Init ((cam_dma s)\<lparr>dma_gpio := g\<rparr>)))"
  obtain d where d: "DMA_Request_Config 0 OV6760_PLK 0 ?d = Inr d" "TCD d = TCD ?d"
    "dma_irqhandler d = dma_irqhandler ?d" "\<And>c :: 'u camera_state. \<not> plk_on (c\<lparr>cam_dma := d\<rparr>)"
    using request_config_off [of 0 ?d] by blast
  let ?t = "?s1\<lparr>ov7670_state := OV7670_is_busy, cam_dma := d, cam_fifo := ?q5, cam_ftm := ftm\<rparr>"
  have "OV7670_Init (ts, s) = Inr (ts', ?t)"
    using assms(1) s2(1) s3(1) s4(1) ftm q d(1)
    by (simp add: OV7670_Init_def g ix Let_def OV7670_Config_def reg_cell_def)
  moreover have "CSR (TCD d 0) = DMA_CSR_INTMAJOR_MASK"
    by (simp add: d(2) DMA_Set_IRQ_Handler_def DMA_Config_def Let_def upd_tcd_def)
  ultimately show ?thesis
    using q5 d(3) d(4) [of ?t]
    by (intro exI [of _ ts'] exI [of _ ?t]) (simp add: DMA_Set_IRQ_Handler_def I2C_finished_callback_def plk_on_def)
qed

lemma camera_init_ready_witness:
  "\<exists>ts t. OV7670_Init (timers_power_on, cam_example\<lparr>ov7670_state := OV7670_not_initialized\<rparr>) = Inr (ts, t) \<and>
     fifo_contents (cam_fifo t) = map reg_cell [0, 1, 2, 3, 4]"
proof -
  let ?s = "cam_example\<lparr>ov7670_state := OV7670_not_initialized\<rparr>"
  have "ov7670_state ?s = OV7670_not_initialized" "\<not> fifo_inited (cam_fifo ?s)"
    "length (I2C_FIFO (cam_fifo ?s)) = I2C_FIFO_SIZE"
    "\<forall>i. length (CONTROLS (FTM (cam_ftm ?s) i)) = 8" "init_addr ?s = 0"
    by (simp_all add: cam_example_def fifo_example_def I2C_FIFO_SIZE_def ftm_power_on_def)
  from camera_init_ready [OF this(1-4), of timers_power_on] this(5) show ?thesis by fastforce
qed

lemma camera_error_stays_witness:
  "\<exists>t. foldR cam_step [VSync, Take (Some 3), HRef_Falling, VSync]
     (cam_example\<lparr>ov7670_state := OV7670_error\<rparr>, []) = Inr (t, []) \<and> ov7670_state t = OV7670_error"
proof -
  let ?s = "cam_example\<lparr>ov7670_state := OV7670_error\<rparr>"
  have "ov7670_state ?s = OV7670_error" "\<not> plk_on ?s" "semProcessNewLine ?s = 0"
    "I2C_Done \<notin> set [VSync, Take (Some (3 :: nat)), HRef_Falling, VSync]"
    by (simp_all add: cam_example_def plk_on_def gpio_example_def PORT_PCR_IRQC_MASK_def)
  from camera_error_stays [OF this, of "[]"] show ?thesis by blast
qed

lemma camera_line_late_witness:
  "\<exists>t :: nat camera_state. \<exists>u. foldR cam_step (map Pixel (replicate 1280 0x3F) @ [HRef_Falling, HRef_Falling, Line_Task])
     (t, []) = Inr (u, [])"
proof -
  have "\<exists>t :: nat camera_state. row_start t 0"
    using vsync_starts [of cam_example] by (simp add: cam_example_def dma_example_def) blast
  then obtain t :: "nat camera_state" where "row_start t 0" by blast
  from camera_line_late [OF this, of "replicate 1280 0x3F" "[]"] show ?thesis by auto
qed

end
