(* ===== verification/Os_Kernel.thy ===== *)
theory Os_Kernel
  imports C_Prelude "HOL-Library.While_Combinator"
begin

unbundle bit_operations_syntax

text \<open>
  The part of the uC/OS-III kernel the tasks of the program rest on
  (\<^verbatim>\<open>source/rtos/uCOSIII/src/uCOS-III/Source\<close>): the ready list and the scheduler
  (\<^verbatim>\<open>os_core.c\<close>, \<^verbatim>\<open>os_prio.c\<close>), the wait lists, semaphores (\<^verbatim>\<open>os_sem.c\<close>) and mutexes with
  priority inheritance (\<^verbatim>\<open>os_mutex.c\<close>, \<^verbatim>\<open>OS_TaskChangePrio\<close> of \<^verbatim>\<open>os_task.c\<close>).

  The fields of the control blocks are functions from the tasks and objects to their values, as in
  the Burstall model of the heap; the doubly linked lists are lists from head to tail, their
  \<^verbatim>\<open>NbrEntries\<close> is the length. The program waits without time limits, deletes nothing and waits
  for one object at a time: time limits, abortion, deletion and waiting for several objects are
  not modelled.
\<close>

section \<open>State\<close>

type_synonym task = nat

datatype os_task_state =
    OS_TASK_STATE_RDY | OS_TASK_STATE_DLY | OS_TASK_STATE_PEND | OS_TASK_STATE_PEND_TIMEOUT
  | OS_TASK_STATE_SUSPENDED | OS_TASK_STATE_DLY_SUSPENDED | OS_TASK_STATE_PEND_SUSPENDED
  | OS_TASK_STATE_PEND_TIMEOUT_SUSPENDED | OS_TASK_STATE_DEL

datatype os_pend_on =
    OS_TASK_PEND_ON_NOTHING | OS_TASK_PEND_ON_FLAG | OS_TASK_PEND_ON_TASK_Q | OS_TASK_PEND_ON_MULTI
  | OS_TASK_PEND_ON_MUTEX | OS_TASK_PEND_ON_Q | OS_TASK_PEND_ON_SEM | OS_TASK_PEND_ON_TASK_SEM

datatype pend_obj = Sem_Obj nat | Mutex_Obj nat

datatype os_err =
    OS_ERR_NONE | OS_ERR_PEND_ISR | OS_ERR_POST_ISR | OS_ERR_OPT_INVALID | OS_ERR_OBJ_TYPE
  | OS_ERR_MUTEX_OWNER | OS_ERR_MUTEX_NOT_OWNER | OS_ERR_MUTEX_NESTING | OS_ERR_PEND_WOULD_BLOCK
  | OS_ERR_SCHED_LOCKED | OS_ERR_SEM_OVF | OS_ERR_CREATE_ISR
  | OS_ERR_TASK_CREATE_ISR | OS_ERR_PRIO_INVALID | OS_ERR_OS_RUNNING

definition OS_CFG_PRIO_MAX :: u8 where "OS_CFG_PRIO_MAX = 32"

record os =
  Prio :: "task \<Rightarrow> u8"
  BasePrio :: "task \<Rightarrow> u8"
  TaskState :: "task \<Rightarrow> os_task_state"
  PendOn :: "task \<Rightarrow> os_pend_on"
  PendObjPtr :: "task \<Rightarrow> pend_obj option"
  MutexGrp :: "task \<Rightarrow> nat list"
  OSRdyList :: "u8 \<Rightarrow> task list"
  OSPrioTbl :: u32
  OSPrioCur :: u8
  OSTCBCurPtr :: task
  OSIntNestingCtr :: u8
  OSSchedLockNestingCtr :: u8
  OSRunning :: bool
  ObjType :: "pend_obj \<Rightarrow> bool"
  PendList :: "pend_obj \<Rightarrow> task list"
  Ctr :: "nat \<Rightarrow> u32"
  OwnerTCBPtr :: "nat \<Rightarrow> task option"
  OwnerNestingCtr :: "nat \<Rightarrow> u8"

section \<open>Priority table\<close>

text \<open>With 32 priorities the table has one word; priority \<open>p\<close> is the bit \<open>31 - p\<close>.\<close>

definition prio_bit :: "u8 \<Rightarrow> u32" where
  "prio_bit prio = push_bit (31 - unat (prio AND 31)) 1"

definition OS_PrioInsert :: "u8 \<Rightarrow> os \<Rightarrow> os" where
  "OS_PrioInsert prio k = k\<lparr>OSPrioTbl := OSPrioTbl k OR prio_bit prio\<rparr>"

definition OS_PrioRemove :: "u8 \<Rightarrow> os \<Rightarrow> os" where
  "OS_PrioRemove prio k = k\<lparr>OSPrioTbl := OSPrioTbl k AND NOT (prio_bit prio)\<rparr>"

definition CPU_CntLeadZeros :: "u32 \<Rightarrow> nat" where
  "CPU_CntLeadZeros w = length (takeWhile Not (bits_msb 32 w))"

definition OS_PrioGetHighest :: "os \<Rightarrow> u8" where
  "OS_PrioGetHighest k = of_nat (CPU_CntLeadZeros (OSPrioTbl k))"

section \<open>Ready list\<close>

definition OS_RdyListInsertHead :: "task \<Rightarrow> os \<Rightarrow> os" where
  "OS_RdyListInsertHead t k =
     k\<lparr>OSRdyList := (OSRdyList k)(Prio k t := t # OSRdyList k (Prio k t))\<rparr>"

definition OS_RdyListInsertTail :: "task \<Rightarrow> os \<Rightarrow> os" where
  "OS_RdyListInsertTail t k =
     k\<lparr>OSRdyList := (OSRdyList k)(Prio k t := OSRdyList k (Prio k t) @ [t])\<rparr>"

definition OS_RdyListInsert :: "task \<Rightarrow> os \<Rightarrow> os" where
  "OS_RdyListInsert t k =
     (let k1 = OS_PrioInsert (Prio k t) k
      in if Prio k1 t = OSPrioCur k1 then OS_RdyListInsertTail t k1 else OS_RdyListInsertHead t k1)"

definition OS_RdyListRemove :: "task \<Rightarrow> os \<Rightarrow> os" where
  "OS_RdyListRemove t k =
     (let p = Prio k t; l = remove1 t (OSRdyList k p); k1 = k\<lparr>OSRdyList := (OSRdyList k)(p := l)\<rparr>
      in if l = [] then OS_PrioRemove p k1 else k1)"

text \<open>\<^verbatim>\<open>OSSched\<close> and the task switch it requests: the first task of the highest ready priority
  becomes the current one. There is always one, because the idle task never waits.\<close>

definition switch_to_highest :: "os \<Rightarrow> os result" where
  "switch_to_highest k =
     (let p = OS_PrioGetHighest k in
      case OSRdyList k p of
        [] \<Rightarrow> Inl Null_Dereference
      | t # _ \<Rightarrow> if t = OSTCBCurPtr k then Inr k else Inr (k\<lparr>OSPrioCur := p, OSTCBCurPtr := t\<rparr>))"

definition OSSched :: "os \<Rightarrow> os result" where
  "OSSched k =
     (if 0 < OSIntNestingCtr k then Inr k
      else if 0 < OSSchedLockNestingCtr k then Inr k
      else switch_to_highest k)"

definition OSIntEnter :: "os \<Rightarrow> os" where
  "OSIntEnter k = (if \<not> OSRunning k \<or> 250 \<le> OSIntNestingCtr k then k
                   else k\<lparr>OSIntNestingCtr := OSIntNestingCtr k + 1\<rparr>)"

definition OSIntExit :: "os \<Rightarrow> os result" where
  "OSIntExit k =
     (if \<not> OSRunning k \<or> OSIntNestingCtr k = 0 then Inr k
      else let k1 = k\<lparr>OSIntNestingCtr := OSIntNestingCtr k - 1\<rparr> in
        if 0 < OSIntNestingCtr k1 then Inr k1
        else if 0 < OSSchedLockNestingCtr k1 then Inr k1
        else switch_to_highest k1)"

section \<open>Wait lists\<close>

fun insert_prio :: "('t \<Rightarrow> u8) \<Rightarrow> 't \<Rightarrow> 't list \<Rightarrow> 't list" where
  "insert_prio pr t [] = [t]"
| "insert_prio pr t (x # xs) = (if pr t < pr x then t # x # xs else x # insert_prio pr t xs)"

definition OS_PendListInsertPrio :: "pend_obj \<Rightarrow> task \<Rightarrow> os \<Rightarrow> os" where
  "OS_PendListInsertPrio ob t k =
     k\<lparr>PendList := (PendList k)(ob := insert_prio (Prio k) t (PendList k ob))\<rparr>"

definition OS_PendListRemove1 :: "pend_obj \<Rightarrow> task \<Rightarrow> os \<Rightarrow> os" where
  "OS_PendListRemove1 ob t k = k\<lparr>PendList := (PendList k)(ob := remove1 t (PendList k ob))\<rparr>"

definition OS_PendListRemove :: "task \<Rightarrow> os \<Rightarrow> os" where
  "OS_PendListRemove t k =
     (case PendObjPtr k t of
        None \<Rightarrow> k
      | Some ob \<Rightarrow> (OS_PendListRemove1 ob t k)\<lparr>PendObjPtr := (PendObjPtr k)(t := None)\<rparr>)"

definition OS_PendListChangePrio :: "task \<Rightarrow> os \<Rightarrow> os" where
  "OS_PendListChangePrio t k =
     (case PendObjPtr k t of
        None \<Rightarrow> k
      | Some ob \<Rightarrow> if 1 < length (PendList k ob)
                   then OS_PendListInsertPrio ob t (OS_PendListRemove1 ob t k) else k)"

definition OS_TaskBlock :: "task \<Rightarrow> u32 \<Rightarrow> os \<Rightarrow> os" where
  "OS_TaskBlock t timeout k = OS_RdyListRemove t
     (k\<lparr>TaskState := (TaskState k)(t := if 0 < timeout then OS_TASK_STATE_PEND_TIMEOUT
                                        else OS_TASK_STATE_PEND)\<rparr>)"

definition OS_Pend :: "pend_obj \<Rightarrow> os_pend_on \<Rightarrow> u32 \<Rightarrow> os \<Rightarrow> os" where
  "OS_Pend ob pending_on timeout k =
     (let t = OSTCBCurPtr k;
          k1 = OS_TaskBlock t timeout (k\<lparr>PendOn := (PendOn k)(t := pending_on)\<rparr>)
      in OS_PendListInsertPrio ob t (k1\<lparr>PendObjPtr := (PendObjPtr k1)(t := Some ob)\<rparr>))"

definition OS_Post :: "task \<Rightarrow> os \<Rightarrow> os" where
  "OS_Post t k =
     (let posted = (\<lambda>st k2. k2\<lparr>TaskState := (TaskState k2)(t := st),
                                PendOn := (PendOn k2)(t := OS_TASK_PEND_ON_NOTHING)\<rparr>) in
      case TaskState k t of
        OS_TASK_STATE_PEND \<Rightarrow> posted OS_TASK_STATE_RDY (OS_RdyListInsert t (OS_PendListRemove t k))
      | OS_TASK_STATE_PEND_TIMEOUT \<Rightarrow>
          posted OS_TASK_STATE_RDY (OS_RdyListInsert t (OS_PendListRemove t k))
      | OS_TASK_STATE_PEND_SUSPENDED \<Rightarrow> posted OS_TASK_STATE_SUSPENDED (OS_PendListRemove t k)
      | OS_TASK_STATE_PEND_TIMEOUT_SUSPENDED \<Rightarrow>
          posted OS_TASK_STATE_SUSPENDED (OS_PendListRemove t k)
      | _ \<Rightarrow> k)"

section \<open>Mutex groups and inherited priorities\<close>

definition OS_MutexGrpAdd :: "task \<Rightarrow> nat \<Rightarrow> os \<Rightarrow> os" where
  "OS_MutexGrpAdd t m k = k\<lparr>MutexGrp := (MutexGrp k)(t := m # MutexGrp k t)\<rparr>"

definition OS_MutexGrpRemove :: "task \<Rightarrow> nat \<Rightarrow> os \<Rightarrow> os result" where
  "OS_MutexGrpRemove t m k =
     (if m \<in> set (MutexGrp k t)
      then Inr (k\<lparr>MutexGrp := (MutexGrp k)(t := remove1 m (MutexGrp k t))\<rparr>)
      else Inl Null_Dereference)"

fun find_highest :: "os \<Rightarrow> nat list \<Rightarrow> u8 \<Rightarrow> u8" where
  "find_highest k [] highest = highest"
| "find_highest k (m # ms) highest = find_highest k ms
     (case PendList k (Mutex_Obj m) of
        [] \<Rightarrow> highest | t # _ \<Rightarrow> if Prio k t < highest then Prio k t else highest)"

definition OS_MutexGrpPrioFindHighest :: "task \<Rightarrow> os \<Rightarrow> u8" where
  "OS_MutexGrpPrioFindHighest t k = find_highest k (MutexGrp k t) (OS_CFG_PRIO_MAX - 1)"

text \<open>One round of the loop of \<^verbatim>\<open>OS_TaskChangePrio\<close>: the task gets the new priority, and when it
  waits for a mutex the owner may be next, with the priority it has to get.\<close>

definition change_prio_owner :: "task \<Rightarrow> u8 \<Rightarrow> u8 \<Rightarrow> os \<Rightarrow> task option \<times> u8" where
  "change_prio_owner t prio_cur prio_new k =
     (case PendObjPtr k t of
        Some (Mutex_Obj m) \<Rightarrow>
          (case OwnerTCBPtr k m of
             None \<Rightarrow> (None, prio_new)
           | Some ow \<Rightarrow>
               if prio_new < prio_cur then
                 (if Prio k ow \<le> prio_new then None else Some ow, prio_new)
               else if Prio k ow = prio_cur then
                 let p = OS_MutexGrpPrioFindHighest ow k;
                     p' = (if BasePrio k ow < p then BasePrio k ow else p)
                 in (if p' = Prio k ow then None else Some ow, p')
               else (Some ow, prio_new))
      | _ \<Rightarrow> (None, prio_new))"

definition change_prio_round :: "task \<Rightarrow> u8 \<Rightarrow> os \<Rightarrow> task option \<times> u8 \<times> os" where
  "change_prio_round t prio_new k =
     (let prio_cur = Prio k t;
          set_prio = (\<lambda>k. k\<lparr>Prio := (Prio k)(t := prio_new)\<rparr>);
          waiting = (let k1 = set_prio k in
            if PendOn k t \<in> {OS_TASK_PEND_ON_FLAG, OS_TASK_PEND_ON_MULTI, OS_TASK_PEND_ON_Q, OS_TASK_PEND_ON_SEM}
            then (None, prio_new, OS_PendListChangePrio t k1)
            else if PendOn k t = OS_TASK_PEND_ON_MUTEX then
              let k2 = OS_PendListChangePrio t k1; (ow, p) = change_prio_owner t prio_cur prio_new k2
              in (ow, p, k2)
            else (None, prio_new, k1))
      in case TaskState k t of
           OS_TASK_STATE_RDY \<Rightarrow>
             let k1 = OS_PrioInsert prio_new (set_prio (OS_RdyListRemove t k))
             in (None, prio_new, if t = OSTCBCurPtr k1 then OS_RdyListInsertHead t k1
                                 else OS_RdyListInsertTail t k1)
         | OS_TASK_STATE_DLY \<Rightarrow> (None, prio_new, set_prio k)
         | OS_TASK_STATE_SUSPENDED \<Rightarrow> (None, prio_new, set_prio k)
         | OS_TASK_STATE_DLY_SUSPENDED \<Rightarrow> (None, prio_new, set_prio k)
         | OS_TASK_STATE_DEL \<Rightarrow> (None, prio_new, k)
         | _ \<Rightarrow> waiting)"

text \<open>The loop; it has no value when it does not end.\<close>

definition OS_TaskChangePrio :: "task \<Rightarrow> u8 \<Rightarrow> os \<Rightarrow> os result" where
  "OS_TaskChangePrio t prio_new k =
     (case while_option (\<lambda>(x, p, k). x \<noteq> None) (\<lambda>(x, p, k). change_prio_round (the x) p k)
             (Some t, prio_new, k) of
        None \<Rightarrow> Inl Assert_Hang
      | Some (x, p, k') \<Rightarrow> Inr k')"

section \<open>Mutexes\<close>

definition OS_OPT_PEND_BLOCKING :: u16 where "OS_OPT_PEND_BLOCKING = 0x0000"
definition OS_OPT_PEND_NON_BLOCKING :: u16 where "OS_OPT_PEND_NON_BLOCKING = 0x8000"
definition OS_OPT_POST_NONE :: u16 where "OS_OPT_POST_NONE = 0x0000"
definition OS_OPT_POST_1 :: u16 where "OS_OPT_POST_1 = 0x0000"
definition OS_OPT_POST_ALL :: u16 where "OS_OPT_POST_ALL = 0x0200"
definition OS_OPT_POST_NO_SCHED :: u16 where "OS_OPT_POST_NO_SCHED = 0x8000"

text \<open>What a call gives: its error code, or the caller now waits; it gets \<^verbatim>\<open>OS_ERR_NONE\<close> when it is
  posted to.\<close>

datatype pend_ret = Returned os_err | Waits

definition OSMutexCreate :: "nat \<Rightarrow> os \<Rightarrow> os_err \<times> os" where
  "OSMutexCreate m k =
     (if 0 < OSIntNestingCtr k then (OS_ERR_CREATE_ISR, k)
      else (OS_ERR_NONE, k\<lparr>ObjType := (ObjType k)(Mutex_Obj m := True),
                            PendList := (PendList k)(Mutex_Obj m := []),
                            OwnerTCBPtr := (OwnerTCBPtr k)(m := None),
                            OwnerNestingCtr := (OwnerNestingCtr k)(m := 0)\<rparr>))"

definition OSMutexPend :: "nat \<Rightarrow> u32 \<Rightarrow> u16 \<Rightarrow> os \<Rightarrow> (pend_ret \<times> os) result" where
  "OSMutexPend m timeout opt k =
     (let cur = OSTCBCurPtr k in
      if 0 < OSIntNestingCtr k then Inr (Returned OS_ERR_PEND_ISR, k)
      else if opt \<noteq> OS_OPT_PEND_BLOCKING \<and> opt \<noteq> OS_OPT_PEND_NON_BLOCKING
      then Inr (Returned OS_ERR_OPT_INVALID, k)
      else if \<not> ObjType k (Mutex_Obj m) then Inr (Returned OS_ERR_OBJ_TYPE, k)
      else if OwnerNestingCtr k m = 0 then
        Inr (Returned OS_ERR_NONE, OS_MutexGrpAdd cur m
          (k\<lparr>OwnerTCBPtr := (OwnerTCBPtr k)(m := Some cur),
             OwnerNestingCtr := (OwnerNestingCtr k)(m := 1)\<rparr>))
      else if Some cur = OwnerTCBPtr k m then
        Inr (Returned OS_ERR_MUTEX_OWNER,
          k\<lparr>OwnerNestingCtr := (OwnerNestingCtr k)(m := OwnerNestingCtr k m + 1)\<rparr>)
      else if opt AND OS_OPT_PEND_NON_BLOCKING \<noteq> 0 then Inr (Returned OS_ERR_PEND_WOULD_BLOCK, k)
      else if 0 < OSSchedLockNestingCtr k then Inr (Returned OS_ERR_SCHED_LOCKED, k)
      else case OwnerTCBPtr k m of
        None \<Rightarrow> Inl Null_Dereference
      | Some ow \<Rightarrow>
          bindR (if Prio k cur < Prio k ow then OS_TaskChangePrio ow (Prio k cur) k else Inr k) (\<lambda>k1.
          bindR (OSSched (OS_Pend (Mutex_Obj m) OS_TASK_PEND_ON_MUTEX timeout k1)) (\<lambda>k2.
          Inr (Waits, k2))))"

text \<open>The priority the owner goes back to: the highest that the other mutexes it owns ask for.\<close>

definition disinherit :: "os \<Rightarrow> os" where
  "disinherit k =
     (let cur = OSTCBCurPtr k in
      if Prio k cur \<noteq> BasePrio k cur then
        let p = OS_MutexGrpPrioFindHighest cur k;
            prio_new = (if BasePrio k cur < p then BasePrio k cur else p)
        in if Prio k cur < prio_new then
             let k1 = OS_RdyListRemove cur k;
                 k2 = OS_PrioInsert prio_new (k1\<lparr>Prio := (Prio k1)(cur := prio_new)\<rparr>)
             in (OS_RdyListInsertTail cur k2)\<lparr>OSPrioCur := prio_new\<rparr>
           else k
      else k)"

definition OSMutexPost :: "nat \<Rightarrow> u16 \<Rightarrow> os \<Rightarrow> (os_err \<times> os) result" where
  "OSMutexPost m opt k =
     (let cur = OSTCBCurPtr k in
      if 0 < OSIntNestingCtr k then Inr (OS_ERR_POST_ISR, k)
      else if opt \<noteq> OS_OPT_POST_NONE \<and> opt \<noteq> OS_OPT_POST_NO_SCHED then Inr (OS_ERR_OPT_INVALID, k)
      else if \<not> ObjType k (Mutex_Obj m) then Inr (OS_ERR_OBJ_TYPE, k)
      else if Some cur \<noteq> OwnerTCBPtr k m then Inr (OS_ERR_MUTEX_NOT_OWNER, k)
      else
        let k1 = k\<lparr>OwnerNestingCtr := (OwnerNestingCtr k)(m := OwnerNestingCtr k m - 1)\<rparr> in
        if 0 < OwnerNestingCtr k1 m then Inr (OS_ERR_MUTEX_NESTING, k1)
        else bindR (OS_MutexGrpRemove cur m k1) (\<lambda>k2.
          case PendList k2 (Mutex_Obj m) of
            [] \<Rightarrow> Inr (OS_ERR_NONE, k2\<lparr>OwnerTCBPtr := (OwnerTCBPtr k2)(m := None),
                                       OwnerNestingCtr := (OwnerNestingCtr k2)(m := 0)\<rparr>)
          | t # _ \<Rightarrow>
              let k3 = disinherit k2;
                  k4 = OS_Post t (OS_MutexGrpAdd t m
                    (k3\<lparr>OwnerTCBPtr := (OwnerTCBPtr k3)(m := Some t),
                        OwnerNestingCtr := (OwnerNestingCtr k3)(m := 1)\<rparr>))
              in if opt AND OS_OPT_POST_NO_SCHED = 0
                 then bindR (OSSched k4) (\<lambda>k5. Inr (OS_ERR_NONE, k5)) else Inr (OS_ERR_NONE, k4)))"

section \<open>Semaphores\<close>

definition OSSemCreate :: "nat \<Rightarrow> u32 \<Rightarrow> os \<Rightarrow> os_err \<times> os" where
  "OSSemCreate s cnt k =
     (if 0 < OSIntNestingCtr k then (OS_ERR_CREATE_ISR, k)
      else (OS_ERR_NONE, k\<lparr>ObjType := (ObjType k)(Sem_Obj s := True),
                            PendList := (PendList k)(Sem_Obj s := []), Ctr := (Ctr k)(s := cnt)\<rparr>))"

definition OSSemPend :: "nat \<Rightarrow> u32 \<Rightarrow> u16 \<Rightarrow> os \<Rightarrow> (pend_ret \<times> os) result" where
  "OSSemPend s timeout opt k =
     (if 0 < OSIntNestingCtr k then Inr (Returned OS_ERR_PEND_ISR, k)
      else if opt \<noteq> OS_OPT_PEND_BLOCKING \<and> opt \<noteq> OS_OPT_PEND_NON_BLOCKING
      then Inr (Returned OS_ERR_OPT_INVALID, k)
      else if \<not> ObjType k (Sem_Obj s) then Inr (Returned OS_ERR_OBJ_TYPE, k)
      else if 0 < Ctr k s then Inr (Returned OS_ERR_NONE, k\<lparr>Ctr := (Ctr k)(s := Ctr k s - 1)\<rparr>)
      else if opt AND OS_OPT_PEND_NON_BLOCKING \<noteq> 0 then Inr (Returned OS_ERR_PEND_WOULD_BLOCK, k)
      else if 0 < OSSchedLockNestingCtr k then Inr (Returned OS_ERR_SCHED_LOCKED, k)
      else bindR (OSSched (OS_Pend (Sem_Obj s) OS_TASK_PEND_ON_SEM timeout k)) (\<lambda>k1. Inr (Waits, k1)))"

definition OS_SemPost :: "nat \<Rightarrow> u16 \<Rightarrow> os \<Rightarrow> (os_err \<times> os) result" where
  "OS_SemPost s opt k =
     (case PendList k (Sem_Obj s) of
        [] \<Rightarrow> if Ctr k s = 0xFFFFFFFF then Inr (OS_ERR_SEM_OVF, k)
              else Inr (OS_ERR_NONE, k\<lparr>Ctr := (Ctr k)(s := Ctr k s + 1)\<rparr>)
      | t # ts \<Rightarrow>
          let k1 = fold OS_Post (if opt AND OS_OPT_POST_ALL \<noteq> 0 then t # ts else [t]) k
          in if opt AND OS_OPT_POST_NO_SCHED = 0
             then bindR (OSSched k1) (\<lambda>k2. Inr (OS_ERR_NONE, k2)) else Inr (OS_ERR_NONE, k1))"

definition OSSemPost :: "nat \<Rightarrow> u16 \<Rightarrow> os \<Rightarrow> (os_err \<times> os) result" where
  "OSSemPost s opt k =
     (if opt \<notin> {OS_OPT_POST_1, OS_OPT_POST_ALL, OS_OPT_POST_1 OR OS_OPT_POST_NO_SCHED,
                 OS_OPT_POST_ALL OR OS_OPT_POST_NO_SCHED}
      then Inr (OS_ERR_OPT_INVALID, k)
      else if \<not> ObjType k (Sem_Obj s) then Inr (OS_ERR_OBJ_TYPE, k)
      else OS_SemPost s opt k)"

section \<open>Tasks\<close>

definition OSIdleTask :: task where "OSIdleTask = 0"

text \<open>What \<^verbatim>\<open>OSTaskCreate\<close> does to the state above; stacks, names and hooks are left out.\<close>

definition OSTaskCreate :: "task \<Rightarrow> u8 \<Rightarrow> os \<Rightarrow> (os_err \<times> os) result" where
  "OSTaskCreate t prio k =
     (if 0 < OSIntNestingCtr k then Inr (OS_ERR_TASK_CREATE_ISR, k)
      else if OS_CFG_PRIO_MAX \<le> prio then Inr (OS_ERR_PRIO_INVALID, k)
      else if prio = OS_CFG_PRIO_MAX - 1 \<and> t \<noteq> OSIdleTask then Inr (OS_ERR_PRIO_INVALID, k)
      else
        let k1 = k\<lparr>Prio := (Prio k)(t := prio), BasePrio := (BasePrio k)(t := prio),
                    TaskState := (TaskState k)(t := OS_TASK_STATE_RDY),
                    PendOn := (PendOn k)(t := OS_TASK_PEND_ON_NOTHING),
                    PendObjPtr := (PendObjPtr k)(t := None), MutexGrp := (MutexGrp k)(t := [])\<rparr>;
            k2 = OS_RdyListInsertTail t (OS_PrioInsert prio k1)
        in if OSRunning k then bindR (OSSched k2) (\<lambda>k3. Inr (OS_ERR_NONE, k3)) else Inr (OS_ERR_NONE, k2))"

definition OSStart :: "os \<Rightarrow> os result" where
  "OSStart k =
     (if OSRunning k then Inr k
      else let p = OS_PrioGetHighest k in
        case OSRdyList k p of
          [] \<Rightarrow> Inl Null_Dereference
        | t # _ \<Rightarrow> Inr (k\<lparr>OSPrioCur := p, OSTCBCurPtr := t, OSRunning := True\<rparr>))"

text \<open>The variables before \<^verbatim>\<open>OSInit\<close> creates the idle task.\<close>

definition os_blank :: os where
  "os_blank = \<lparr>Prio = (\<lambda>t. 0), BasePrio = (\<lambda>t. 0), TaskState = (\<lambda>t. OS_TASK_STATE_DEL),
     PendOn = (\<lambda>t. OS_TASK_PEND_ON_NOTHING), PendObjPtr = (\<lambda>t. None), MutexGrp = (\<lambda>t. []),
     OSRdyList = (\<lambda>p. []), OSPrioTbl = 0, OSPrioCur = 0, OSTCBCurPtr = OSIdleTask,
     OSIntNestingCtr = 0, OSSchedLockNestingCtr = 0, OSRunning = False, ObjType = (\<lambda>ob. False),
     PendList = (\<lambda>ob. []), Ctr = (\<lambda>s. 0), OwnerTCBPtr = (\<lambda>m. None), OwnerNestingCtr = (\<lambda>m. 0)\<rparr>"

end
