(* ===== verification/Os_Invariant.thy ===== *)
theory Os_Invariant
  imports Os_Kernel
begin

unbundle bit_operations_syntax

text \<open>
  The invariant of the kernel's data: the ready list and the priority table describe the ready
  tasks, the wait lists are in the order of priority and hold the waiting tasks, the owner of a
  mutex has it in its group and runs with at least the priority of every task that waits for it.
  Every service keeps the invariant and returns; the loop that hands on a priority ends.
\<close>

section \<open>The priority table\<close>

lemma and_31: "(p :: u8) < 32 \<Longrightarrow> p AND 31 = p"
proof -
  assume "p < 32"
  then have "unat p < 2 ^ 5" by (simp add: word_less_nat_alt)
  then have "take_bit 5 p = p"
    by (simp add: word_unat_eq_iff unsigned_take_bit_eq take_bit_nat_eq_self)
  moreover have "(31 :: u8) = mask 5" by (simp add: mask_eq_exp_minus_1)
  ultimately show "p AND 31 = p" by (metis take_bit_eq_mask)
qed

lemma unat_32: "(p :: u8) < 32 \<longleftrightarrow> unat p < 32"
  by (simp add: word_less_nat_alt)

lemma bit_prio_bit: "p < 32 \<Longrightarrow> bit (prio_bit p) n \<longleftrightarrow> n = 31 - unat p"
  by (auto simp: prio_bit_def and_31 bit_push_bit_iff push_bit_of_1 bit_exp_iff unat_32)

lemma prio_pos_inject: "p < 32 \<Longrightarrow> q < 32 \<Longrightarrow> 31 - unat (q :: u8) = 31 - unat p \<longleftrightarrow> q = p"
  by (auto simp: unat_32 word_unat_eq_iff)

lemma prio_bit_set: "p < 32 \<Longrightarrow> q < 32 \<Longrightarrow>
    bit (w OR prio_bit p) (31 - unat q) \<longleftrightarrow> q = p \<or> bit w (31 - unat q)"
  by (auto simp: bit_or_iff bit_prio_bit prio_pos_inject)

lemma prio_bit_clear: "p < 32 \<Longrightarrow> q < 32 \<Longrightarrow>
    bit (w AND NOT (prio_bit p)) (31 - unat q) \<longleftrightarrow> q \<noteq> p \<and> bit w (31 - unat q)"
  by (auto simp: bit_and_iff bit_not_iff bit_prio_bit prio_pos_inject)

lemma takeWhile_length_eq:
  "n < length xs \<Longrightarrow> \<not> Q (xs ! n) \<Longrightarrow> (\<And>i. i < n \<Longrightarrow> Q (xs ! i)) \<Longrightarrow> length (takeWhile Q xs) = n"
proof (induction xs arbitrary: n)
  case (Cons x xs)
  show ?case
  proof (cases n)
    case 0
    with Cons.prems show ?thesis by simp
  next
    case (Suc m)
    with Cons.prems(3) [of 0] have "Q x" by simp
    moreover have "length (takeWhile Q xs) = m"
      by (rule Cons.IH) (use Cons.prems(1,2) Cons.prems(3) [of "Suc _"] Suc in simp_all)
    ultimately show ?thesis using Suc by simp
  qed
qed simp

lemma leading_zeros:
  assumes "n < 32" and "bit w (31 - n)" and "\<And>i. i < n \<Longrightarrow> \<not> bit w (31 - i)"
  shows "CPU_CntLeadZeros w = n"
  unfolding CPU_CntLeadZeros_def
  by (rule takeWhile_length_eq) (use assms in \<open>simp_all add: nth_bits_msb\<close>)

section \<open>The ready list\<close>

definition ready_inv :: "(u8 \<Rightarrow> task list) \<Rightarrow> u32 \<Rightarrow> (task \<Rightarrow> bool) \<Rightarrow> (task \<Rightarrow> u8) \<Rightarrow> bool" where
  "ready_inv rl tbl S P \<longleftrightarrow>
     (\<forall>p t. t \<in> set (rl p) \<longleftrightarrow> S t \<and> P t = p) \<and> (\<forall>p. distinct (rl p)) \<and>
     (\<forall>p < 32. bit tbl (31 - unat p) \<longleftrightarrow> rl p \<noteq> []) \<and> (\<forall>t. P t < 32)"

lemma ready_bit:
  "ready_inv rl tbl S P \<Longrightarrow> p < 32 \<Longrightarrow> bit tbl (31 - unat p) \<longleftrightarrow> rl p \<noteq> []"
  by (simp add: ready_inv_def)

lemma ready_remove:
  assumes "ready_inv rl tbl S P" and "S t"
  shows "ready_inv (rl(P t := remove1 t (rl (P t))))
    (if remove1 t (rl (P t)) = [] then tbl AND NOT (prio_bit (P t)) else tbl) (S(t := False)) P"
proof -
  have d: "distinct (rl (P t))" "t \<in> set (rl (P t))" using assms by (auto simp: ready_inv_def)
  then have m: "set (remove1 t (rl (P t))) = set (rl (P t)) - {t}" by (simp add: set_remove1_eq)
  have e: "rl (P t) \<noteq> []" using d(2) by auto
  show ?thesis
    using assms(1) d m e unfolding ready_inv_def
    by (auto simp: prio_bit_clear simp del: set_remove1_eq)
qed

lemma ready_change:
  "ready_inv rl tbl S P \<Longrightarrow> \<not> S t \<Longrightarrow> p < 32 \<Longrightarrow> ready_inv rl tbl S (P(t := p))"
  by (auto simp: ready_inv_def)

lemma ready_insert:
  assumes "ready_inv rl tbl S P" and "\<not> S t" and "set l = insert t (set (rl (P t)))" and "distinct l"
  shows "ready_inv (rl(P t := l)) (tbl OR prio_bit (P t)) (S(t := True)) P"
proof -
  have "l \<noteq> []" using assms(3) by auto
  with assms show ?thesis by (auto simp: ready_inv_def prio_bit_set)
qed

lemma ready_highest:
  assumes "ready_inv rl tbl S P" and "S t0"
  obtains p t ts where "of_nat (CPU_CntLeadZeros tbl) = p" and "rl p = t # ts" and "S t" and "P t = p"
    and "\<And>u. S u \<Longrightarrow> p \<le> P u"
proof -
  let ?Q = "\<lambda>n. n < 32 \<and> bit tbl (31 - n)"
  have "t0 \<in> set (rl (P t0))" using assms by (simp add: ready_inv_def)
  then have "rl (P t0) \<noteq> []" by auto
  moreover have "P t0 < 32" using assms(1) by (simp add: ready_inv_def)
  ultimately have "?Q (unat (P t0))" using assms(1) by (auto simp: ready_inv_def unat_32)
  then have ex: "\<exists>n. ?Q n" by blast
  define n where "n = (LEAST n. ?Q n)"
  have n: "?Q n" unfolding n_def using ex by (rule LeastI_ex)
  have least: "\<not> bit tbl (31 - i)" if "i < n" for i
    using not_less_Least [of i ?Q] that n unfolding n_def by auto
  have clz: "CPU_CntLeadZeros tbl = n" by (rule leading_zeros) (use n least in auto)
  let ?p = "of_nat n :: u8"
  have up: "unat ?p = n" using n by (simp add: unat_of_nat)
  then have "rl ?p \<noteq> []" using ready_bit [OF assms(1), of ?p] n by (simp add: unat_32)
  then obtain t ts where r: "rl ?p = t # ts" by (auto simp: neq_Nil_conv)
  then have "t \<in> set (rl ?p)" by simp
  then have t: "S t" "P t = ?p" using assms(1) unfolding ready_inv_def by blast+
  have "?p \<le> P u" if "S u" for u
  proof (rule ccontr)
    assume "\<not> ?p \<le> P u"
    then have "unat (P u) < n" by (simp add: word_le_nat_alt up)
    moreover have "u \<in> set (rl (P u))" using assms(1) that by (simp add: ready_inv_def)
    then have "rl (P u) \<noteq> []" by auto
    moreover have "P u < 32" using assms(1) by (simp add: ready_inv_def)
    ultimately show False using least [of "unat (P u)"] assms(1) by (auto simp: ready_inv_def)
  qed
  with that [of ?p t ts] clz r t show thesis by simp
qed

section \<open>Wait lists\<close>

text \<open>What the services ask of a wait list: its tasks are in the order of priority, and the first
  one is a task of the highest priority that waits.\<close>

locale wait_queue =
  fixes ins :: "('t \<Rightarrow> u8) \<Rightarrow> 't \<Rightarrow> 't list \<Rightarrow> 't list"
  assumes ins_set: "set (ins P t q) = insert t (set q)"
    and ins_distinct: "t \<notin> set q \<Longrightarrow> distinct q \<Longrightarrow> distinct (ins P t q)"
    and ins_sorted: "sorted_wrt (\<lambda>a b. P a \<le> P b) q \<Longrightarrow> sorted_wrt (\<lambda>a b. P a \<le> P b) (ins P t q)"
    and ins_last: "(\<And>u. u \<in> set q \<Longrightarrow> P u \<le> P t) \<Longrightarrow> ins P t q = q @ [t]"
begin

definition queue_inv :: "('ob \<Rightarrow> 't list) \<Rightarrow> ('t \<Rightarrow> 'ob option) \<Rightarrow> ('t \<Rightarrow> u8) \<Rightarrow> bool" where
  "queue_inv pl po P \<longleftrightarrow> (\<forall>ob. distinct (pl ob) \<and> sorted_wrt (\<lambda>a b. P a \<le> P b) (pl ob)) \<and>
     (\<forall>ob t. t \<in> set (pl ob) \<longleftrightarrow> po t = Some ob)"

lemma queue_insert:
  "queue_inv pl po P \<Longrightarrow> po t = None \<Longrightarrow> queue_inv (pl(ob := ins P t (pl ob))) (po(t := Some ob)) P"
  by (auto simp: queue_inv_def ins_set ins_distinct ins_sorted)

lemma queue_remove:
  assumes "queue_inv pl po P" and "po t = Some ob"
  shows "queue_inv (pl(ob := remove1 t (pl ob))) (po(t := None)) P"
proof -
  have "sorted_wrt (\<lambda>a b. P a \<le> P b) (remove1 t q)" if "sorted_wrt (\<lambda>a b. P a \<le> P b) q" for q
    using that by (induction q) (auto dest: notin_set_remove1 in_set_remove1 set_remove1_subset [THEN subsetD])
  with assms show ?thesis by (auto simp: queue_inv_def)
qed

lemma queue_change: "queue_inv pl po P \<Longrightarrow> po t = None \<Longrightarrow> queue_inv pl po (P(t := p))"
proof -
  assume a: "queue_inv pl po P" "po t = None"
  then have "t \<notin> set (pl ob)" for ob by (auto simp: queue_inv_def)
  moreover have "sorted_wrt (\<lambda>a b. (P(t := p)) a \<le> (P(t := p)) b) q"
    if "sorted_wrt (\<lambda>a b. P a \<le> P b) q" "t \<notin> set q" for q
    using that by (induction q) auto
  ultimately show "queue_inv pl po (P(t := p))" using a by (simp add: queue_inv_def)
qed

lemma queue_move:
  assumes "queue_inv pl po P" and "po t = Some ob"
  shows "queue_inv (pl(ob := ins (P(t := p)) t (remove1 t (pl ob)))) po (P(t := p))"
proof -
  have n: "(po(t := None)) t = None" by simp
  have e: "po(t := Some ob) = po" using assms(2) by auto
  show ?thesis
    using queue_insert [OF queue_change [OF queue_remove [OF assms] n] n, of ob p]
    by (simp only: fun_upd_upd fun_upd_same e)
qed

lemma queue_first: "queue_inv pl po P \<Longrightarrow> pl ob = t # ts \<Longrightarrow> po u = Some ob \<Longrightarrow> P t \<le> P u"
  unfolding queue_inv_def by (metis list.set_intros(1) order_refl set_ConsD sorted_wrt.simps(2))

lemma queue_mem: "queue_inv pl po P \<Longrightarrow> t \<in> set (pl ob) \<longleftrightarrow> po t = Some ob"
  by (simp add: queue_inv_def)

end

lemma insert_prio_set [simp]: "set (insert_prio P t q) = insert t (set q)"
  by (induction q) auto

interpretation wl: wait_queue insert_prio
proof
  fix P :: "'t \<Rightarrow> u8" and t q
  show "set (insert_prio P t q) = insert t (set q)" by simp
  show "t \<notin> set q \<Longrightarrow> distinct q \<Longrightarrow> distinct (insert_prio P t q)" by (induction q) auto
  show "sorted_wrt (\<lambda>a b. P a \<le> P b) q \<Longrightarrow> sorted_wrt (\<lambda>a b. P a \<le> P b) (insert_prio P t q)"
    by (induction q) (auto intro: order_trans less_imp_le)
  show "(\<And>u. u \<in> set q \<Longrightarrow> P u \<le> P t) \<Longrightarrow> insert_prio P t q = q @ [t]"
    by (induction q) (auto simp: not_less [symmetric])
qed

section \<open>The invariant\<close>

definition waiting_states :: "os_task_state set" where
  "waiting_states = {OS_TASK_STATE_PEND, OS_TASK_STATE_PEND_TIMEOUT, OS_TASK_STATE_PEND_SUSPENDED,
     OS_TASK_STATE_PEND_TIMEOUT_SUSPENDED}"

definition wait_inv :: "os \<Rightarrow> bool" where
  "wait_inv k \<longleftrightarrow> (\<forall>t ob. PendObjPtr k t = Some ob \<longrightarrow> TaskState k t \<in> waiting_states \<and>
     PendOn k t = (case ob of Sem_Obj s \<Rightarrow> OS_TASK_PEND_ON_SEM | Mutex_Obj m \<Rightarrow> OS_TASK_PEND_ON_MUTEX))"

definition own_inv :: "os \<Rightarrow> bool" where
  "own_inv k \<longleftrightarrow>
     (\<forall>m. OwnerNestingCtr k m = 0 \<longleftrightarrow> OwnerTCBPtr k m = None) \<and>
     (\<forall>t. distinct (MutexGrp k t)) \<and>
     (\<forall>m t. m \<in> set (MutexGrp k t) \<longleftrightarrow> OwnerTCBPtr k m = Some t) \<and>
     (\<forall>m t. OwnerTCBPtr k m = Some t \<longrightarrow> TaskState k t \<noteq> OS_TASK_STATE_DEL) \<and>
     (\<forall>m w. PendObjPtr k w = Some (Mutex_Obj m) \<longrightarrow> OwnerTCBPtr k m \<noteq> None)"

definition ready_ok :: "os \<Rightarrow> bool" where
  "ready_ok k \<longleftrightarrow>
     ready_inv (OSRdyList k) (OSPrioTbl k) (\<lambda>t. TaskState k t = OS_TASK_STATE_RDY) (Prio k)"

definition lists_ok :: "os \<Rightarrow> bool" where
  "lists_ok k \<longleftrightarrow> wl.queue_inv (PendList k) (PendObjPtr k) (Prio k)"

definition run_inv :: "os \<Rightarrow> bool" where
  "run_inv k \<longleftrightarrow> finite {t. TaskState k t \<noteq> OS_TASK_STATE_DEL} \<and>
     (\<forall>t. Prio k t \<le> BasePrio k t \<and> BasePrio k t < 32) \<and>
     (\<forall>s t. PendObjPtr k t = Some (Sem_Obj s) \<longrightarrow> Ctr k s = 0) \<and>
     (\<forall>ob t. PendObjPtr k t = Some ob \<longrightarrow> ObjType k ob) \<and>
     (\<forall>m t. OwnerTCBPtr k m = Some t \<longrightarrow> ObjType k (Mutex_Obj m))"

definition core_inv :: "os \<Rightarrow> bool" where
  "core_inv k \<longleftrightarrow> ready_ok k \<and> lists_ok k \<and> wait_inv k \<and> own_inv k \<and> run_inv k"

text \<open>The owner of a mutex has at least the priority of each task that waits for it.\<close>

definition inherit_inv :: "os \<Rightarrow> bool" where
  "inherit_inv k \<longleftrightarrow> (\<forall>m ow w. OwnerTCBPtr k m = Some ow \<longrightarrow> PendObjPtr k w = Some (Mutex_Obj m) \<longrightarrow>
     Prio k ow \<le> Prio k w)"

definition data_inv :: "os \<Rightarrow> bool" where
  "data_inv k \<longleftrightarrow> core_inv k \<and> inherit_inv k"

text \<open>When the kernel runs, the idle task is always ready, and between two calls the current task is, too.\<close>

definition os_inv :: "os \<Rightarrow> bool" where
  "os_inv k \<longleftrightarrow> data_inv k \<and> TaskState k OSIdleTask = OS_TASK_STATE_RDY \<and>
     TaskState k (OSTCBCurPtr k) = OS_TASK_STATE_RDY \<and> OSRunning k"

named_theorems os_defs \<open>definitions of the invariant's parts\<close>
lemmas [os_defs] = ready_ok_def lists_ok_def wait_inv_def own_inv_def run_inv_def

section \<open>Raising a priority\<close>

text \<open>Only priorities and the places in the lists change.\<close>

definition same_but_prio :: "os \<Rightarrow> os \<Rightarrow> bool" where
  "same_but_prio k k1 \<longleftrightarrow> k1 = k\<lparr>Prio := Prio k1, OSRdyList := OSRdyList k1, OSPrioTbl := OSPrioTbl k1,
     PendList := PendList k1\<rparr>"

lemma same_but_prioD:
  assumes "same_but_prio k k1"
  shows "BasePrio k1 = BasePrio k" "TaskState k1 = TaskState k" "PendOn k1 = PendOn k"
    "PendObjPtr k1 = PendObjPtr k" "MutexGrp k1 = MutexGrp k" "OSPrioCur k1 = OSPrioCur k"
    "OSTCBCurPtr k1 = OSTCBCurPtr k" "OSIntNestingCtr k1 = OSIntNestingCtr k"
    "OSSchedLockNestingCtr k1 = OSSchedLockNestingCtr k" "ObjType k1 = ObjType k"
    "OSRunning k1 = OSRunning k" "Ctr k1 = Ctr k"
    "OwnerTCBPtr k1 = OwnerTCBPtr k" "OwnerNestingCtr k1 = OwnerNestingCtr k"
proof -
  note e = assms [unfolded same_but_prio_def]
  show "BasePrio k1 = BasePrio k" using arg_cong [OF e, of BasePrio] by simp
  show "TaskState k1 = TaskState k" using arg_cong [OF e, of TaskState] by simp
  show "PendOn k1 = PendOn k" using arg_cong [OF e, of PendOn] by simp
  show "PendObjPtr k1 = PendObjPtr k" using arg_cong [OF e, of PendObjPtr] by simp
  show "MutexGrp k1 = MutexGrp k" using arg_cong [OF e, of MutexGrp] by simp
  show "OSPrioCur k1 = OSPrioCur k" using arg_cong [OF e, of OSPrioCur] by simp
  show "OSTCBCurPtr k1 = OSTCBCurPtr k" using arg_cong [OF e, of OSTCBCurPtr] by simp
  show "OSIntNestingCtr k1 = OSIntNestingCtr k" using arg_cong [OF e, of OSIntNestingCtr] by simp
  show "OSSchedLockNestingCtr k1 = OSSchedLockNestingCtr k"
    using arg_cong [OF e, of OSSchedLockNestingCtr] by simp
  show "ObjType k1 = ObjType k" using arg_cong [OF e, of ObjType] by simp
  show "OSRunning k1 = OSRunning k" using arg_cong [OF e, of OSRunning] by simp
  show "Ctr k1 = Ctr k" using arg_cong [OF e, of Ctr] by simp
  show "OwnerTCBPtr k1 = OwnerTCBPtr k" using arg_cong [OF e, of OwnerTCBPtr] by simp
  show "OwnerNestingCtr k1 = OwnerNestingCtr k" using arg_cong [OF e, of OwnerNestingCtr] by simp
qed

lemma same_but_prio_trans: "same_but_prio k k1 \<Longrightarrow> same_but_prio k1 k2 \<Longrightarrow> same_but_prio k k2"
  unfolding same_but_prio_def by (cases k, cases k1, cases k2) simp

definition mutex_owner :: "task \<Rightarrow> os \<Rightarrow> task option" where
  "mutex_owner t k = (case PendObjPtr k t of Some (Mutex_Obj m) \<Rightarrow> OwnerTCBPtr k m | _ \<Rightarrow> None)"

lemma core_prio_frame:
  assumes "core_inv k" and "same_but_prio k k1" and "ready_ok k1" and "lists_ok k1"
    and "\<And>t. Prio k1 t \<le> BasePrio k t"
  shows "core_inv k1"
proof -
  note same = same_but_prioD [OF assms(2)]
  have "wait_inv k1" "own_inv k1"
    using assms(1) by (simp_all add: core_inv_def wait_inv_def own_inv_def same)
  moreover have "run_inv k1" using assms(1,5) by (simp add: core_inv_def run_inv_def same)
  ultimately show ?thesis using assms(3,4) by (simp add: core_inv_def)
qed

lemma move_single:
  "lists_ok k \<Longrightarrow> PendObjPtr k t = Some ob \<Longrightarrow>
   OS_PendListChangePrio t (k\<lparr>Prio := (Prio k)(t := p)\<rparr>) = k\<lparr>Prio := (Prio k)(t := p),
     PendList := (PendList k)(ob := insert_prio ((Prio k)(t := p)) t (remove1 t (PendList k ob)))\<rparr>"
proof -
  assume a: "lists_ok k" "PendObjPtr k t = Some ob"
  then have "t \<in> set (PendList k ob)" by (simp add: lists_ok_def wl.queue_mem)
  then have "PendList k ob = [t]" if "\<not> 1 < length (PendList k ob)"
    using that by (cases "PendList k ob"; cases "tl (PendList k ob)") auto
  then show ?thesis
    using a(2) by (cases k) (auto simp: OS_PendListChangePrio_def OS_PendListInsertPrio_def
        OS_PendListRemove1_def fun_upd_idem_iff)
qed

lemma waits_state:
  assumes "core_inv k" and "PendObjPtr k t = Some ob"
  shows "TaskState k t \<in> waiting_states" "TaskState k t \<noteq> OS_TASK_STATE_RDY"
    "PendOn k t = (case ob of Sem_Obj s \<Rightarrow> OS_TASK_PEND_ON_SEM | Mutex_Obj m \<Rightarrow> OS_TASK_PEND_ON_MUTEX)"
proof -
  have "TaskState k t \<in> waiting_states \<and>
      PendOn k t = (case ob of Sem_Obj s \<Rightarrow> OS_TASK_PEND_ON_SEM | Mutex_Obj m \<Rightarrow> OS_TASK_PEND_ON_MUTEX)"
    using assms unfolding core_inv_def wait_inv_def by blast
  then show "TaskState k t \<in> waiting_states" "TaskState k t \<noteq> OS_TASK_STATE_RDY"
    "PendOn k t = (case ob of Sem_Obj s \<Rightarrow> OS_TASK_PEND_ON_SEM | Mutex_Obj m \<Rightarrow> OS_TASK_PEND_ON_MUTEX)"
    by (auto simp: waiting_states_def)
qed

lemma ready_waits_for_nothing:
  "core_inv k \<Longrightarrow> TaskState k t = OS_TASK_STATE_RDY \<Longrightarrow> PendObjPtr k t = None"
  using waits_state(2) [of k t] by (cases "PendObjPtr k t") auto

lemma RdyListRemove_eq:
  "OS_RdyListRemove t k = k\<lparr>OSRdyList := (OSRdyList k)(Prio k t := remove1 t (OSRdyList k (Prio k t))),
     OSPrioTbl := (if remove1 t (OSRdyList k (Prio k t)) = [] then OSPrioTbl k AND NOT (prio_bit (Prio k t))
                   else OSPrioTbl k)\<rparr>"
  by (cases k) (simp add: OS_RdyListRemove_def OS_PrioRemove_def Let_def)

lemma ready_reinsert:
  assumes "ready_inv rl tbl S P" and "S t" and "p < 32"
    and "rl' = rl(P t := remove1 t (rl (P t)))" and "set l = insert t (set (rl' p))" and "distinct l"
  shows "ready_inv (rl'(p := l))
    ((if remove1 t (rl (P t)) = [] then tbl AND NOT (prio_bit (P t)) else tbl) OR prio_bit p) S (P(t := p))"
proof -
  have n: "\<not> (S(t := False)) t" by simp
  have e: "S(t := True) = S" using assms(2) by (simp add: fun_upd_idem)
  show ?thesis
    using ready_insert [OF ready_change [OF ready_remove [OF assms(1,2)] n assms(3)] n, of l] assms(4-6)
    by (simp only: fun_upd_upd fun_upd_same e)
qed

lemma ready_okI:
  "ready_inv rl tbl (\<lambda>t. ts t = OS_TASK_STATE_RDY) P \<Longrightarrow> OSRdyList k1 = rl \<Longrightarrow> OSPrioTbl k1 = tbl \<Longrightarrow>
   TaskState k1 = ts \<Longrightarrow> Prio k1 = P \<Longrightarrow> ready_ok k1"
  by (simp add: ready_ok_def)

lemma lists_okI:
  "wl.queue_inv pl po P \<Longrightarrow> PendList k1 = pl \<Longrightarrow> PendObjPtr k1 = po \<Longrightarrow> Prio k1 = P \<Longrightarrow> lists_ok k1"
  by (simp add: lists_ok_def)

text \<open>What a round does when it raises the priority of \<open>t\<close> to \<open>p\<close>.\<close>

definition raised :: "task \<Rightarrow> u8 \<Rightarrow> os \<Rightarrow> os \<Rightarrow> bool" where
  "raised t p k k1 \<longleftrightarrow> same_but_prio k k1 \<and> Prio k1 = (Prio k)(t := p) \<and> ready_ok k1 \<and> lists_ok k1"

lemma raise_ready:
  assumes "core_inv k" and "TaskState k t = OS_TASK_STATE_RDY" and "p < 32"
  shows "\<exists>k1. change_prio_round t p k = (None, p, k1) \<and> raised t p k k1"
proof -
  have po: "PendObjPtr k t = None"
    using ready_waits_for_nothing assms(1,2) by blast
  define rl where "rl = (OSRdyList k)(Prio k t := remove1 t (OSRdyList k (Prio k t)))"
  define l where "l = (if t = OSTCBCurPtr k then t # rl p else rl p @ [t])"
  define tbl where "tbl = (if remove1 t (OSRdyList k (Prio k t)) = []
    then OSPrioTbl k AND NOT (prio_bit (Prio k t)) else OSPrioTbl k)"
  have r: "ready_ok k" "lists_ok k" using assms(1) by (simp_all add: core_inv_def)
  have "distinct (rl p)" "t \<notin> set (rl p)"
    using r(1) unfolding rl_def ready_ok_def ready_inv_def by (auto simp del: remove1.simps)
  then have d: "distinct l" "set l = insert t (set (rl p))" unfolding l_def by auto
  let ?k1 = "k\<lparr>Prio := (Prio k)(t := p), OSRdyList := rl(p := l), OSPrioTbl := tbl OR prio_bit p\<rparr>"
  have "OS_RdyListRemove t k = k\<lparr>OSRdyList := rl, OSPrioTbl := tbl\<rparr>"
    unfolding rl_def tbl_def by (rule RdyListRemove_eq)
  then have "change_prio_round t p k = (None, p, ?k1)"
    using assms(2) by (cases k) (simp add: change_prio_round_def OS_PrioInsert_def l_def
        OS_RdyListInsertHead_def OS_RdyListInsertTail_def Let_def)
  moreover have "ready_ok ?k1"
    by (rule ready_okI [OF ready_reinsert [OF r(1) [unfolded ready_ok_def] assms(2,3) rl_def d(2,1), folded tbl_def]])
      simp_all
  moreover have "lists_ok ?k1"
    by (rule lists_okI [OF wl.queue_change [OF r(2) [unfolded lists_ok_def] po]]) simp_all
  ultimately show ?thesis unfolding raised_def same_but_prio_def by (intro exI [of _ ?k1]) simp
qed

lemma raise_idle:
  assumes "core_inv k" and "TaskState k t \<noteq> OS_TASK_STATE_RDY" and "PendObjPtr k t = None" and "p < 32"
  shows "raised t p k (k\<lparr>Prio := (Prio k)(t := p)\<rparr>)"
proof -
  have r: "ready_ok k" "lists_ok k" using assms(1) by (simp_all add: core_inv_def)
  have "ready_ok (k\<lparr>Prio := (Prio k)(t := p)\<rparr>)"
    by (rule ready_okI [OF ready_change [OF r(1) [unfolded ready_ok_def] assms(2,4)]]) simp_all
  moreover have "lists_ok (k\<lparr>Prio := (Prio k)(t := p)\<rparr>)"
    by (rule lists_okI [OF wl.queue_change [OF r(2) [unfolded lists_ok_def] assms(3)]]) simp_all
  ultimately show ?thesis by (simp add: raised_def same_but_prio_def)
qed

lemma raise_waiting:
  assumes "core_inv k" and "PendObjPtr k t = Some ob" and "p < 32"
  shows "raised t p k (OS_PendListChangePrio t (k\<lparr>Prio := (Prio k)(t := p)\<rparr>))"
proof -
  have "TaskState k t \<noteq> OS_TASK_STATE_RDY"
    using waits_state(2) [OF assms(1,2)] .
  note state = this
  have r: "ready_ok k" "lists_ok k" using assms(1) by (simp_all add: core_inv_def)
  let ?k1 = "k\<lparr>Prio := (Prio k)(t := p),
     PendList := (PendList k)(ob := insert_prio ((Prio k)(t := p)) t (remove1 t (PendList k ob)))\<rparr>"
  have "ready_ok ?k1"
    by (rule ready_okI [OF ready_change [OF r(1) [unfolded ready_ok_def] state assms(3)]]) simp_all
  moreover have "lists_ok ?k1"
    by (rule lists_okI [OF wl.queue_move [OF r(2) [unfolded lists_ok_def] assms(2)]]) simp_all
  ultimately show ?thesis
    unfolding move_single [OF r(2) assms(2)] by (simp add: raised_def same_but_prio_def)
qed

lemma raise_round:
  assumes "core_inv k" and "TaskState k t \<noteq> OS_TASK_STATE_DEL" and "p < Prio k t"
  shows "\<exists>k1. raised t p k k1 \<and> change_prio_round t p k =
    ((case mutex_owner t k of None \<Rightarrow> None | Some ow \<Rightarrow> if p < Prio k1 ow then Some ow else None), p, k1)"
proof -
  have "Prio k t \<le> BasePrio k t" "BasePrio k t < 32" using assms(1) by (simp_all add: core_inv_def run_inv_def)
  then have p: "p < 32" using assms(3) by simp
  consider (ready) "TaskState k t = OS_TASK_STATE_RDY"
    | (idle) "TaskState k t \<noteq> OS_TASK_STATE_RDY" "PendObjPtr k t = None"
    | (sem) s where "PendObjPtr k t = Some (Sem_Obj s)"
    | (mutex) m where "PendObjPtr k t = Some (Mutex_Obj m)"
    by (cases "PendObjPtr k t") (auto intro: pend_obj.exhaust)
  then show ?thesis
  proof cases
    case ready
    then have "PendObjPtr k t = None"
      using ready_waits_for_nothing assms(1) by blast
    moreover obtain k1 where "change_prio_round t p k = (None, p, k1)" "raised t p k k1"
      using raise_ready [OF assms(1) ready p] by blast
    ultimately show ?thesis by (auto simp: mutex_owner_def)
  next
    case idle
    let ?k1 = "k\<lparr>Prio := (Prio k)(t := p)\<rparr>"
    have c: "OS_PendListChangePrio t ?k1 = ?k1" using idle(2) by (simp add: OS_PendListChangePrio_def)
    have "change_prio_owner t q p ?k1 = (None, p)" for q using idle(2) by (simp add: change_prio_owner_def)
    then have "change_prio_round t p k = (None, p, ?k1)"
      using idle(1) assms(2) c by (cases "TaskState k t") (simp_all add: change_prio_round_def Let_def)
    then show ?thesis using raise_idle [OF assms(1) idle p] idle(2) by (simp add: mutex_owner_def)
  next
    case sem
    let ?k1 = "OS_PendListChangePrio t (k\<lparr>Prio := (Prio k)(t := p)\<rparr>)"
    have "TaskState k t \<in> waiting_states" "PendOn k t = OS_TASK_PEND_ON_SEM"
      using waits_state [OF assms(1) sem] by simp_all
    then have "change_prio_round t p k = (None, p, ?k1)"
      by (auto simp: change_prio_round_def waiting_states_def Let_def)
    then show ?thesis using raise_waiting [OF assms(1) sem p] sem by (simp add: mutex_owner_def)
  next
    case mutex
    let ?k1 = "OS_PendListChangePrio t (k\<lparr>Prio := (Prio k)(t := p)\<rparr>)"
    have r: "raised t p k ?k1" by (rule raise_waiting [OF assms(1) mutex p])
    then have "same_but_prio k ?k1" by (simp add: raised_def)
    note same = same_but_prioD [OF this]
    have w: "TaskState k t \<in> waiting_states" "PendOn k t = OS_TASK_PEND_ON_MUTEX"
      using waits_state [OF assms(1) mutex] by simp_all
    obtain ow where ow: "OwnerTCBPtr k m = Some ow"
      using assms(1) mutex by (auto simp: core_inv_def own_inv_def)
    have "change_prio_owner t (Prio k t) p ?k1 = (if Prio ?k1 ow \<le> p then None else Some ow, p)"
      using mutex ow assms(3) by (simp add: change_prio_owner_def same)
    moreover have "change_prio_round t p k = (let (x, q) = change_prio_owner t (Prio k t) p ?k1 in (x, q, ?k1))"
      using w by (auto simp: change_prio_round_def waiting_states_def Let_def)
    ultimately have "change_prio_round t p k = (if p < Prio ?k1 ow then Some ow else None, p, ?k1)"
      by (simp add: not_less)
    then show ?thesis using r mutex ow by (auto simp: mutex_owner_def)
  qed
qed

definition chain_inv :: "task \<Rightarrow> u8 \<Rightarrow> os \<Rightarrow> task option \<times> u8 \<times> os \<Rightarrow> bool" where
  "chain_inv t p k = (\<lambda>(x, q, k1). q = p \<and> core_inv k1 \<and> same_but_prio k k1 \<and>
     (\<forall>u. Prio k1 u \<le> Prio k u \<and> (Prio k1 u = Prio k u \<or> Prio k1 u = p)) \<and>
     (\<forall>y. x = Some y \<longrightarrow> p < Prio k1 y \<and> TaskState k1 y \<noteq> OS_TASK_STATE_DEL) \<and>
     (Prio k1 t \<le> p \<or> x = Some t) \<and>
     (\<forall>m ow w. OwnerTCBPtr k1 m = Some ow \<longrightarrow> PendObjPtr k1 w = Some (Mutex_Obj m) \<longrightarrow>
        Prio k1 ow \<le> Prio k1 w \<or> x = Some ow \<and> p \<le> Prio k1 w))"

lemma raised_core: "core_inv k \<Longrightarrow> raised t p k k1 \<Longrightarrow> p \<le> Prio k t \<Longrightarrow> core_inv k1"
  by (rule core_prio_frame) (auto simp: raised_def core_inv_def run_inv_def intro: order_trans)

lemma mutex_ownerI:
  "PendObjPtr k w = Some (Mutex_Obj m) \<Longrightarrow> OwnerTCBPtr k m = Some ow \<Longrightarrow> mutex_owner w k = Some ow"
  by (simp add: mutex_owner_def)

lemma mutex_ownerE:
  assumes "mutex_owner w k = Some ow"
  obtains m where "PendObjPtr k w = Some (Mutex_Obj m)" and "OwnerTCBPtr k m = Some ow"
  using assms by (auto simp: mutex_owner_def split: option.splits pend_obj.splits)

lemma owner_alive: "core_inv k \<Longrightarrow> mutex_owner w k = Some ow \<Longrightarrow> TaskState k ow \<noteq> OS_TASK_STATE_DEL"
  by (auto simp: core_inv_def own_inv_def elim!: mutex_ownerE)

lemma chain_round:
  assumes "chain_inv t p k (Some y, q, k1)"
  shows "\<exists>k2. raised y p k1 k2 \<and> snd (snd (change_prio_round y q k1)) = k2 \<and>
    chain_inv t p k (change_prio_round y q k1)"
proof -
  have c: "core_inv k1" "TaskState k1 y \<noteq> OS_TASK_STATE_DEL" "p < Prio k1 y" "q = p" "same_but_prio k k1"
    "\<And>u. Prio k1 u \<le> Prio k u \<and> (Prio k1 u = Prio k u \<or> Prio k1 u = p)"
    "\<And>m ow w. OwnerTCBPtr k1 m = Some ow \<Longrightarrow> PendObjPtr k1 w = Some (Mutex_Obj m) \<Longrightarrow>
        Prio k1 ow \<le> Prio k1 w \<or> y = ow \<and> p \<le> Prio k1 w"
    using assms unfolding chain_inv_def by auto
  obtain k2 where r: "raised y p k1 k2" and e: "change_prio_round y q k1 =
      ((case mutex_owner y k1 of None \<Rightarrow> None | Some ow \<Rightarrow> if p < Prio k2 ow then Some ow else None), p, k2)"
    using raise_round [OF c(1-3)] c(4) by blast
  have same: "same_but_prio k1 k2" and P: "Prio k2 = (Prio k1)(y := p)" using r by (simp_all add: raised_def)
  note sm = same_but_prioD [OF same]
  have core: "core_inv k2" by (rule raised_core [OF c(1) r]) (use c(3) in simp)
  let ?x = "case mutex_owner y k1 of None \<Rightarrow> None | Some ow \<Rightarrow> if p < Prio k2 ow then Some ow else None"
  have x: "?x = Some z \<longleftrightarrow> mutex_owner y k1 = Some z \<and> p < Prio k2 z" for z
    by (auto split: option.splits)
  have prio: "Prio k2 u \<le> Prio k u \<and> (Prio k2 u = Prio k u \<or> Prio k2 u = p)" for u
    using c(3) c(6) [of u] by (auto simp: P)
  have alive: "p < Prio k2 z \<and> TaskState k2 z \<noteq> OS_TASK_STATE_DEL" if "?x = Some z" for z
    using that [unfolded x] owner_alive [OF c(1), of y z] by (simp add: sm)
  have goal: "Prio k2 t \<le> p \<or> ?x = Some t"
    using assms by (auto simp: P chain_inv_def)
  have edge: "Prio k2 ow \<le> Prio k2 w \<or> ?x = Some ow \<and> p \<le> Prio k2 w"
    if "OwnerTCBPtr k2 m = Some ow" "PendObjPtr k2 w = Some (Mutex_Obj m)" for m ow w
  proof -
    have that': "OwnerTCBPtr k1 m = Some ow" "PendObjPtr k1 w = Some (Mutex_Obj m)" using that by (simp_all add: sm)
    have old: "Prio k1 ow \<le> Prio k1 w \<or> y = ow \<and> p \<le> Prio k1 w" by (rule c(7) [OF that'])
    show ?thesis
    proof (cases "w = y")
      case True
      then have "mutex_owner y k1 = Some ow" using mutex_ownerI that' by blast
      then show ?thesis using True by (cases "p < Prio k2 ow") (simp_all add: x P not_less)
    next
      case False
      then show ?thesis using old c(3) by (auto simp: P)
    qed
  qed
  have "chain_inv t p k (?x, p, k2)"
    unfolding chain_inv_def prod.case
    using core same_but_prio_trans [OF c(5) same] prio alive goal edge by blast
  then show ?thesis using r by (simp add: e)
qed

text \<open>Raising a priority always ends: each round takes one more task to the new priority.\<close>

lemma raise_chain:
  assumes "data_inv k" and "TaskState k t \<noteq> OS_TASK_STATE_DEL" and "p < Prio k t"
  shows "\<exists>k1. OS_TaskChangePrio t p k = Inr k1 \<and> data_inv k1 \<and> same_but_prio k k1 \<and> Prio k1 t \<le> p \<and>
    (\<forall>u. Prio k1 u \<le> Prio k u \<and> (Prio k1 u = Prio k u \<or> Prio k1 u = p))"
proof -
  let ?b = "\<lambda>(x :: task option, p :: u8, k :: os). x \<noteq> None"
  let ?c = "\<lambda>(x, p, k). change_prio_round (the x) p k"
  let ?I = "chain_inv t p k"
  let ?f = "\<lambda>(x :: task option, q :: u8, k1). card {u. TaskState k u \<noteq> OS_TASK_STATE_DEL \<and> p < Prio k1 u}"
  have fin: "finite {u. TaskState k u \<noteq> OS_TASK_STATE_DEL}"
    using assms(1) by (simp add: data_inv_def core_inv_def run_inv_def)
  have round: "?I (?c s) \<and> ?f (?c s) < ?f s" if s: "?I s" "?b s" for s
  proof -
    obtain y q k1 where sy: "s = (Some y, q, k1)" using s(2) by (cases s) auto
    obtain k2 where k2: "raised y p k1 k2" "snd (snd (change_prio_round y q k1)) = k2"
      "?I (change_prio_round y q k1)" using chain_round s(1) [unfolded sy] by blast
    have y: "p < Prio k1 y" "TaskState k y \<noteq> OS_TASK_STATE_DEL"
      using s(1) sy same_but_prioD(2) [of k k1] by (auto simp: chain_inv_def)
    let ?S = "\<lambda>k1. {u. TaskState k u \<noteq> OS_TASK_STATE_DEL \<and> p < Prio k1 u}"
    have "?S k2 \<subset> ?S k1" using k2(1) y by (auto simp: raised_def)
    then have "card (?S k2) < card (?S k1)" using fin by (intro psubset_card_mono) simp_all
    then show ?thesis using k2(2,3) by (simp add: sy split_beta)
  qed
  have init: "?I (Some t, p, k)"
    using assms by (auto simp: chain_inv_def data_inv_def inherit_inv_def same_but_prio_def)
  from measure_while_option_Some [of ?I ?b ?c ?f, OF round init] obtain s' where
    w: "while_option ?b ?c (Some t, p, k) = Some s'" by blast
  have "?I s'" by (rule while_option_rule [where P = ?I, OF _ w init]) (use round in blast)
  moreover have "\<not> ?b s'" by (rule while_option_stop [OF w])
  ultimately obtain q k1 where "s' = (None, q, k1)" "?I (None, q, k1)" by (cases s') auto
  with w have "OS_TaskChangePrio t p k = Inr k1" by (simp add: OS_TaskChangePrio_def)
  then show ?thesis using \<open>?I (None, q, k1)\<close>
    by (auto simp: chain_inv_def data_inv_def inherit_inv_def)
qed

section \<open>Scheduling\<close>

lemma data_inv_switch [simp]:
  "data_inv (k\<lparr>OSPrioCur := p\<rparr>) = data_inv k" "data_inv (k\<lparr>OSTCBCurPtr := t\<rparr>) = data_inv k"
  "data_inv (k\<lparr>OSIntNestingCtr := c\<rparr>) = data_inv k"
  by (simp_all add: data_inv_def core_inv_def os_defs inherit_inv_def)

definition highest_ready :: "task \<Rightarrow> os \<Rightarrow> bool" where
  "highest_ready t k \<longleftrightarrow> TaskState k t = OS_TASK_STATE_RDY \<and>
     (\<forall>u. TaskState k u = OS_TASK_STATE_RDY \<longrightarrow> Prio k t \<le> Prio k u)"

lemma switch_ok:
  assumes "data_inv k" and "TaskState k t0 = OS_TASK_STATE_RDY"
  shows "\<exists>p t. switch_to_highest k = Inr (k\<lparr>OSPrioCur := p, OSTCBCurPtr := t\<rparr>) \<and> highest_ready t k"
proof -
  have r: "ready_inv (OSRdyList k) (OSPrioTbl k) (\<lambda>t. TaskState k t = OS_TASK_STATE_RDY) (Prio k)"
    "TaskState k t0 = OS_TASK_STATE_RDY"
    using assms by (simp_all add: data_inv_def core_inv_def ready_ok_def)
  obtain p t ts where h: "of_nat (CPU_CntLeadZeros (OSPrioTbl k)) = p" "OSRdyList k p = t # ts"
    "TaskState k t = OS_TASK_STATE_RDY" "Prio k t = p"
    "\<And>u. TaskState k u = OS_TASK_STATE_RDY \<Longrightarrow> p \<le> Prio k u"
    using ready_highest [OF r] by blast
  have "switch_to_highest k = Inr (if t = OSTCBCurPtr k then k else k\<lparr>OSPrioCur := p, OSTCBCurPtr := t\<rparr>)"
    using h(1,2) by (simp add: switch_to_highest_def OS_PrioGetHighest_def)
  moreover have "k = k\<lparr>OSPrioCur := OSPrioCur k, OSTCBCurPtr := OSTCBCurPtr k\<rparr>" by simp
  moreover have "highest_ready t k" using h by (simp add: highest_ready_def)
  ultimately show ?thesis by metis
qed

lemma sched_ok:
  assumes "data_inv k" and "TaskState k t0 = OS_TASK_STATE_RDY"
  shows "\<exists>p t. OSSched k = Inr (k\<lparr>OSPrioCur := p, OSTCBCurPtr := t\<rparr>) \<and>
    (if OSIntNestingCtr k = 0 \<and> OSSchedLockNestingCtr k = 0 then highest_ready t k else t = OSTCBCurPtr k)"
proof -
  have "k = k\<lparr>OSPrioCur := OSPrioCur k, OSTCBCurPtr := OSTCBCurPtr k\<rparr>" by simp
  then show ?thesis
    using switch_ok [OF assms] by (metis OSSched_def word_gt_0)
qed

section \<open>Waiting and being posted to\<close>

lemma RdyListInsert_eq:
  "OS_RdyListInsert t k = k\<lparr>OSRdyList := (OSRdyList k)(Prio k t :=
       if Prio k t = OSPrioCur k then OSRdyList k (Prio k t) @ [t] else t # OSRdyList k (Prio k t)),
     OSPrioTbl := OSPrioTbl k OR prio_bit (Prio k t)\<rparr>"
  by (cases k) (simp add: OS_RdyListInsert_def OS_PrioInsert_def OS_RdyListInsertHead_def
      OS_RdyListInsertTail_def Let_def)

lemma pend_ok:
  assumes "data_inv k" and "OSTCBCurPtr k = t" and "TaskState k t = OS_TASK_STATE_RDY" and "ObjType k ob"
    and "case ob of Sem_Obj s \<Rightarrow> po = OS_TASK_PEND_ON_SEM \<and> Ctr k s = 0
       | Mutex_Obj m \<Rightarrow> po = OS_TASK_PEND_ON_MUTEX \<and> (\<exists>ow. OwnerTCBPtr k m = Some ow \<and> Prio k ow \<le> Prio k t)"
  shows "data_inv (OS_Pend ob po timeout k)"
    and "PendObjPtr (OS_Pend ob po timeout k) = (PendObjPtr k)(t := Some ob)"
    and "\<And>u. u \<noteq> t \<Longrightarrow> TaskState (OS_Pend ob po timeout k) u = TaskState k u"
proof -
  have inv: "core_inv k" "inherit_inv k" "ready_ok k" "lists_ok k" "wait_inv k" "own_inv k" "run_inv k"
    using assms(1) by (simp_all add: data_inv_def core_inv_def)
  have none: "PendObjPtr k t = None" by (rule ready_waits_for_nothing [OF inv(1) assms(3)])
  define st where "st = (if 0 < timeout then OS_TASK_STATE_PEND_TIMEOUT else OS_TASK_STATE_PEND)"
  define rl where "rl = (OSRdyList k)(Prio k t := remove1 t (OSRdyList k (Prio k t)))"
  define tbl where "tbl = (if remove1 t (OSRdyList k (Prio k t)) = []
    then OSPrioTbl k AND NOT (prio_bit (Prio k t)) else OSPrioTbl k)"
  let ?k1 = "k\<lparr>TaskState := (TaskState k)(t := st), PendOn := (PendOn k)(t := po),
    PendObjPtr := (PendObjPtr k)(t := Some ob), OSRdyList := rl, OSPrioTbl := tbl,
    PendList := (PendList k)(ob := insert_prio (Prio k) t (PendList k ob))\<rparr>"
  have e: "OS_Pend ob po timeout k = ?k1"
    using assms(2) by (cases k) (simp add: OS_Pend_def OS_TaskBlock_def RdyListRemove_eq
        OS_PendListInsertPrio_def st_def rl_def tbl_def Let_def)
  have st: "st \<in> waiting_states" "st \<noteq> OS_TASK_STATE_RDY" "st \<noteq> OS_TASK_STATE_DEL"
    by (simp_all add: st_def waiting_states_def)
  have S: "(\<lambda>u. TaskState k u = OS_TASK_STATE_RDY)(t := False) =
      (\<lambda>u. ((TaskState k)(t := st)) u = OS_TASK_STATE_RDY)" using st(2) by auto
  have "ready_ok ?k1"
    by (rule ready_okI [OF ready_remove [OF inv(3) [unfolded ready_ok_def] assms(3), folded rl_def tbl_def,
          unfolded S]]) (simp_all add: fun_upd_def)
  moreover have "lists_ok ?k1"
    by (rule lists_okI [OF wl.queue_insert [OF inv(4) [unfolded lists_ok_def] none, of ob]]) simp_all
  moreover have "wait_inv ?k1"
    using inv(5) assms(5) st(1) by (auto simp: wait_inv_def split: pend_obj.splits)
  moreover have "own_inv ?k1"
    using inv(6) assms(5) st(3) by (auto simp: own_inv_def split: pend_obj.splits)
  moreover have "run_inv ?k1"
  proof -
    have "{u. ((TaskState k)(t := st)) u \<noteq> OS_TASK_STATE_DEL} \<subseteq>
        insert t {u. TaskState k u \<noteq> OS_TASK_STATE_DEL}" by auto
    then have "finite {u. ((TaskState k)(t := st)) u \<noteq> OS_TASK_STATE_DEL}"
      using inv(7) finite_subset unfolding run_inv_def by (metis finite_insert)
    moreover have "Ctr k s = 0" if "((PendObjPtr k)(t := Some ob)) u = Some (Sem_Obj s)" for u s
      using that inv(7) assms(5) unfolding run_inv_def by (cases "u = t") auto
    moreover have "ObjType k ob'" if "((PendObjPtr k)(t := Some ob)) u = Some ob'" for u ob'
      using that inv(7) assms(4) unfolding run_inv_def by (cases "u = t") auto
    ultimately show ?thesis using inv(7) unfolding run_inv_def by simp
  qed
  moreover have "inherit_inv ?k1"
    using inv(2) assms(5) by (auto simp: inherit_inv_def split: pend_obj.splits)
  ultimately show "data_inv (OS_Pend ob po timeout k)" unfolding e data_inv_def core_inv_def by simp
  show "PendObjPtr (OS_Pend ob po timeout k) = (PendObjPtr k)(t := Some ob)" unfolding e by simp
  show "\<And>u. u \<noteq> t \<Longrightarrow> TaskState (OS_Pend ob po timeout k) u = TaskState k u" unfolding e by simp
qed

text \<open>Posting to a waiting task: it leaves the wait list and becomes ready, or only suspended.\<close>

definition posted :: "task \<Rightarrow> os \<Rightarrow> os \<Rightarrow> bool" where
  "posted t k k1 \<longleftrightarrow> data_inv k1 \<and> PendObjPtr k1 = (PendObjPtr k)(t := None) \<and>
     (\<forall>u. u \<noteq> t \<longrightarrow> TaskState k1 u = TaskState k u) \<and>
     TaskState k1 t = (if TaskState k t \<in> {OS_TASK_STATE_PEND, OS_TASK_STATE_PEND_TIMEOUT}
                       then OS_TASK_STATE_RDY else OS_TASK_STATE_SUSPENDED) \<and>
     k1 = k\<lparr>TaskState := TaskState k1, PendOn := PendOn k1, PendObjPtr := PendObjPtr k1,
       OSRdyList := OSRdyList k1, OSPrioTbl := OSPrioTbl k1, PendList := PendList k1\<rparr>"

lemma postedD:
  assumes "posted t k k1"
  shows "Prio k1 = Prio k" "BasePrio k1 = BasePrio k" "MutexGrp k1 = MutexGrp k" "OSTCBCurPtr k1 = OSTCBCurPtr k"
    "OSIntNestingCtr k1 = OSIntNestingCtr k" "OSSchedLockNestingCtr k1 = OSSchedLockNestingCtr k"
    "Ctr k1 = Ctr k" "OwnerTCBPtr k1 = OwnerTCBPtr k" "OwnerNestingCtr k1 = OwnerNestingCtr k"
    "ObjType k1 = ObjType k" "OSRunning k1 = OSRunning k"
proof -
  have e: "k1 = k\<lparr>TaskState := TaskState k1, PendOn := PendOn k1, PendObjPtr := PendObjPtr k1,
       OSRdyList := OSRdyList k1, OSPrioTbl := OSPrioTbl k1, PendList := PendList k1\<rparr>"
    using assms unfolding posted_def by blast
  show "Prio k1 = Prio k" using arg_cong [OF e, of Prio] by simp
  show "BasePrio k1 = BasePrio k" using arg_cong [OF e, of BasePrio] by simp
  show "MutexGrp k1 = MutexGrp k" using arg_cong [OF e, of MutexGrp] by simp
  show "OSTCBCurPtr k1 = OSTCBCurPtr k" using arg_cong [OF e, of OSTCBCurPtr] by simp
  show "OSIntNestingCtr k1 = OSIntNestingCtr k" using arg_cong [OF e, of OSIntNestingCtr] by simp
  show "OSSchedLockNestingCtr k1 = OSSchedLockNestingCtr k"
    using arg_cong [OF e, of OSSchedLockNestingCtr] by simp
  show "Ctr k1 = Ctr k" using arg_cong [OF e, of Ctr] by simp
  show "OwnerTCBPtr k1 = OwnerTCBPtr k" using arg_cong [OF e, of OwnerTCBPtr] by simp
  show "OwnerNestingCtr k1 = OwnerNestingCtr k" using arg_cong [OF e, of OwnerNestingCtr] by simp
  show "ObjType k1 = ObjType k" using arg_cong [OF e, of ObjType] by simp
  show "OSRunning k1 = OSRunning k" using arg_cong [OF e, of OSRunning] by simp
qed

lemma post_ok:
  assumes "data_inv k" and "PendObjPtr k t = Some ob"
  shows "posted t k (OS_Post t k)"
proof -
  have inv: "core_inv k" "inherit_inv k" "ready_ok k" "lists_ok k" "wait_inv k" "own_inv k" "run_inv k"
    using assms(1) by (simp_all add: data_inv_def core_inv_def)
  note st = waits_state [OF inv(1) assms(2)]
  define go where "go \<longleftrightarrow> TaskState k t \<in> {OS_TASK_STATE_PEND, OS_TASK_STATE_PEND_TIMEOUT}"
  define new where "new = (if go then OS_TASK_STATE_RDY else OS_TASK_STATE_SUSPENDED)"
  define l where "l = (if Prio k t = OSPrioCur k then OSRdyList k (Prio k t) @ [t] else t # OSRdyList k (Prio k t))"
  define rl where "rl = (if go then (OSRdyList k)(Prio k t := l) else OSRdyList k)"
  define tbl where "tbl = (if go then OSPrioTbl k OR prio_bit (Prio k t) else OSPrioTbl k)"
  let ?k1 = "k\<lparr>TaskState := (TaskState k)(t := new), PendOn := (PendOn k)(t := OS_TASK_PEND_ON_NOTHING),
    PendObjPtr := (PendObjPtr k)(t := None), OSRdyList := rl, OSPrioTbl := tbl,
    PendList := (PendList k)(ob := remove1 t (PendList k ob))\<rparr>"
  have e: "OS_Post t k = ?k1"
    using st(1) assms(2) by (cases k) (auto simp: OS_Post_def waiting_states_def OS_PendListRemove_def
        OS_PendListRemove1_def RdyListInsert_eq go_def new_def l_def rl_def tbl_def Let_def)
  have l: "distinct l" "set l = insert t (set (OSRdyList k (Prio k t)))"
    using inv(3) st(2) by (auto simp: l_def ready_ok_def ready_inv_def)
  have "ready_inv rl tbl (\<lambda>u. ((TaskState k)(t := new)) u = OS_TASK_STATE_RDY) (Prio k)"
  proof (cases go)
    case True
    have "(\<lambda>u. TaskState k u = OS_TASK_STATE_RDY)(t := True) =
        (\<lambda>u. ((TaskState k)(t := new)) u = OS_TASK_STATE_RDY)" using True by (auto simp: new_def)
    with ready_insert [OF inv(3) [unfolded ready_ok_def] _ l(2,1)] st(2) True show ?thesis
      by (simp add: rl_def tbl_def)
  next
    case False
    then have "(\<lambda>u. ((TaskState k)(t := new)) u = OS_TASK_STATE_RDY) = (\<lambda>u. TaskState k u = OS_TASK_STATE_RDY)"
      using st(2) by (auto simp: new_def)
    then show ?thesis using False inv(3) by (simp only: rl_def tbl_def ready_ok_def if_False)
  qed
  then have "ready_ok ?k1" by (rule ready_okI) (simp_all add: fun_upd_def)
  moreover have "lists_ok ?k1"
    by (rule lists_okI [OF wl.queue_remove [OF inv(4) [unfolded lists_ok_def] assms(2)]]) simp_all
  moreover have "wait_inv ?k1" using inv(5) by (simp add: wait_inv_def)
  moreover have "own_inv ?k1" using inv(6) by (auto simp: own_inv_def new_def)
  moreover have "run_inv ?k1"
  proof -
    have "new \<noteq> OS_TASK_STATE_DEL" "TaskState k t \<noteq> OS_TASK_STATE_DEL"
      using st(1) by (auto simp: new_def waiting_states_def)
    then have "{u. ((TaskState k)(t := new)) u \<noteq> OS_TASK_STATE_DEL} = {u. TaskState k u \<noteq> OS_TASK_STATE_DEL}"
      by auto
    then show ?thesis using inv(7) st(2) by (auto simp: run_inv_def)
  qed
  moreover have "inherit_inv ?k1" using inv(2) by (simp add: inherit_inv_def)
  ultimately show ?thesis unfolding e posted_def data_inv_def core_inv_def by (simp add: new_def go_def)
qed

section \<open>Giving a priority back\<close>

lemma find_highest_le: "find_highest k ms h \<le> h"
proof (induction ms arbitrary: h)
  case (Cons m ms)
  then show ?case
    by (auto split: list.splits intro: order_trans less_imp_le)
qed simp

lemma find_highest_first:
  "m \<in> set ms \<Longrightarrow> PendList k (Mutex_Obj m) = t # ts \<Longrightarrow> find_highest k ms h \<le> Prio k t"
proof (induction ms arbitrary: h)
  case (Cons n ms)
  show ?case
  proof (cases "m = n")
    case True
    then have "find_highest k (n # ms) h = find_highest k ms (if Prio k t < h then Prio k t else h)"
      using Cons.prems(2) by simp
    also have "\<dots> \<le> (if Prio k t < h then Prio k t else h)" by (rule find_highest_le)
    also have "\<dots> \<le> Prio k t" by (simp add: not_less)
    finally show ?thesis .
  qed (use Cons in simp)
qed simp

lemma group_highest:
  assumes "data_inv k" and "OwnerTCBPtr k m = Some ow" and "PendObjPtr k w = Some (Mutex_Obj m)"
  shows "OS_MutexGrpPrioFindHighest ow k \<le> Prio k w"
proof -
  have inv: "lists_ok k" "own_inv k" using assms(1) by (simp_all add: data_inv_def core_inv_def)
  have "w \<in> set (PendList k (Mutex_Obj m))"
    using inv(1) assms(3) unfolding lists_ok_def by (simp add: wl.queue_mem)
  then obtain t ts where p: "PendList k (Mutex_Obj m) = t # ts" by (cases "PendList k (Mutex_Obj m)") auto
  have "m \<in> set (MutexGrp k ow)" using inv(2) assms(2) by (simp add: own_inv_def)
  then have "OS_MutexGrpPrioFindHighest ow k \<le> Prio k t"
    unfolding OS_MutexGrpPrioFindHighest_def using p by (rule find_highest_first)
  also have "\<dots> \<le> Prio k w" by (rule wl.queue_first [OF inv(1) [unfolded lists_ok_def] p assms(3)])
  finally show ?thesis .
qed

lemma reinsert_record:
  "(OS_RdyListInsertTail t (OS_PrioInsert p (k\<lparr>OSRdyList := rl, OSPrioTbl := tbl, Prio := P\<rparr>)))\<lparr>OSPrioCur := q\<rparr>
   = k\<lparr>Prio := P, OSRdyList := rl(P t := rl (P t) @ [t]), OSPrioTbl := tbl OR prio_bit p, OSPrioCur := q\<rparr>"
  by (cases k) (simp add: OS_RdyListInsertTail_def OS_PrioInsert_def)

lemma disinherit_ok:
  assumes "data_inv k" and "TaskState k (OSTCBCurPtr k) = OS_TASK_STATE_RDY"
  shows "data_inv (disinherit k)"
proof -
  define cur where "cur = OSTCBCurPtr k"
  define p where "p = (if BasePrio k cur < OS_MutexGrpPrioFindHighest cur k then BasePrio k cur
    else OS_MutexGrpPrioFindHighest cur k)"
  have inv: "core_inv k" "inherit_inv k" "ready_ok k" "lists_ok k" "own_inv k" "run_inv k"
    using assms(1) by (simp_all add: data_inv_def core_inv_def)
  show ?thesis
  proof (cases "Prio k cur \<noteq> BasePrio k cur \<and> Prio k cur < p")
    case False
    then have "disinherit k = k" by (auto simp: disinherit_def p_def cur_def Let_def)
    then show ?thesis using assms(1) by simp
  next
    case True
    define rl where "rl = (OSRdyList k)(Prio k cur := remove1 cur (OSRdyList k (Prio k cur)))"
    define tbl where "tbl = (if remove1 cur (OSRdyList k (Prio k cur)) = []
      then OSPrioTbl k AND NOT (prio_bit (Prio k cur)) else OSPrioTbl k)"
    let ?k1 = "k\<lparr>Prio := (Prio k)(cur := p), OSRdyList := rl(p := rl p @ [cur]), OSPrioTbl := tbl OR prio_bit p\<rparr>"
    have "OS_RdyListRemove cur k = k\<lparr>OSRdyList := rl, OSPrioTbl := tbl\<rparr>"
      unfolding rl_def tbl_def by (rule RdyListRemove_eq)
    moreover have "disinherit k = (OS_RdyListInsertTail cur (OS_PrioInsert p
        ((OS_RdyListRemove cur k)\<lparr>Prio := (Prio (OS_RdyListRemove cur k))(cur := p)\<rparr>)))\<lparr>OSPrioCur := p\<rparr>"
      using True unfolding disinherit_def Let_def cur_def [symmetric] p_def [symmetric] by simp
    ultimately have e: "disinherit k = ?k1\<lparr>OSPrioCur := p\<rparr>" by (simp add: reinsert_record)
    have base: "p \<le> BasePrio k cur" "BasePrio k cur < 32"
      using inv(6) by (auto simp: p_def run_inv_def not_less)
    then have p32: "p < 32" by simp
    have d: "distinct (rl p @ [cur])" "set (rl p @ [cur]) = insert cur (set (rl p))"
      using inv(3) unfolding rl_def ready_ok_def ready_inv_def by (auto simp del: remove1.simps)
    have ready: "TaskState k cur = OS_TASK_STATE_RDY" using assms(2) by (simp add: cur_def)
    have none: "PendObjPtr k cur = None" by (rule ready_waits_for_nothing [OF inv(1) ready])
    have "ready_ok ?k1"
      by (rule ready_okI [OF ready_reinsert [OF inv(3) [unfolded ready_ok_def] ready p32 rl_def d(2,1),
            folded tbl_def]]) simp_all
    moreover have "lists_ok ?k1"
      by (rule lists_okI [OF wl.queue_change [OF inv(4) [unfolded lists_ok_def] none]]) simp_all
    ultimately have "core_inv ?k1"
      using core_prio_frame [OF inv(1), of ?k1] base inv(6) by (simp add: same_but_prio_def run_inv_def)
    moreover have "inherit_inv ?k1"
    proof -
      have "p \<le> Prio k w" if "OwnerTCBPtr k m = Some cur" "PendObjPtr k w = Some (Mutex_Obj m)" for m w
        using group_highest [OF assms(1) that] by (auto simp: p_def not_less intro: order_trans)
      then show ?thesis using inv(2) none by (auto simp: inherit_inv_def)
    qed
    ultimately have "data_inv ?k1" by (simp add: data_inv_def)
    then show ?thesis unfolding e by (simp only: data_inv_switch)
  qed
qed

text \<open>The priority is given back before the mutex changes hands; the order makes no difference.\<close>

lemma disinherit_before:
  assumes "t \<noteq> OSTCBCurPtr k"
  shows "OS_MutexGrpAdd t m ((disinherit k)\<lparr>OwnerTCBPtr := (OwnerTCBPtr (disinherit k))(m := ow),
      OwnerNestingCtr := (OwnerNestingCtr (disinherit k))(m := n)\<rparr>) =
    disinherit (OS_MutexGrpAdd t m (k\<lparr>OwnerTCBPtr := (OwnerTCBPtr k)(m := ow),
      OwnerNestingCtr := (OwnerNestingCtr k)(m := n)\<rparr>))"
proof -
  have f: "find_highest k1 ms h = find_highest k2 ms h"
    if "PendList k1 = PendList k2" "Prio k1 = Prio k2" for k1 k2 ms h
    using that by (induction ms arbitrary: h) (auto split: list.splits)
  have "find_highest (OS_MutexGrpAdd t m (k\<lparr>OwnerTCBPtr := o1, OwnerNestingCtr := o2\<rparr>)) ms h = find_highest k ms h"
    for o1 o2 ms h by (rule f) (simp_all add: OS_MutexGrpAdd_def)
  then have h: "OS_MutexGrpPrioFindHighest (OSTCBCurPtr k) (OS_MutexGrpAdd t m (k\<lparr>OwnerTCBPtr := o1, OwnerNestingCtr := o2\<rparr>)) =
      OS_MutexGrpPrioFindHighest (OSTCBCurPtr k) k" for o1 o2
    using assms by (simp add: OS_MutexGrpPrioFindHighest_def OS_MutexGrpAdd_def)
  show ?thesis
    unfolding disinherit_def using h
    by (cases k) (simp add: OS_MutexGrpAdd_def RdyListRemove_eq OS_PrioInsert_def
        OS_RdyListInsertTail_def Let_def)
qed

end
