(* ===== verification/Os_Objects.thy ===== *)
theory Os_Objects
  imports Os_Invariant
begin

unbundle bit_operations_syntax

text \<open>
  Semaphores and mutexes. An abstract state keeps, for each object, its owner, how often it was
  taken, its count, and for each task what it waits for; it has no lists, priorities or task
  states. The services of the kernel keep the invariant, return, and refine the operations of
  the abstract state: a mutex that is given back goes to a waiting task of the highest priority.
\<close>

section \<open>Objects\<close>

record objects =
  owner :: "nat \<Rightarrow> task option"
  taken :: "nat \<Rightarrow> u8"
  waits :: "task \<Rightarrow> pend_obj option"
  count :: "nat \<Rightarrow> u32"

definition objects_of :: "os \<Rightarrow> objects" where
  "objects_of k = \<lparr>owner = OwnerTCBPtr k, taken = OwnerNestingCtr k, waits = PendObjPtr k, count = Ctr k\<rparr>"

definition take_mutex :: "task \<Rightarrow> nat \<Rightarrow> objects \<Rightarrow> objects" where
  "take_mutex t m v =
     (case owner v m of
        None \<Rightarrow> v\<lparr>owner := (owner v)(m := Some t), taken := (taken v)(m := 1)\<rparr>
      | Some ow \<Rightarrow> if ow = t then v\<lparr>taken := (taken v)(m := taken v m + 1)\<rparr>
                  else v\<lparr>waits := (waits v)(t := Some (Mutex_Obj m))\<rparr>)"

text \<open>\<open>w\<close> is the task the mutex goes to, if one waits.\<close>

definition give_mutex :: "nat \<Rightarrow> task option \<Rightarrow> objects \<Rightarrow> objects" where
  "give_mutex m w v =
     (if taken v m - 1 \<noteq> 0 then v\<lparr>taken := (taken v)(m := taken v m - 1)\<rparr>
      else case w of
        None \<Rightarrow> v\<lparr>owner := (owner v)(m := None), taken := (taken v)(m := 0)\<rparr>
      | Some u \<Rightarrow> v\<lparr>owner := (owner v)(m := Some u), taken := (taken v)(m := 1),
                     waits := (waits v)(u := None)\<rparr>)"

definition take_sem :: "task \<Rightarrow> nat \<Rightarrow> objects \<Rightarrow> objects" where
  "take_sem t s v =
     (if count v s \<noteq> 0 then v\<lparr>count := (count v)(s := count v s - 1)\<rparr>
      else v\<lparr>waits := (waits v)(t := Some (Sem_Obj s))\<rparr>)"

text \<open>\<open>ws\<close> are the tasks that go on; without one the count grows.\<close>

definition give_sem :: "nat \<Rightarrow> task set \<Rightarrow> objects \<Rightarrow> objects" where
  "give_sem s ws v =
     (if ws = {} then v\<lparr>count := (count v)(s := count v s + 1)\<rparr>
      else v\<lparr>waits := (\<lambda>u. if u \<in> ws then None else waits v u)\<rparr>)"

text \<open>A task of the highest priority among those that wait for an object.\<close>

definition first_waiter :: "os \<Rightarrow> pend_obj \<Rightarrow> task \<Rightarrow> bool" where
  "first_waiter k ob t \<longleftrightarrow> PendObjPtr k t = Some ob \<and> (\<forall>u. PendObjPtr k u = Some ob \<longrightarrow> Prio k t \<le> Prio k u)"

text \<open>No task is delayed or suspended, so a task is ready exactly when it waits for nothing.\<close>

definition plain :: "os \<Rightarrow> bool" where
  "plain k \<longleftrightarrow> (\<forall>t. TaskState k t = OS_TASK_STATE_DEL \<or>
     TaskState k t = (if PendObjPtr k t = None then OS_TASK_STATE_RDY else OS_TASK_STATE_PEND))"

definition rest_same :: "os \<Rightarrow> os \<Rightarrow> bool" where
  "rest_same k k1 \<longleftrightarrow> ObjType k1 = ObjType k \<and> BasePrio k1 = BasePrio k \<and>
     OSIntNestingCtr k1 = OSIntNestingCtr k \<and> OSSchedLockNestingCtr k1 = OSSchedLockNestingCtr k \<and>
     (\<forall>u. TaskState k1 u = OS_TASK_STATE_DEL \<longleftrightarrow> TaskState k u = OS_TASK_STATE_DEL) \<and>
     (plain k \<longrightarrow> plain k1)"

text \<open>Priorities after taking a mutex: some tasks got the one of the caller.\<close>

definition prio_lent :: "os \<Rightarrow> os \<Rightarrow> bool" where
  "prio_lent k k1 \<longleftrightarrow> (\<forall>u. Prio k1 u \<le> Prio k u \<and> (Prio k1 u = Prio k u \<or> Prio k1 u = Prio k (OSTCBCurPtr k)))"

definition prio_returned :: "os \<Rightarrow> os \<Rightarrow> bool" where
  "prio_returned k k1 \<longleftrightarrow> (\<forall>u. Prio k u \<le> Prio k1 u \<and> (u \<noteq> OSTCBCurPtr k \<longrightarrow> Prio k1 u = Prio k u))"

section \<open>Each service\<close>

definition run_highest :: "os \<Rightarrow> bool" where
  "run_highest k \<longleftrightarrow> (OSIntNestingCtr k = 0 \<and> OSSchedLockNestingCtr k = 0 \<longrightarrow> highest_ready (OSTCBCurPtr k) k)"

definition good :: "os \<Rightarrow> bool" where
  "good k \<longleftrightarrow> os_inv k \<and> run_highest k"

lemma resched:
  assumes "data_inv k" and "TaskState k OSIdleTask = OS_TASK_STATE_RDY" and "OSRunning k"
    and "OSIntNestingCtr k = 0 \<and> OSSchedLockNestingCtr k = 0 \<or> TaskState k (OSTCBCurPtr k) = OS_TASK_STATE_RDY"
  shows "\<exists>p t. OSSched k = Inr (k\<lparr>OSPrioCur := p, OSTCBCurPtr := t\<rparr>) \<and> good (k\<lparr>OSPrioCur := p, OSTCBCurPtr := t\<rparr>)"
proof -
  obtain p t where s: "OSSched k = Inr (k\<lparr>OSPrioCur := p, OSTCBCurPtr := t\<rparr>)"
    "if OSIntNestingCtr k = 0 \<and> OSSchedLockNestingCtr k = 0 then highest_ready t k else t = OSTCBCurPtr k"
    using sched_ok [OF assms(1,2)] by blast
  let ?k1 = "k\<lparr>OSPrioCur := p, OSTCBCurPtr := t\<rparr>"
  have "data_inv ?k1" using assms(1) by simp
  moreover have "TaskState k t = OS_TASK_STATE_RDY"
    using s(2) assms(4) by (auto simp: highest_ready_def split: if_splits)
  ultimately have "os_inv ?k1" using assms(2,3) by (simp add: os_inv_def)
  moreover have "run_highest ?k1" using s(2) by (auto simp: run_highest_def highest_ready_def)
  ultimately show ?thesis using s(1) by (auto simp: good_def)
qed

lemma goodD:
  assumes "good k"
  shows "data_inv k" "core_inv k" "inherit_inv k" "ready_ok k" "lists_ok k" "wait_inv k" "own_inv k" "run_inv k"
    "TaskState k OSIdleTask = OS_TASK_STATE_RDY" "TaskState k (OSTCBCurPtr k) = OS_TASK_STATE_RDY" "OSRunning k"
    "run_highest k"
  using assms by (simp_all add: good_def os_inv_def data_inv_def core_inv_def)

lemma good_frame:
  assumes "good k" and "Prio k1 = Prio k" and "BasePrio k1 = BasePrio k" and "TaskState k1 = TaskState k"
    and "PendOn k1 = PendOn k" and "PendObjPtr k1 = PendObjPtr k" and "OSRdyList k1 = OSRdyList k"
    and "OSPrioTbl k1 = OSPrioTbl k" and "OSTCBCurPtr k1 = OSTCBCurPtr k"
    and "OSIntNestingCtr k1 = OSIntNestingCtr k" and "OSSchedLockNestingCtr k1 = OSSchedLockNestingCtr k"
    and "OSRunning k1 = OSRunning k" and "PendList k1 = PendList k"
    and "own_inv k1" and "run_inv k1" and "inherit_inv k1"
  shows "good k1"
  using goodD [OF assms(1)] assms(2-)
  by (simp add: good_def os_inv_def data_inv_def core_inv_def ready_ok_def lists_ok_def wait_inv_def
      run_highest_def highest_ready_def)

lemma no_waiter: "good k \<Longrightarrow> PendList k ob = [] \<Longrightarrow> PendObjPtr k w \<noteq> Some ob"
  using wl.queue_mem [of "PendList k" "PendObjPtr k" "Prio k" w ob] goodD(5) [of k]
  by (auto simp: lists_ok_def)

lemma some_first_waiter:
  assumes "good k"
  shows "\<exists>w. case w of None \<Rightarrow> \<forall>u. PendObjPtr k u \<noteq> Some ob | Some t \<Rightarrow> first_waiter k ob t"
proof (cases "PendList k ob")
  case Nil
  then show ?thesis using no_waiter [OF assms] by (intro exI [of _ None]) simp
next
  case (Cons t ts)
  then have "t \<in> set (PendList k ob)" by simp
  then have "first_waiter k ob t"
    using goodD(5) [OF assms] wl.queue_mem [of "PendList k" "PendObjPtr k" "Prio k" t ob]
      wl.queue_first [of "PendList k" "PendObjPtr k" "Prio k" ob t ts] Cons
    by (simp add: lists_ok_def first_waiter_def)
  then show ?thesis by (intro exI [of _ "Some t"]) simp
qed

lemma unowned:
  assumes "own_inv k" and "OwnerNestingCtr k m = 0"
  shows "OwnerTCBPtr k m = None" "PendObjPtr k w \<noteq> Some (Mutex_Obj m)" "m \<notin> set (MutexGrp k t)"
  using assms by (auto simp: own_inv_def)

lemma u8_inc: "(w :: u8) \<noteq> 255 \<Longrightarrow> w + 1 \<noteq> 0"
proof
  assume "w \<noteq> 255" "w + 1 = 0"
  then have "w = - 1" by (simp add: eq_neg_iff_add_eq_0)
  moreover have "(- 1 :: u8) = 255" by simp
  ultimately show False using \<open>w \<noteq> 255\<close> by simp
qed

lemma OS_Pend_fields:
  "TaskState (OS_Pend ob po 0 k) = (TaskState k)(OSTCBCurPtr k := OS_TASK_STATE_PEND)"
  "PendObjPtr (OS_Pend ob po 0 k) = (PendObjPtr k)(OSTCBCurPtr k := Some ob)"
  "OSTCBCurPtr (OS_Pend ob po 0 k) = OSTCBCurPtr k" "Prio (OS_Pend ob po 0 k) = Prio k"
  "BasePrio (OS_Pend ob po 0 k) = BasePrio k" "OSRunning (OS_Pend ob po 0 k) = OSRunning k"
  "OSIntNestingCtr (OS_Pend ob po 0 k) = OSIntNestingCtr k"
  "OSSchedLockNestingCtr (OS_Pend ob po 0 k) = OSSchedLockNestingCtr k" "ObjType (OS_Pend ob po 0 k) = ObjType k"
  "Ctr (OS_Pend ob po 0 k) = Ctr k" "OwnerTCBPtr (OS_Pend ob po 0 k) = OwnerTCBPtr k"
  "OwnerNestingCtr (OS_Pend ob po 0 k) = OwnerNestingCtr k"
  by (simp_all add: OS_Pend_def OS_TaskBlock_def RdyListRemove_eq OS_PendListInsertPrio_def Let_def)

lemma rest_same_refl: "rest_same k k"
  by (simp add: rest_same_def)

text \<open>The caller waits for an object: after it, the kernel runs another task.\<close>

lemma wait_good:
  assumes "good k" and "OSTCBCurPtr k \<noteq> OSIdleTask" and "OSIntNestingCtr k = 0" and "OSSchedLockNestingCtr k = 0"
    and "data_inv k1" and "same_but_prio k k1" and "ObjType k ob"
    and "case ob of Sem_Obj s \<Rightarrow> po = OS_TASK_PEND_ON_SEM \<and> Ctr k1 s = 0
       | Mutex_Obj m \<Rightarrow> po = OS_TASK_PEND_ON_MUTEX \<and> (\<exists>ow. OwnerTCBPtr k1 m = Some ow \<and> Prio k1 ow \<le> Prio k1 (OSTCBCurPtr k1))"
  shows "\<exists>k2. OSSched (OS_Pend ob po 0 k1) = Inr k2 \<and> good k2 \<and> rest_same k k2 \<and> Prio k2 = Prio k1 \<and>
    objects_of k2 = (objects_of k)\<lparr>waits := (PendObjPtr k)(OSTCBCurPtr k := Some ob)\<rparr>"
proof -
  note g = goodD [OF assms(1)]
  note sm = same_but_prioD [OF assms(6)]
  let ?k2 = "OS_Pend ob po 0 k1"
  have rdy: "TaskState k1 (OSTCBCurPtr k1) = OS_TASK_STATE_RDY" using g(10) by (simp add: sm)
  have "ObjType k1 ob" using assms(7) by (simp add: sm)
  then have "data_inv ?k2" using pend_ok(1) [OF assms(5) refl rdy _ assms(8)] by blast
  moreover have "TaskState ?k2 OSIdleTask = OS_TASK_STATE_RDY" "OSRunning ?k2" "OSIntNestingCtr ?k2 = 0"
    "OSSchedLockNestingCtr ?k2 = 0" using g(9,11) assms(2-4) by (simp_all add: OS_Pend_fields sm)
  ultimately obtain p t where s: "OSSched ?k2 = Inr (?k2\<lparr>OSPrioCur := p, OSTCBCurPtr := t\<rparr>)"
    "good (?k2\<lparr>OSPrioCur := p, OSTCBCurPtr := t\<rparr>)" using resched [of ?k2] by blast
  have "rest_same k (?k2\<lparr>OSPrioCur := p, OSTCBCurPtr := t\<rparr>)"
    using g(10) by (auto simp: rest_same_def OS_Pend_fields sm plain_def)
  then show ?thesis using s by (auto simp: objects_of_def OS_Pend_fields sm)
qed

definition pend_refused :: "nat \<Rightarrow> u16 \<Rightarrow> os \<Rightarrow> bool" where
  "pend_refused m opt k \<longleftrightarrow> 0 < OSIntNestingCtr k \<or> opt \<noteq> OS_OPT_PEND_BLOCKING \<and> opt \<noteq> OS_OPT_PEND_NON_BLOCKING \<or>
     \<not> ObjType k (Mutex_Obj m) \<or>
     OwnerTCBPtr k m \<notin> {None, Some (OSTCBCurPtr k)} \<and>
       (opt AND OS_OPT_PEND_NON_BLOCKING \<noteq> 0 \<or> 0 < OSSchedLockNestingCtr k)"

lemma mutex_pend_cases:
  assumes "good k"
  obtains (refused) r where "pend_refused m opt k" "OSMutexPend m 0 opt k = Inr (r, k)"
  | (free) "\<not> pend_refused m opt k" "OwnerNestingCtr k m = 0" "ObjType k (Mutex_Obj m)" "OSMutexPend m 0 opt k =
      Inr (Returned OS_ERR_NONE, OS_MutexGrpAdd (OSTCBCurPtr k) m
        (k\<lparr>OwnerTCBPtr := (OwnerTCBPtr k)(m := Some (OSTCBCurPtr k)), OwnerNestingCtr := (OwnerNestingCtr k)(m := 1)\<rparr>))"
  | (again) "\<not> pend_refused m opt k" "OwnerTCBPtr k m = Some (OSTCBCurPtr k)" "OSMutexPend m 0 opt k =
      Inr (Returned OS_ERR_MUTEX_OWNER, k\<lparr>OwnerNestingCtr := (OwnerNestingCtr k)(m := OwnerNestingCtr k m + 1)\<rparr>)"
  | (wait) ow where "\<not> pend_refused m opt k" "OSIntNestingCtr k = 0" "OSSchedLockNestingCtr k = 0"
      "ObjType k (Mutex_Obj m)" "OwnerTCBPtr k m = Some ow" "ow \<noteq> OSTCBCurPtr k" "OSMutexPend m 0 opt k =
        bindR (if Prio k (OSTCBCurPtr k) < Prio k ow then OS_TaskChangePrio ow (Prio k (OSTCBCurPtr k)) k else Inr k)
          (\<lambda>k1. bindR (OSSched (OS_Pend (Mutex_Obj m) OS_TASK_PEND_ON_MUTEX 0 k1)) (\<lambda>k2. Inr (Waits, k2)))"
proof -
  have own: "OwnerNestingCtr k m = 0 \<longleftrightarrow> OwnerTCBPtr k m = None"
    using goodD(7) [OF assms] by (simp add: own_inv_def)
  show thesis
  proof (cases "0 < OSIntNestingCtr k \<or> opt \<noteq> OS_OPT_PEND_BLOCKING \<and> opt \<noteq> OS_OPT_PEND_NON_BLOCKING \<or>
      \<not> ObjType k (Mutex_Obj m)")
    case True
    then have "\<exists>r. OSMutexPend m 0 opt k = Inr (r, k)"
      unfolding OSMutexPend_def Let_def
      by (cases "0 < OSIntNestingCtr k"; cases "opt \<noteq> OS_OPT_PEND_BLOCKING \<and> opt \<noteq> OS_OPT_PEND_NON_BLOCKING")
        simp_all
    moreover have "pend_refused m opt k" using True unfolding pend_refused_def by blast
    ultimately show thesis using that(1) by blast
  next
    case False
    then have no: "OSIntNestingCtr k = 0" "opt = OS_OPT_PEND_BLOCKING \<or> opt = OS_OPT_PEND_NON_BLOCKING"
      "ObjType k (Mutex_Obj m)" by (auto simp: word_gt_0)
    show thesis
    proof (cases "OwnerTCBPtr k m")
      case None
      then have "OwnerNestingCtr k m = 0" "\<not> pend_refused m opt k" using own no by (auto simp: pend_refused_def)
      with no that(2) show thesis unfolding OSMutexPend_def Let_def by simp
    next
      case (Some ow)
      then have n: "OwnerNestingCtr k m \<noteq> 0" using own by simp
      consider "ow = OSTCBCurPtr k"
        | "ow \<noteq> OSTCBCurPtr k" "opt AND OS_OPT_PEND_NON_BLOCKING \<noteq> 0 \<or> 0 < OSSchedLockNestingCtr k"
        | "ow \<noteq> OSTCBCurPtr k" "opt AND OS_OPT_PEND_NON_BLOCKING = 0" "OSSchedLockNestingCtr k = 0"
        by (auto simp: word_gt_0)
      then show thesis
      proof cases
        case 1
        then have "\<not> pend_refused m opt k" using no Some by (auto simp: pend_refused_def)
        with 1 no n Some that(3) show thesis unfolding OSMutexPend_def Let_def by simp
      next
        case 2
        then have "\<exists>r. OSMutexPend m 0 opt k = Inr (r, k)"
          using no n Some unfolding OSMutexPend_def Let_def
          by (cases "opt AND OS_OPT_PEND_NON_BLOCKING \<noteq> 0") auto
        moreover have "pend_refused m opt k" using 2 Some by (auto simp: pend_refused_def)
        ultimately show thesis using that(1) by blast
      next
        case 3
        with no n Some show thesis by (intro that(4) [of ow]) (auto simp: OSMutexPend_def pend_refused_def Let_def)
      qed
    qed
  qed
qed

text \<open>A task of low priority that owns the mutex first gets the priority of the caller.\<close>

lemma lend_prio:
  assumes "good k" and "OwnerTCBPtr k m = Some ow"
  obtains k1 where "(if Prio k (OSTCBCurPtr k) < Prio k ow then OS_TaskChangePrio ow (Prio k (OSTCBCurPtr k)) k
      else Inr k) = Inr k1" "data_inv k1" "same_but_prio k k1" "Prio k1 ow \<le> Prio k1 (OSTCBCurPtr k)" "prio_lent k k1"
proof (cases "Prio k (OSTCBCurPtr k) < Prio k ow")
  case True
  note g = goodD [OF assms(1)]
  have "TaskState k ow \<noteq> OS_TASK_STATE_DEL" using g(7) assms(2) by (simp add: own_inv_def)
  from raise_chain [OF g(1) this True] obtain k1
    where r: "OS_TaskChangePrio ow (Prio k (OSTCBCurPtr k)) k = Inr k1" "data_inv k1" "same_but_prio k k1"
      "Prio k1 ow \<le> Prio k (OSTCBCurPtr k)"
      "\<forall>u. Prio k1 u \<le> Prio k u \<and> (Prio k1 u = Prio k u \<or> Prio k1 u = Prio k (OSTCBCurPtr k))" by blast
  have "Prio k1 (OSTCBCurPtr k) = Prio k (OSTCBCurPtr k)" using r(5) by metis
  with r True that show thesis by (simp add: prio_lent_def)
next
  case False
  show thesis
    by (rule that [of k]) (use False goodD(1) [OF assms(1)] in \<open>auto simp: same_but_prio_def prio_lent_def not_less\<close>)
qed

lemma mutex_pend_good:
  assumes "good k" and "OSTCBCurPtr k \<noteq> OSIdleTask" and "OwnerNestingCtr k m \<noteq> 255"
  shows "\<exists>r k1. OSMutexPend m 0 opt k = Inr (r, k1) \<and> good k1 \<and> rest_same k k1 \<and> prio_lent k k1 \<and>
    objects_of k1 = (if pend_refused m opt k then objects_of k else take_mutex (OSTCBCurPtr k) m (objects_of k))"
proof -
  let ?cur = "OSTCBCurPtr k"
  note g = goodD [OF assms(1)]
  note obj = take_mutex_def objects_of_def rest_same_def prio_lent_def plain_def
  from assms(1) show ?thesis
  proof (cases rule: mutex_pend_cases [of k m opt])
    case refused
    then show ?thesis using assms(1) by (simp add: rest_same_refl prio_lent_def)
  next
    case free
    note no = unowned [OF g(7) free(2)]
    let ?k1 = "OS_MutexGrpAdd ?cur m (k\<lparr>OwnerTCBPtr := (OwnerTCBPtr k)(m := Some ?cur),
      OwnerNestingCtr := (OwnerNestingCtr k)(m := 1)\<rparr>)"
    have "TaskState k ?cur \<noteq> OS_TASK_STATE_DEL" using g(10) by simp
    then have "own_inv ?k1" using g(7) no by (auto simp: own_inv_def OS_MutexGrpAdd_def)
    moreover have "run_inv ?k1" using g(8) free(3) by (auto simp: run_inv_def OS_MutexGrpAdd_def)
    moreover have "inherit_inv ?k1" using g(3) no(2) by (auto simp: inherit_inv_def OS_MutexGrpAdd_def)
    ultimately have "good ?k1" by (rule good_frame [OF assms(1), rotated 12]) (simp_all add: OS_MutexGrpAdd_def)
    then show ?thesis using free(1,4) no(1) by (simp add: obj OS_MutexGrpAdd_def)
  next
    case again
    let ?k1 = "k\<lparr>OwnerNestingCtr := (OwnerNestingCtr k)(m := OwnerNestingCtr k m + 1)\<rparr>"
    have "OwnerNestingCtr k m + 1 \<noteq> 0" using assms(3) by (rule u8_inc)
    then have "own_inv ?k1" using g(7) again(2) by (auto simp: own_inv_def)
    moreover have "run_inv ?k1" "inherit_inv ?k1" using g(3,8) by (simp_all add: run_inv_def inherit_inv_def)
    ultimately have "good ?k1" by (intro good_frame [OF assms(1)]) simp_all
    then show ?thesis using again by (simp add: obj)
  next
    case (wait ow)
    obtain k1 where k1: "(if Prio k ?cur < Prio k ow then OS_TaskChangePrio ow (Prio k ?cur) k else Inr k) = Inr k1"
      "data_inv k1" "same_but_prio k k1" "Prio k1 ow \<le> Prio k1 ?cur" "prio_lent k k1"
      using lend_prio [OF assms(1) wait(5)] .
    note sm = same_but_prioD [OF k1(3)]
    have "case Mutex_Obj m of Sem_Obj s \<Rightarrow> OS_TASK_PEND_ON_MUTEX = OS_TASK_PEND_ON_SEM \<and> Ctr k1 s = 0
       | Mutex_Obj m \<Rightarrow> OS_TASK_PEND_ON_MUTEX = OS_TASK_PEND_ON_MUTEX \<and>
           (\<exists>ow. OwnerTCBPtr k1 m = Some ow \<and> Prio k1 ow \<le> Prio k1 (OSTCBCurPtr k1))"
      using wait(5) k1(4) by (simp add: sm)
    from wait_good [OF assms(1,2) wait(2,3) k1(2,3) wait(4) this] obtain k2
      where "OSSched (OS_Pend (Mutex_Obj m) OS_TASK_PEND_ON_MUTEX 0 k1) = Inr k2" "good k2" "rest_same k k2"
        "Prio k2 = Prio k1" "objects_of k2 = (objects_of k)\<lparr>waits := (PendObjPtr k)(?cur := Some (Mutex_Obj m))\<rparr>" by blast
    then show ?thesis using wait k1(1,5) by (simp add: take_mutex_def objects_of_def prio_lent_def)
  qed
qed

lemma transfer_ok:
  assumes "good k" and "OwnerTCBPtr k m = Some (OSTCBCurPtr k)" and "PendList k (Mutex_Obj m) = t # ts"
  shows "data_inv (OS_MutexGrpAdd t m (k\<lparr>MutexGrp := (MutexGrp k)(OSTCBCurPtr k := remove1 m (MutexGrp k (OSTCBCurPtr k))),
     OwnerTCBPtr := (OwnerTCBPtr k)(m := Some t), OwnerNestingCtr := (OwnerNestingCtr k)(m := 1)\<rparr>))"
    (is "data_inv ?k1")
    and "PendObjPtr k t = Some (Mutex_Obj m)" and "t \<noteq> OSTCBCurPtr k"
proof -
  note g = goodD [OF assms(1)]
  have "t \<in> set (PendList k (Mutex_Obj m))" using assms(3) by simp
  then show t: "PendObjPtr k t = Some (Mutex_Obj m)" using g(5) unfolding lists_ok_def by (simp add: wl.queue_mem)
  have st: "TaskState k t \<noteq> OS_TASK_STATE_RDY" "TaskState k t \<in> waiting_states"
    using waits_state [OF g(2) t] by simp_all
  then show ne: "t \<noteq> OSTCBCurPtr k" using g(10) by auto
  have f: "Prio ?k1 = Prio k" "BasePrio ?k1 = BasePrio k" "TaskState ?k1 = TaskState k" "PendOn ?k1 = PendOn k"
    "PendObjPtr ?k1 = PendObjPtr k" "OSRdyList ?k1 = OSRdyList k" "OSPrioTbl ?k1 = OSPrioTbl k"
    "PendList ?k1 = PendList k" "Ctr ?k1 = Ctr k" "ObjType ?k1 = ObjType k"
    "OwnerTCBPtr ?k1 = (OwnerTCBPtr k)(m := Some t)" "OwnerNestingCtr ?k1 = (OwnerNestingCtr k)(m := 1)"
    "MutexGrp ?k1 = (MutexGrp k)(OSTCBCurPtr k := remove1 m (MutexGrp k (OSTCBCurPtr k)), t := m # MutexGrp k t)"
    using ne by (simp_all add: OS_MutexGrpAdd_def)
  have "m \<notin> set (MutexGrp k t)" using g(7) assms(2) ne by (auto simp: own_inv_def)
  then have "own_inv ?k1"
    using g(7) st(2) assms(2) ne by (auto simp: own_inv_def f waiting_states_def)
  moreover have "run_inv ?k1" using g(8) t by (auto simp: run_inv_def f)
  moreover have "inherit_inv ?k1"
  proof -
    have "Prio k t \<le> Prio k w" if "PendObjPtr k w = Some (Mutex_Obj m)" for w
      using wl.queue_first [OF g(5) [unfolded lists_ok_def] assms(3) that] .
    then show ?thesis using g(3) by (auto simp: inherit_inv_def f)
  qed
  ultimately show "data_inv ?k1"
    using g(4,5,6) unfolding data_inv_def core_inv_def ready_ok_def lists_ok_def wait_inv_def by (simp only: f)
qed

lemma disinherit_fields:
  "TaskState (disinherit k) = TaskState k" "PendObjPtr (disinherit k) = PendObjPtr k"
  "OSTCBCurPtr (disinherit k) = OSTCBCurPtr k" "OSRunning (disinherit k) = OSRunning k"
  "OSIntNestingCtr (disinherit k) = OSIntNestingCtr k" "OSSchedLockNestingCtr (disinherit k) = OSSchedLockNestingCtr k"
  "BasePrio (disinherit k) = BasePrio k" "ObjType (disinherit k) = ObjType k" "Ctr (disinherit k) = Ctr k"
  "OwnerTCBPtr (disinherit k) = OwnerTCBPtr k" "OwnerNestingCtr (disinherit k) = OwnerNestingCtr k"
  by (simp_all add: disinherit_def RdyListRemove_eq OS_PrioInsert_def OS_RdyListInsertTail_def Let_def)

lemma disinherit_prio: "Prio k u \<le> Prio (disinherit k) u" "u \<noteq> OSTCBCurPtr k \<Longrightarrow> Prio (disinherit k) u = Prio k u"
  by (simp_all add: disinherit_def RdyListRemove_eq OS_PrioInsert_def OS_RdyListInsertTail_def Let_def less_imp_le)

text \<open>The current task hands its mutex over to the first task that waits for it.\<close>

lemma hand_over_good:
  assumes "good k" and "OwnerTCBPtr k m = Some (OSTCBCurPtr k)" and "PendList k (Mutex_Obj m) = t # ts"
  defines "d \<equiv> OS_MutexGrpAdd t m (k\<lparr>MutexGrp := (MutexGrp k)(OSTCBCurPtr k := remove1 m (MutexGrp k (OSTCBCurPtr k))),
     OwnerTCBPtr := (OwnerTCBPtr k)(m := Some t), OwnerNestingCtr := (OwnerNestingCtr k)(m := 1)\<rparr>)"
  shows "\<exists>k1. OSSched (OS_Post t (disinherit d)) = Inr k1 \<and> good k1 \<and> rest_same k k1 \<and> prio_returned k k1 \<and>
    objects_of k1 = (objects_of k)\<lparr>owner := (OwnerTCBPtr k)(m := Some t), taken := (OwnerNestingCtr k)(m := 1),
      waits := (PendObjPtr k)(t := None)\<rparr>"
    and "first_waiter k (Mutex_Obj m) t" and "t \<noteq> OSTCBCurPtr k"
proof -
  note g = goodD [OF assms(1)]
  note tr = transfer_ok [OF assms(1-3)]
  show "t \<noteq> OSTCBCurPtr k" by (rule tr(3))
  show "first_waiter k (Mutex_Obj m) t"
    using tr(2) wl.queue_first [OF g(5) [unfolded lists_ok_def] assms(3)] by (simp add: first_waiter_def)
  have f: "TaskState d = TaskState k" "OSTCBCurPtr d = OSTCBCurPtr k" "PendObjPtr d = PendObjPtr k"
    "OSRunning d = OSRunning k" "OSIntNestingCtr d = OSIntNestingCtr k" "Prio d = Prio k" "BasePrio d = BasePrio k"
    "OSSchedLockNestingCtr d = OSSchedLockNestingCtr k" "ObjType d = ObjType k" "Ctr d = Ctr k"
    "OwnerTCBPtr d = (OwnerTCBPtr k)(m := Some t)" "OwnerNestingCtr d = (OwnerNestingCtr k)(m := 1)"
    by (simp_all add: d_def OS_MutexGrpAdd_def)
  have "data_inv d" unfolding d_def by (rule tr(1))
  then have dd: "data_inv (disinherit d)" "PendObjPtr (disinherit d) t = Some (Mutex_Obj m)"
    using disinherit_ok [of d] g(10) tr(2) by (simp_all add: f disinherit_fields)
  let ?p = "OS_Post t (disinherit d)"
  have p: "posted t (disinherit d) ?p" by (rule post_ok [OF dd])
  note pf = postedD [OF p]
  have w: "TaskState k t \<in> waiting_states" by (rule waits_state(1) [OF g(2) tr(2)])
  have st: "TaskState ?p u = TaskState k u" if "u \<noteq> t" for u
    using p that by (simp add: posted_def disinherit_fields f)
  have stt: "TaskState ?p t = (if TaskState k t \<in> {OS_TASK_STATE_PEND, OS_TASK_STATE_PEND_TIMEOUT}
      then OS_TASK_STATE_RDY else OS_TASK_STATE_SUSPENDED)" using p by (simp add: posted_def disinherit_fields f)
  have po: "PendObjPtr ?p = (PendObjPtr k)(t := None)" using p by (simp add: posted_def disinherit_fields f)
  have "t \<noteq> OSIdleTask" using waits_state(2) [OF g(2) tr(2)] g(9) by auto
  then have "TaskState ?p OSIdleTask = OS_TASK_STATE_RDY" "TaskState ?p (OSTCBCurPtr ?p) = OS_TASK_STATE_RDY" "OSRunning ?p"
    using st g(9-11) tr(3) by (simp_all add: pf disinherit_fields f)
  moreover have "data_inv ?p" using p by (simp add: posted_def)
  ultimately obtain q u where s: "OSSched ?p = Inr (?p\<lparr>OSPrioCur := q, OSTCBCurPtr := u\<rparr>)"
    "good (?p\<lparr>OSPrioCur := q, OSTCBCurPtr := u\<rparr>)" using resched [of ?p] by blast
  have "TaskState ?p u = OS_TASK_STATE_DEL \<longleftrightarrow> TaskState k u = OS_TASK_STATE_DEL" for u
    using st [of u] stt w by (cases "u = t") (auto simp: waiting_states_def)
  moreover have "plain ?p" if "plain k"
  proof -
    have "TaskState k t = OS_TASK_STATE_PEND"
      using that w tr(2) unfolding plain_def waiting_states_def by (metis (no_types, lifting) insert_iff
        option.distinct(1) os_task_state.distinct empty_iff)
    then show ?thesis using that st stt unfolding plain_def po by auto
  qed
  ultimately have "rest_same k (?p\<lparr>OSPrioCur := q, OSTCBCurPtr := u\<rparr>)"
    by (simp add: rest_same_def plain_def pf disinherit_fields f)
  moreover have "prio_returned k (?p\<lparr>OSPrioCur := q, OSTCBCurPtr := u\<rparr>)"
    using disinherit_prio [where k = d] by (simp add: prio_returned_def pf f)
  ultimately show "\<exists>k1. OSSched ?p = Inr k1 \<and> good k1 \<and> rest_same k k1 \<and> prio_returned k k1 \<and>
    objects_of k1 = (objects_of k)\<lparr>owner := (OwnerTCBPtr k)(m := Some t), taken := (OwnerNestingCtr k)(m := 1),
      waits := (PendObjPtr k)(t := None)\<rparr>"
    using s by (simp add: objects_of_def pf po disinherit_fields f)
qed

definition post_refused :: "nat \<Rightarrow> u16 \<Rightarrow> os \<Rightarrow> bool" where
  "post_refused m opt k \<longleftrightarrow> 0 < OSIntNestingCtr k \<or> opt \<noteq> OS_OPT_POST_NONE \<and> opt \<noteq> OS_OPT_POST_NO_SCHED \<or>
     \<not> ObjType k (Mutex_Obj m) \<or> OwnerTCBPtr k m \<noteq> Some (OSTCBCurPtr k)"

lemma mutex_post_good:
  assumes "good k" and "opt AND OS_OPT_POST_NO_SCHED = 0"
  shows "\<exists>r k1. OSMutexPost m opt k = Inr (r, k1) \<and> good k1 \<and> rest_same k k1 \<and> prio_returned k k1 \<and>
    (if post_refused m opt k then k1 = k
     else \<exists>w. objects_of k1 = give_mutex m w (objects_of k) \<and>
       (case w of None \<Rightarrow> \<forall>u. PendObjPtr k u \<noteq> Some (Mutex_Obj m)
        | Some t \<Rightarrow> first_waiter k (Mutex_Obj m) t))"
proof -
  let ?cur = "OSTCBCurPtr k"
  note g = goodD [OF assms(1)]
  note obj = give_mutex_def objects_of_def rest_same_def prio_returned_def plain_def
  let ?k1 = "k\<lparr>OwnerNestingCtr := (OwnerNestingCtr k)(m := OwnerNestingCtr k m - 1)\<rparr>"
  let ?grp = "(MutexGrp k)(?cur := remove1 m (MutexGrp k ?cur))"
  let ?k2 = "?k1\<lparr>MutexGrp := ?grp\<rparr>"
  show ?thesis
  proof (cases "post_refused m opt k")
    case True
    then have "\<exists>r. OSMutexPost m opt k = Inr (r, k)"
      unfolding OSMutexPost_def post_refused_def Let_def
      by (cases "0 < OSIntNestingCtr k"; cases "opt \<noteq> OS_OPT_POST_NONE \<and> opt \<noteq> OS_OPT_POST_NO_SCHED";
          cases "\<not> ObjType k (Mutex_Obj m)") auto
    then show ?thesis using True assms(1) by (auto simp: rest_same_refl prio_returned_def)
  next
    case no: False
    then have False: "\<not> (0 < OSIntNestingCtr k \<or> opt \<noteq> OS_OPT_POST_NONE \<and> opt \<noteq> OS_OPT_POST_NO_SCHED \<or>
      \<not> ObjType k (Mutex_Obj m) \<or> Some ?cur \<noteq> OwnerTCBPtr k m)" by (auto simp: post_refused_def)
    then have own: "OwnerTCBPtr k m = Some ?cur" by simp
    then have n: "OwnerNestingCtr k m \<noteq> 0" "m \<in> set (MutexGrp k ?cur)" using g(7) by (auto simp: own_inv_def)
    show ?thesis
    proof (cases "0 < OwnerNestingCtr k m - 1")
      case True
      then have nz: "OwnerNestingCtr k m - 1 \<noteq> 0" by (simp add: word_gt_0)
      then have "own_inv ?k1" using g(7) n own by (auto simp: own_inv_def)
      moreover have "run_inv ?k1" "inherit_inv ?k1" using g(3,8) by (simp_all add: run_inv_def inherit_inv_def)
      ultimately have "good ?k1" by (intro good_frame [OF assms(1)]) simp_all
      moreover have "OSMutexPost m opt k = Inr (OS_ERR_MUTEX_NESTING, ?k1)"
        using False True by (auto simp: OSMutexPost_def Let_def)
      moreover have "\<exists>w. case w of None \<Rightarrow> \<forall>u. PendObjPtr k u \<noteq> Some (Mutex_Obj m)
          | Some t \<Rightarrow> first_waiter k (Mutex_Obj m) t" by (rule some_first_waiter [OF assms(1)])
      ultimately show ?thesis using no nz by (simp add: obj)
    next
      case last: False
      then have z: "OwnerNestingCtr k m - 1 = 0" by (simp add: word_gt_0)
      have e: "OSMutexPost m opt k = (case PendList k (Mutex_Obj m) of
          [] \<Rightarrow> Inr (OS_ERR_NONE, ?k2\<lparr>OwnerTCBPtr := (OwnerTCBPtr ?k2)(m := None),
                                   OwnerNestingCtr := (OwnerNestingCtr ?k2)(m := 0)\<rparr>)
        | t # _ \<Rightarrow> bindR (OSSched (OS_Post t (OS_MutexGrpAdd t m
            ((disinherit ?k2)\<lparr>OwnerTCBPtr := (OwnerTCBPtr (disinherit ?k2))(m := Some t),
              OwnerNestingCtr := (OwnerNestingCtr (disinherit ?k2))(m := 1)\<rparr>)))) (\<lambda>k5. Inr (OS_ERR_NONE, k5)))"
        using False last n assms(2) unfolding OSMutexPost_def OS_MutexGrpRemove_def Let_def
        by (auto split: list.splits)
      show ?thesis
      proof (cases "PendList k (Mutex_Obj m)")
        case Nil
        let ?k3 = "?k2\<lparr>OwnerTCBPtr := (OwnerTCBPtr ?k2)(m := None), OwnerNestingCtr := (OwnerNestingCtr ?k2)(m := 0)\<rparr>"
        have nw: "PendObjPtr k w \<noteq> Some (Mutex_Obj m)" for w by (rule no_waiter [OF assms(1) Nil])
        have "own_inv ?k3" using g(7) own nw by (auto simp: own_inv_def)
        moreover have "run_inv ?k3" "inherit_inv ?k3" using g(3,8) by (auto simp: run_inv_def inherit_inv_def)
        ultimately have "good ?k3" by (intro good_frame [OF assms(1)]) simp_all
        then show ?thesis using e Nil no nw z by (simp add: obj) (rule exI [of _ None], simp)
      next
        case (Cons t ts)
        note h = hand_over_good [OF assms(1) own Cons]
        let ?d = "OS_MutexGrpAdd t m (k\<lparr>MutexGrp := ?grp, OwnerTCBPtr := (OwnerTCBPtr k)(m := Some t),
            OwnerNestingCtr := (OwnerNestingCtr k)(m := 1)\<rparr>)"
        have "OS_MutexGrpAdd t m (?k2\<lparr>OwnerTCBPtr := (OwnerTCBPtr ?k2)(m := Some t),
          OwnerNestingCtr := (OwnerNestingCtr ?k2)(m := 1)\<rparr>) = ?d" by (cases k) (simp add: OS_MutexGrpAdd_def)
        moreover have "t \<noteq> OSTCBCurPtr ?k2" using h(3) by simp
        ultimately have "OSMutexPost m opt k = bindR (OSSched (OS_Post t (disinherit ?d))) (\<lambda>k5. Inr (OS_ERR_NONE, k5))"
          using e Cons by (simp add: disinherit_before)
        moreover obtain k5 where "OSSched (OS_Post t (disinherit ?d)) = Inr k5" "good k5" "rest_same k k5"
          "prio_returned k k5" "objects_of k5 = (objects_of k)\<lparr>owner := (OwnerTCBPtr k)(m := Some t),
            taken := (OwnerNestingCtr k)(m := 1), waits := (PendObjPtr k)(t := None)\<rparr>" using h(1) by blast
        ultimately show ?thesis using no z h(2)
          by (simp add: give_mutex_def objects_of_def) (rule exI [of _ "Some t"], simp)
      qed
    qed
  qed
qed

definition sem_pend_refused :: "nat \<Rightarrow> u16 \<Rightarrow> os \<Rightarrow> bool" where
  "sem_pend_refused s opt k \<longleftrightarrow> 0 < OSIntNestingCtr k \<or>
     opt \<noteq> OS_OPT_PEND_BLOCKING \<and> opt \<noteq> OS_OPT_PEND_NON_BLOCKING \<or> \<not> ObjType k (Sem_Obj s) \<or>
     Ctr k s = 0 \<and> (opt AND OS_OPT_PEND_NON_BLOCKING \<noteq> 0 \<or> 0 < OSSchedLockNestingCtr k)"

lemma sem_pend_cases:
  obtains (refused) r where "sem_pend_refused s opt k" "r \<noteq> Returned OS_ERR_NONE" "OSSemPend s 0 opt k = Inr (r, k)"
    | (taken) "\<not> sem_pend_refused s opt k" "Ctr k s \<noteq> 0"
        "OSSemPend s 0 opt k = Inr (Returned OS_ERR_NONE, k\<lparr>Ctr := (Ctr k)(s := Ctr k s - 1)\<rparr>)"
    | (wait) "\<not> sem_pend_refused s opt k" "OSIntNestingCtr k = 0" "OSSchedLockNestingCtr k = 0" "ObjType k (Sem_Obj s)"
        "Ctr k s = 0" "OSSemPend s 0 opt k =
           bindR (OSSched (OS_Pend (Sem_Obj s) OS_TASK_PEND_ON_SEM 0 k)) (\<lambda>k1. Inr (Waits, k1))"
proof (cases "sem_pend_refused s opt k")
  case True
  then have "\<exists>r. r \<noteq> Returned OS_ERR_NONE \<and> OSSemPend s 0 opt k = Inr (r, k)"
    unfolding OSSemPend_def sem_pend_refused_def
    by (cases "0 < OSIntNestingCtr k"; cases "opt \<noteq> OS_OPT_PEND_BLOCKING \<and> opt \<noteq> OS_OPT_PEND_NON_BLOCKING";
        cases "\<not> ObjType k (Sem_Obj s)"; cases "opt AND OS_OPT_PEND_NON_BLOCKING \<noteq> 0") auto
  with True that(1) show thesis by blast
next
  case no: False
  show thesis
  proof (cases "Ctr k s = 0")
    case False
    then show thesis using no by (intro that(2)) (auto simp: OSSemPend_def sem_pend_refused_def word_gt_0)
  next
    case True
    then show thesis using no by (intro that(3)) (auto simp: OSSemPend_def sem_pend_refused_def word_gt_0)
  qed
qed

lemma sem_pend_good:
  assumes "good k" and "OSTCBCurPtr k \<noteq> OSIdleTask"
  shows "\<exists>r k1. OSSemPend s 0 opt k = Inr (r, k1) \<and> good k1 \<and> rest_same k k1 \<and> Prio k1 = Prio k \<and>
    objects_of k1 = (if sem_pend_refused s opt k then objects_of k else take_sem (OSTCBCurPtr k) s (objects_of k)) \<and>
    (r = Returned OS_ERR_NONE \<longleftrightarrow> \<not> sem_pend_refused s opt k \<and> Ctr k s \<noteq> 0)"
proof -
  note g = goodD [OF assms(1)]
  note obj = take_sem_def objects_of_def
  show ?thesis
  proof (cases rule: sem_pend_cases [of s opt k])
    case refused
    then show ?thesis using assms(1) by (simp add: rest_same_refl)
  next
    case taken
    let ?k1 = "k\<lparr>Ctr := (Ctr k)(s := Ctr k s - 1)\<rparr>"
    have "own_inv ?k1" "inherit_inv ?k1" using g(3,7) by (simp_all add: own_inv_def inherit_inv_def)
    moreover have "run_inv ?k1" using g(8) taken(2) by (auto simp: run_inv_def)
    ultimately have "good ?k1" by (intro good_frame [OF assms(1)]) simp_all
    then show ?thesis using taken by (simp add: obj rest_same_def plain_def)
  next
    case wait
    have "case Sem_Obj s of Sem_Obj s \<Rightarrow> OS_TASK_PEND_ON_SEM = OS_TASK_PEND_ON_SEM \<and> Ctr k s = 0
       | Mutex_Obj m \<Rightarrow> OS_TASK_PEND_ON_SEM = OS_TASK_PEND_ON_MUTEX \<and>
           (\<exists>ow. OwnerTCBPtr k m = Some ow \<and> Prio k ow \<le> Prio k (OSTCBCurPtr k))" using wait(5) by simp
    moreover have "same_but_prio k k" by (simp add: same_but_prio_def)
    ultimately obtain k2 where "OSSched (OS_Pend (Sem_Obj s) OS_TASK_PEND_ON_SEM 0 k) = Inr k2" "good k2"
      "rest_same k k2" "Prio k2 = Prio k"
      "objects_of k2 = (objects_of k)\<lparr>waits := (PendObjPtr k)(OSTCBCurPtr k := Some (Sem_Obj s))\<rparr>"
      using wait_good [OF assms wait(2,3) g(1) _ wait(4)] by blast
    then show ?thesis using wait(1,5,6) by (simp add: obj)
  qed
qed

text \<open>Several tasks, which all wait for the same object, are posted to.\<close>

lemma fold_post_fields:
  assumes "data_inv k" and "\<And>t. t \<in> set ts \<Longrightarrow> PendObjPtr k t = Some ob" and "distinct ts"
  shows "PendObjPtr (fold OS_Post ts k) = (\<lambda>u. if u \<in> set ts then None else PendObjPtr k u) \<and>
    (\<forall>u. u \<notin> set ts \<longrightarrow> TaskState (fold OS_Post ts k) u = TaskState k u) \<and>
    (\<forall>u \<in> set ts. TaskState (fold OS_Post ts k) u \<in> {OS_TASK_STATE_RDY, OS_TASK_STATE_SUSPENDED}) \<and>
    (\<forall>u \<in> set ts. TaskState k u = OS_TASK_STATE_PEND \<longrightarrow> TaskState (fold OS_Post ts k) u = OS_TASK_STATE_RDY) \<and>
    Prio (fold OS_Post ts k) = Prio k \<and> BasePrio (fold OS_Post ts k) = BasePrio k \<and>
    OSTCBCurPtr (fold OS_Post ts k) = OSTCBCurPtr k \<and> OSRunning (fold OS_Post ts k) = OSRunning k \<and>
    OSIntNestingCtr (fold OS_Post ts k) = OSIntNestingCtr k \<and>
    OSSchedLockNestingCtr (fold OS_Post ts k) = OSSchedLockNestingCtr k \<and>
    ObjType (fold OS_Post ts k) = ObjType k \<and> Ctr (fold OS_Post ts k) = Ctr k \<and>
    OwnerTCBPtr (fold OS_Post ts k) = OwnerTCBPtr k \<and> OwnerNestingCtr (fold OS_Post ts k) = OwnerNestingCtr k \<and>
    data_inv (fold OS_Post ts k)"
  using assms
proof (induction ts arbitrary: k)
  case (Cons t ts)
  have p: "posted t k (OS_Post t k)" by (rule post_ok [OF Cons.prems(1)]) (simp add: Cons.prems(2))
  have w: "PendObjPtr (OS_Post t k) u = Some ob" if "u \<in> set ts" for u
    using that p Cons.prems(2,3) by (auto simp: posted_def)
  have st: "TaskState (OS_Post t k) u = (if u = t then if TaskState k t \<in> {OS_TASK_STATE_PEND, OS_TASK_STATE_PEND_TIMEOUT}
      then OS_TASK_STATE_RDY else OS_TASK_STATE_SUSPENDED else TaskState k u)" for u
    using p by (simp add: posted_def)
  have d: "data_inv (OS_Post t k)" "PendObjPtr (OS_Post t k) = (PendObjPtr k)(t := None)" "distinct ts" "t \<notin> set ts"
    using p Cons.prems(3) by (simp_all add: posted_def)
  have ih: "PendObjPtr (fold OS_Post ts (OS_Post t k)) = (\<lambda>u. if u \<in> set ts then None else PendObjPtr (OS_Post t k) u)"
    "\<And>u. u \<notin> set ts \<Longrightarrow> TaskState (fold OS_Post ts (OS_Post t k)) u = TaskState (OS_Post t k) u"
    "\<And>u. u \<in> set ts \<Longrightarrow> TaskState (fold OS_Post ts (OS_Post t k)) u \<in> {OS_TASK_STATE_RDY, OS_TASK_STATE_SUSPENDED}"
    "\<And>u. u \<in> set ts \<Longrightarrow> TaskState (OS_Post t k) u = OS_TASK_STATE_PEND \<Longrightarrow>
      TaskState (fold OS_Post ts (OS_Post t k)) u = OS_TASK_STATE_RDY"
    using Cons.IH [OF d(1) w d(3)] by blast+
  have other: "u \<in> set ts \<Longrightarrow> TaskState (OS_Post t k) u = TaskState k u" for u using d(4) st [of u] by auto
  have last: "TaskState (fold OS_Post ts (OS_Post t k)) t = TaskState (OS_Post t k) t" by (rule ih(2) [OF d(4)])
  have 1: "PendObjPtr (fold OS_Post (t # ts) k) = (\<lambda>u. if u \<in> set (t # ts) then None else PendObjPtr k u)"
    using d(4) by (auto simp: ih(1) d(2))
  have 2: "\<forall>u. u \<notin> set (t # ts) \<longrightarrow> TaskState (fold OS_Post (t # ts) k) u = TaskState k u"
    using ih(2) st by simp
  have 3: "\<forall>u \<in> set (t # ts). TaskState (fold OS_Post (t # ts) k) u \<in> {OS_TASK_STATE_RDY, OS_TASK_STATE_SUSPENDED}"
    using ih(3) last st [of t] by simp
  have 4: "\<forall>u \<in> set (t # ts). TaskState k u = OS_TASK_STATE_PEND \<longrightarrow>
      TaskState (fold OS_Post (t # ts) k) u = OS_TASK_STATE_RDY"
    using ih(4) other last st [of t] by simp
  from 1 2 3 4 show ?case using Cons.IH [OF d(1) w d(3)] by (simp add: postedD [OF p])
qed simp

definition sem_post_refused :: "nat \<Rightarrow> u16 \<Rightarrow> os \<Rightarrow> bool" where
  "sem_post_refused s opt k \<longleftrightarrow> opt \<notin> {OS_OPT_POST_1, OS_OPT_POST_ALL, OS_OPT_POST_1 OR OS_OPT_POST_NO_SCHED,
       OS_OPT_POST_ALL OR OS_OPT_POST_NO_SCHED} \<or> \<not> ObjType k (Sem_Obj s) \<or>
     (\<forall>u. PendObjPtr k u \<noteq> Some (Sem_Obj s)) \<and> Ctr k s = 0xFFFFFFFF"

text \<open>Who goes on after a post: everybody, the first, or nobody if nobody waits.\<close>

definition released :: "nat \<Rightarrow> u16 \<Rightarrow> os \<Rightarrow> task set \<Rightarrow> bool" where
  "released s opt k ws \<longleftrightarrow>
     (if \<forall>u. PendObjPtr k u \<noteq> Some (Sem_Obj s) then ws = {}
      else if opt AND OS_OPT_POST_ALL \<noteq> 0 then ws = {u. PendObjPtr k u = Some (Sem_Obj s)}
      else \<exists>t. ws = {t} \<and> first_waiter k (Sem_Obj s) t)"

lemma post_waiters_good:
  assumes "good k" and "\<And>t. t \<in> set us \<Longrightarrow> PendObjPtr k t = Some ob" and "distinct us"
  shows "\<exists>k1. OSSched (fold OS_Post us k) = Inr k1 \<and> good k1 \<and> rest_same k k1 \<and> Prio k1 = Prio k \<and>
    objects_of k1 = (objects_of k)\<lparr>waits := (\<lambda>u. if u \<in> set us then None else PendObjPtr k u)\<rparr>"
proof -
  note g = goodD [OF assms(1)]
  let ?k1 = "fold OS_Post us k"
  have f: "PendObjPtr ?k1 = (\<lambda>u. if u \<in> set us then None else PendObjPtr k u)"
    "\<And>u. u \<notin> set us \<Longrightarrow> TaskState ?k1 u = TaskState k u"
    "\<And>u. u \<in> set us \<Longrightarrow> TaskState ?k1 u \<in> {OS_TASK_STATE_RDY, OS_TASK_STATE_SUSPENDED}"
    "\<And>u. u \<in> set us \<Longrightarrow> TaskState k u = OS_TASK_STATE_PEND \<Longrightarrow> TaskState ?k1 u = OS_TASK_STATE_RDY"
    "Prio ?k1 = Prio k" "BasePrio ?k1 = BasePrio k" "OSTCBCurPtr ?k1 = OSTCBCurPtr k" "OSRunning ?k1 = OSRunning k"
    "OSIntNestingCtr ?k1 = OSIntNestingCtr k" "OSSchedLockNestingCtr ?k1 = OSSchedLockNestingCtr k"
    "ObjType ?k1 = ObjType k" "Ctr ?k1 = Ctr k" "OwnerTCBPtr ?k1 = OwnerTCBPtr k"
    "OwnerNestingCtr ?k1 = OwnerNestingCtr k" "data_inv ?k1"
    using fold_post_fields [OF g(1) assms(2,3)] by blast+
  have st: "TaskState k u \<in> waiting_states" if "u \<in> set us" for u
    using waits_state(1) [OF g(2) assms(2) [OF that]] .
  have "TaskState ?k1 u = OS_TASK_STATE_RDY" if "TaskState k u = OS_TASK_STATE_RDY" for u
    using f(2) [of u] st [of u] that by (cases "u \<in> set us") (auto simp: waiting_states_def)
  then have "TaskState ?k1 OSIdleTask = OS_TASK_STATE_RDY" "TaskState ?k1 (OSTCBCurPtr ?k1) = OS_TASK_STATE_RDY"
    "OSRunning ?k1" using g(9-11) by (simp_all add: f(7,8))
  then obtain p t where s: "OSSched ?k1 = Inr (?k1\<lparr>OSPrioCur := p, OSTCBCurPtr := t\<rparr>)"
    "good (?k1\<lparr>OSPrioCur := p, OSTCBCurPtr := t\<rparr>)" using resched [OF f(15)] by blast
  have "TaskState ?k1 u = OS_TASK_STATE_DEL \<longleftrightarrow> TaskState k u = OS_TASK_STATE_DEL" for u
    using f(2,3) [of u] st [of u] by (cases "u \<in> set us") (auto simp: waiting_states_def)
  moreover have "plain ?k1" if pl: "plain k"
    unfolding plain_def
  proof (intro allI)
    fix u
    show "TaskState ?k1 u = OS_TASK_STATE_DEL \<or>
      TaskState ?k1 u = (if PendObjPtr ?k1 u = None then OS_TASK_STATE_RDY else OS_TASK_STATE_PEND)"
    proof (cases "u \<in> set us")
      case True
      then have "TaskState k u = OS_TASK_STATE_PEND"
        using pl st [OF True] assms(2) [OF True] unfolding plain_def waiting_states_def
        by (metis (no_types, lifting) insert_iff option.distinct(1) os_task_state.distinct empty_iff)
      then show ?thesis using f(4) [OF True] True by (simp add: f(1))
    next
      case False
      then show ?thesis using pl f(2) [OF False] by (simp add: f(1) plain_def)
    qed
  qed
  ultimately have "rest_same k (?k1\<lparr>OSPrioCur := p, OSTCBCurPtr := t\<rparr>)" by (simp add: rest_same_def plain_def f(5-15))
  then show ?thesis using s by (simp add: objects_of_def f(1,5-14))
qed

lemma sem_post_good:
  assumes "good k" and "opt AND OS_OPT_POST_NO_SCHED = 0"
  shows "\<exists>r k1. OSSemPost s opt k = Inr (r, k1) \<and> good k1 \<and> rest_same k k1 \<and> Prio k1 = Prio k \<and>
    (if sem_post_refused s opt k then objects_of k1 = objects_of k
     else \<exists>ws. released s opt k ws \<and> objects_of k1 = give_sem s ws (objects_of k))"
proof (cases "opt \<notin> {OS_OPT_POST_1, OS_OPT_POST_ALL, OS_OPT_POST_1 OR OS_OPT_POST_NO_SCHED,
    OS_OPT_POST_ALL OR OS_OPT_POST_NO_SCHED} \<or> \<not> ObjType k (Sem_Obj s)")
  case True
  then have "sem_post_refused s opt k" unfolding sem_post_refused_def by blast
  moreover have "\<exists>r. OSSemPost s opt k = Inr (r, k)" using True unfolding OSSemPost_def by (auto split: if_splits)
  ultimately show ?thesis using assms(1) rest_same_refl by fastforce
next
  case False
  then have c: "opt \<in> {OS_OPT_POST_1, OS_OPT_POST_ALL, OS_OPT_POST_1 OR OS_OPT_POST_NO_SCHED,
      OS_OPT_POST_ALL OR OS_OPT_POST_NO_SCHED}" "ObjType k (Sem_Obj s)" by blast+
  have e: "OSSemPost s opt k = OS_SemPost s opt k" unfolding OSSemPost_def by (simp only: c simp_thms if_False)
  have ref: "sem_post_refused s opt k \<longleftrightarrow> (\<forall>u. PendObjPtr k u \<noteq> Some (Sem_Obj s)) \<and> Ctr k s = 0xFFFFFFFF"
    unfolding sem_post_refused_def by (simp only: c simp_thms)
  note g = goodD [OF assms(1)]
  show ?thesis
  proof (cases "PendList k (Sem_Obj s)")
    case Nil
    have no: "PendObjPtr k w \<noteq> Some (Sem_Obj s)" for w by (rule no_waiter [OF assms(1) Nil])
    let ?k1 = "k\<lparr>Ctr := (Ctr k)(s := Ctr k s + 1)\<rparr>"
    have "own_inv ?k1" "inherit_inv ?k1" using g(3,7) by (simp_all add: own_inv_def inherit_inv_def)
    moreover have "run_inv ?k1" using g(8) no by (auto simp: run_inv_def)
    ultimately have "good ?k1" by (intro good_frame [OF assms(1)]) simp_all
    then show ?thesis using assms(1) Nil no
      by (simp add: e OS_SemPost_def ref rest_same_def plain_def released_def give_sem_def objects_of_def)
  next
    case (Cons t ts)
    define us where "us = (if opt AND OS_OPT_POST_ALL \<noteq> 0 then t # ts else [t])"
    have q: "wl.queue_inv (PendList k) (PendObjPtr k) (Prio k)" using g(5) by (simp add: lists_ok_def)
    have "distinct (t # ts)" using q Cons unfolding wl.queue_inv_def by metis
    then have us: "distinct us" "set us \<subseteq> set (PendList k (Sem_Obj s))" by (auto simp: us_def Cons)
    then have w: "PendObjPtr k u = Some (Sem_Obj s)" if "u \<in> set us" for u
      using that wl.queue_mem [OF q] by blast
    have t: "PendObjPtr k t = Some (Sem_Obj s)" by (rule w) (simp add: us_def)
    have rel: "released s opt k (set us)"
    proof (cases "opt AND OS_OPT_POST_ALL \<noteq> 0")
      case True
      then have "set us = {u. PendObjPtr k u = Some (Sem_Obj s)}" using wl.queue_mem [OF q, of _ "Sem_Obj s"] Cons
        by (auto simp: us_def)
      then show ?thesis using True t unfolding released_def by auto
    next
      case False
      then show ?thesis using t wl.queue_first [OF q Cons] by (auto simp: released_def us_def first_waiter_def)
    qed
    obtain k2 where "OSSched (fold OS_Post us k) = Inr k2" "good k2" "rest_same k k2" "Prio k2 = Prio k"
      "objects_of k2 = (objects_of k)\<lparr>waits := (\<lambda>u. if u \<in> set us then None else PendObjPtr k u)\<rparr>"
      using post_waiters_good [OF assms(1) w us(1)] by blast
    moreover have "OS_SemPost s opt k = bindR (OSSched (fold OS_Post us k)) (\<lambda>k2. Inr (OS_ERR_NONE, k2))"
      using assms(2) Cons by (simp add: OS_SemPost_def us_def Let_def)
    moreover have "set us \<noteq> {}" by (simp add: us_def)
    ultimately show ?thesis using rel t
      by (auto simp: e ref give_sem_def objects_of_def intro!: exI [of _ "set us"])
  qed
qed

end
