(* ===== verification/Os_Services.thy ===== *)
theory Os_Services
  imports Os_Objects
begin

unbundle bit_operations_syntax

text \<open>
  The services of the kernel keep its invariant, return, and leave the processor to a ready task of
  the highest priority. The reachable states are those that creating tasks and objects, waiting,
  posting and interrupts can make from the start of the kernel.
\<close>

section \<open>Calls\<close>

datatype os_call = Create_Task task u8 | Create_Mutex nat | Create_Sem nat u32
  | Mutex_Pend nat u16 | Mutex_Post nat u16 | Sem_Pend nat u16 | Sem_Post nat u16 | Isr_Enter | Isr_Exit

fun os_exec :: "os_call \<Rightarrow> os \<Rightarrow> os result" where
  "os_exec (Create_Task t p) k = bindR (OSTaskCreate t p k) (\<lambda>(r, k1). Inr k1)"
| "os_exec (Create_Mutex m) k = Inr (snd (OSMutexCreate m k))"
| "os_exec (Create_Sem s c) k = Inr (snd (OSSemCreate s c k))"
| "os_exec (Mutex_Pend m opt) k = bindR (OSMutexPend m 0 opt k) (\<lambda>(r, k1). Inr k1)"
| "os_exec (Mutex_Post m opt) k = bindR (OSMutexPost m opt k) (\<lambda>(r, k1). Inr k1)"
| "os_exec (Sem_Pend s opt) k = bindR (OSSemPend s 0 opt k) (\<lambda>(r, k1). Inr k1)"
| "os_exec (Sem_Post s opt) k = bindR (OSSemPost s opt k) (\<lambda>(r, k1). Inr k1)"
| "os_exec Isr_Enter k = Inr (OSIntEnter k)"
| "os_exec Isr_Exit k = OSIntExit k"

text \<open>What callers have to respect: nothing is created twice, the idle task never waits, a mutex is
  not taken more than 255 times, and the option that suppresses scheduling is not used.\<close>

fun allowed :: "os_call \<Rightarrow> os \<Rightarrow> bool" where
  "allowed (Create_Task t p) k \<longleftrightarrow> TaskState k t = OS_TASK_STATE_DEL"
| "allowed (Create_Mutex m) k \<longleftrightarrow> \<not> ObjType k (Mutex_Obj m)"
| "allowed (Create_Sem s c) k \<longleftrightarrow> \<not> ObjType k (Sem_Obj s)"
| "allowed (Mutex_Pend m opt) k \<longleftrightarrow> OSTCBCurPtr k \<noteq> OSIdleTask \<and> OwnerNestingCtr k m \<noteq> 255"
| "allowed (Mutex_Post m opt) k \<longleftrightarrow> opt AND OS_OPT_POST_NO_SCHED = 0"
| "allowed (Sem_Pend s opt) k \<longleftrightarrow> OSTCBCurPtr k \<noteq> OSIdleTask"
| "allowed (Sem_Post s opt) k \<longleftrightarrow> opt AND OS_OPT_POST_NO_SCHED = 0"
| "allowed Isr_Enter k \<longleftrightarrow> True"
| "allowed Isr_Exit k \<longleftrightarrow> True"

text \<open>The start: the idle task and the tasks given are created, then multitasking starts.\<close>

definition os_boot :: "(task \<times> u8) list \<Rightarrow> os result" where
  "os_boot ts = bindR (foldR (\<lambda>(t, p) k. bindR (OSTaskCreate t p k) (\<lambda>(r, k1). Inr k1))
     ((OSIdleTask, OS_CFG_PRIO_MAX - 1) # ts) os_blank) OSStart"

inductive os_reach :: "os \<Rightarrow> bool" where
  start: "distinct (OSIdleTask # map fst ts) \<Longrightarrow> os_boot ts = Inr k \<Longrightarrow> os_reach k"
| call: "os_reach k \<Longrightarrow> allowed c k \<Longrightarrow> os_exec c k = Inr k' \<Longrightarrow> os_reach k'"

section \<open>Creation, interrupts and the start\<close>

lemma create_task_data:
  assumes "data_inv k" and "TaskState k t = OS_TASK_STATE_DEL" and "OSIntNestingCtr k = 0" and "p < 32"
    and "p = 31 \<longrightarrow> t = OSIdleTask"
  shows "\<exists>k2. OSTaskCreate t p k = (if OSRunning k then bindR (OSSched k2) (\<lambda>k3. Inr (OS_ERR_NONE, k3))
      else Inr (OS_ERR_NONE, k2)) \<and> data_inv k2 \<and> TaskState k2 = (TaskState k)(t := OS_TASK_STATE_RDY) \<and>
      OSIntNestingCtr k2 = 0 \<and> OSSchedLockNestingCtr k2 = OSSchedLockNestingCtr k \<and> OSRunning k2 = OSRunning k \<and>
      OSTCBCurPtr k2 = OSTCBCurPtr k"
proof -
  have inv: "core_inv k" "inherit_inv k" "ready_ok k" "lists_ok k" "wait_inv k" "own_inv k" "run_inv k"
    using assms(1) by (simp_all add: data_inv_def core_inv_def)
  have none: "PendObjPtr k t = None"
    using waits_state(1) [OF inv(1), of t] assms(2) by (cases "PendObjPtr k t") (auto simp: waiting_states_def)
  have own: "OwnerTCBPtr k m \<noteq> Some t" for m using inv(6) assms(2) by (auto simp: own_inv_def)
  then have grp: "MutexGrp k t = []" using inv(6) unfolding own_inv_def by (metis list.set_intros(1) neq_Nil_conv)
  have S: "(\<lambda>u. TaskState k u = OS_TASK_STATE_RDY)(t := True) =
      (\<lambda>u. ((TaskState k)(t := OS_TASK_STATE_RDY)) u = OS_TASK_STATE_RDY)" by auto
  have n: "\<not> TaskState k t = OS_TASK_STATE_RDY" using assms(2) by simp
  let ?k2 = "k\<lparr>Prio := (Prio k)(t := p), BasePrio := (BasePrio k)(t := p),
    TaskState := (TaskState k)(t := OS_TASK_STATE_RDY), PendOn := (PendOn k)(t := OS_TASK_PEND_ON_NOTHING),
    PendObjPtr := (PendObjPtr k)(t := None), MutexGrp := (MutexGrp k)(t := []),
    OSRdyList := (OSRdyList k)(p := OSRdyList k p @ [t]), OSPrioTbl := OSPrioTbl k OR prio_bit p\<rparr>"
  have f: "(PendObjPtr k)(t := None) = PendObjPtr k" "(MutexGrp k)(t := []) = MutexGrp k"
    using none grp by (simp_all add: fun_upd_idem)
  have r: "ready_inv (OSRdyList k) (OSPrioTbl k) (\<lambda>u. TaskState k u = OS_TASK_STATE_RDY) ((Prio k)(t := p))"
    by (rule ready_change [OF inv(3) [unfolded ready_ok_def] n assms(4)])
  have "t \<notin> set (OSRdyList k p)" "distinct (OSRdyList k p)"
    using inv(3) n by (auto simp: ready_ok_def ready_inv_def)
  then have l: "distinct (OSRdyList k p @ [t])" "set (OSRdyList k p @ [t]) = insert t (set (OSRdyList k p))" by auto
  have l2: "set (OSRdyList k p @ [t]) = insert t (set (OSRdyList k (((Prio k)(t := p)) t)))" using l(2) by simp
  have "ready_ok ?k2"
    by (rule ready_okI [OF ready_insert [OF r n l2 l(1), unfolded S fun_upd_same]]) (simp_all add: fun_upd_def)
  moreover have "lists_ok ?k2"
    by (rule lists_okI [OF wl.queue_change [OF inv(4) [unfolded lists_ok_def] none]]) (simp_all add: f)
  moreover have "wait_inv ?k2" using inv(5) none by (auto simp: wait_inv_def)
  moreover have "own_inv ?k2" using inv(6) own by (auto simp: own_inv_def f)
  moreover have "run_inv ?k2"
  proof -
    have "{u. ((TaskState k)(t := OS_TASK_STATE_RDY)) u \<noteq> OS_TASK_STATE_DEL} \<subseteq>
        insert t {u. TaskState k u \<noteq> OS_TASK_STATE_DEL}" by auto
    then have "finite {u. ((TaskState k)(t := OS_TASK_STATE_RDY)) u \<noteq> OS_TASK_STATE_DEL}"
      using inv(7) finite_subset unfolding run_inv_def by (metis finite_insert)
    then show ?thesis using inv(7) assms(4) by (simp add: run_inv_def f)
  qed
  moreover have "inherit_inv ?k2" using inv(2) none own by (auto simp: inherit_inv_def)
  ultimately have "data_inv ?k2" by (simp add: data_inv_def core_inv_def)
  moreover have "OS_RdyListInsertTail t (OS_PrioInsert p (k\<lparr>Prio := (Prio k)(t := p), BasePrio := (BasePrio k)(t := p),
    TaskState := (TaskState k)(t := OS_TASK_STATE_RDY), PendOn := (PendOn k)(t := OS_TASK_PEND_ON_NOTHING),
    PendObjPtr := (PendObjPtr k)(t := None), MutexGrp := (MutexGrp k)(t := [])\<rparr>)) = ?k2"
    by (cases k) (simp add: OS_RdyListInsertTail_def OS_PrioInsert_def)
  then have "OSTaskCreate t p k = (if OSRunning k then bindR (OSSched ?k2) (\<lambda>k3. Inr (OS_ERR_NONE, k3))
      else Inr (OS_ERR_NONE, ?k2))"
    using assms(3,4,5) by (auto simp: OSTaskCreate_def OS_CFG_PRIO_MAX_def Let_def)
  ultimately show ?thesis using assms(3) by (intro exI [of _ ?k2]) simp
qed

lemma create_task_refused:
  "\<not> (OSIntNestingCtr k = 0 \<and> p < 32 \<and> (p = 31 \<longrightarrow> t = OSIdleTask)) \<Longrightarrow> \<exists>r. OSTaskCreate t p k = Inr (r, k)"
  by (cases "0 < OSIntNestingCtr k"; cases "p < 32")
    (auto simp: OSTaskCreate_def OS_CFG_PRIO_MAX_def word_gt_0 Let_def)

lemma create_task_good:
  assumes "good k" and "TaskState k t = OS_TASK_STATE_DEL"
  shows "\<exists>r k1. OSTaskCreate t p k = Inr (r, k1) \<and> good k1"
proof (cases "OSIntNestingCtr k = 0 \<and> p < 32 \<and> (p = 31 \<longrightarrow> t = OSIdleTask)")
  case True
  note g = goodD [OF assms(1)]
  from True obtain k2 where k2: "OSTaskCreate t p k = (if OSRunning k then bindR (OSSched k2) (\<lambda>k3. Inr (OS_ERR_NONE, k3))
      else Inr (OS_ERR_NONE, k2))" "data_inv k2" "TaskState k2 = (TaskState k)(t := OS_TASK_STATE_RDY)"
      "OSIntNestingCtr k2 = 0" "OSRunning k2 = OSRunning k" "OSTCBCurPtr k2 = OSTCBCurPtr k"
    using create_task_data [OF g(1) assms(2)] by blast
  have "TaskState k2 OSIdleTask = OS_TASK_STATE_RDY" "TaskState k2 (OSTCBCurPtr k2) = OS_TASK_STATE_RDY" "OSRunning k2"
    using k2(3,5,6) g(9,10,11) by simp_all
  then obtain k3 where "OSSched k2 = Inr k3" "good k3" using resched [OF k2(2)] by blast
  then show ?thesis using k2(1) g(11) by simp
next
  case False
  then show ?thesis using create_task_refused assms(1) by blast
qed

lemma create_objects_good:
  assumes "good k"
  shows "\<not> ObjType k (Mutex_Obj m) \<Longrightarrow> good (snd (OSMutexCreate m k))"
    and "\<not> ObjType k (Sem_Obj s) \<Longrightarrow> good (snd (OSSemCreate s c k))"
proof -
  note g = goodD [OF assms]
  have empty: "PendList k ob = []" "PendObjPtr k w \<noteq> Some ob" if "\<not> ObjType k ob" for ob w
  proof -
    have "PendObjPtr k w \<noteq> Some ob" for w using g(8) that by (auto simp: run_inv_def)
    then show "PendList k ob = []" "PendObjPtr k w \<noteq> Some ob"
      using wl.queue_mem [OF g(5) [unfolded lists_ok_def], of _ ob] by (cases "PendList k ob"; auto)+
  qed
  assume no: "\<not> ObjType k (Mutex_Obj m)"
  then have ow: "OwnerTCBPtr k m = None" using g(8) by (cases "OwnerTCBPtr k m") (auto simp: run_inv_def)
  let ?k1 = "k\<lparr>ObjType := (ObjType k)(Mutex_Obj m := True), PendList := (PendList k)(Mutex_Obj m := []),
    OwnerTCBPtr := (OwnerTCBPtr k)(m := None), OwnerNestingCtr := (OwnerNestingCtr k)(m := 0)\<rparr>"
  have "own_inv ?k1" "inherit_inv ?k1" "run_inv ?k1"
    using g(3,7,8) ow empty(2) [OF no] by (auto simp: own_inv_def inherit_inv_def run_inv_def)
  then have "good ?k1" using empty(1) [OF no] by (intro good_frame [OF assms]) (simp_all add: fun_upd_idem)
  then show "good (snd (OSMutexCreate m k))" using assms by (simp add: OSMutexCreate_def)
next
  note g = goodD [OF assms]
  assume no: "\<not> ObjType k (Sem_Obj s)"
  have none: "PendObjPtr k w \<noteq> Some (Sem_Obj s)" for w using g(8) no by (auto simp: run_inv_def)
  then have e: "PendList k (Sem_Obj s) = []"
    using wl.queue_mem [OF g(5) [unfolded lists_ok_def], of _ "Sem_Obj s"] by (cases "PendList k (Sem_Obj s)") auto
  let ?k1 = "k\<lparr>ObjType := (ObjType k)(Sem_Obj s := True), PendList := (PendList k)(Sem_Obj s := []),
    Ctr := (Ctr k)(s := c)\<rparr>"
  have "own_inv ?k1" "inherit_inv ?k1" "run_inv ?k1"
    using g(3,7,8) none by (auto simp: own_inv_def inherit_inv_def run_inv_def)
  then have "good ?k1" using e by (intro good_frame [OF assms]) (simp_all add: fun_upd_idem)
  then show "good (snd (OSSemCreate s c k))" using assms by (simp add: OSSemCreate_def)
qed

lemma isr_enter_good: "good k \<Longrightarrow> good (OSIntEnter k)"
proof -
  assume a: "good k"
  show ?thesis
  proof (cases "\<not> OSRunning k \<or> 250 \<le> OSIntNestingCtr k")
    case True
    then show ?thesis using a by (simp add: OSIntEnter_def)
  next
    case False
    then have "OSIntNestingCtr k \<noteq> 255" by auto
    then have "OSIntNestingCtr k + 1 \<noteq> 0" by (rule u8_inc)
    then show ?thesis using a False
      by (simp add: OSIntEnter_def good_def os_inv_def run_highest_def)
  qed
qed

lemma isr_exit_good:
  assumes "good k"
  shows "\<exists>k1. OSIntExit k = Inr k1 \<and> good k1"
proof (cases "\<not> OSRunning k \<or> OSIntNestingCtr k = 0")
  case True
  then show ?thesis using assms by (auto simp: OSIntExit_def)
next
  case False
  note g = goodD [OF assms]
  let ?k1 = "k\<lparr>OSIntNestingCtr := OSIntNestingCtr k - 1\<rparr>"
  have d: "data_inv ?k1" "TaskState ?k1 OSIdleTask = OS_TASK_STATE_RDY" using g(1,9) by simp_all
  show ?thesis
  proof (cases "0 < OSIntNestingCtr k - 1 \<or> 0 < OSSchedLockNestingCtr k")
    case True
    then have "good ?k1" using d g(10,11) by (auto simp: good_def os_inv_def run_highest_def)
    moreover have "OSIntExit k = Inr ?k1" using True False by (auto simp: OSIntExit_def Let_def)
    ultimately show ?thesis by blast
  next
    case no: False
    obtain p t where s: "switch_to_highest ?k1 = Inr (?k1\<lparr>OSPrioCur := p, OSTCBCurPtr := t\<rparr>)" "highest_ready t ?k1"
      using switch_ok [OF d] by blast
    let ?k2 = "?k1\<lparr>OSPrioCur := p, OSTCBCurPtr := t\<rparr>"
    have "data_inv ?k2" using d(1) by simp
    then have "good ?k2" using s(2) d(2) g(11) by (simp add: good_def os_inv_def run_highest_def highest_ready_def)
    moreover have "OSIntExit k = switch_to_highest ?k1"
      using no False unfolding OSIntExit_def Let_def by auto
    ultimately show ?thesis using s(1) by simp
  qed
qed

lemma start_good:
  assumes "data_inv k" and "TaskState k OSIdleTask = OS_TASK_STATE_RDY" and "\<not> OSRunning k"
  shows "\<exists>k1. OSStart k = Inr k1 \<and> good k1"
proof -
  have r: "ready_inv (OSRdyList k) (OSPrioTbl k) (\<lambda>t. TaskState k t = OS_TASK_STATE_RDY) (Prio k)"
    using assms(1) by (simp add: data_inv_def core_inv_def ready_ok_def)
  obtain p t ts where h: "of_nat (CPU_CntLeadZeros (OSPrioTbl k)) = p" "OSRdyList k p = t # ts"
    "TaskState k t = OS_TASK_STATE_RDY" "Prio k t = p"
    "\<And>u. TaskState k u = OS_TASK_STATE_RDY \<Longrightarrow> p \<le> Prio k u"
    using ready_highest [OF r assms(2)] by blast
  let ?k1 = "k\<lparr>OSPrioCur := p, OSTCBCurPtr := t, OSRunning := True\<rparr>"
  have "data_inv ?k1" using assms(1) by (simp add: data_inv_def core_inv_def os_defs inherit_inv_def)
  then have "good ?k1" using h assms(2) by (simp add: good_def os_inv_def run_highest_def highest_ready_def)
  moreover have "OSStart k = Inr ?k1" using h(1,2) assms(3) by (simp add: OSStart_def OS_PrioGetHighest_def)
  ultimately show ?thesis by blast
qed

definition before_start :: "os \<Rightarrow> bool" where
  "before_start k \<longleftrightarrow> data_inv k \<and> OSIntNestingCtr k = 0 \<and> \<not> OSRunning k"

lemma blank_ok: "before_start os_blank"
  by (simp add: before_start_def data_inv_def core_inv_def os_defs inherit_inv_def os_blank_def ready_inv_def
      wl.queue_inv_def)

lemma create_before_start:
  assumes "before_start k" and "TaskState k t = OS_TASK_STATE_DEL"
  shows "\<exists>r k1. OSTaskCreate t p k = Inr (r, k1) \<and> before_start k1 \<and>
    (\<forall>u. u \<noteq> t \<longrightarrow> TaskState k1 u = TaskState k u) \<and>
    (p < 32 \<and> (p = 31 \<longrightarrow> t = OSIdleTask) \<longrightarrow> TaskState k1 t = OS_TASK_STATE_RDY)"
proof (cases "p < 32 \<and> (p = 31 \<longrightarrow> t = OSIdleTask)")
  case True
  have b: "data_inv k" "OSIntNestingCtr k = 0" "\<not> OSRunning k" using assms(1) by (simp_all add: before_start_def)
  obtain k2 where k2: "OSTaskCreate t p k = (if OSRunning k then bindR (OSSched k2) (\<lambda>k3. Inr (OS_ERR_NONE, k3))
      else Inr (OS_ERR_NONE, k2))" "data_inv k2" "TaskState k2 = (TaskState k)(t := OS_TASK_STATE_RDY)"
      "OSIntNestingCtr k2 = 0" "OSRunning k2 = OSRunning k"
    using create_task_data [OF b(1) assms(2) b(2)] True by blast
  then have "before_start k2" using b(3) by (simp add: before_start_def)
  then show ?thesis using k2(1,3) b(3) by simp
next
  case False
  then have "\<not> (OSIntNestingCtr k = 0 \<and> p < 32 \<and> (p = 31 \<longrightarrow> t = OSIdleTask))" by blast
  then obtain r where "OSTaskCreate t p k = Inr (r, k)" using create_task_refused by blast
  then show ?thesis using assms(1) False by blast
qed

lemma boot_good:
  assumes "distinct (OSIdleTask # map fst ts)"
  shows "\<exists>k. os_boot ts = Inr k \<and> good k"
proof -
  let ?c = "\<lambda>(t, p) k. bindR (OSTaskCreate t p k) (\<lambda>(r, k1). Inr k1)"
  have loop: "\<exists>k1. foldR ?c us k = Inr k1 \<and> before_start k1 \<and> TaskState k1 OSIdleTask = OS_TASK_STATE_RDY"
    if "before_start k" "TaskState k OSIdleTask = OS_TASK_STATE_RDY"
      "\<forall>u \<in> set us. TaskState k (fst u) = OS_TASK_STATE_DEL" "distinct (OSIdleTask # map fst us)" for us k
    using that
  proof (induction us arbitrary: k)
    case (Cons u us)
    obtain t p where u: "u = (t, p)" by (cases u)
    have "TaskState k t = OS_TASK_STATE_DEL" using Cons.prems(3) u by simp
    from create_before_start [OF Cons.prems(1) this] obtain r k1 where k1: "OSTaskCreate t p k = Inr (r, k1)"
      "before_start k1" "\<forall>u. u \<noteq> t \<longrightarrow> TaskState k1 u = TaskState k u" by blast
    moreover have "\<forall>v \<in> set us. TaskState k1 (fst v) = OS_TASK_STATE_DEL"
      using k1(3) Cons.prems(3,4) u by (force simp: image_iff)
    moreover have "TaskState k1 OSIdleTask = OS_TASK_STATE_RDY" using k1(3) Cons.prems(2,4) u by simp
    ultimately show ?case using Cons.IH [of k1] Cons.prems(4) u by simp
  qed simp
  have blank: "TaskState os_blank t = OS_TASK_STATE_DEL" for t by (simp add: os_blank_def)
  have "\<exists>r k1. OSTaskCreate OSIdleTask (OS_CFG_PRIO_MAX - 1) os_blank = Inr (r, k1) \<and> before_start k1 \<and>
      (\<forall>u. u \<noteq> OSIdleTask \<longrightarrow> TaskState k1 u = OS_TASK_STATE_DEL) \<and> TaskState k1 OSIdleTask = OS_TASK_STATE_RDY"
    using create_before_start [OF blank_ok, where t = OSIdleTask and p = "OS_CFG_PRIO_MAX - 1"]
    by (simp add: blank OS_CFG_PRIO_MAX_def)
  then obtain r k1 where k1: "OSTaskCreate OSIdleTask (OS_CFG_PRIO_MAX - 1) os_blank = Inr (r, k1)"
    "before_start k1" "\<forall>u. u \<noteq> OSIdleTask \<longrightarrow> TaskState k1 u = OS_TASK_STATE_DEL"
    "TaskState k1 OSIdleTask = OS_TASK_STATE_RDY" by blast
  have "\<forall>u \<in> set ts. TaskState k1 (fst u) = OS_TASK_STATE_DEL" using k1(3) assms by (force simp: image_iff)
  from loop [OF k1(2,4) this assms] obtain k2 where k2: "foldR ?c ts k1 = Inr k2" "before_start k2"
    "TaskState k2 OSIdleTask = OS_TASK_STATE_RDY" by blast
  then obtain k3 where "OSStart k2 = Inr k3" "good k3" using start_good [of k2] by (auto simp: before_start_def)
  then show ?thesis using k1(1) k2(1) by (simp add: os_boot_def)
qed

lemma exec_good:
  assumes "good k" and "allowed c k"
  shows "\<exists>k1. os_exec c k = Inr k1 \<and> good k1"
proof (cases c)
  case (Create_Task t p)
  then show ?thesis using create_task_good [OF assms(1), of t p] assms(2) by auto
next
  case (Create_Mutex m)
  then show ?thesis using create_objects_good(1) [OF assms(1), of m] assms(2) by simp
next
  case (Create_Sem s n)
  then show ?thesis using create_objects_good(2) [OF assms(1), of s] assms(2) by simp
next
  case (Mutex_Pend m opt)
  then show ?thesis using mutex_pend_good [OF assms(1), of m opt] assms(2) by auto
next
  case (Mutex_Post m opt)
  then show ?thesis using mutex_post_good [OF assms(1), of opt m] assms(2) by auto
next
  case (Sem_Pend s opt)
  then show ?thesis using sem_pend_good [OF assms(1), of s opt] assms(2) by auto
next
  case (Sem_Post s opt)
  then show ?thesis using sem_post_good [OF assms(1), of opt s] assms(2) by auto
next
  case Isr_Enter
  then show ?thesis using isr_enter_good [OF assms(1)] by simp
next
  case Isr_Exit
  then show ?thesis using isr_exit_good [OF assms(1)] by simp
qed

lemma reach_good: "os_reach k \<Longrightarrow> good k"
proof (induction rule: os_reach.induct)
  case (start ts k)
  then show ?case using boot_good [OF start(1)] by auto
next
  case (call k c k')
  then show ?case using exec_good [of k c] by auto
qed

section \<open>Properties\<close>

text \<open>C20: In every reachable state the owner of a mutex has at least the priority of each task that
  waits for it, and outside interrupts the running task is a ready task of the highest priority.\<close>

theorem kernel_priority:
  assumes "os_reach k"
  shows "(\<forall>m ow w. OwnerTCBPtr k m = Some ow \<and> PendObjPtr k w = Some (Mutex_Obj m) \<longrightarrow> Prio k ow \<le> Prio k w) \<and>
    (OSIntNestingCtr k = 0 \<and> OSSchedLockNestingCtr k = 0 \<longrightarrow>
       TaskState k (OSTCBCurPtr k) = OS_TASK_STATE_RDY \<and>
       (\<forall>u. TaskState k u = OS_TASK_STATE_RDY \<longrightarrow> Prio k (OSTCBCurPtr k) \<le> Prio k u))"
  using goodD(3,12) [OF reach_good [OF assms]]
  by (auto simp: inherit_inv_def run_highest_def highest_ready_def)

text \<open>C28: Every service returns in every reachable state: the loop that hands an inherited priority from
  owner to owner ends, also when the tasks wait for each other in a circle, and there is always a
  task to switch to.\<close>

theorem kernel_services_return:
  assumes "os_reach k" and "allowed c k"
  shows "\<exists>k'. os_exec c k = Inr k'"
  using exec_good [OF reach_good [OF assms(1)] assms(2)] by blast

text \<open>C21: The services on mutexes do what the abstract ones do. Waiting for a mutex takes a free one,
  counts for its owner, and makes anybody else wait; posting counts down and, on the last post,
  hands the mutex to the first of those who wait, or frees it. What is not allowed changes nothing.
  Owner, count and waiting tasks of all other objects stay as they are.\<close>

theorem mutex_services_refine:
  assumes "os_reach k" and "OSTCBCurPtr k \<noteq> OSIdleTask" and "OwnerNestingCtr k m \<noteq> 255"
    and "opt AND OS_OPT_POST_NO_SCHED = 0"
  shows "(\<exists>r k1. OSMutexPend m 0 opt k = Inr (r, k1) \<and>
      objects_of k1 = (if pend_refused m opt k then objects_of k else take_mutex (OSTCBCurPtr k) m (objects_of k))) \<and>
    (\<exists>r k1. OSMutexPost m opt k = Inr (r, k1) \<and>
      (if post_refused m opt k then k1 = k
       else \<exists>w. objects_of k1 = give_mutex m w (objects_of k) \<and>
         (case w of None \<Rightarrow> \<forall>u. PendObjPtr k u \<noteq> Some (Mutex_Obj m) | Some t \<Rightarrow> first_waiter k (Mutex_Obj m) t)))"
  using mutex_pend_good [OF reach_good [OF assms(1)] assms(2,3), of opt]
    mutex_post_good [OF reach_good [OF assms(1)] assms(4), of m] by blast

text \<open>C23: So do the services on semaphores: waiting takes one from the counter or makes the task wait;
  posting lets the first of those who wait go on, or all of them, or counts up.\<close>

theorem sem_services_refine:
  assumes "os_reach k" and "OSTCBCurPtr k \<noteq> OSIdleTask" and "opt AND OS_OPT_POST_NO_SCHED = 0"
  shows "(\<exists>r k1. OSSemPend n 0 opt k = Inr (r, k1) \<and>
      objects_of k1 = (if sem_pend_refused n opt k then objects_of k else take_sem (OSTCBCurPtr k) n (objects_of k)) \<and>
      (r = Returned OS_ERR_NONE \<longleftrightarrow> \<not> sem_pend_refused n opt k \<and> Ctr k n \<noteq> 0)) \<and>
    (\<exists>r k1. OSSemPost n opt k = Inr (r, k1) \<and>
      (if sem_post_refused n opt k then objects_of k1 = objects_of k
       else \<exists>ws. released n opt k ws \<and> objects_of k1 = give_sem n ws (objects_of k)))"
  using sem_pend_good [OF reach_good [OF assms(1)] assms(2), of n opt]
    sem_post_good [OF reach_good [OF assms(1)] assms(3), of n] by blast

text \<open>The priority the scheduler reads from the bits of the priority table is the least priority
  number of a ready task.\<close>

theorem highest_priority_bit:
  assumes "os_reach k"
  shows "\<exists>t. TaskState k t = OS_TASK_STATE_RDY \<and> Prio k t = OS_PrioGetHighest k \<and>
    (\<forall>u. TaskState k u = OS_TASK_STATE_RDY \<longrightarrow> OS_PrioGetHighest k \<le> Prio k u)"
proof -
  note g = goodD [OF reach_good [OF assms]]
  obtain p t ts where "of_nat (CPU_CntLeadZeros (OSPrioTbl k)) = p" "OSRdyList k p = t # ts"
    "TaskState k t = OS_TASK_STATE_RDY" "Prio k t = p"
    "\<And>u. TaskState k u = OS_TASK_STATE_RDY \<Longrightarrow> p \<le> Prio k u"
    using ready_highest [OF g(4) [unfolded ready_ok_def] g(9)] by blast
  then show ?thesis by (auto simp: OS_PrioGetHighest_def)
qed

text \<open>Lowering the priority of a task that waits for a mutex also gives the new priority to an
  owner that did not have the old one: it may then run below its own base priority.\<close>

theorem lowering_reaches_owner:
  assumes "os_reach k" and "PendObjPtr k t = Some (Mutex_Obj m)" and "OwnerTCBPtr k m = Some ow"
    and "TaskState k ow = OS_TASK_STATE_RDY" and "Prio k ow < Prio k t" and "Prio k t < p"
  shows "\<exists>k1. OS_TaskChangePrio t p k = Inr k1 \<and> Prio k1 t = p \<and> Prio k1 ow = p \<and> BasePrio k1 ow = BasePrio k ow"
proof -
  note g = goodD [OF reach_good [OF assms(1)]]
  note w = waits_state [OF g(2) assms(2)]
  have ne: "ow \<noteq> t" using w(2) assms(4) by auto
  let ?k1 = "k\<lparr>Prio := (Prio k)(t := p), PendList := (PendList k)(Mutex_Obj m :=
    insert_prio ((Prio k)(t := p)) t (remove1 t (PendList k (Mutex_Obj m))))\<rparr>"
  have mv: "OS_PendListChangePrio t (k\<lparr>Prio := (Prio k)(t := p)\<rparr>) = ?k1"
    by (rule move_single [OF g(5) assms(2)])
  have no: "\<not> p < Prio k t" "Prio k ow \<noteq> Prio k t" using assms(5,6) by auto
  have "change_prio_owner t (Prio k t) p ?k1 = (Some ow, p)"
    using assms(2,3) no ne by (simp add: change_prio_owner_def)
  moreover have "change_prio_round t p k = (let (x, q) = change_prio_owner t (Prio k t) p ?k1 in (x, q, ?k1))"
    using w(1,3) unfolding change_prio_round_def Let_def waiting_states_def mv [symmetric] by auto
  ultimately have 1: "change_prio_round t p k = (Some ow, p, ?k1)" by simp
  define h where "h = OS_PrioInsert p ((OS_RdyListRemove ow ?k1)\<lparr>Prio := (Prio (OS_RdyListRemove ow ?k1))(ow := p)\<rparr>)"
  define k2 where "k2 = (if ow = OSTCBCurPtr h then OS_RdyListInsertHead ow h else OS_RdyListInsertTail ow h)"
  have st: "TaskState ?k1 ow = OS_TASK_STATE_RDY" using assms(4) by simp
  have 2: "change_prio_round ow p ?k1 = (None, p, k2)"
    unfolding change_prio_round_def Let_def st k2_def h_def by simp
  have "Prio k2 = Prio h" "BasePrio k2 = BasePrio h"
    by (simp_all add: k2_def OS_RdyListInsertHead_def OS_RdyListInsertTail_def)
  moreover have "Prio h = (Prio k)(t := p, ow := p)" "BasePrio h = BasePrio k"
    by (simp_all add: h_def OS_PrioInsert_def RdyListRemove_eq)
  ultimately have 3: "Prio k2 = (Prio k)(t := p, ow := p)" "BasePrio k2 = BasePrio k" by simp_all
  have "OS_TaskChangePrio t p k = Inr k2"
    unfolding OS_TaskChangePrio_def
    by (subst while_option_unfold, simp add: 1, subst while_option_unfold, simp add: 2,
        subst while_option_unfold, simp)
  then show ?thesis using 3 ne by simp
qed

section \<open>Witnesses\<close>

text \<open>The three tasks of the program: the camera, the door and the network.\<close>

definition exec_checked :: "os_call \<Rightarrow> os \<Rightarrow> os result" where
  "exec_checked c k = (if allowed c k then os_exec c k else Inl Assert_Hang)"

definition kernel_example :: "os_call list \<Rightarrow> os result" where
  "kernel_example cs = bindR (os_boot [(1, 2), (2, 3), (3, 4)]) (foldR exec_checked cs)"

lemma kernel_example_reach: "kernel_example cs = Inr k \<Longrightarrow> os_reach k"
proof -
  assume "kernel_example cs = Inr k"
  then obtain k0 where k0: "os_boot [(1, 2), (2, 3), (3, 4)] = Inr k0" "foldR exec_checked cs k0 = Inr k"
    by (auto simp: kernel_example_def bindR_eq_Inr_iff)
  have "os_reach k0" by (rule os_reach.start [OF _ k0(1)]) (simp add: OSIdleTask_def)
  with k0(2) show ?thesis
    by (rule foldR_invariant) (auto simp: exec_checked_def split: if_splits intro: os_reach.call)
qed

text \<open>The door task waits for the mutex the network task holds, which runs at its priority.\<close>

definition contention :: "os_call list" where
  "contention = [Create_Mutex 0, Create_Sem 0 0, Create_Sem 1 0, Sem_Pend 0 0, Sem_Pend 1 0, Mutex_Pend 0 0,
     Isr_Enter, Sem_Post 1 0, Isr_Exit, Mutex_Pend 0 0]"

text \<open>The network task waits for a mutex of the door task, which is ready again.\<close>

definition network_waits :: "os_call list" where
  "network_waits = [Create_Mutex 0, Create_Sem 0 0, Create_Sem 1 0, Sem_Pend 0 0, Mutex_Pend 0 0, Sem_Pend 1 0,
     Mutex_Pend 0 0, Isr_Enter, Sem_Post 1 0, Isr_Exit]"

definition kernel_view :: "os \<Rightarrow> task \<times> u8 \<times> u8 \<times> os_task_state list \<times> task option \<times> u8 list" where
  "kernel_view k = (OSTCBCurPtr k, OS_PrioGetHighest k, OSIntNestingCtr k + OSSchedLockNestingCtr k,
     map (TaskState k) [0, 1, 2, 3], OwnerTCBPtr k 0, map (Prio k) [0, 1, 2, 3])"

lemma contention_state:
  "(case kernel_example contention of Inl f \<Rightarrow> False | Inr k \<Rightarrow>
     kernel_view k = (3, 3, 0, [OS_TASK_STATE_RDY, OS_TASK_STATE_PEND, OS_TASK_STATE_PEND, OS_TASK_STATE_RDY],
       Some 3, [31, 2, 3, 3]) \<and> PendObjPtr k 2 = Some (Mutex_Obj 0))"
  by code_simp

lemma network_waits_state:
  "(case kernel_example network_waits of Inl f \<Rightarrow> False | Inr k \<Rightarrow>
     kernel_view k = (2, 3, 0, [OS_TASK_STATE_RDY, OS_TASK_STATE_PEND, OS_TASK_STATE_RDY, OS_TASK_STATE_PEND],
       Some 2, [31, 2, 3, 4]) \<and> PendObjPtr k 3 = Some (Mutex_Obj 0))"
  by code_simp

lemma kernel_priority_witness:
  "\<exists>k. kernel_example contention = Inr k \<and> OwnerTCBPtr k 0 = Some 3 \<and> PendObjPtr k 2 = Some (Mutex_Obj 0) \<and>
     Prio k 3 \<le> Prio k 2"
proof -
  obtain k where k: "kernel_example contention = Inr k" "OwnerTCBPtr k 0 = Some 3" "PendObjPtr k 2 = Some (Mutex_Obj 0)"
    using contention_state by (cases "kernel_example contention") (auto simp: kernel_view_def)
  then show ?thesis using kernel_priority [OF kernel_example_reach [OF k(1)]] by blast
qed

lemma kernel_services_return_witness:
  "\<exists>k k'. kernel_example contention = Inr k \<and> os_exec (Mutex_Post 0 OS_OPT_POST_NONE) k = Inr k'"
proof -
  obtain k where k: "kernel_example contention = Inr k"
    using contention_state by (cases "kernel_example contention") auto
  moreover have "allowed (Mutex_Post 0 OS_OPT_POST_NONE) k" by (simp add: OS_OPT_POST_NONE_def)
  ultimately show ?thesis using kernel_services_return [OF kernel_example_reach [OF k]] by blast
qed

lemma highest_priority_bit_witness:
  "\<exists>k t. kernel_example contention = Inr k \<and> OS_PrioGetHighest k = 3 \<and> TaskState k t = OS_TASK_STATE_RDY \<and>
     Prio k t = 3"
proof -
  obtain k where k: "kernel_example contention = Inr k" "OS_PrioGetHighest k = 3"
    using contention_state by (cases "kernel_example contention") (auto simp: kernel_view_def)
  then show ?thesis using highest_priority_bit [OF kernel_example_reach [OF k(1)]] by auto
qed

lemma lowering_reaches_owner_witness:
  "\<exists>k k1. kernel_example network_waits = Inr k \<and> OS_TaskChangePrio 3 10 k = Inr k1 \<and> Prio k 2 = 3 \<and> Prio k1 2 = 10"
proof -
  obtain k where k: "kernel_example network_waits = Inr k" "OwnerTCBPtr k 0 = Some 2"
    "PendObjPtr k 3 = Some (Mutex_Obj 0)" "TaskState k 2 = OS_TASK_STATE_RDY" "Prio k 2 = 3" "Prio k 3 = 4"
    using network_waits_state by (cases "kernel_example network_waits") (auto simp: kernel_view_def)
  have "Prio k 2 < Prio k 3" "Prio k 3 < 10" by (simp_all add: k(5,6))
  then show ?thesis
    using lowering_reaches_owner [OF kernel_example_reach [OF k(1)] k(3,2,4)] k(1,5) by blast
qed

text \<open>The network task gives the mutex to the door task.\<close>

lemma mutex_services_refine_witness:
  "\<exists>k r k1 w. kernel_example contention = Inr k \<and> OSMutexPost 0 OS_OPT_POST_NONE k = Inr (r, k1) \<and>
     objects_of k1 = give_mutex 0 w (objects_of k) \<and> w \<noteq> None"
proof -
  have "case kernel_example contention of Inl f \<Rightarrow> False | Inr k \<Rightarrow>
      OSIntNestingCtr k = 0 \<and> ObjType k (Mutex_Obj 0) \<and> OwnerTCBPtr k 0 = Some (OSTCBCurPtr k) \<and>
      OSTCBCurPtr k \<noteq> OSIdleTask \<and> OwnerNestingCtr k 0 \<noteq> 255 \<and> PendObjPtr k 2 = Some (Mutex_Obj 0)" by code_simp
  then obtain k where k: "kernel_example contention = Inr k" "OSIntNestingCtr k = 0" "ObjType k (Mutex_Obj 0)"
      "OwnerTCBPtr k 0 = Some (OSTCBCurPtr k)" "OSTCBCurPtr k \<noteq> OSIdleTask" "OwnerNestingCtr k 0 \<noteq> 255"
      "PendObjPtr k 2 = Some (Mutex_Obj 0)" by (auto split: sum.splits)
  have "\<not> post_refused 0 OS_OPT_POST_NONE k" using k by (simp add: post_refused_def)
  moreover have "OS_OPT_POST_NONE AND OS_OPT_POST_NO_SCHED = 0" by (simp add: OS_OPT_POST_NONE_def)
  note mutex_services_refine [OF kernel_example_reach [OF k(1)] k(5,6) this]
  ultimately obtain r k1 w where "OSMutexPost 0 OS_OPT_POST_NONE k = Inr (r, k1)"
      "objects_of k1 = give_mutex 0 w (objects_of k)"
      "case w of None \<Rightarrow> \<forall>u. PendObjPtr k u \<noteq> Some (Mutex_Obj 0) | Some t \<Rightarrow> first_waiter k (Mutex_Obj 0) t"
    by auto
  with k(1,7) show ?thesis by (auto split: option.splits)
qed

lemma sem_services_refine_witness:
  "\<exists>k r k1 ws. kernel_example contention = Inr k \<and> OSSemPost 0 OS_OPT_POST_ALL k = Inr (r, k1) \<and>
     objects_of k1 = give_sem 0 ws (objects_of k) \<and> ws \<noteq> {}"
proof -
  have "case kernel_example contention of Inl f \<Rightarrow> False | Inr k \<Rightarrow>
      ObjType k (Sem_Obj 0) \<and> OSTCBCurPtr k \<noteq> OSIdleTask \<and> PendObjPtr k 1 = Some (Sem_Obj 0)" by code_simp
  then obtain k where k: "kernel_example contention = Inr k" "ObjType k (Sem_Obj 0)" "OSTCBCurPtr k \<noteq> OSIdleTask"
      "PendObjPtr k 1 = Some (Sem_Obj 0)" by (auto split: sum.splits)
  have "\<not> sem_post_refused 0 OS_OPT_POST_ALL k" using k by (auto simp: sem_post_refused_def)
  moreover have "OS_OPT_POST_ALL AND OS_OPT_POST_NO_SCHED = 0"
    by (simp add: OS_OPT_POST_ALL_def OS_OPT_POST_NO_SCHED_def)
  note sem_services_refine [where n = 0, OF kernel_example_reach [OF k(1)] k(3) this]
  ultimately obtain r k1 ws where ws: "OSSemPost 0 OS_OPT_POST_ALL k = Inr (r, k1)" "released 0 OS_OPT_POST_ALL k ws"
      "objects_of k1 = give_sem 0 ws (objects_of k)" by auto
  have "ws \<noteq> {}" using ws(2) k(4) by (auto simp: released_def OS_OPT_POST_ALL_def split: if_splits)
  with ws k(1) show ?thesis by blast
qed

end
