(* ===== verification/Clock.thy ===== *)
theory Clock
  imports C_Prelude
begin

text \<open>
  The time of the access: \<^verbatim>\<open>sntp_set_system_time\<close> of \<^verbatim>\<open>source/main.c\<close>, which turns the seconds
  of the time client into the two texts of the mail, with the parts of the C library it uses.
  The program sets no time zone, so \<^verbatim>\<open>localtime\<close> gives UTC.
\<close>

section \<open>The calendar of the C library\<close>

record tm =
  tm_sec :: nat
  tm_min :: nat
  tm_hour :: nat
  tm_mday :: nat
  tm_mon :: nat
  tm_year :: nat

definition leap :: "nat \<Rightarrow> bool" where
  "leap y \<longleftrightarrow> y mod 4 = 0 \<and> (y mod 100 \<noteq> 0 \<or> y mod 400 = 0)"

definition year_days :: "nat \<Rightarrow> nat" where
  "year_days y = (if leap y then 366 else 365)"

definition month_days :: "nat \<Rightarrow> nat list" where
  "month_days y = [31, if leap y then 29 else 28, 31, 30, 31, 30, 31, 31, 30, 31, 30, 31]"

lemma year_days_pos: "0 < year_days y"
  by (simp add: year_days_def)

text \<open>The year and the day in it; the month and the day in it.\<close>

function split_year :: "nat \<Rightarrow> nat \<Rightarrow> nat \<times> nat" where
  "split_year y d = (if d < year_days y then (y, d) else split_year (y + 1) (d - year_days y))"
  by pat_completeness auto
termination by (relation "measure snd") (auto simp: year_days_def not_less)

declare split_year.simps [simp del]

fun split_month :: "nat \<Rightarrow> nat list \<Rightarrow> nat \<Rightarrow> nat \<times> nat" where
  "split_month m [] d = (m, d)"
| "split_month m (l # ls) d = (if d < l then (m, d) else split_month (m + 1) ls (d - l))"

text \<open>Months count from 0 and years from 1900, as in C.\<close>

definition localtime :: "nat \<Rightarrow> tm" where
  "localtime t =
     (let (y, yd) = split_year 1970 (t div 86400);
          (m, md) = split_month 0 (month_days y) yd
      in \<lparr>tm_sec = t mod 60, tm_min = t div 60 mod 60, tm_hour = t div 3600 mod 24,
          tm_mday = md + 1, tm_mon = m, tm_year = y - 1900\<rparr>)"

section \<open>The texts\<close>

text \<open>The conversions of \<^verbatim>\<open>strftime\<close> that the program uses; what \<^verbatim>\<open>strftime\<close> leaves in an
  array that is too small is not defined.\<close>

definition digit :: "nat \<Rightarrow> u8" where
  "digit n = of_nat (48 + n mod 10)"

definition two_digits :: "nat \<Rightarrow> u8 list" where
  "two_digits n = [digit (n div 10), digit n]"

definition conversion :: "char \<Rightarrow> tm \<Rightarrow> u8 list" where
  "conversion c t =
     (if c = CHR ''d'' then two_digits (tm_mday t)
      else if c = CHR ''m'' then two_digits (tm_mon t + 1)
      else if c = CHR ''Y'' then two_digits ((tm_year t + 1900) div 100) @ two_digits (tm_year t + 1900)
      else if c = CHR ''H'' then two_digits (tm_hour t)
      else if c = CHR ''M'' then two_digits (tm_min t)
      else if c = CHR ''S'' then two_digits (tm_sec t)
      else [])"

fun formatted :: "string \<Rightarrow> tm \<Rightarrow> u8 list" where
  "formatted [] t = []"
| "formatted [c] t = [of_char c]"
| "formatted (c # d # cs) t =
     (if c = CHR ''%'' then conversion d t @ formatted cs t else of_char c # formatted (d # cs) t)"

definition strftime :: "u8 list \<Rightarrow> nat \<Rightarrow> string \<Rightarrow> tm \<Rightarrow> u8 list result" where
  "strftime buf maxsize format t =
     (let s = formatted format t in
      if length s < maxsize then write_bytes buf 0 (s @ [0]) else Inl Out_Of_Bounds)"

definition sntp_set_system_time :: "u32 \<Rightarrow> u8 list \<times> u8 list \<Rightarrow> (u8 list \<times> u8 list) result" where
  "sntp_set_system_time sec = (\<lambda>(access_time, access_time_file).
     let sec = sec - 3 * 60 * 60; current_time = unat sec; t = localtime current_time in
     bindR (strftime access_time 32 ''%d.%m.%Y %H:%M:%S'' t) (\<lambda>a.
     bindR (strftime access_time_file 32 ''%d.%m.%Y_%H-%M-%S'' t) (\<lambda>b.
     Inr (a, b))))"

section \<open>Reading a text back\<close>

definition number_of :: "u8 list \<Rightarrow> nat" where
  "number_of ds = foldl (\<lambda>n d. 10 * n + (unat d - 48)) 0 ds"

text \<open>The seconds since 1970 that a date and a time of day say.\<close>

definition seconds_of :: "nat \<Rightarrow> nat \<Rightarrow> nat \<Rightarrow> nat \<Rightarrow> nat \<Rightarrow> nat \<Rightarrow> nat" where
  "seconds_of y mon d hr mi se =
     ((sum_list (map year_days [1970..<y]) + sum_list (take (mon - 1) (month_days y)) + (d - 1)) * 24 + hr) * 3600
       + mi * 60 + se"

definition read_time :: "u8 list \<Rightarrow> nat" where
  "read_time s = seconds_of (number_of (take 4 (drop 6 s))) (number_of (take 2 (drop 3 s))) (number_of (take 2 s))
     (number_of (take 2 (drop 11 s))) (number_of (take 2 (drop 14 s))) (number_of (take 2 (drop 17 s)))"

lemma split_year_days:
  "split_year y d = (y', d') \<Longrightarrow> y \<le> y' \<and> d' < year_days y' \<and> sum_list (map year_days [y..<y']) + d' = d"
proof (induction y d rule: split_year.induct)
  case (1 y d)
  show ?case
  proof (cases "d < year_days y")
    case True
    then show ?thesis using "1.prems" by (subst (asm) split_year.simps) simp
  next
    case False
    then have "split_year (y + 1) (d - year_days y) = (y', d')" using "1.prems" by (subst (asm) split_year.simps) simp
    from "1.IH" [OF False this] have ih: "y + 1 \<le> y'" "d' < year_days y'"
      "sum_list (map year_days [y + 1..<y']) + d' = d - year_days y" by simp_all
    then have "[y..<y'] = y # [y + 1..<y']" by (simp add: upt_conv_Cons)
    then show ?thesis using ih False by simp
  qed
qed

lemma split_month_days:
  "split_month m ls d = (m', d') \<Longrightarrow> d < sum_list ls \<Longrightarrow>
     m \<le> m' \<and> m' - m < length ls \<and> d' < ls ! (m' - m) \<and> sum_list (take (m' - m) ls) + d' = d"
proof (induction m ls d rule: split_month.induct)
  case (2 m l ls d)
  show ?case
  proof (cases "d < l")
    case True
    then show ?thesis using "2.prems" by simp
  next
    case False
    then have "split_month (m + 1) ls (d - l) = (m', d')" "d - l < sum_list ls" using "2.prems" by simp_all
    from "2.IH" [OF False this] have ih: "m + 1 \<le> m'" "m' - (m + 1) < length ls" "d' < ls ! (m' - (m + 1))"
      "sum_list (take (m' - (m + 1)) ls) + d' = d - l" by simp_all
    obtain k where k: "m' = m + 1 + k" using ih(1) le_Suc_ex by blast
    then show ?thesis using ih False by simp
  qed
qed simp

lemma month_days_sum: "sum_list (month_days y) = year_days y" "length (month_days y) = 12"
  by (simp_all add: month_days_def year_days_def)

lemma month_day_bound: "i < 12 \<Longrightarrow> month_days y ! i \<le> 31"
  by (auto simp: month_days_def less_Suc_eq_0_disj numeral_eq_Suc nth_Cons')

lemma years_bound: "365 * (b - a) \<le> sum_list (map year_days [a..<b])"
proof (induction b)
  case (Suc b)
  then show ?case by (cases "a \<le> b") (auto simp: year_days_def Suc_diff_le)
qed simp

lemma time_of_day: "(t div 86400 * 24 + t div 3600 mod 24) * 3600 + t div 60 mod 60 * 60 + t mod 60 = (t :: nat)"
proof -
  define a where "a = t div 60"
  define b where "b = a div 60"
  have "t div 3600 = b" "t div 86400 = b div 24" by (simp_all add: a_def b_def div_mult2_eq [symmetric])
  moreover have "b div 24 * 24 + b mod 24 = b" "b * 60 + a mod 60 = a" "a * 60 + t mod 60 = t"
    unfolding b_def a_def by (rule div_mult_mod_eq)+
  ultimately show ?thesis unfolding a_def [symmetric] by simp
qed

text \<open>The fields of a time of 32 bits are in their ranges, and say the time.\<close>

lemma localtime_fields:
  assumes "t < 2 ^ 32" and "localtime t = u"
  shows "tm_sec u < 60" "tm_min u < 60" "tm_hour u < 24" "1 \<le> tm_mday u" "tm_mday u \<le> 31" "tm_mon u < 12"
    "70 \<le> tm_year u" "tm_year u \<le> 206"
    "seconds_of (tm_year u + 1900) (tm_mon u + 1) (tm_mday u) (tm_hour u) (tm_min u) (tm_sec u) = t"
proof -
  obtain y yd where y: "split_year 1970 (t div 86400) = (y, yd)" by (cases "split_year 1970 (t div 86400)")
  obtain m md where m: "split_month 0 (month_days y) yd = (m, md)" by (cases "split_month 0 (month_days y) yd")
  have u: "u = \<lparr>tm_sec = t mod 60, tm_min = t div 60 mod 60, tm_hour = t div 3600 mod 24,
      tm_mday = md + 1, tm_mon = m, tm_year = y - 1900\<rparr>"
    using assms(2) by (simp add: localtime_def y m)
  note sy = split_year_days [OF y]
  have "yd < sum_list (month_days y)" using sy by (simp add: month_days_sum)
  from split_month_days [OF m this] have sm: "m < 12" "md < month_days y ! m" "sum_list (take m (month_days y)) + md = yd"
    by (simp_all add: month_days_sum)
  have "365 * (y - 1970) \<le> t div 86400" using years_bound [of y 1970] sy by linarith
  moreover have "t div 86400 < 49711" using assms(1) by (simp add: div_less_iff_less_mult)
  ultimately have yb: "y \<le> 2106" by linarith
  show "tm_sec u < 60" "tm_min u < 60" "tm_hour u < 24" "1 \<le> tm_mday u" "tm_mon u < 12" "tm_year u \<le> 206"
    using sm yb by (simp_all add: u)
  have "1970 \<le> y" using sy by simp
  then have "70 \<le> y - 1900" by linarith
  then show "70 \<le> tm_year u" by (simp add: u)
  show "tm_mday u \<le> 31" using sm(2) month_day_bound [OF sm(1), of y] by (simp add: u)
  have "sum_list (map year_days [1970..<y]) + sum_list (take m (month_days y)) + md = t div 86400"
    using sy sm(3) by linarith
  moreover have "(t div 86400 * 24 + t div 3600 mod 24) * 3600 + t div 60 mod 60 * 60 + t mod 60 = t"
    by (rule time_of_day)
  ultimately show "seconds_of (tm_year u + 1900) (tm_mon u + 1) (tm_mday u) (tm_hour u) (tm_min u) (tm_sec u) = t"
    using sy by (simp add: u seconds_of_def)
qed


lemma digit_value: "unat (digit n) = 48 + n mod 10" "digit n \<noteq> 0"
proof -
  have u: "k < 256 \<Longrightarrow> unat (of_nat k :: u8) = k" for k by (simp add: unat_of_nat)
  have "48 + n mod 10 < 256" using mod_less_divisor [of 10 n] by linarith
  then show e: "unat (digit n) = 48 + n mod 10" unfolding digit_def by (rule u)
  then show "digit n \<noteq> 0" by auto
qed

lemma number_two_digits: "n < 100 \<Longrightarrow> number_of (two_digits n) = n"
  by (simp add: number_of_def two_digits_def digit_value div_less_iff_less_mult)

lemma number_four_digits: "n < 10000 \<Longrightarrow> number_of (two_digits (n div 100) @ two_digits n) = n"
proof -
  assume "n < 10000"
  then have "n div 100 div 10 < 10" by (simp add: div_mult2_eq [symmetric] div_less_iff_less_mult)
  then have "number_of (two_digits (n div 100) @ two_digits n) =
      ((n div 100 div 10 * 10 + n div 100 mod 10) * 10 + n div 10 mod 10) * 10 + n mod 10"
    by (simp add: number_of_def two_digits_def digit_value)
  moreover have "n div 100 div 10 * 10 + n div 100 mod 10 = n div 100" by (rule div_mult_mod_eq)
  moreover have "n div 100 = n div 10 div 10" by (simp add: div_mult2_eq [symmetric])
  moreover have "n div 10 div 10 * 10 + n div 10 mod 10 = n div 10" "n div 10 * 10 + n mod 10 = n"
    by (rule div_mult_mod_eq)+
  ultimately show ?thesis by simp
qed

text \<open>The two texts of a date.\<close>

definition date_text :: "u8 \<Rightarrow> u8 \<Rightarrow> tm \<Rightarrow> u8 list" where
  "date_text sep colon u = two_digits (tm_mday u) @ [46] @ two_digits (tm_mon u + 1) @ [46]
     @ (two_digits ((tm_year u + 1900) div 100) @ two_digits (tm_year u + 1900)) @ [sep]
     @ two_digits (tm_hour u) @ [colon] @ two_digits (tm_min u) @ [colon] @ two_digits (tm_sec u)"

lemma formatted_texts:
  "formatted ''%d.%m.%Y %H:%M:%S'' u = date_text 32 58 u"
  "formatted ''%d.%m.%Y_%H-%M-%S'' u = date_text 95 45 u"
  by (simp_all add: conversion_def date_text_def)

lemma length_two_digits [simp]: "length (two_digits n) = 2"
  by (simp add: two_digits_def)

lemma date_text_string: "length (date_text sep colon u) = 19" "sep \<noteq> 0 \<Longrightarrow> colon \<noteq> 0 \<Longrightarrow> 0 \<notin> set (date_text sep colon u)"
  using digit_value(2) by (auto simp: date_text_def two_digits_def)

lemma read_date_text:
  assumes "t < 2 ^ 32" and "localtime t = u"
  shows "read_time (date_text sep colon u) = t"
proof -
  note f = localtime_fields [OF assms]
  have "take 2 (date_text sep colon u) = two_digits (tm_mday u)"
    "take 2 (drop 3 (date_text sep colon u)) = two_digits (tm_mon u + 1)"
    "take 4 (drop 6 (date_text sep colon u)) = two_digits ((tm_year u + 1900) div 100) @ two_digits (tm_year u + 1900)"
    "take 2 (drop 11 (date_text sep colon u)) = two_digits (tm_hour u)"
    "take 2 (drop 14 (date_text sep colon u)) = two_digits (tm_min u)"
    "take 2 (drop 17 (date_text sep colon u)) = two_digits (tm_sec u)"
    by (simp_all add: date_text_def two_digits_def)
  moreover have "number_of (two_digits (tm_mday u)) = tm_mday u" "number_of (two_digits (tm_mon u + 1)) = tm_mon u + 1"
    "number_of (two_digits (tm_hour u)) = tm_hour u" "number_of (two_digits (tm_min u)) = tm_min u"
    "number_of (two_digits (tm_sec u)) = tm_sec u"
    "number_of (two_digits ((tm_year u + 1900) div 100) @ two_digits (tm_year u + 1900)) = tm_year u + 1900"
    by (intro number_two_digits number_four_digits; use f in linarith)+
  ultimately show ?thesis unfolding read_time_def using f(9) by simp
qed

lemma sntp_set_system_time_eq:
  assumes "length a = 32" and "length b = 32"
  shows "sntp_set_system_time sec (a, b) =
    (let u = localtime (unat (sec - 10800)) in
     Inr (date_text 32 58 u @ 0 # drop 20 a, date_text 95 45 u @ 0 # drop 20 b))"
  using assms unfolding sntp_set_system_time_def strftime_def formatted_texts Let_def
  by (simp add: date_text_string write_bytes_def)

lemma clock_text_result:
  assumes "length a = 32" and "length b = 32"
  shows "\<exists>a' b'. sntp_set_system_time sec (a, b) = Inr (a', b') \<and> length a' = 32 \<and> length b' = 32 \<and>
    length (c_str a') = 19 \<and> length (c_str b') = 19 \<and>
    read_time (c_str a') = unat (sec - 10800) \<and> read_time (c_str b') = unat (sec - 10800)"
proof -
  let ?u = "localtime (unat (sec - 10800))"
  have r: "read_time (date_text sep colon ?u) = unat (sec - 10800)" for sep colon
    by (rule read_date_text [OF unat_u32_lt refl])
  have c: "c_str (date_text sep colon ?u @ 0 # z) = date_text sep colon ?u" if "sep \<noteq> 0" "colon \<noteq> 0" for sep colon z
    using date_text_string(2) [OF that] by (rule c_str_append_nul)
  show ?thesis
    unfolding sntp_set_system_time_eq [OF assms] Let_def
    using assms by (simp add: c r date_text_string)
qed

section \<open>Property\<close>

text \<open>C18: The texts of the access say the time. Whatever the time client gives, both texts fit
  their arrays, are nineteen characters long, and read back as that time less three hours.\<close>

theorem clock_text_round_trip:
  assumes "length a = 32" and "length b = 32"
  shows "\<exists>a' b'. sntp_set_system_time sec (a, b) = Inr (a', b') \<and> length a' = 32 \<and> length b' = 32 \<and>
    length (c_str a') = 19 \<and> length (c_str b') = 19 \<and>
    read_time (c_str a') = unat (sec - 10800) \<and> read_time (c_str b') = unat (sec - 10800)"
  by (rule clock_text_result [OF assms])

lemma clock_text_round_trip_witness:
  "\<exists>a b. sntp_set_system_time 1645283014 (replicate 32 0, replicate 32 0) = Inr (a, b) \<and>
     c_str a = bytes_of ''19.02.2022 12:03:34'' \<and> read_time (c_str a) = 1645272214"
proof -
  have "localtime 1645272214 = \<lparr>tm_sec = 34, tm_min = 3, tm_hour = 12, tm_mday = 19, tm_mon = 1, tm_year = 122\<rparr>"
    by (simp add: localtime_def split_year.simps year_days_def leap_def month_days_def)
  moreover have "unat (1645283014 - 10800 :: u32) = 1645272214" by simp
  ultimately have e: "sntp_set_system_time 1645283014 (replicate 32 0, replicate 32 0) =
      Inr (bytes_of ''19.02.2022 12:03:34'' @ 0 # replicate 12 0, bytes_of ''19.02.2022_12-03-34'' @ 0 # replicate 12 0)"
    unfolding sntp_set_system_time_eq [OF length_replicate length_replicate] Let_def
    by (simp add: date_text_def two_digits_def digit_def bytes_of_def)
  moreover have "c_str (bytes_of ''19.02.2022 12:03:34'' @ 0 # replicate 12 0) = bytes_of ''19.02.2022 12:03:34''"
    by (rule c_str_append_nul) (simp add: bytes_of_def)
  ultimately show ?thesis
    using clock_text_round_trip [of "replicate 32 0" "replicate 32 0" 1645283014] by auto
qed

end
