(* ===== verification/Tasks.thy ===== *)
theory Tasks
  imports Smtp Compress Camera Os_Services Clock
begin

unbundle bit_operations_syntax

text \<open>
  The three tasks of \<^verbatim>\<open>source/main.c\<close> on top of the kernel: \<^verbatim>\<open>TaskStart\<close>, which ends in the line
  loop of the camera, \<^verbatim>\<open>Task2\<close>, which serves the cards, and \<^verbatim>\<open>Task3\<close>, which polls the network
  stack. A step is one action of the running task, at most one call of the kernel, or one
  interrupt; after a call that waits, the task goes on when the kernel runs it again. The
  interrupts of the program do not announce themselves to the kernel (no \<^verbatim>\<open>OSIntEnter\<close>), so a
  post in a handler reschedules at once; on the processor the switch is delayed to the end of the
  handler, which the model does not distinguish.
\<close>

section \<open>Objects and tasks\<close>

definition TaskStart :: task where "TaskStart = 1"
definition Task2 :: task where "Task2 = 2"
definition Task3 :: task where "Task3 = 3"
definition TASKSTART_PRIO :: u8 where "TASKSTART_PRIO = 2"
definition TASK2_PRIO :: u8 where "TASK2_PRIO = 3"
definition TASK3_PRIO :: u8 where "TASK3_PRIO = 4"

definition magnetic_updated_sem :: nat where "magnetic_updated_sem = 0"
definition send_email_sem :: nat where "send_email_sem = 1"
definition photo_ready_sem :: nat where "photo_ready_sem = 2"
definition semProcessNewLine_sem :: nat where "semProcessNewLine_sem = 3"
definition alive_evnt :: nat where "alive_evnt = 4"
definition server_rta :: nat where "server_rta = 5"

definition bitmap_mutex :: nat where "bitmap_mutex = 0"
definition id_mutex :: nat where "id_mutex = 1"
definition email_mutex :: nat where "email_mutex = 2"
definition id_list_mutex :: nat where "id_list_mutex = 3"

text \<open>The calls of \<^verbatim>\<open>main\<close> and of \<^verbatim>\<open>TaskStart\<close> up to its loop; \<^verbatim>\<open>OV7670_Init\<close> creates the last semaphore.\<close>

definition start_calls :: "os_call list" where
  "start_calls =
     [Create_Sem magnetic_updated_sem 0, Create_Mutex bitmap_mutex, Create_Mutex id_mutex,
      Create_Sem send_email_sem 0, Create_Mutex email_mutex, Create_Mutex id_list_mutex,
      Create_Sem alive_evnt 0, Create_Sem server_rta 0, Create_Sem photo_ready_sem 0,
      Create_Sem semProcessNewLine_sem 0, Create_Task Task2 TASK2_PRIO, Create_Task Task3 TASK3_PRIO]"

definition start_kernel :: "os result" where
  "start_kernel = bindR (os_boot [(TaskStart, TASKSTART_PRIO)]) (foldR os_exec start_calls)"

section \<open>State\<close>

text \<open>The places in the code of each task, named by the action that comes next.\<close>

datatype place1 = Line_Pend | Line_Process

datatype place2 =
    Card_Init | Card_Pend | Card_State | Id_Pend | Id_Data | Id_Post | List_Pend | List_Search | List_Post
  | Reading_Off | Bitmap_Pend | Take_Picture | Photo_Pend | Bitmap_Post | Compress_Pend | Compress
  | Compress_Post | Send_Post | Door_Open | Reading_On

datatype place3 =
    Poll | Email_Store "u8 list option list" | Email_Post | Cards_Store nat "u8 list option list" | Cards_Post
  | Result_Id | Result_Email | Result_Bitmap | Mail_Pend | Mail_Bitmap | Mail_Email | Mail_Id | Mail_Open

datatype callback = Photo_is_ready

text \<open>
  \<open>card_id\<close> is the array of \<^verbatim>\<open>magnetic_app.c\<close> the pointer of that name leads to. \<open>mails\<close> are the
  open mail sessions with their connections; \<open>lost\<close> counts the mails that could not be opened and
  \<open>doors\<close> how often the door was opened.
\<close>

record sys =
  krn :: os
  at1 :: place1
  at2 :: place2
  at3 :: place3
  reader :: magnetic
  card_id :: "u8 list"
  id_in_list :: bool
  cam :: "callback camera_state"
  base64_size :: u32
  web :: web_state
  access_time :: "u8 list"
  access_time_file :: "u8 list"
  auth :: auth_data
  mails :: "(smtp_session \<times> tcp_conn) list"
  lost :: nat
  doors :: nat

definition mail_memory :: "sys \<Rightarrow> mail_mem" where
  "mail_memory s = \<lparr>mem_to = email_to (web s), mem_card = card_id s, mem_time = access_time s,
     mem_time_file = access_time_file s, mem_bitmap = bitmap_matrix (cam s), base_64_jpg_size = base64_size s\<rparr>"

section \<open>Calls of the kernel\<close>

definition lock :: "nat \<Rightarrow> sys \<Rightarrow> sys result" where
  "lock m s = bindR (OSMutexPend m 0 OS_OPT_PEND_BLOCKING (krn s)) (\<lambda>(r, k). Inr (s\<lparr>krn := k\<rparr>))"

definition unlock :: "nat \<Rightarrow> sys \<Rightarrow> sys result" where
  "unlock m s = bindR (OSMutexPost m OS_OPT_POST_NONE (krn s)) (\<lambda>(r, k). Inr (s\<lparr>krn := k\<rparr>))"

definition await :: "nat \<Rightarrow> sys \<Rightarrow> sys result" where
  "await n s = bindR (OSSemPend n 0 OS_OPT_PEND_BLOCKING (krn s)) (\<lambda>(r, k). Inr (s\<lparr>krn := k\<rparr>))"

definition post :: "u16 \<Rightarrow> nat \<Rightarrow> sys \<Rightarrow> sys result" where
  "post opt n s = bindR (OSSemPost n opt (krn s)) (\<lambda>(r, k). Inr (s\<lparr>krn := k\<rparr>))"

fun post_times :: "nat \<Rightarrow> u16 \<Rightarrow> nat \<Rightarrow> sys \<Rightarrow> sys result" where
  "post_times 0 opt n s = Inr s"
| "post_times (Suc c) opt n s = bindR (post opt n s) (post_times c opt n)"

text \<open>A call of the card reader driver, with the posts it makes.\<close>

definition use_reader :: "(magnetic \<Rightarrow> magnetic result) \<Rightarrow> sys \<Rightarrow> sys result" where
  "use_reader f s = bindR (f (reader s)) (\<lambda>r.
     post_times (updated_posts r - updated_posts (reader s)) OS_OPT_POST_1 magnetic_updated_sem (s\<lparr>reader := r\<rparr>))"

text \<open>The compressed picture and its length are stored.\<close>

definition compressed :: "u8 list \<times> u32 \<Rightarrow> sys \<Rightarrow> sys" where
  "compressed = (\<lambda>(b, n) s. s\<lparr>at2 := Compress_Post, cam := (cam s)\<lparr>bitmap_matrix := b\<rparr>, base64_size := n\<rparr>)"

section \<open>The tasks\<close>

definition task1_step :: "sys \<Rightarrow> sys result" where
  "task1_step s =
     (case at1 s of
        Line_Pend \<Rightarrow> await semProcessNewLine_sem (s\<lparr>at1 := Line_Process\<rparr>)
      | Line_Process \<Rightarrow> bindR (OV7670_process_new_line (cam s)) (\<lambda>c. Inr (s\<lparr>at1 := Line_Pend, cam := c\<rparr>)))"

definition task2_step :: "(rat \<Rightarrow> rat) \<Rightarrow> sys \<Rightarrow> sys result" where
  "task2_step fl s =
     (case at2 s of
        Card_Init \<Rightarrow> use_reader (\<lambda>r. Inr (enable_reading (init_magnetic r))) (s\<lparr>at2 := Card_Pend\<rparr>)
      | Card_Pend \<Rightarrow> await magnetic_updated_sem (s\<lparr>at2 := Card_State\<rparr>)
      | Card_State \<Rightarrow>
          Inr (s\<lparr>at2 := if get_state_ma (reader s) = NEW_VALID_DATA_MA then Id_Pend else Card_Pend\<rparr>)
      | Id_Pend \<Rightarrow> lock id_mutex (s\<lparr>at2 := Id_Data\<rparr>)
      | Id_Data \<Rightarrow> Inr (s\<lparr>at2 := Id_Post, card_id := get_data_ma (reader s)\<rparr>)
      | Id_Post \<Rightarrow> unlock id_mutex (s\<lparr>at2 := List_Pend\<rparr>)
      | List_Pend \<Rightarrow> lock id_list_mutex (s\<lparr>at2 := List_Search\<rparr>)
      | List_Search \<Rightarrow> bindR (search_id_in_list (Cards (web s)) (card_id s)) (\<lambda>found.
          Inr (s\<lparr>at2 := List_Post, id_in_list := found\<rparr>))
      | List_Post \<Rightarrow> unlock id_list_mutex (s\<lparr>at2 := if id_in_list s then Reading_Off else Card_Pend\<rparr>)
      | Reading_Off \<Rightarrow> Inr (s\<lparr>at2 := Bitmap_Pend, reader := disable_reading (reader s)\<rparr>)
      | Bitmap_Pend \<Rightarrow> lock bitmap_mutex (s\<lparr>at2 := Take_Picture\<rparr>)
      | Take_Picture \<Rightarrow> Inr (s\<lparr>at2 := Photo_Pend, cam := OV7670_TakePicture (Some Photo_is_ready) (cam s)\<rparr>)
      | Photo_Pend \<Rightarrow> await photo_ready_sem (s\<lparr>at2 := Bitmap_Post\<rparr>)
      | Bitmap_Post \<Rightarrow> unlock bitmap_mutex (s\<lparr>at2 := Compress_Pend\<rparr>)
      | Compress_Pend \<Rightarrow> lock bitmap_mutex (s\<lparr>at2 := Compress\<rparr>)
      | Compress \<Rightarrow> bindR (compress_picture fl (bitmap_matrix (cam s))) (\<lambda>b. Inr (compressed b s))
      | Compress_Post \<Rightarrow> unlock bitmap_mutex (s\<lparr>at2 := Send_Post\<rparr>)
      | Send_Post \<Rightarrow> post OS_OPT_POST_ALL send_email_sem (s\<lparr>at2 := Door_Open\<rparr>)
      | Door_Open \<Rightarrow> Inr (s\<lparr>at2 := Reading_On, doors := doors s + 1\<rparr>)
      | Reading_On \<Rightarrow> use_reader (\<lambda>r. Inr (enable_reading r)) (s\<lparr>at2 := Card_Pend\<rparr>))"

text \<open>
  What the network stack brings to the task: a request of a page, an event of an open mail
  connection (by its number), a new time (in seconds), or nothing more in this round.
\<close>

datatype net_event = No_Event | Page_Request "u8 list" | Mail_Event nat smtp_event | Time_Set u32

text \<open>The answers of the stack when a mail is opened, and the connection it gives.\<close>

record stack_answer =
  memory1 :: bool
  memory2 :: bool
  resolved :: err_t
  control_block :: bool
  connecting :: err_t
  connection :: tcp_conn

definition serve_page :: "u8 list \<Rightarrow> sys \<Rightarrow> sys result" where
  "serve_page uri s =
     (let (base, params) = strcut 63 uri in
      case find_cgi 0 theCGItable base of
        None \<Rightarrow> Inr s
      | Some (i, c) \<Rightarrow>
          let (n, vals) = extract_uri_parameters params in
          (case c of
             EmailCGI \<Rightarrow> lock email_mutex (s\<lparr>at3 := Email_Store vals\<rparr>)
           | CardsCGI \<Rightarrow> lock id_list_mutex (s\<lparr>at3 := Cards_Store n vals\<rparr>)
           | _ \<Rightarrow> bindR (pfnCGIHandler c i n vals (web s)) (\<lambda>(page, w). Inr (s\<lparr>web := w\<rparr>))))"

text \<open>A session that ends calls \<^verbatim>\<open>mySMTPresult\<close>, which gives the three mutexes back.\<close>

definition serve_mail :: "u8 list \<Rightarrow> nat \<Rightarrow> smtp_event \<Rightarrow> sys \<Rightarrow> sys result" where
  "serve_mail ipa i e s =
     (if i < length (mails s) then
        bindR (smtp_step ipa (auth s) (mail_memory s) e (Some (fst (mails s ! i))) (snd (mails s ! i)))
          (\<lambda>(arg, t, cb).
            Inr (s\<lparr>at3 := (if cb = None then Poll else Result_Id),
                   mails := (case arg of None \<Rightarrow> take i (mails s) @ drop (Suc i) (mails s)
                             | Some ss \<Rightarrow> (mails s)[i := (ss, t)])\<rparr>))
      else Inr s)"

definition open_mail :: "stack_answer \<Rightarrow> sys \<Rightarrow> sys" where
  "open_mail a s =
     (let s1 = s\<lparr>at3 := Poll, auth := snd (smtp_set_auth USER_AUTH PASS_AUTH (auth s))\<rparr> in
      case snd (smtp_send_mail_bodycback (memory1 a) (memory2 a) (resolved a) (control_block a) (connecting a)
          (mail_memory s)) of
        Some ss \<Rightarrow> s1\<lparr>mails := mails s @ [(ss, connection a)]\<rparr>
      | None \<Rightarrow> s1\<lparr>lost := lost s + 1\<rparr>)"

definition task3_step :: "u8 list \<Rightarrow> net_event \<Rightarrow> stack_answer \<Rightarrow> sys \<Rightarrow> sys result" where
  "task3_step ipa e a s =
     (case at3 s of
        Poll \<Rightarrow>
          (case e of
             No_Event \<Rightarrow> Inr (s\<lparr>at3 := Mail_Pend\<rparr>)
           | Page_Request uri \<Rightarrow> serve_page uri s
           | Mail_Event i ev \<Rightarrow> serve_mail ipa i ev s
           | Time_Set sec \<Rightarrow> bindR (sntp_set_system_time sec (access_time s, access_time_file s)) (\<lambda>(t, tf).
               Inr (s\<lparr>access_time := t, access_time_file := tf\<rparr>)))
      | Email_Store vals \<Rightarrow> bindR (EmailCGIhandler 1 vals (web s)) (\<lambda>(page, w). Inr (s\<lparr>at3 := Email_Post, web := w\<rparr>))
      | Email_Post \<Rightarrow> unlock email_mutex (s\<lparr>at3 := Poll\<rparr>)
      | Cards_Store n vals \<Rightarrow> bindR (CardsCGIpage n vals (web s)) (\<lambda>(page, w). Inr (s\<lparr>at3 := Cards_Post, web := w\<rparr>))
      | Cards_Post \<Rightarrow> unlock id_list_mutex (s\<lparr>at3 := Poll\<rparr>)
      | Result_Id \<Rightarrow> unlock id_mutex (s\<lparr>at3 := Result_Email\<rparr>)
      | Result_Email \<Rightarrow> unlock email_mutex (s\<lparr>at3 := Result_Bitmap\<rparr>)
      | Result_Bitmap \<Rightarrow> unlock bitmap_mutex (s\<lparr>at3 := Poll\<rparr>)
      | Mail_Pend \<Rightarrow> bindR (OSSemPend send_email_sem 0 OS_OPT_PEND_NON_BLOCKING (krn s)) (\<lambda>(r, k).
          Inr (s\<lparr>krn := k, at3 := if r = Returned OS_ERR_NONE then Mail_Bitmap else Poll\<rparr>))
      | Mail_Bitmap \<Rightarrow> lock bitmap_mutex (s\<lparr>at3 := Mail_Email\<rparr>)
      | Mail_Email \<Rightarrow> lock email_mutex (s\<lparr>at3 := Mail_Id\<rparr>)
      | Mail_Id \<Rightarrow> lock id_mutex (s\<lparr>at3 := Mail_Open\<rparr>)
      | Mail_Open \<Rightarrow> Inr (open_mail a s))"

section \<open>Interrupts\<close>

datatype isr = Reader_Clock bool | Reader_Enable bool | Camera_VSync | Camera_HRef | Camera_Pixel u16 | Camera_Configured

definition isr_step :: "isr \<Rightarrow> sys \<Rightarrow> sys result" where
  "isr_step i s =
     (case i of
        Reader_Clock p \<Rightarrow> use_reader (clock_falling_edge p) s
      | Reader_Enable p \<Rightarrow> use_reader (enable_changed_state p) s
      | Camera_VSync \<Rightarrow> bindR (vertical_sync_rising (cam s)) (\<lambda>(c, cb).
          case cb of
            None \<Rightarrow> Inr (s\<lparr>cam := c\<rparr>)
          | Some Photo_is_ready \<Rightarrow> post OS_OPT_POST_ALL photo_ready_sem (s\<lparr>cam := c\<rparr>))
      | Camera_HRef \<Rightarrow> bindR (horizontal_ref_falling (cam s)) (\<lambda>c.
          post_times (semProcessNewLine c) OS_OPT_POST_ALL semProcessNewLine_sem
            (s\<lparr>cam := c\<lparr>semProcessNewLine := 0\<rparr>\<rparr>))
      | Camera_Pixel v \<Rightarrow> bindR (pixel_clock v (cam s)) (\<lambda>c. Inr (s\<lparr>cam := c\<rparr>))
      | Camera_Configured \<Rightarrow> Inr (s\<lparr>cam := I2C_finished_callback (cam s)\<rparr>))"

section \<open>Runs\<close>

datatype sys_event = Run net_event stack_answer | Interrupt isr

definition sys_step :: "(rat \<Rightarrow> rat) \<Rightarrow> u8 list \<Rightarrow> sys_event \<Rightarrow> sys \<Rightarrow> sys result" where
  "sys_step fl ipa ev s =
     (case ev of
        Run e a \<Rightarrow>
          let t = OSTCBCurPtr (krn s) in
          if t = TaskStart then task1_step s
          else if t = Task2 then task2_step fl s
          else if t = Task3 then task3_step ipa e a s
          else Inr s
      | Interrupt i \<Rightarrow> isr_step i s)"

text \<open>
  The state when the scheduler leaves the initialisation of \<^verbatim>\<open>TaskStart\<close>: the camera waits for its
  configuration, nobody has asked for a picture; what the arrays hold does not matter.
\<close>

definition sys_start :: "sys \<Rightarrow> bool" where
  "sys_start s \<longleftrightarrow> start_kernel = Inr (krn s) \<and> at1 s = Line_Pend \<and> at2 s = Card_Init \<and> at3 s = Poll \<and>
     reader s = magnetic_power_on \<and> ov7670_state (cam s) = OV7670_is_busy \<and> \<not> picture_requested (cam s) \<and>
     semProcessNewLine (cam s) = 0 \<and> mails s = [] \<and> lost s = 0 \<and> doors s = 0"

text \<open>The counter of a mutex has eight bits: runs in which one is taken 255 times at once are left out.\<close>

definition nesting_ok :: "os \<Rightarrow> bool" where
  "nesting_ok k \<longleftrightarrow> list_all (\<lambda>m. OwnerNestingCtr k m \<noteq> 255) [bitmap_mutex, id_mutex, email_mutex, id_list_mutex]"

definition run_step :: "(rat \<Rightarrow> rat) \<Rightarrow> u8 list \<Rightarrow> sys_event \<Rightarrow> sys \<Rightarrow> sys result" where
  "run_step fl ipa ev s = (if nesting_ok (krn s) then sys_step fl ipa ev s else Inl Assert_Hang)"

inductive sys_reach :: "(rat \<Rightarrow> rat) \<Rightarrow> u8 list \<Rightarrow> sys \<Rightarrow> bool" for fl ipa where
  start: "sys_start s \<Longrightarrow> sys_reach fl ipa s"
| step: "sys_reach fl ipa s \<Longrightarrow> run_step fl ipa ev s = Inr s' \<Longrightarrow> sys_reach fl ipa s'"

end
