(* ===== verification/Os_Claims.thy ===== *)
theory Os_Claims
  imports Os_Objects
begin

unbundle bit_operations_syntax

text \<open>
  What a task may rely on when it uses mutexes in pairs of calls: the number of its calls for a
  mutex that it has not given back says whether it owns the mutex, and how often. The operations on
  mutexes change the number of the caller, those on semaphores none.
\<close>

text \<open>\<open>C t m\<close> is how often task \<open>t\<close> has called for mutex \<open>m\<close> without giving it back. It owns the mutex
  that often, or waits for it after its first call.\<close>

definition claim_ok :: "objects \<Rightarrow> task \<Rightarrow> nat \<Rightarrow> nat \<Rightarrow> bool" where
  "claim_ok v t m n \<longleftrightarrow>
     (if owner v m = Some t then 0 < n \<and> unat (taken v m) = n \<and> waits v t \<noteq> Some (Mutex_Obj m)
      else if waits v t = Some (Mutex_Obj m) then n = 1 else n = 0)"

definition claims_ok :: "objects \<Rightarrow> (task \<Rightarrow> nat \<Rightarrow> nat) \<Rightarrow> bool" where
  "claims_ok v C \<longleftrightarrow> (\<forall>t m. claim_ok v t m (C t m)) \<and> (\<forall>m. taken v m = 0 \<longleftrightarrow> owner v m = None)"

lemma claims_take:
  assumes "claims_ok v C" and "waits v t = None" and "taken v m \<noteq> 255"
  shows "claims_ok (take_mutex t m v) (C(t := (C t)(m := C t m + 1)))"
proof (cases "owner v m")
  case None
  then have "C t m = 0" using assms(1,2) by (simp add: claims_ok_def claim_ok_def split: if_splits)
  then show ?thesis using assms None by (auto simp: claims_ok_def claim_ok_def take_mutex_def)
next
  case (Some ow)
  show ?thesis
  proof (cases "ow = t")
    case True
    have "taken v m + 1 \<noteq> 0" by (rule u8_inc [OF assms(3)])
    then have "unat (taken v m + 1) = unat (taken v m) + 1" by (metis Suc_eq_plus1 unatSuc add.commute)
    then show ?thesis using assms True Some \<open>taken v m + 1 \<noteq> 0\<close>
      by (auto simp: claims_ok_def claim_ok_def take_mutex_def)
  next
    case False
    then have "C t m = 0" using assms(1,2) Some by (auto simp: claims_ok_def claim_ok_def split: if_splits)
    then show ?thesis using assms False Some by (auto simp: claims_ok_def claim_ok_def take_mutex_def)
  qed
qed

lemma claims_give:
  assumes "claims_ok v C" and "waits v t = None" and "owner v m = Some t"
    and "\<And>u. w = Some u \<Longrightarrow> waits v u = Some (Mutex_Obj m)"
  shows "claims_ok (give_mutex m w v) (C(t := (C t)(m := C t m - 1)))"
proof -
  have t: "0 < C t m" "unat (taken v m) = C t m"
    using assms(1,3) by (auto simp: claims_ok_def claim_ok_def split: if_splits)
  then have nz: "taken v m \<noteq> 0" by auto
  show ?thesis
  proof (cases "taken v m - 1 = 0")
    case False
    define x where "x = taken v m - 1"
    have x: "unat x = C t m - 1" "x \<noteq> 0" using t nz False by (simp_all add: x_def unat_minus_one)
    then have n: "C t m - 1 \<noteq> 0" by (metis unsigned_eq_0_iff)
    let ?v = "v\<lparr>taken := (taken v)(m := x)\<rparr>"
    have "claim_ok ?v u k ((C(t := (C t)(m := C t m - 1))) u k)" for u k
    proof -
      have "claim_ok v u k (C u k)" using assms(1) by (simp add: claims_ok_def)
      then show ?thesis using assms(2,3) x n by (cases "k = m"; cases "u = t") (simp_all add: claim_ok_def)
    qed
    moreover have "taken ?v k = 0 \<longleftrightarrow> owner ?v k = None" for k
      using assms(1,3) x(2) by (cases "k = m") (simp_all add: claims_ok_def)
    ultimately have "claims_ok ?v (C(t := (C t)(m := C t m - 1)))" unfolding claims_ok_def by blast
    moreover have "give_mutex m w v = ?v" using False by (simp add: give_mutex_def x_def)
    ultimately show ?thesis by (simp only:)
  next
    case True
    then have "taken v m = 1" by (metis add.left_neutral diff_add_cancel)
    then have C: "C t m = 1" using t by simp
    show ?thesis
    proof (cases w)
      case None
      have "C u m = 0" if "u \<noteq> t" "waits v u \<noteq> Some (Mutex_Obj m)" for u
        using assms(1,3) that by (auto simp: claims_ok_def claim_ok_def split: if_splits)
      then show ?thesis using assms(1-3) True C None by (auto simp: claims_ok_def claim_ok_def give_mutex_def)
    next
      case (Some x)
      then have x: "waits v x = Some (Mutex_Obj m)" using assms(4) by blast
      then have "x \<noteq> t" using assms(2) by auto
      then show ?thesis using assms(1-3) True C Some x by (auto simp: claims_ok_def claim_ok_def give_mutex_def)
    qed
  qed
qed

lemma claims_sem:
  assumes "claims_ok v C"
  shows "waits v t = None \<Longrightarrow> claims_ok (take_sem t s v) C"
    and "\<forall>u \<in> ws. waits v u = Some (Sem_Obj s) \<Longrightarrow> claims_ok (give_sem s ws v) C"
proof -
  assume "waits v t = None"
  then show "claims_ok (take_sem t s v) C" using assms by (auto simp: claims_ok_def claim_ok_def take_sem_def)
next
  assume "\<forall>u \<in> ws. waits v u = Some (Sem_Obj s)"
  then show "claims_ok (give_sem s ws v) C"
    using assms by (auto simp: claims_ok_def claim_ok_def give_sem_def)
qed

end
