(* ===== verification/Tasks_Inv.thy ===== *)
theory Tasks_Inv
  imports Tasks Os_Claims
begin

unbundle bit_operations_syntax

text \<open>
  What the mutexes of the program protect. The invariant says for each task, from its place in the
  code, how often it has taken each mutex and which object it may be waiting for, and when the
  camera may be asked for a picture. It gives what a mail session may rely on, and what happens
  after a mail that could not be opened.
\<close>

section \<open>The kernel of the program\<close>

lemma not_3_le_2: "\<not> (3 :: u8) \<le> 2"
  by simp

lemma u32_le_1: "(x :: u32) \<le> 1 \<Longrightarrow> x = 0 \<or> x = 1"
proof -
  assume "x \<le> 1"
  then have "unat x = 0 \<or> unat x = 1" by (simp add: word_le_nat_alt) linarith
  then show ?thesis by (metis unsigned_eq_0_iff unsigned_1 word_unat_eq_iff)
qed

definition kernel_ok :: "os \<Rightarrow> bool" where
  "kernel_ok k \<longleftrightarrow> good k \<and> plain k \<and> OSIntNestingCtr k = 0 \<and> OSSchedLockNestingCtr k = 0 \<and>
     (\<forall>m < 4. ObjType k (Mutex_Obj m)) \<and> (\<forall>n < 6. ObjType k (Sem_Obj n)) \<and>
     (\<forall>u. TaskState k u \<noteq> OS_TASK_STATE_DEL \<longleftrightarrow> u \<le> 3) \<and>
     Prio k TaskStart = 2 \<and> (\<forall>u \<le> 3. u \<noteq> TaskStart \<longrightarrow> 3 \<le> Prio k u)"

lemma kernel_ok_rest:
  assumes "kernel_ok k" and "good k1" and "rest_same k k1" and "Prio k1 TaskStart = 2"
    and "\<forall>u \<le> 3. u \<noteq> TaskStart \<longrightarrow> 3 \<le> Prio k1 u"
  shows "kernel_ok k1"
  using assms by (simp add: kernel_ok_def rest_same_def)

lemma current_task:
  assumes "kernel_ok k"
  shows "PendObjPtr k (OSTCBCurPtr k) = None" and "OSTCBCurPtr k \<in> {OSIdleTask, TaskStart, Task2, Task3}"
    and "OSTCBCurPtr k \<noteq> TaskStart \<Longrightarrow> PendObjPtr k TaskStart \<noteq> None"
proof -
  have g: "good k" and p: "plain k" and a: "\<forall>u. TaskState k u \<noteq> OS_TASK_STATE_DEL \<longleftrightarrow> u \<le> 3"
    using assms by (simp_all add: kernel_ok_def)
  have rdy: "TaskState k (OSTCBCurPtr k) = OS_TASK_STATE_RDY" by (rule goodD(10) [OF g])
  show "PendObjPtr k (OSTCBCurPtr k) = None" by (rule ready_waits_for_nothing [OF goodD(2) [OF g] rdy])
  have le: "OSTCBCurPtr k \<le> 3" using a rdy by (metis os_task_state.distinct(15))
  then show c: "OSTCBCurPtr k \<in> {OSIdleTask, TaskStart, Task2, Task3}"
    by (auto simp: OSIdleTask_def TaskStart_def Task2_def Task3_def)
  show "PendObjPtr k TaskStart \<noteq> None" if ne: "OSTCBCurPtr k \<noteq> TaskStart"
  proof
    assume "PendObjPtr k TaskStart = None"
    moreover have "TaskState k TaskStart \<noteq> OS_TASK_STATE_DEL" using a by (simp add: TaskStart_def)
    ultimately have "TaskState k TaskStart = OS_TASK_STATE_RDY" using p unfolding plain_def by metis
    moreover have "Prio k TaskStart = 2" "3 \<le> Prio k (OSTCBCurPtr k)"
      using assms ne le by (simp_all add: kernel_ok_def)
    moreover have "highest_ready (OSTCBCurPtr k) k"
      using goodD(12) [OF g] assms by (simp add: run_highest_def kernel_ok_def)
    ultimately show False unfolding highest_ready_def by (metis order_trans not_3_le_2)
  qed
qed

text \<open>What each call of a task does, in terms of the objects.\<close>

lemma lock_ok:
  assumes "kernel_ok (krn s)" and "OSTCBCurPtr (krn s) \<in> {Task2, Task3}" and "m < 4"
    and "OwnerNestingCtr (krn s) m \<noteq> 255"
  shows "\<exists>k. lock m s = Inr (s\<lparr>krn := k\<rparr>) \<and> kernel_ok k \<and>
    objects_of k = take_mutex (OSTCBCurPtr (krn s)) m (objects_of (krn s))"
proof -
  let ?k = "krn s" and ?c = "OSTCBCurPtr (krn s)"
  have c: "?c \<noteq> OSIdleTask" "?c \<noteq> TaskStart" "?c \<le> 3"
    using assms(2) by (auto simp: OSIdleTask_def TaskStart_def Task2_def Task3_def)
  have n: "\<not> pend_refused m OS_OPT_PEND_BLOCKING ?k"
    using assms(1,3) by (simp add: pend_refused_def kernel_ok_def OS_OPT_PEND_BLOCKING_def OS_OPT_PEND_NON_BLOCKING_def)
  have "good ?k" using assms(1) by (simp add: kernel_ok_def)
  from mutex_pend_good [OF this c(1) assms(4), of OS_OPT_PEND_BLOCKING] obtain r k1
    where k1: "OSMutexPend m 0 OS_OPT_PEND_BLOCKING ?k = Inr (r, k1)" "good k1" "rest_same ?k k1" "prio_lent ?k k1"
      "objects_of k1 = take_mutex ?c m (objects_of ?k)" using n by auto
  have p: "Prio ?k TaskStart = 2" "\<forall>u \<le> 3. u \<noteq> TaskStart \<longrightarrow> 3 \<le> Prio ?k u"
    using assms(1) by (simp_all add: kernel_ok_def)
  then have "3 \<le> Prio ?k ?c" using c by blast
  then have "kernel_ok k1"
  proof (intro kernel_ok_rest [OF assms(1) k1(2,3)])
    assume c3: "3 \<le> Prio ?k ?c"
    show "Prio k1 TaskStart = 2"
      using k1(4) p(1) c3 unfolding prio_lent_def by (metis order_trans not_3_le_2)
    show "\<forall>u \<le> 3. u \<noteq> TaskStart \<longrightarrow> 3 \<le> Prio k1 u" using k1(4) p(2) c3 unfolding prio_lent_def by metis
  qed
  then show ?thesis using k1 by (intro exI [of _ k1]) (simp add: lock_def)
qed

lemma unlock_ok:
  assumes "kernel_ok (krn s)" and "OSTCBCurPtr (krn s) \<noteq> TaskStart" and "m < 4"
    and "OwnerTCBPtr (krn s) m = Some (OSTCBCurPtr (krn s))"
  shows "\<exists>k w. unlock m s = Inr (s\<lparr>krn := k\<rparr>) \<and> kernel_ok k \<and> objects_of k = give_mutex m w (objects_of (krn s)) \<and>
    (\<forall>u. w = Some u \<longrightarrow> PendObjPtr (krn s) u = Some (Mutex_Obj m))"
proof -
  let ?k = "krn s"
  have n: "\<not> post_refused m OS_OPT_POST_NONE ?k"
    using assms(1,3,4) by (simp add: post_refused_def kernel_ok_def)
  have "good ?k" using assms(1) by (simp add: kernel_ok_def)
  moreover have "OS_OPT_POST_NONE AND OS_OPT_POST_NO_SCHED = 0" by (simp add: OS_OPT_POST_NONE_def)
  ultimately obtain r k1 where k: "OSMutexPost m OS_OPT_POST_NONE ?k = Inr (r, k1)" "good k1" "rest_same ?k k1"
      "prio_returned ?k k1" "if post_refused m OS_OPT_POST_NONE ?k then k1 = ?k
       else \<exists>w. objects_of k1 = give_mutex m w (objects_of ?k) \<and>
         (case w of None \<Rightarrow> \<forall>u. PendObjPtr ?k u \<noteq> Some (Mutex_Obj m) | Some t \<Rightarrow> first_waiter ?k (Mutex_Obj m) t)"
    using mutex_post_good [of ?k OS_OPT_POST_NONE m] by blast
  from k(5) n obtain w where w: "objects_of k1 = give_mutex m w (objects_of ?k)"
      "case w of None \<Rightarrow> \<forall>u. PendObjPtr ?k u \<noteq> Some (Mutex_Obj m) | Some t \<Rightarrow> first_waiter ?k (Mutex_Obj m) t" by auto
  note k1 = k(1-4) w
  have p: "Prio ?k TaskStart = 2" "\<forall>u \<le> 3. u \<noteq> TaskStart \<longrightarrow> 3 \<le> Prio ?k u"
    using assms(1) by (simp_all add: kernel_ok_def)
  have "kernel_ok k1"
  proof (rule kernel_ok_rest [OF assms(1) k1(2,3)])
    show "Prio k1 TaskStart = 2" using k1(4) p(1) assms(2) unfolding prio_returned_def by metis
    show "\<forall>u \<le> 3. u \<noteq> TaskStart \<longrightarrow> 3 \<le> Prio k1 u" using k1(4) p(2) unfolding prio_returned_def by (metis order_trans)
  qed
  moreover have "PendObjPtr ?k u = Some (Mutex_Obj m)" if "w = Some u" for u
    using k1(6) that by (simp add: first_waiter_def)
  ultimately show ?thesis using k1(1,5) by (intro exI [of _ k1] exI [of _ w]) (simp add: unlock_def)
qed

lemma sem_call_ok:
  assumes "kernel_ok k" and "good k1" and "rest_same k k1" and "Prio k1 = Prio k"
  shows "kernel_ok k1"
  using assms by (intro kernel_ok_rest [OF assms(1-3)]) (simp_all add: kernel_ok_def)

lemma await_ok:
  assumes "kernel_ok (krn s)" and "OSTCBCurPtr (krn s) \<noteq> OSIdleTask" and "n < 6"
  shows "\<exists>k. await n s = Inr (s\<lparr>krn := k\<rparr>) \<and> kernel_ok k \<and>
    objects_of k = take_sem (OSTCBCurPtr (krn s)) n (objects_of (krn s))"
proof -
  let ?k = "krn s"
  have "\<not> sem_pend_refused n OS_OPT_PEND_BLOCKING ?k"
    using assms(1,3)
    by (simp add: sem_pend_refused_def kernel_ok_def OS_OPT_PEND_BLOCKING_def OS_OPT_PEND_NON_BLOCKING_def)
  moreover have "good ?k" using assms(1) by (simp add: kernel_ok_def)
  ultimately obtain r k1 where k1: "OSSemPend n 0 OS_OPT_PEND_BLOCKING ?k = Inr (r, k1)" "good k1" "rest_same ?k k1"
      "Prio k1 = Prio ?k" "objects_of k1 = take_sem (OSTCBCurPtr ?k) n (objects_of ?k)"
    using sem_pend_good [OF _ assms(2), of n OS_OPT_PEND_BLOCKING] by auto
  then show ?thesis using sem_call_ok [OF assms(1) k1(2-4)] by (intro exI [of _ k1]) (simp add: await_def)
qed

text \<open>Asking for a mail without waiting.\<close>

lemma poll_mail_ok:
  assumes "kernel_ok k" and "OSTCBCurPtr k \<noteq> OSIdleTask"
  shows "\<exists>r k1. OSSemPend send_email_sem 0 OS_OPT_PEND_NON_BLOCKING k = Inr (r, k1) \<and> kernel_ok k1 \<and>
    (r = Returned OS_ERR_NONE \<longleftrightarrow> Ctr k send_email_sem \<noteq> 0) \<and>
    objects_of k1 = (if Ctr k send_email_sem = 0 then objects_of k else take_sem (OSTCBCurPtr k) send_email_sem (objects_of k))"
proof -
  have "sem_pend_refused send_email_sem OS_OPT_PEND_NON_BLOCKING k \<longleftrightarrow> Ctr k send_email_sem = 0"
    using assms(1) by (auto simp: sem_pend_refused_def kernel_ok_def OS_OPT_PEND_NON_BLOCKING_def send_email_sem_def)
  moreover have "good k" using assms(1) by (simp add: kernel_ok_def)
  ultimately obtain r k1 where k1: "OSSemPend send_email_sem 0 OS_OPT_PEND_NON_BLOCKING k = Inr (r, k1)" "good k1"
      "rest_same k k1" "Prio k1 = Prio k" "r = Returned OS_ERR_NONE \<longleftrightarrow> Ctr k send_email_sem \<noteq> 0"
      "objects_of k1 = (if Ctr k send_email_sem = 0 then objects_of k else take_sem (OSTCBCurPtr k) send_email_sem (objects_of k))"
    using sem_pend_good [OF _ assms(2), of send_email_sem OS_OPT_PEND_NON_BLOCKING] by auto
  then show ?thesis using sem_call_ok [OF assms(1) k1(2-4)] by (intro exI [of _ r] exI [of _ k1]) simp
qed

text \<open>A post is lost when the counter is full; otherwise it wakes somebody or counts.\<close>

lemma sys_post_ok:
  assumes "kernel_ok (krn s)" and "n < 6" and "opt \<in> {OS_OPT_POST_1, OS_OPT_POST_ALL}"
  shows "\<exists>k. post opt n s = Inr (s\<lparr>krn := k\<rparr>) \<and> kernel_ok k \<and>
    (objects_of k = objects_of (krn s) \<and> Ctr (krn s) n \<noteq> 0 \<or>
     (\<exists>ws. released n opt (krn s) ws \<and> objects_of k = give_sem n ws (objects_of (krn s))))"
proof -
  let ?k = "krn s"
  have o: "opt AND OS_OPT_POST_NO_SCHED = 0" "opt \<in> {OS_OPT_POST_1, OS_OPT_POST_ALL, OS_OPT_POST_1 OR OS_OPT_POST_NO_SCHED,
      OS_OPT_POST_ALL OR OS_OPT_POST_NO_SCHED}"
    using assms(3) by (auto simp: OS_OPT_POST_1_def OS_OPT_POST_ALL_def OS_OPT_POST_NO_SCHED_def)
  have r: "sem_post_refused n opt ?k \<Longrightarrow> Ctr ?k n \<noteq> 0"
    using assms(1,2) o(2) by (simp add: sem_post_refused_def kernel_ok_def del: insert_iff)
  have "good ?k" using assms(1) by (simp add: kernel_ok_def)
  from sem_post_good [OF this o(1), of n] obtain e k1 where k1: "OSSemPost n opt ?k = Inr (e, k1)" "good k1"
      "rest_same ?k k1" "Prio k1 = Prio ?k"
      "if sem_post_refused n opt ?k then objects_of k1 = objects_of ?k
       else \<exists>ws. released n opt ?k ws \<and> objects_of k1 = give_sem n ws (objects_of ?k)" by blast
  then have "kernel_ok k1" using sem_call_ok [OF assms(1)] by blast
  moreover have "objects_of k1 = objects_of ?k \<and> Ctr ?k n \<noteq> 0 \<or>
     (\<exists>ws. released n opt ?k ws \<and> objects_of k1 = give_sem n ws (objects_of ?k))"
    using k1(5) r by (cases "sem_post_refused n opt ?k") simp_all
  ultimately show ?thesis using k1(1) by (intro exI [of _ k1]) (simp add: post_def)
qed

section \<open>The invariant\<close>

definition claim2 :: "place2 \<Rightarrow> nat \<Rightarrow> nat" where
  "claim2 p m =
     (if m = id_mutex then of_bool (p \<in> {Id_Data, Id_Post})
      else if m = id_list_mutex then of_bool (p \<in> {List_Search, List_Post})
      else if m = bitmap_mutex
      then of_bool (p \<in> {Take_Picture, Photo_Pend, Bitmap_Post, Compress, Compress_Post})
      else 0)"

fun stores_email :: "place3 \<Rightarrow> bool" where
  "stores_email (Email_Store v) = True"
| "stores_email p = (p = Email_Post)"

fun stores_cards :: "place3 \<Rightarrow> bool" where
  "stores_cards (Cards_Store c v) = True"
| "stores_cards p = (p = Cards_Post)"

text \<open>\<open>n\<close> mails are open or lost; each holds the three mutexes of the mail once.\<close>

definition claim3 :: "place3 \<Rightarrow> nat \<Rightarrow> nat \<Rightarrow> nat" where
  "claim3 p n m =
     (if m = id_mutex then n + of_bool (p \<in> {Result_Id, Mail_Open})
      else if m = email_mutex then n + of_bool (p \<in> {Result_Id, Result_Email, Mail_Id, Mail_Open} \<or> stores_email p)
      else if m = bitmap_mutex
      then n + of_bool (p \<in> {Result_Id, Result_Email, Result_Bitmap, Mail_Email, Mail_Id, Mail_Open})
      else if m = id_list_mutex then of_bool (stores_cards p)
      else 0)"

text \<open>What a task may be waiting for: the object of its last call.\<close>

fun may_wait2 :: "place2 \<Rightarrow> pend_obj option" where
  "may_wait2 Card_State = Some (Sem_Obj magnetic_updated_sem)"
| "may_wait2 Id_Data = Some (Mutex_Obj id_mutex)"
| "may_wait2 List_Search = Some (Mutex_Obj id_list_mutex)"
| "may_wait2 Take_Picture = Some (Mutex_Obj bitmap_mutex)"
| "may_wait2 Bitmap_Post = Some (Sem_Obj photo_ready_sem)"
| "may_wait2 Compress = Some (Mutex_Obj bitmap_mutex)"
| "may_wait2 _ = None"

fun may_wait3 :: "place3 \<Rightarrow> pend_obj option" where
  "may_wait3 (Email_Store v) = Some (Mutex_Obj email_mutex)"
| "may_wait3 (Cards_Store c v) = Some (Mutex_Obj id_list_mutex)"
| "may_wait3 Mail_Email = Some (Mutex_Obj bitmap_mutex)"
| "may_wait3 Mail_Id = Some (Mutex_Obj email_mutex)"
| "may_wait3 Mail_Open = Some (Mutex_Obj id_mutex)"
| "may_wait3 _ = None"

fun may_wait1 :: "place1 \<Rightarrow> pend_obj option" where
  "may_wait1 Line_Process = Some (Sem_Obj semProcessNewLine_sem)"
| "may_wait1 Line_Pend = None"

definition may_wait :: "place1 \<Rightarrow> place2 \<Rightarrow> place3 \<Rightarrow> task \<Rightarrow> pend_obj option" where
  "may_wait p1 p2 p3 t =
     (if t = TaskStart then may_wait1 p1
      else if t = Task2 then may_wait2 p2 else if t = Task3 then may_wait3 p3 else None)"

definition held :: "sys \<Rightarrow> nat" where
  "held s = length (mails s) + lost s"

definition claims :: "sys \<Rightarrow> task \<Rightarrow> nat \<Rightarrow> nat" where
  "claims s t = (if t = Task2 then claim2 (at2 s) else if t = Task3 then claim3 (at3 s) (held s) else (\<lambda>m. 0))"

definition waitable :: "sys \<Rightarrow> task \<Rightarrow> pend_obj option" where
  "waitable s = may_wait (at1 s) (at2 s) (at3 s)"

lemma krn_frame [simp]:
  "held (s\<lparr>krn := k\<rparr>) = held s" "claims (s\<lparr>krn := k\<rparr>) = claims s" "waitable (s\<lparr>krn := k\<rparr>) = waitable s"
  by (simp_all add: held_def claims_def waitable_def fun_eq_iff)

definition waits_ok :: "objects \<Rightarrow> (task \<Rightarrow> pend_obj option) \<Rightarrow> bool" where
  "waits_ok v W \<longleftrightarrow> (\<forall>t ob. waits v t = Some ob \<longrightarrow> W t = Some ob)"

text \<open>
  While a picture is asked for, taken or announced, or a line is to be stored, the card task waits
  for the picture or is about to.
\<close>

definition in_photo :: "place2 \<Rightarrow> bool" where
  "in_photo p \<longleftrightarrow> p = Photo_Pend \<or> p = Bitmap_Post"

definition shooting :: "callback camera_state \<Rightarrow> bool" where
  "shooting c \<longleftrightarrow> picture_requested c \<or> ov7670_state c = OV7670_is_taking_picture"

definition camera_ok :: "place1 \<Rightarrow> place2 \<Rightarrow> callback camera_state \<Rightarrow> objects \<Rightarrow> bool" where
  "camera_ok p1 p2 c v \<longleftrightarrow>
     semProcessNewLine c = 0 \<and> \<not> (picture_requested c \<and> ov7670_state c = OV7670_is_taking_picture) \<and>
     (shooting c \<longrightarrow> count v photo_ready_sem = 0) \<and> count v photo_ready_sem \<le> 1 \<and>
     (shooting c \<or> count v photo_ready_sem \<noteq> 0 \<longrightarrow>
        p2 = Photo_Pend \<or> p2 = Bitmap_Post \<and> waits v Task2 = Some (Sem_Obj photo_ready_sem)) \<and>
     (p1 = Line_Process \<and> waits v TaskStart = None \<or> count v semProcessNewLine_sem \<noteq> 0 \<longrightarrow> in_photo p2)"

definition sys_inv :: "sys \<Rightarrow> bool" where
  "sys_inv s \<longleftrightarrow> kernel_ok (krn s) \<and> claims_ok (objects_of (krn s)) (claims s) \<and>
     waits_ok (objects_of (krn s)) (waitable s) \<and> camera_ok (at1 s) (at2 s) (cam s) (objects_of (krn s))"

section \<open>Calls keep the invariant\<close>

lemma waits_take: "waits_ok v W \<Longrightarrow> waits v t = None \<Longrightarrow> waits_ok (take_mutex t m v) (W(t := Some (Mutex_Obj m)))"
  by (auto simp: waits_ok_def take_mutex_def split: option.splits)

lemma waits_give:
  "waits_ok v W \<Longrightarrow> waits v t = None \<Longrightarrow> waits_ok (give_mutex m u v) (W(t := x))"
  by (auto simp: waits_ok_def give_mutex_def split: option.splits)

lemma waits_take_sem: "waits_ok v W \<Longrightarrow> waits v t = None \<Longrightarrow> waits_ok (take_sem t n v) (W(t := Some (Sem_Obj n)))"
  by (auto simp: waits_ok_def take_sem_def)

lemma waits_give_sem: "waits_ok v W \<Longrightarrow> waits_ok (give_sem n ws v) W"
  by (auto simp: waits_ok_def give_sem_def)

lemma waits_move: "waits_ok v W \<Longrightarrow> waits v t = None \<Longrightarrow> waits_ok v (W(t := x))"
  by (auto simp: waits_ok_def)

text \<open>The camera does not care about the mutexes.\<close>

lemma camera_frame:
  assumes "camera_ok p1 p2 c v" and "count v1 = count v" and "waits v1 TaskStart = waits v TaskStart"
    and "waits v1 Task2 = Some (Sem_Obj photo_ready_sem) \<longleftrightarrow> waits v Task2 = Some (Sem_Obj photo_ready_sem)"
    and "p2' = p2 \<or> \<not> in_photo p2"
  shows "camera_ok p1 p2' c v1"
  using assms by (auto simp: camera_ok_def in_photo_def)

lemma inv_current:
  assumes "sys_inv s"
  shows "kernel_ok (krn s)" and "waits (objects_of (krn s)) (OSTCBCurPtr (krn s)) = None"
    and "OSTCBCurPtr (krn s) \<noteq> TaskStart \<Longrightarrow> waits (objects_of (krn s)) TaskStart \<noteq> None"
    and "OSTCBCurPtr (krn s) \<noteq> TaskStart \<Longrightarrow> count (objects_of (krn s)) semProcessNewLine_sem = 0"
proof -
  show k: "kernel_ok (krn s)" using assms by (simp add: sys_inv_def)
  show "waits (objects_of (krn s)) (OSTCBCurPtr (krn s)) = None"
    using current_task(1) [OF k] by (simp add: objects_of_def)
  assume "OSTCBCurPtr (krn s) \<noteq> TaskStart"
  then obtain ob where ob: "PendObjPtr (krn s) TaskStart = Some ob" using current_task(3) [OF k] by auto
  then show "waits (objects_of (krn s)) TaskStart \<noteq> None" by (simp add: objects_of_def)
  have "waits_ok (objects_of (krn s)) (waitable s)" using assms by (simp add: sys_inv_def)
  then have "waitable s TaskStart = Some ob" using ob by (simp add: waits_ok_def objects_of_def)
  then have "ob = Sem_Obj semProcessNewLine_sem" by (cases "at1 s") (simp_all add: waitable_def may_wait_def)
  moreover have "run_inv (krn s)" using k goodD(8) by (simp add: kernel_ok_def)
  ultimately show "count (objects_of (krn s)) semProcessNewLine_sem = 0"
    using ob unfolding run_inv_def objects_of_def by auto
qed

text \<open>A task takes a mutex; \<open>s1\<close> is the state with its next place.\<close>

lemma lock_inv:
  assumes "sys_inv s" and "OSTCBCurPtr (krn s) = t" and "t \<in> {Task2, Task3}" and "m < 4"
    and "OwnerNestingCtr (krn s) m \<noteq> 255" and "krn s1 = krn s" and "at1 s1 = at1 s" and "cam s1 = cam s"
    and "claims s1 = (claims s)(t := (claims s t)(m := claims s t m + 1))"
    and "waitable s1 = (waitable s)(t := Some (Mutex_Obj m))" and "at2 s1 = at2 s \<or> \<not> in_photo (at2 s)"
  shows "\<exists>k. lock m s1 = Inr (s1\<lparr>krn := k\<rparr>) \<and> sys_inv (s1\<lparr>krn := k\<rparr>)"
proof -
  let ?v = "objects_of (krn s)"
  have i: "claims_ok ?v (claims s)" "waits_ok ?v (waitable s)" "camera_ok (at1 s) (at2 s) (cam s) ?v"
    using assms(1) by (simp_all add: sys_inv_def)
  note c = inv_current(1,2) [OF assms(1), unfolded assms(2)]
  obtain k where k: "lock m s1 = Inr (s1\<lparr>krn := k\<rparr>)" "kernel_ok k" "objects_of k = take_mutex t m ?v"
    using lock_ok [of s1 m] c(1) assms by auto
  have "taken ?v m \<noteq> 255" using assms(5) by (simp add: objects_of_def)
  then have "claims_ok (objects_of k) (claims s1)" using claims_take [OF i(1) c(2)] assms(9) k(3) by simp
  moreover have "waits_ok (objects_of k) (waitable s1)" using waits_take [OF i(2) c(2)] assms(10) k(3) by simp
  moreover have "camera_ok (at1 s1) (at2 s1) (cam s1) (objects_of k)"
    unfolding assms(7,8)
    by (rule camera_frame [OF i(3) _ _ _ assms(11)])
      (use c(2) assms(3) in \<open>auto simp: k(3) take_mutex_def TaskStart_def Task2_def Task3_def split: option.splits\<close>)
  ultimately have "sys_inv (s1\<lparr>krn := k\<rparr>)" using k(2) by (simp add: sys_inv_def)
  with k(1) show ?thesis by blast
qed

lemma claimed_owner:
  assumes "sys_inv s" and "0 < claims s t m" and "waits (objects_of (krn s)) t \<noteq> Some (Mutex_Obj m)"
  shows "OwnerTCBPtr (krn s) m = Some t"
proof -
  have "claim_ok (objects_of (krn s)) t m (claims s t m)" using assms(1) by (simp add: sys_inv_def claims_ok_def)
  then show ?thesis using assms(2,3) by (auto simp: claim_ok_def objects_of_def split: if_splits)
qed

lemma unlock_inv:
  assumes "sys_inv s" and "OSTCBCurPtr (krn s) = t" and "t \<in> {Task2, Task3}" and "m < 4"
    and "0 < claims s t m" and "krn s1 = krn s" and "at1 s1 = at1 s" and "cam s1 = cam s"
    and "claims s1 = (claims s)(t := (claims s t)(m := claims s t m - 1))"
    and "waitable s1 = (waitable s)(t := x)"
    and "camera_ok (at1 s) (at2 s1) (cam s) (objects_of (krn s))"
  shows "\<exists>k. unlock m s1 = Inr (s1\<lparr>krn := k\<rparr>) \<and> sys_inv (s1\<lparr>krn := k\<rparr>)"
proof -
  let ?v = "objects_of (krn s)"
  have i: "claims_ok ?v (claims s)" "waits_ok ?v (waitable s)"
    using assms(1) by (simp_all add: sys_inv_def)
  note c = inv_current(1,2) [OF assms(1), unfolded assms(2)]
  have own: "OwnerTCBPtr (krn s) m = Some t" using claimed_owner [OF assms(1,5)] c(2) by simp
  have ne: "t \<noteq> TaskStart" using assms(3) by (auto simp: TaskStart_def Task2_def Task3_def)
  obtain k u where k: "unlock m s1 = Inr (s1\<lparr>krn := k\<rparr>)" "kernel_ok k" "objects_of k = give_mutex m u ?v"
    "\<forall>y. u = Some y \<longrightarrow> PendObjPtr (krn s) y = Some (Mutex_Obj m)"
    using unlock_ok [of s1 m] c(1) assms(2,4,6) own ne by auto
  have w: "waits ?v y = Some (Mutex_Obj m)" if "u = Some y" for y using k(4) that by (simp add: objects_of_def)
  have "owner ?v m = Some t" using own by (simp add: objects_of_def)
  then have "claims_ok (objects_of k) (claims s1)"
    using claims_give [OF i(1) c(2) _ w] assms(9) k(3) by simp
  moreover have "waits_ok (objects_of k) (waitable s1)" using waits_give [OF i(2) c(2)] assms(10) k(3) by simp
  moreover have "camera_ok (at1 s1) (at2 s1) (cam s1) (objects_of k)"
    unfolding assms(7,8)
  proof (rule camera_frame [OF assms(11)])
    have "waitable s TaskStart \<noteq> Some (Mutex_Obj m)" by (cases "at1 s") (simp_all add: waitable_def may_wait_def)
    then have "u \<noteq> Some TaskStart" using w i(2) unfolding waits_ok_def by blast
    then show "waits (objects_of k) TaskStart = waits ?v TaskStart"
      by (auto simp: k(3) give_mutex_def split: option.splits)
    show "waits (objects_of k) Task2 = Some (Sem_Obj photo_ready_sem) \<longleftrightarrow> waits ?v Task2 = Some (Sem_Obj photo_ready_sem)"
      using w by (auto simp: k(3) give_mutex_def split: option.splits)
  qed (auto simp: k(3) give_mutex_def split: option.splits)
  ultimately have "sys_inv (s1\<lparr>krn := k\<rparr>)" using k(2) by (simp add: sys_inv_def)
  with k(1) show ?thesis by blast
qed

lemma move_inv:
  assumes "sys_inv s" and "OSTCBCurPtr (krn s) = t" and "krn s1 = krn s" and "claims s1 = claims s"
    and "waitable s1 = (waitable s)(t := x)" and "camera_ok (at1 s1) (at2 s1) (cam s1) (objects_of (krn s))"
  shows "sys_inv s1"
  using assms inv_current(2) [OF assms(1)] waits_move [of "objects_of (krn s)" "waitable s" t x]
  by (simp add: sys_inv_def)

lemma sem_inv:
  assumes "sys_inv s" and "OSTCBCurPtr (krn s) = t" and "claims s1 = claims s"
    and "waitable s1 = (waitable s)(t := Some (Sem_Obj n))"
    and "kernel_ok k" and "objects_of k = take_sem t n (objects_of (krn s))"
    and "camera_ok (at1 s1) (at2 s1) (cam s1) (take_sem t n (objects_of (krn s)))"
  shows "sys_inv (s1\<lparr>krn := k\<rparr>)"
proof -
  have "claims_ok (objects_of k) (claims s1)" "waits_ok (objects_of k) (waitable s1)"
    using assms inv_current(2) [OF assms(1)] claims_sem(1) [of "objects_of (krn s)" "claims s" t n]
      waits_take_sem [of "objects_of (krn s)" "waitable s" t n] by (simp_all add: sys_inv_def)
  then show ?thesis using assms(5-7) by (simp add: sys_inv_def)
qed

text \<open>A post by the running task or by an interrupt.\<close>

lemma post_inv:
  assumes "sys_inv s" and "n < 6" and "opt \<in> {OS_OPT_POST_1, OS_OPT_POST_ALL}"
    and "krn s1 = krn s" and "claims s1 = claims s" and "waits_ok (objects_of (krn s)) (waitable s1)"
    and "camera_ok (at1 s1) (at2 s1) (cam s1) (objects_of (krn s))"
    and "\<And>ws. released n opt (krn s) ws \<Longrightarrow> camera_ok (at1 s1) (at2 s1) (cam s1) (give_sem n ws (objects_of (krn s)))"
  shows "\<exists>k. post opt n s1 = Inr (s1\<lparr>krn := k\<rparr>) \<and> sys_inv (s1\<lparr>krn := k\<rparr>)"
proof -
  let ?v = "objects_of (krn s)"
  have i: "kernel_ok (krn s)" "claims_ok ?v (claims s)" using assms(1) by (simp_all add: sys_inv_def)
  obtain k where k: "post opt n s1 = Inr (s1\<lparr>krn := k\<rparr>)" "kernel_ok k"
      "objects_of k = ?v \<or> (\<exists>ws. released n opt (krn s) ws \<and> objects_of k = give_sem n ws ?v)"
    using sys_post_ok [of s1 n opt] i(1) assms(2-4) by auto
  have "sys_inv (s1\<lparr>krn := k\<rparr>)"
  proof (cases "objects_of k = ?v")
    case True
    then show ?thesis using i(2) k(2) assms(5-7) by (simp add: sys_inv_def)
  next
    case False
    then obtain ws where ws: "released n opt (krn s) ws" "objects_of k = give_sem n ws ?v" using k(3) by blast
    have "\<forall>u \<in> ws. waits ?v u = Some (Sem_Obj n)"
      using ws(1) by (auto simp: released_def first_waiter_def objects_of_def split: if_splits)
    from claims_sem(2) [OF i(2) this] have "claims_ok (objects_of k) (claims s1)" using ws(2) assms(5) by simp
    moreover have "waits_ok (objects_of k) (waitable s1)" using waits_give_sem [OF assms(6)] ws(2) by simp
    ultimately show ?thesis using k(2) assms(8) [OF ws(1)] ws(2) by (simp add: sys_inv_def)
  qed
  with k(1) show ?thesis by blast
qed

section \<open>Steps keep the invariant\<close>

lemmas tasks = TaskStart_def Task2_def Task3_def OSIdleTask_def

lemmas mutex_ids = bitmap_mutex_def id_mutex_def email_mutex_def id_list_mutex_def

lemma waitable_upd:
  "at2 s1 = at2 s \<Longrightarrow> at3 s1 = at3 s \<Longrightarrow> waitable s1 = (waitable s)(TaskStart := may_wait1 (at1 s1))"
  "at1 s1 = at1 s \<Longrightarrow> at3 s1 = at3 s \<Longrightarrow> waitable s1 = (waitable s)(Task2 := may_wait2 (at2 s1))"
  "at1 s1 = at1 s \<Longrightarrow> at2 s1 = at2 s \<Longrightarrow> waitable s1 = (waitable s)(Task3 := may_wait3 (at3 s1))"
  by (rule ext, simp add: waitable_def may_wait_def tasks)+

lemma claims_upd:
  "at2 s1 = at2 s \<Longrightarrow> at3 s1 = at3 s \<Longrightarrow> held s1 = held s \<Longrightarrow> claims s1 = claims s"
  "at3 s1 = at3 s \<Longrightarrow> held s1 = held s \<Longrightarrow> claims s1 = (claims s)(Task2 := claim2 (at2 s1))"
  "at2 s1 = at2 s \<Longrightarrow> claims s1 = (claims s)(Task3 := claim3 (at3 s1) (held s1))"
  by (rule ext, simp add: claims_def tasks)+

lemmas sem_ids = magnetic_updated_sem_def send_email_sem_def photo_ready_sem_def semProcessNewLine_sem_def

text \<open>The line loop and the pixel clock only touch arrays.\<close>

definition same_phase :: "callback camera_state \<Rightarrow> callback camera_state \<Rightarrow> bool" where
  "same_phase c c1 \<longleftrightarrow> ov7670_state c1 = ov7670_state c \<and> picture_requested c1 = picture_requested c \<and>
     semProcessNewLine c1 = semProcessNewLine c"

lemma camera_phase: "same_phase c c1 \<Longrightarrow> camera_ok p1 p2 c1 v = camera_ok p1 p2 c v"
  by (simp add: same_phase_def camera_ok_def shooting_def)

lemma process_line_phase: "OV7670_process_new_line c = Inr c1 \<Longrightarrow> same_phase c c1"
  unfolding OV7670_process_new_line_def
  by (rule foldR_invariant [where P = "same_phase c"])
    (auto simp: same_phase_def process_col_def bindR_eq_Inr_iff)

lemma task1_inv:
  assumes "sys_inv s" and "OSTCBCurPtr (krn s) = TaskStart" and "task1_step s = Inr s'"
  shows "sys_inv s'"
proof (cases "at1 s")
  case Line_Pend
  let ?s1 = "s\<lparr>at1 := Line_Process\<rparr>" and ?v = "objects_of (krn s)"
  have c: "camera_ok (at1 s) (at2 s) (cam s) ?v" using assms(1) by (simp add: sys_inv_def)
  obtain k where k: "await semProcessNewLine_sem ?s1 = Inr (?s1\<lparr>krn := k\<rparr>)" "kernel_ok k"
    "objects_of k = take_sem TaskStart semProcessNewLine_sem ?v"
    using await_ok [of ?s1 semProcessNewLine_sem] inv_current(1) [OF assms(1)] assms(2)
    by (auto simp: OSIdleTask_def TaskStart_def sem_ids)
  have cam: "camera_ok Line_Process (at2 s) (cam s) (take_sem TaskStart semProcessNewLine_sem ?v)"
    using c Line_Pend by (auto simp: camera_ok_def take_sem_def sem_ids tasks)
  have "waitable ?s1 = (waitable s)(TaskStart := may_wait1 (at1 ?s1))" "claims ?s1 = claims s"
    by (rule waitable_upd(1) claims_upd(1); simp add: held_def)+
  then have "sys_inv (?s1\<lparr>krn := k\<rparr>)" using cam by (intro sem_inv [OF assms(1,2) _ _ k(2,3)]) simp_all
  then show ?thesis using k(1) assms(3) Line_Pend by (simp add: task1_step_def)
next
  case Line_Process
  then obtain c where c: "OV7670_process_new_line (cam s) = Inr c" "s' = s\<lparr>at1 := Line_Pend, cam := c\<rparr>"
    using assms(3) by (auto simp: task1_step_def bindR_eq_Inr_iff)
  have "camera_ok (at1 s) (at2 s) (cam s) (objects_of (krn s))" using assms(1) by (simp add: sys_inv_def)
  then have "camera_ok Line_Pend (at2 s) c (objects_of (krn s))"
    unfolding camera_phase [OF process_line_phase [OF c(1)]] by (auto simp: camera_ok_def)
  moreover have "waitable s' = (waitable s)(TaskStart := may_wait1 (at1 s'))" "claims s' = claims s"
    by (rule waitable_upd(1) claims_upd(1); simp add: c(2) held_def)+
  ultimately show ?thesis by (intro move_inv [OF assms(1,2)]) (simp_all add: c(2))
qed

text \<open>Steps of the card task; \<open>s1\<close> differs from \<open>s\<close> in its place and its own data.\<close>

definition moves2 :: "sys \<Rightarrow> sys \<Rightarrow> bool" where
  "moves2 s s1 \<longleftrightarrow> krn s1 = krn s \<and> at1 s1 = at1 s \<and> at3 s1 = at3 s \<and> held s1 = held s"

lemma moves2_simps:
  assumes "moves2 s s1"
  shows "krn s1 = krn s" "at1 s1 = at1 s" "claims s1 = (claims s)(Task2 := claim2 (at2 s1))"
    "waitable s1 = (waitable s)(Task2 := may_wait2 (at2 s1))" "claims s Task2 = claim2 (at2 s)"
  using assms by (auto simp: moves2_def claims_def intro!: claims_upd waitable_upd)

lemma camera_leaves:
  "sys_inv s \<Longrightarrow> p = at2 s \<or> \<not> in_photo (at2 s) \<Longrightarrow> camera_ok (at1 s) p (cam s) (objects_of (krn s))"
  by (rule camera_frame) (auto simp: sys_inv_def)

lemma lock2:
  assumes "sys_inv s" and "OSTCBCurPtr (krn s) = Task2" and "OwnerNestingCtr (krn s) m \<noteq> 255" and "m < 4"
    and "moves2 s s1" and "cam s1 = cam s" and "may_wait2 (at2 s1) = Some (Mutex_Obj m)"
    and "claim2 (at2 s1) = (claim2 (at2 s))(m := claim2 (at2 s) m + 1)" and "\<not> in_photo (at2 s)"
    and "lock m s1 = Inr s'"
  shows "sys_inv s'"
proof -
  note f = moves2_simps [OF assms(5)]
  have "\<exists>k. lock m s1 = Inr (s1\<lparr>krn := k\<rparr>) \<and> sys_inv (s1\<lparr>krn := k\<rparr>)"
    by (rule lock_inv [OF assms(1,2) _ assms(4,3) f(1,2) assms(6)]) (simp_all add: f assms(7-9))
  then show ?thesis using assms(10) by auto
qed

lemma unlock2:
  assumes "sys_inv s" and "OSTCBCurPtr (krn s) = Task2" and "m < 4" and "moves2 s s1" and "cam s1 = cam s"
    and "claim2 (at2 s1) = (claim2 (at2 s))(m := claim2 (at2 s) m - 1)" and "0 < claim2 (at2 s) m"
    and "camera_ok (at1 s) (at2 s1) (cam s) (objects_of (krn s))" and "unlock m s1 = Inr s'"
  shows "sys_inv s'"
proof -
  note f = moves2_simps [OF assms(4)]
  have "\<exists>k. unlock m s1 = Inr (s1\<lparr>krn := k\<rparr>) \<and> sys_inv (s1\<lparr>krn := k\<rparr>)"
    by (rule unlock_inv [OF assms(1,2) _ assms(3) _ f(1,2) assms(5) _ f(4) assms(8)]) (simp_all add: f assms(6,7))
  then show ?thesis using assms(9) by auto
qed

lemma move2:
  assumes "sys_inv s" and "OSTCBCurPtr (krn s) = Task2" and "moves2 s s1" and "claim2 (at2 s1) = claim2 (at2 s)"
    and "camera_ok (at1 s) (at2 s1) (cam s1) (objects_of (krn s))"
  shows "sys_inv s1"
proof -
  note f = moves2_simps [OF assms(3)]
  show ?thesis
    by (rule move_inv [OF assms(1,2) f(1) _ f(4)])
      (simp_all add: f(2) assms(5), simp add: f(3,5) assms(4) fun_upd_idem)
qed

lemma await2:
  assumes "sys_inv s" and "OSTCBCurPtr (krn s) = Task2" and "n < 6" and "moves2 s s1" and "claim2 (at2 s1) = claim2 (at2 s)"
    and "may_wait2 (at2 s1) = Some (Sem_Obj n)"
    and "camera_ok (at1 s) (at2 s1) (cam s1) (take_sem Task2 n (objects_of (krn s)))" and "await n s1 = Inr s'"
  shows "sys_inv s'"
proof -
  note f = moves2_simps [OF assms(4)]
  obtain k where k: "await n s1 = Inr (s1\<lparr>krn := k\<rparr>)" "kernel_ok k" "objects_of k = take_sem Task2 n (objects_of (krn s))"
    using await_ok [of s1 n] inv_current(1) [OF assms(1)] assms(2,3) by (auto simp: f tasks)
  have "sys_inv (s1\<lparr>krn := k\<rparr>)"
    by (rule sem_inv [OF assms(1,2) _ _ k(2,3)])
      (simp_all add: f(2,4) assms(6,7), simp add: f(3,5) assms(5) fun_upd_idem)
  then show ?thesis using k(1) assms(8) by simp
qed

text \<open>The posts of the card reader driver go to the card task alone.\<close>

lemma post_reader_inv:
  assumes "sys_inv s"
  shows "\<exists>k. post OS_OPT_POST_1 magnetic_updated_sem s = Inr (s\<lparr>krn := k\<rparr>) \<and> sys_inv (s\<lparr>krn := k\<rparr>)"
proof (rule post_inv [OF assms])
  fix ws
  assume r: "released magnetic_updated_sem OS_OPT_POST_1 (krn s) ws"
  then have w: "waits (objects_of (krn s)) u = Some (Sem_Obj magnetic_updated_sem)" if "u \<in> ws" for u
    using that by (auto simp: released_def first_waiter_def objects_of_def OS_OPT_POST_1_def split: if_splits)
  have "waitable s TaskStart \<noteq> Some (Sem_Obj magnetic_updated_sem)"
    by (cases "at1 s") (simp_all add: waitable_def may_wait_def sem_ids)
  then have "TaskStart \<notin> ws" using w assms by (auto simp: sys_inv_def waits_ok_def)
  moreover have "waits (objects_of (krn s)) Task2 = Some (Sem_Obj photo_ready_sem) \<Longrightarrow> Task2 \<notin> ws"
    using w by (auto simp: sem_ids)
  moreover have "camera_ok (at1 s) (at2 s) (cam s) (objects_of (krn s))" using assms by (simp add: sys_inv_def)
  ultimately show "camera_ok (at1 s) (at2 s) (cam s) (give_sem magnetic_updated_sem ws (objects_of (krn s)))"
    by (auto simp: camera_ok_def give_sem_def sem_ids)
qed (use assms in \<open>auto simp: sys_inv_def sem_ids\<close>)

lemma post_times_inv:
  assumes "\<And>s. sys_inv s \<Longrightarrow> \<exists>k. post opt n s = Inr (s\<lparr>krn := k\<rparr>) \<and> sys_inv (s\<lparr>krn := k\<rparr>)" and "sys_inv s"
  shows "\<exists>k. post_times c opt n s = Inr (s\<lparr>krn := k\<rparr>) \<and> sys_inv (s\<lparr>krn := k\<rparr>)"
  using assms(2)
proof (induction c arbitrary: s)
  case 0
  then show ?case by (intro exI [of _ "krn s"]) simp
next
  case (Suc c)
  obtain k where "post opt n s = Inr (s\<lparr>krn := k\<rparr>)" "sys_inv (s\<lparr>krn := k\<rparr>)" using assms(1) [OF Suc.prems] by blast
  with Suc.IH [of "s\<lparr>krn := k\<rparr>"] show ?case by auto
qed

lemma use_reader_inv:
  assumes "\<And>r. sys_inv (s\<lparr>reader := r\<rparr>)" and "use_reader f s = Inr s'"
  shows "sys_inv s' \<and> (\<exists>r k. s' = s\<lparr>krn := k, reader := r\<rparr>)"
proof -
  obtain r where "f (reader s) = Inr r" "post_times (updated_posts r - updated_posts (reader s)) OS_OPT_POST_1
      magnetic_updated_sem (s\<lparr>reader := r\<rparr>) = Inr s'"
    using assms(2) by (auto simp: use_reader_def bindR_eq_Inr_iff)
  moreover obtain k where "post_times (updated_posts r - updated_posts (reader s)) OS_OPT_POST_1
      magnetic_updated_sem (s\<lparr>reader := r\<rparr>) = Inr (s\<lparr>reader := r, krn := k\<rparr>)" and i: "sys_inv (s\<lparr>reader := r, krn := k\<rparr>)"
    using post_times_inv [OF post_reader_inv assms(1)] by blast
  ultimately have e: "s' = s\<lparr>reader := r, krn := k\<rparr>" by simp
  have "sys_inv s'" using i unfolding e .
  moreover have "s' = s\<lparr>krn := k, reader := r\<rparr>" unfolding e by simp
  ultimately show ?thesis by blast
qed

lemma card_task_posts:
  assumes "sys_inv s" and "OSTCBCurPtr (krn s) = Task2" and "at2 s = Send_Post"
    and "post OS_OPT_POST_ALL send_email_sem (s\<lparr>at2 := Door_Open\<rparr>) = Inr s'"
  shows "sys_inv s'"
proof -
  let ?s1 = "s\<lparr>at2 := Door_Open\<rparr>" and ?v = "objects_of (krn s)"
  have i: "claims_ok ?v (claims s)" "waits_ok ?v (waitable s)" "camera_ok (at1 s) (at2 s) (cam s) ?v"
    using assms(1) by (simp_all add: sys_inv_def)
  have m: "moves2 s ?s1" by (simp add: moves2_def held_def)
  note f = moves2_simps [OF m]
  have w: "waits_ok ?v (waitable ?s1)"
    using waits_move [OF i(2)] inv_current(2) [OF assms(1)] assms(2) unfolding f(4) by simp
  have "claim2 Door_Open = claim2 Send_Post" by (simp add: claim2_def fun_eq_iff)
  then have cl: "claims ?s1 = claims s" using f(3,5) assms(3) by (simp add: fun_upd_idem)
  have no: "\<not> in_photo (at2 s)" using assms(3) by (simp add: in_photo_def)
  have cam: "camera_ok (at1 s) Door_Open (cam s) ?v" by (rule camera_leaves [OF assms(1)]) (simp add: no)
  have "camera_ok (at1 s) Door_Open (cam s) (give_sem send_email_sem ws ?v)"
    if r: "released send_email_sem OS_OPT_POST_ALL (krn s) ws" for ws
  proof -
    have u: "waits ?v u = Some (Sem_Obj send_email_sem)" if "u \<in> ws" for u
      using r that by (auto simp: released_def first_waiter_def objects_of_def split: if_splits)
    have "waitable s TaskStart \<noteq> Some (Sem_Obj send_email_sem)"
      by (cases "at1 s") (simp_all add: waitable_def may_wait_def sem_ids)
    then have "TaskStart \<notin> ws" using u i(2) by (auto simp: waits_ok_def)
    then show ?thesis using cam by (auto simp: camera_ok_def give_sem_def sem_ids in_photo_def)
  qed
  then have "\<exists>k. post OS_OPT_POST_ALL send_email_sem ?s1 = Inr (?s1\<lparr>krn := k\<rparr>) \<and> sys_inv (?s1\<lparr>krn := k\<rparr>)"
    using cam by (intro post_inv [OF assms(1) _ _ _ cl w]) (simp_all add: sem_ids)
  then show ?thesis using assms(4) by auto
qed

text \<open>When the card task has its picture, no other is on its way and every line is stored.\<close>

lemma photo_done:
  assumes "sys_inv s" and "OSTCBCurPtr (krn s) = Task2" and "at2 s = Bitmap_Post"
  shows "camera_ok (at1 s) p (cam s) (objects_of (krn s))"
proof -
  have "camera_ok (at1 s) (at2 s) (cam s) (objects_of (krn s))" using assms(1) by (simp add: sys_inv_def)
  moreover have "OSTCBCurPtr (krn s) \<noteq> TaskStart" using assms(2) by (simp add: tasks)
  ultimately show ?thesis
    using inv_current(2-4) [OF assms(1)] assms(2,3) by (auto simp: camera_ok_def)
qed

lemma task2_inv:
  assumes i: "sys_inv s" and c: "OSTCBCurPtr (krn s) = Task2" and n: "\<forall>m. OwnerNestingCtr (krn s) m \<noteq> 255"
    and st: "task2_step fl s = Inr s'"
  shows "sys_inv s'"
proof -
  note n2 = n [rule_format]
  have mv: "moves2 s (s\<lparr>at2 := p\<rparr>)" "moves2 s (s\<lparr>at2 := p, card_id := d\<rparr>)" "moves2 s (s\<lparr>at2 := p, id_in_list := b\<rparr>)"
    "moves2 s (s\<lparr>at2 := p, reader := r\<rparr>)" "moves2 s (s\<lparr>at2 := p, doors := dn\<rparr>)" "moves2 s (s\<lparr>at2 := p, cam := cm\<rparr>)"
    "moves2 s (compressed z s)" for p d b r dn cm z by (simp_all add: moves2_def held_def compressed_def split: prod.splits)
  note leave = camera_leaves [OF i]
  have cam: "camera_ok (at1 s) (at2 s) (cam s) (objects_of (krn s))" using i by (simp add: sys_inv_def)
  note defs = task2_step_def claim2_def fun_eq_iff mutex_ids in_photo_def
  note cams = camera_ok_def take_sem_def shooting_def sem_ids tasks
  show ?thesis
  proof (cases "at2 s")
    case Card_Init
    have "sys_inv (s\<lparr>at2 := Card_Pend, reader := r\<rparr>)" for r
      by (rule move2 [OF i c mv(4)]) (use Card_Init in \<open>auto simp: defs intro: leave\<close>)
    then show ?thesis using st Card_Init use_reader_inv by (auto simp: task2_step_def)
  next
    case Card_Pend
    show ?thesis
      by (rule await2 [OF i c _ mv(1) _ _ _ st [unfolded task2_step_def Card_Pend, simplified]])
        (use Card_Pend leave [of Card_State] in \<open>auto simp: defs cams\<close>)
  next
    case Card_State
    then show ?thesis using st by (auto simp: defs intro!: move2 [OF i c mv(1)] leave)
  next
    case Id_Pend
    show ?thesis
      by (rule lock2 [OF i c n2 _ mv(1) _ _ _ _ st [unfolded task2_step_def Id_Pend, simplified]])
        (use Id_Pend in \<open>auto simp: defs\<close>)
  next
    case Id_Data
    then show ?thesis using st by (auto simp: defs intro!: move2 [OF i c mv(2)] leave)
  next
    case Id_Post
    show ?thesis
      by (rule unlock2 [OF i c _ mv(1) _ _ _ _ st [unfolded task2_step_def Id_Post, simplified]])
        (use Id_Post in \<open>auto simp: defs intro: leave\<close>)
  next
    case List_Pend
    show ?thesis
      by (rule lock2 [OF i c n2 _ mv(1) _ _ _ _ st [unfolded task2_step_def List_Pend, simplified]])
        (use List_Pend in \<open>auto simp: defs\<close>)
  next
    case List_Search
    then show ?thesis using st by (auto simp: defs bindR_eq_Inr_iff intro!: move2 [OF i c mv(3)] leave)
  next
    case List_Post
    show ?thesis
      by (rule unlock2 [OF i c _ mv(1) _ _ _ _ st [unfolded task2_step_def List_Post, simplified]])
        (use List_Post in \<open>auto simp: defs intro: leave\<close>)
  next
    case Reading_Off
    then show ?thesis using st by (auto simp: defs intro!: move2 [OF i c mv(4)] leave)
  next
    case Bitmap_Pend
    show ?thesis
      by (rule lock2 [OF i c n2 _ mv(1) _ _ _ _ st [unfolded task2_step_def Bitmap_Pend, simplified]])
        (use Bitmap_Pend in \<open>auto simp: defs\<close>)
  next
    case Take_Picture
    have "camera_ok (at1 s) Photo_Pend (OV7670_TakePicture (Some Photo_is_ready) (cam s)) (objects_of (krn s))"
      using cam Take_Picture by (auto simp: camera_ok_def shooting_def in_photo_def OV7670_TakePicture_def)
    then show ?thesis using st Take_Picture by (auto simp: defs intro!: move2 [OF i c mv(6)])
  next
    case Photo_Pend
    have one: "count (objects_of (krn s)) photo_ready_sem = 0 \<or> count (objects_of (krn s)) photo_ready_sem = 1"
      using cam by (simp add: camera_ok_def u32_le_1)
    show ?thesis
      by (rule await2 [OF i c _ mv(1) _ _ _ st [unfolded task2_step_def Photo_Pend, simplified]])
        (use Photo_Pend cam one in \<open>auto simp: defs cams\<close>)
  next
    case Bitmap_Post
    show ?thesis
      by (rule unlock2 [OF i c _ mv(1) _ _ _ _ st [unfolded task2_step_def Bitmap_Post, simplified]])
        (use Bitmap_Post photo_done [OF i c] in \<open>auto simp: defs\<close>)
  next
    case Compress_Pend
    show ?thesis
      by (rule lock2 [OF i c n2 _ mv(1) _ _ _ _ st [unfolded task2_step_def Compress_Pend, simplified]])
        (use Compress_Pend in \<open>auto simp: defs\<close>)
  next
    case Compress
    then obtain z where z: "s' = compressed z s" using st by (auto simp: task2_step_def bindR_eq_Inr_iff)
    have "same_phase (cam s) (cam (compressed z s))" "at2 (compressed z s) = Compress_Post"
      by (auto simp: compressed_def same_phase_def split: prod.splits)
    then show ?thesis unfolding z using Compress leave [of Compress_Post]
      by (intro move2 [OF i c mv(7)]) (auto simp: defs camera_phase)
  next
    case Compress_Post
    show ?thesis
      by (rule unlock2 [OF i c _ mv(1) _ _ _ _ st [unfolded task2_step_def Compress_Post, simplified]])
        (use Compress_Post in \<open>auto simp: defs intro: leave\<close>)
  next
    case Send_Post
    then show ?thesis using card_task_posts [OF i c Send_Post] st by (simp add: task2_step_def)
  next
    case Door_Open
    then show ?thesis using st by (auto simp: defs intro!: move2 [OF i c mv(5)] leave)
  next
    case Reading_On
    have "sys_inv (s\<lparr>at2 := Card_Pend, reader := r\<rparr>)" for r
      by (rule move2 [OF i c mv(4)]) (use Reading_On in \<open>auto simp: defs intro: leave\<close>)
    then show ?thesis using st Reading_On use_reader_inv by (auto simp: task2_step_def)
  qed
qed

end
