(* ===== verification/Tasks_Safe.thy ===== *)
theory Tasks_Safe
  imports Tasks_Inv
begin

unbundle bit_operations_syntax

text \<open>
  The invariant of the tasks holds in every state the program reaches. It gives what a mail session
  may rely on while it is open, and what happens after a mail that could not be opened.
\<close>

section \<open>The network task and the interrupts\<close>

text \<open>Steps of the network task.\<close>

definition moves3 :: "sys \<Rightarrow> sys \<Rightarrow> bool" where
  "moves3 s s1 \<longleftrightarrow> krn s1 = krn s \<and> at1 s1 = at1 s \<and> at2 s1 = at2 s \<and> cam s1 = cam s"

lemma moves3_simps:
  assumes "moves3 s s1"
  shows "krn s1 = krn s" "at1 s1 = at1 s" "at2 s1 = at2 s" "cam s1 = cam s"
    "claims s1 = (claims s)(Task3 := claim3 (at3 s1) (held s1))"
    "waitable s1 = (waitable s)(Task3 := may_wait3 (at3 s1))" "claims s Task3 = claim3 (at3 s) (held s)"
proof -
  show "waitable s1 = (waitable s)(Task3 := may_wait3 (at3 s1))"
    using assms by (intro waitable_upd(3)) (simp_all add: moves3_def)
  show "claims s Task3 = claim3 (at3 s) (held s)" by (simp add: claims_def tasks)
qed (use assms in \<open>auto simp: moves3_def intro!: claims_upd\<close>)

lemma camera_stays: "sys_inv s \<Longrightarrow> camera_ok (at1 s) (at2 s) (cam s) (objects_of (krn s))"
  by (simp add: sys_inv_def)

lemma lock3:
  assumes "sys_inv s" and "OSTCBCurPtr (krn s) = Task3" and "OwnerNestingCtr (krn s) m \<noteq> 255" and "m < 4"
    and "moves3 s s1" and "may_wait3 (at3 s1) = Some (Mutex_Obj m)"
    and "claim3 (at3 s1) (held s1) = (claim3 (at3 s) (held s))(m := claim3 (at3 s) (held s) m + 1)"
    and "lock m s1 = Inr s'"
  shows "sys_inv s'"
proof -
  note f = moves3_simps [OF assms(5)]
  have "\<exists>k. lock m s1 = Inr (s1\<lparr>krn := k\<rparr>) \<and> sys_inv (s1\<lparr>krn := k\<rparr>)"
    by (rule lock_inv [OF assms(1,2) _ assms(4,3) f(1,2,4)]) (simp_all add: f assms(6,7))
  then show ?thesis using assms(8) by auto
qed

lemma unlock3:
  assumes "sys_inv s" and "OSTCBCurPtr (krn s) = Task3" and "m < 4" and "moves3 s s1"
    and "claim3 (at3 s1) (held s1) = (claim3 (at3 s) (held s))(m := claim3 (at3 s) (held s) m - 1)"
    and "0 < claim3 (at3 s) (held s) m" and "unlock m s1 = Inr s'"
  shows "sys_inv s'"
proof -
  note f = moves3_simps [OF assms(4)]
  have "\<exists>k. unlock m s1 = Inr (s1\<lparr>krn := k\<rparr>) \<and> sys_inv (s1\<lparr>krn := k\<rparr>)"
    by (rule unlock_inv [OF assms(1,2) _ assms(3) _ f(1,2,4) _ f(6)])
      (simp_all add: f(3,5,7) assms(5,6) camera_stays [OF assms(1)])
  then show ?thesis using assms(7) by auto
qed

lemma move3:
  assumes "sys_inv s" and "OSTCBCurPtr (krn s) = Task3" and "moves3 s s1"
    and "claim3 (at3 s1) (held s1) = claim3 (at3 s) (held s)"
  shows "sys_inv s1"
proof -
  note f = moves3_simps [OF assms(3)]
  show ?thesis
    by (rule move_inv [OF assms(1,2) f(1) _ f(6)])
      (simp_all add: f(2-4) camera_stays [OF assms(1)], simp add: f(5,7) assms(4) fun_upd_idem)
qed

lemma serve_page_cases:
  assumes "serve_page uri s = Inr s'"
  obtains "s' = s" | vals where "lock email_mutex (s\<lparr>at3 := Email_Store vals\<rparr>) = Inr s'"
    | n vals where "lock id_list_mutex (s\<lparr>at3 := Cards_Store n vals\<rparr>) = Inr s'" | w where "s' = s\<lparr>web := w\<rparr>"
proof -
  obtain base params where cut: "strcut 63 uri = (base, params)" by (cases "strcut 63 uri")
  obtain n vals where par: "extract_uri_parameters params = (n, vals)" by (cases "extract_uri_parameters params")
  show ?thesis
  proof (cases "find_cgi 0 theCGItable base")
    case None
    then show ?thesis using that(1) assms cut by (simp add: serve_page_def)
  next
    case (Some ic)
    obtain i c where ic: "ic = (i, c)" by (cases ic)
    from assms Some cut par ic show ?thesis
      by (cases c) (auto simp: serve_page_def bindR_eq_Inr_iff intro: that)
  qed
qed

lemma serve_page_inv:
  assumes "sys_inv s" and "OSTCBCurPtr (krn s) = Task3" and "\<forall>m. OwnerNestingCtr (krn s) m \<noteq> 255" and "at3 s = Poll"
    and "serve_page uri s = Inr s'"
  shows "sys_inv s'"
proof -
  have mv: "moves3 s (s\<lparr>at3 := p\<rparr>)" "moves3 s (s\<lparr>web := w\<rparr>)" for p w by (simp_all add: moves3_def)
  note lk = lock3 [OF assms(1,2) assms(3) [rule_format] _ mv(1)]
  note defs = claim3_def fun_eq_iff mutex_ids held_def
  from assms(5) show ?thesis
  proof (cases rule: serve_page_cases)
    case 1
    then show ?thesis using assms(1) by simp
  next
    case (2 vals)
    show ?thesis by (rule lk [OF _ _ _ 2]) (simp_all add: defs assms(4))
  next
    case (3 n vals)
    show ?thesis by (rule lk [OF _ _ _ 3]) (simp_all add: defs assms(4))
  next
    case (4 w)
    show ?thesis unfolding 4 by (rule move3 [OF assms(1,2) mv(2)]) (simp add: held_def)
  qed
qed

lemma serve_mail_cases:
  assumes "serve_mail ipa i e s = Inr s'"
  obtains "s' = s"
    | arg t cb where "i < length (mails s)"
        "smtp_step ipa (auth s) (mail_memory s) e (Some (fst (mails s ! i))) (snd (mails s ! i)) = Inr (arg, t, cb)"
        "s' = s\<lparr>at3 := (if cb = None then Poll else Result_Id), mails :=
           (case arg of None \<Rightarrow> take i (mails s) @ drop (Suc i) (mails s) | Some ss \<Rightarrow> (mails s)[i := (ss, t)])\<rparr>"
proof (cases "i < length (mails s)")
  case False
  then show ?thesis using that(1) assms by (simp add: serve_mail_def)
next
  case True
  then obtain arg t cb where
      "smtp_step ipa (auth s) (mail_memory s) e (Some (fst (mails s ! i))) (snd (mails s ! i)) = Inr (arg, t, cb)"
      "s' = s\<lparr>at3 := (if cb = None then Poll else Result_Id), mails :=
         (case arg of None \<Rightarrow> take i (mails s) @ drop (Suc i) (mails s) | Some ss \<Rightarrow> (mails s)[i := (ss, t)])\<rparr>"
    using assms by (auto simp: serve_mail_def bindR_eq_Inr_iff)
  then show ?thesis by (rule that(2) [OF True])
qed

lemma serve_mail_inv:
  assumes "sys_inv s" and "OSTCBCurPtr (krn s) = Task3" and "at3 s = Poll" and "serve_mail ipa i e s = Inr s'"
  shows "sys_inv s'"
  using assms(4)
proof (cases rule: serve_mail_cases)
  case 1
  then show ?thesis using assms(1) by simp
next
  case (2 arg t cb)
  show ?thesis
  proof (rule move3 [OF assms(1,2)])
    show "moves3 s s'" by (simp add: moves3_def 2(3))
    show "claim3 (at3 s') (held s') = claim3 (at3 s) (held s)"
      using step_result [OF 2(2)] 2(1) assms(3) by (cases arg) (auto simp: 2(3) claim3_def held_def fun_eq_iff)
  qed
qed

lemma poll_mail_inv:
  assumes i: "sys_inv s" and c: "OSTCBCurPtr (krn s) = Task3" and "at3 s = Mail_Pend" and "task3_step ipa e a s = Inr s'"
  shows "sys_inv s'"
proof -
  let ?v = "objects_of (krn s)"
  note cur = inv_current(1,2) [OF i, unfolded c]
  obtain r k1 where k: "OSSemPend send_email_sem 0 OS_OPT_PEND_NON_BLOCKING (krn s) = Inr (r, k1)" "kernel_ok k1"
    "objects_of k1 = (if Ctr (krn s) send_email_sem = 0 then ?v else take_sem Task3 send_email_sem ?v)"
    using poll_mail_ok [OF cur(1)] c by (auto simp: tasks)
  define s1 where "s1 = s\<lparr>at3 := if r = Returned OS_ERR_NONE then Mail_Bitmap else Poll\<rparr>"
  have s': "s' = s1\<lparr>krn := k1\<rparr>" using assms(3,4) k(1) by (auto simp: task3_step_def s1_def)
  have "sys_inv s1"
    by (rule move3 [OF i c]) (use assms(3) in \<open>simp_all add: s1_def moves3_def held_def claim3_def fun_eq_iff\<close>)
  moreover have "krn s1 = krn s" by (simp add: s1_def)
  ultimately have i1: "claims_ok ?v (claims s1)" "waits_ok ?v (waitable s1)" "camera_ok (at1 s1) (at2 s1) (cam s1) ?v"
    by (simp_all add: sys_inv_def)
  show ?thesis
  proof (cases "Ctr (krn s) send_email_sem = 0")
    case True
    then show ?thesis using i1 k(2,3) by (simp add: s' sys_inv_def)
  next
    case False
    then have "count ?v send_email_sem \<noteq> 0" by (simp add: objects_of_def)
    then have "take_sem Task3 send_email_sem ?v = ?v\<lparr>count := (count ?v)(send_email_sem := count ?v send_email_sem - 1)\<rparr>"
      by (simp add: take_sem_def)
    then have "waits_ok (objects_of k1) (waitable s1)" "camera_ok (at1 s1) (at2 s1) (cam s1) (objects_of k1)"
      using False i1(2,3) k(3) by (simp_all add: waits_ok_def camera_ok_def sem_ids)
    moreover have "claims_ok (objects_of k1) (claims s1)" using claims_sem(1) [OF i1(1) cur(2)] False k(3) by simp
    ultimately show ?thesis using k(2) by (simp add: s' sys_inv_def)
  qed
qed

lemma task3_inv:
  assumes i: "sys_inv s" and c: "OSTCBCurPtr (krn s) = Task3" and n: "\<forall>m. OwnerNestingCtr (krn s) m \<noteq> 255"
    and st: "task3_step ipa e a s = Inr s'"
  shows "sys_inv s'"
proof -
  note n3 = n [rule_format]
  have mv: "moves3 s (s\<lparr>at3 := p\<rparr>)" "moves3 s (s\<lparr>access_time := t, access_time_file := tf\<rparr>)"
    "moves3 s (s\<lparr>at3 := p, web := w\<rparr>)" "moves3 s (open_mail a s)" for p t tf w
    by (simp_all add: moves3_def open_mail_def Let_def split: option.splits)
  note defs = task3_step_def claim3_def fun_eq_iff mutex_ids held_def
  show ?thesis
  proof (cases "at3 s")
    case Poll
    show ?thesis
    proof (cases e)
      case No_Event
      then show ?thesis using st Poll by (auto simp: defs intro!: move3 [OF i c mv(1)])
    next
      case (Page_Request uri)
      then show ?thesis using st Poll serve_page_inv [OF i c n Poll] by (simp add: task3_step_def)
    next
      case (Mail_Event j ev)
      then show ?thesis using st Poll serve_mail_inv [OF i c Poll] by (simp add: task3_step_def)
    next
      case (Time_Set sec)
      then show ?thesis using st Poll by (auto simp: task3_step_def held_def bindR_eq_Inr_iff intro!: move3 [OF i c mv(2)])
    qed
  next
    case (Email_Store v)
    then show ?thesis using st by (auto simp: defs bindR_eq_Inr_iff intro!: move3 [OF i c mv(3)])
  next
    case Email_Post
    show ?thesis
      by (rule unlock3 [OF i c _ mv(1) _ _ st [unfolded task3_step_def Email_Post, simplified]])
        (use Email_Post in \<open>auto simp: defs\<close>)
  next
    case (Cards_Store k v)
    then show ?thesis using st by (auto simp: defs bindR_eq_Inr_iff intro!: move3 [OF i c mv(3)])
  next
    case Cards_Post
    show ?thesis
      by (rule unlock3 [OF i c _ mv(1) _ _ st [unfolded task3_step_def Cards_Post, simplified]])
        (use Cards_Post in \<open>auto simp: defs\<close>)
  next
    case Result_Id
    show ?thesis
      by (rule unlock3 [OF i c _ mv(1) _ _ st [unfolded task3_step_def Result_Id, simplified]])
        (use Result_Id in \<open>auto simp: defs\<close>)
  next
    case Result_Email
    show ?thesis
      by (rule unlock3 [OF i c _ mv(1) _ _ st [unfolded task3_step_def Result_Email, simplified]])
        (use Result_Email in \<open>auto simp: defs\<close>)
  next
    case Result_Bitmap
    show ?thesis
      by (rule unlock3 [OF i c _ mv(1) _ _ st [unfolded task3_step_def Result_Bitmap, simplified]])
        (use Result_Bitmap in \<open>auto simp: defs\<close>)
  next
    case Mail_Pend
    show ?thesis by (rule poll_mail_inv [OF i c Mail_Pend st])
  next
    case Mail_Bitmap
    show ?thesis
      by (rule lock3 [OF i c n3 _ mv(1) _ _ st [unfolded task3_step_def Mail_Bitmap, simplified]])
        (use Mail_Bitmap in \<open>auto simp: defs\<close>)
  next
    case Mail_Email
    show ?thesis
      by (rule lock3 [OF i c n3 _ mv(1) _ _ st [unfolded task3_step_def Mail_Email, simplified]])
        (use Mail_Email in \<open>auto simp: defs\<close>)
  next
    case Mail_Id
    show ?thesis
      by (rule lock3 [OF i c n3 _ mv(1) _ _ st [unfolded task3_step_def Mail_Id, simplified]])
        (use Mail_Id in \<open>auto simp: defs\<close>)
  next
    case Mail_Open
    then have "s' = open_mail a s" using st by (simp add: task3_step_def)
    moreover have "claim3 (at3 (open_mail a s)) (held (open_mail a s)) = claim3 (at3 s) (held s)"
      by (auto simp: defs open_mail_def Let_def Mail_Open split: option.splits)
    ultimately show ?thesis using move3 [OF i c mv(4)] by simp
  qed
qed

text \<open>The camera may stop by itself, but it does not take a picture nobody asked for.\<close>

definition calmer :: "callback camera_state \<Rightarrow> callback camera_state \<Rightarrow> bool" where
  "calmer c c1 \<longleftrightarrow> picture_requested c1 = picture_requested c \<and> semProcessNewLine c1 = semProcessNewLine c \<and>
     (ov7670_state c1 = ov7670_state c \<or> ov7670_state c1 \<noteq> OV7670_is_taking_picture)"

lemma calmer_ok: "camera_ok p1 p2 c v \<Longrightarrow> calmer c c1 \<Longrightarrow> camera_ok p1 p2 c1 v"
proof -
  assume c: "camera_ok p1 p2 c v" "calmer c c1"
  have "shooting c1 \<longrightarrow> shooting c" using c(2) by (auto simp: calmer_def shooting_def)
  moreover have "semProcessNewLine c1 = 0" using c by (simp add: calmer_def camera_ok_def)
  moreover have "\<not> (picture_requested c1 \<and> ov7670_state c1 = OV7670_is_taking_picture)"
    using c unfolding calmer_def camera_ok_def by metis
  ultimately show ?thesis using c(1) unfolding camera_ok_def by blast
qed

lemma cam_frame [simp]:
  "claims (s\<lparr>cam := c\<rparr>) = claims s" "waitable (s\<lparr>cam := c\<rparr>) = waitable s"
  "claims (s\<lparr>reader := r\<rparr>) = claims s" "waitable (s\<lparr>reader := r\<rparr>) = waitable s"
  by (simp_all add: held_def claims_def waitable_def fun_eq_iff)

lemma cam_inv: "sys_inv s \<Longrightarrow> camera_ok (at1 s) (at2 s) c (objects_of (krn s)) \<Longrightarrow> sys_inv (s\<lparr>cam := c\<rparr>)"
  by (simp add: sys_inv_def)

lemma pixel_calmer: "pixel_clock v c = Inr c1 \<Longrightarrow> calmer c c1"
  by (auto simp: pixel_clock_def calmer_def bindR_eq_Inr_iff Let_def DMA_mayor_int_def split: prod.splits if_splits)

lemma vsync_cases:
  assumes "vertical_sync_rising c = Inr (c1, cb)"
  obtains (quiet) "cb = None" "c1 = c"
    | (begins) "cb = None" "picture_requested c" "\<not> picture_requested c1" "ov7670_state c1 = OV7670_is_taking_picture"
        "semProcessNewLine c1 = semProcessNewLine c"
    | (ends) d where "cb = picture_ready_callback c" "ov7670_state c = OV7670_is_taking_picture"
        "c1 = c\<lparr>cam_dma := d, ov7670_state := OV7670_new_picture\<rparr>"
proof -
  obtain d1 where d1: "quick_disable c = Inr (c\<lparr>cam_dma := d1\<rparr>)" using quick_disable_ex by blast
  let ?s1 = "c\<lparr>picture_requested := False, current_row := 0, active_row := True, row_complete := False,
    cam_dma := DMA_quick_config 0 PTC_PDIR_addr (aux_addr c) 0 2 DMA_16bit 2 (320 * 4) 0 (- (2 * 4 * 320)) (cam_dma c),
    ov7670_state := OV7670_is_taking_picture\<rparr>"
  obtain d2 where d2: "quick_enable ?s1 = Inr (?s1\<lparr>cam_dma := d2\<rparr>)" using quick_enable_ex by blast
  from assms d1 d2 show ?thesis
    by (auto simp: vertical_sync_rising_def Let_def split: if_splits intro: quiet begins ends)
qed

lemma href_cases:
  assumes "horizontal_ref_falling c = Inr c1"
  obtains (calm) "calmer c c1"
    | (line) "ov7670_state c = OV7670_is_taking_picture" "same_phase c (c1\<lparr>semProcessNewLine := semProcessNewLine c\<rparr>)"
        "semProcessNewLine c1 = semProcessNewLine c + 1"
proof -
  obtain d1 where d1: "quick_disable c = Inr (c\<lparr>cam_dma := d1\<rparr>)" using quick_disable_ex by blast
  let ?s1 = "c\<lparr>current_row := current_row c + 1, active_row := True\<rparr>"
  obtain d2 where d2: "quick_enable ?s1 = Inr (?s1\<lparr>cam_dma := d2\<rparr>)" using quick_enable_ex by blast
  from assms d1 d2 show ?thesis
    by (auto simp: horizontal_ref_falling_def Let_def calmer_def same_phase_def split: if_splits intro: that)
qed

text \<open>A released task was waiting for the object.\<close>

lemma released_waits: "released n opt k ws \<Longrightarrow> u \<in> ws \<Longrightarrow> waits (objects_of k) u = Some (Sem_Obj n)"
  by (auto simp: released_def first_waiter_def objects_of_def split: if_splits)

lemma released_not_1:
  assumes "sys_inv s" and "released n opt (krn s) ws" and "n \<noteq> semProcessNewLine_sem"
  shows "TaskStart \<notin> ws"
proof
  assume "TaskStart \<in> ws"
  then have "waits (objects_of (krn s)) TaskStart = Some (Sem_Obj n)" by (rule released_waits [OF assms(2)])
  then have "waitable s TaskStart = Some (Sem_Obj n)" using assms(1) by (simp add: sys_inv_def waits_ok_def)
  then show False using assms(3) by (cases "at1 s") (simp_all add: waitable_def may_wait_def)
qed

lemma photo_post:
  assumes i: "sys_inv s" and c: "ov7670_state (cam s) = OV7670_is_taking_picture"
    and st: "post OS_OPT_POST_ALL photo_ready_sem (s\<lparr>cam := (cam s)\<lparr>cam_dma := d, ov7670_state := OV7670_new_picture\<rparr>\<rparr>) = Inr s'"
  shows "sys_inv s'"
proof -
  let ?v = "objects_of (krn s)"
  let ?c = "(cam s)\<lparr>cam_dma := d, ov7670_state := OV7670_new_picture\<rparr>"
  note co = camera_stays [OF i]
  have cam: "camera_ok (at1 s) (at2 s) ?c ?v" by (rule calmer_ok [OF co]) (simp add: calmer_def)
  have "camera_ok (at1 s) (at2 s) ?c (give_sem photo_ready_sem ws ?v)"
    if r: "released photo_ready_sem OS_OPT_POST_ALL (krn s) ws" for ws
  proof (cases "ws = {}")
    case True
    then have "waits ?v Task2 \<noteq> Some (Sem_Obj photo_ready_sem)"
      using r by (auto simp: released_def objects_of_def OS_OPT_POST_ALL_def simp flip: ex_in_conv split: if_splits)
    then show ?thesis using co c True
      by (auto simp: camera_ok_def give_sem_def sem_ids shooting_def in_photo_def)
  next
    case False
    have "TaskStart \<notin> ws" by (rule released_not_1 [OF i r]) (simp add: sem_ids)
    then show ?thesis using co c False by (auto simp: camera_ok_def give_sem_def sem_ids shooting_def)
  qed
  then have "\<exists>k. post OS_OPT_POST_ALL photo_ready_sem (s\<lparr>cam := ?c\<rparr>) = Inr (s\<lparr>cam := ?c\<rparr>\<lparr>krn := k\<rparr>) \<and> sys_inv (s\<lparr>cam := ?c\<rparr>\<lparr>krn := k\<rparr>)"
    using cam i by (intro post_inv [OF i]) (simp_all add: sem_ids sys_inv_def)
  then show ?thesis using st by auto
qed

lemma line_post:
  assumes i: "sys_inv s" and p: "in_photo (at2 s)"
    and st: "post OS_OPT_POST_ALL semProcessNewLine_sem s = Inr s'"
  shows "sys_inv s'"
proof -
  let ?v = "objects_of (krn s)"
  note co = camera_stays [OF i]
  have "camera_ok (at1 s) (at2 s) (cam s) (give_sem semProcessNewLine_sem ws ?v)"
    if r: "released semProcessNewLine_sem OS_OPT_POST_ALL (krn s) ws" for ws
  proof -
    have "waits (give_sem semProcessNewLine_sem ws ?v) Task2 = Some (Sem_Obj photo_ready_sem) \<longleftrightarrow>
        waits ?v Task2 = Some (Sem_Obj photo_ready_sem)"
      using released_waits [OF r] by (auto simp: give_sem_def sem_ids)
    then show ?thesis using co p by (auto simp: camera_ok_def give_sem_def sem_ids)
  qed
  then have "\<exists>k. post OS_OPT_POST_ALL semProcessNewLine_sem s = Inr (s\<lparr>krn := k\<rparr>) \<and> sys_inv (s\<lparr>krn := k\<rparr>)"
    using co i by (intro post_inv [OF i]) (simp_all add: sem_ids sys_inv_def)
  then show ?thesis using st by auto
qed

lemma post_times_once: "post_times 1 opt n s = post opt n s"
  by (cases "post opt n s") simp_all

lemma isr_inv:
  assumes i: "sys_inv s" and st: "isr_step j s = Inr s'"
  shows "sys_inv s'"
proof (cases j)
  case (Reader_Clock p)
  have "sys_inv (s\<lparr>reader := r\<rparr>)" for r using i by (simp add: sys_inv_def)
  then show ?thesis using st Reader_Clock use_reader_inv by (auto simp: isr_step_def)
next
  case (Reader_Enable p)
  have "sys_inv (s\<lparr>reader := r\<rparr>)" for r using i by (simp add: sys_inv_def)
  then show ?thesis using st Reader_Enable use_reader_inv by (auto simp: isr_step_def)
next
  case (Camera_Pixel v)
  then obtain c where c: "pixel_clock v (cam s) = Inr c" "s' = s\<lparr>cam := c\<rparr>"
    using st by (auto simp: isr_step_def bindR_eq_Inr_iff)
  show ?thesis unfolding c(2) by (intro cam_inv [OF i] calmer_ok [OF camera_stays [OF i]] pixel_calmer [OF c(1)])
next
  case Camera_Configured
  have "calmer (cam s) (I2C_finished_callback (cam s))" by (simp add: calmer_def I2C_finished_callback_def)
  then have "sys_inv (s\<lparr>cam := I2C_finished_callback (cam s)\<rparr>)"
    by (intro cam_inv [OF i] calmer_ok [OF camera_stays [OF i]])
  then show ?thesis using st Camera_Configured by (simp add: isr_step_def)
next
  case Camera_HRef
  then obtain c where c: "horizontal_ref_falling (cam s) = Inr c"
      "post_times (semProcessNewLine c) OS_OPT_POST_ALL semProcessNewLine_sem (s\<lparr>cam := c\<lparr>semProcessNewLine := 0\<rparr>\<rparr>) = Inr s'"
    using st by (auto simp: isr_step_def bindR_eq_Inr_iff)
  note co = camera_stays [OF i]
  then have z: "semProcessNewLine (cam s) = 0" by (simp add: camera_ok_def)
  from c(1) show ?thesis
  proof (cases rule: href_cases)
    case calm
    then have "semProcessNewLine c = 0" "calmer (cam s) (c\<lparr>semProcessNewLine := 0\<rparr>)" using z by (simp_all add: calmer_def)
    moreover have "s' = s\<lparr>cam := c\<lparr>semProcessNewLine := 0\<rparr>\<rparr>" using c(2) calculation(1) by simp
    ultimately show ?thesis using cam_inv [OF i calmer_ok [OF co]] by simp
  next
    case line
    have "calmer (cam s) (c\<lparr>semProcessNewLine := 0\<rparr>)" using line(2) z by (simp add: same_phase_def calmer_def)
    then have j: "sys_inv (s\<lparr>cam := c\<lparr>semProcessNewLine := 0\<rparr>\<rparr>)" by (rule cam_inv [OF i calmer_ok [OF co]])
    have p: "in_photo (at2 s)" using co line(1) by (auto simp: camera_ok_def shooting_def in_photo_def)
    have "post OS_OPT_POST_ALL semProcessNewLine_sem (s\<lparr>cam := c\<lparr>semProcessNewLine := 0\<rparr>\<rparr>) = Inr s'"
      using c(2) by (simp only: line(3) z add_0 post_times_once)
    then show ?thesis using p by (intro line_post [OF j]) simp_all
  qed
next
  case Camera_VSync
  then obtain c cb where c: "vertical_sync_rising (cam s) = Inr (c, cb)"
      "(case cb of None \<Rightarrow> Inr (s\<lparr>cam := c\<rparr>)
        | Some Photo_is_ready \<Rightarrow> post OS_OPT_POST_ALL photo_ready_sem (s\<lparr>cam := c\<rparr>)) = Inr s'"
    using st by (auto simp: isr_step_def bindR_eq_Inr_iff)
  note co = camera_stays [OF i]
  from c(1) show ?thesis
  proof (cases rule: vsync_cases)
    case quiet
    then show ?thesis using c(2) i by simp
  next
    case begins
    have "camera_ok (at1 s) (at2 s) c (objects_of (krn s))"
      using co begins(2) by (auto simp: begins(3-5) camera_ok_def shooting_def)
    then show ?thesis using c(2) begins(1) cam_inv [OF i] by auto
  next
    case (ends d)
    have "sys_inv (s\<lparr>cam := c\<rparr>)"
      unfolding ends(3) by (rule cam_inv [OF i calmer_ok [OF co]]) (simp add: calmer_def)
    then show ?thesis using c(2) photo_post [OF i ends(2)]
      by (auto simp: ends(3) split: option.splits callback.splits)
  qed
qed

lemma nesting_all:
  assumes "sys_inv s" and "nesting_ok (krn s)"
  shows "\<forall>m. OwnerNestingCtr (krn s) m \<noteq> 255"
proof (intro allI notI)
  fix m
  assume a: "OwnerNestingCtr (krn s) m = 255"
  let ?v = "objects_of (krn s)"
  have cl: "claims_ok ?v (claims s)" using assms(1) by (simp add: sys_inv_def)
  have "taken ?v m \<noteq> 0" using a by (simp add: objects_of_def)
  then obtain t where "owner ?v m = Some t" using cl by (auto simp: claims_ok_def)
  then have "0 < claims s t m" using cl by (auto simp: claims_ok_def claim_ok_def split: if_splits)
  then have "m \<in> set [bitmap_mutex, id_mutex, email_mutex, id_list_mutex]"
    by (rule contrapos_pp) (simp add: claims_def claim2_def claim3_def)
  then show False using a assms(2) by (auto simp: nesting_ok_def)
qed

lemma step_inv:
  assumes "sys_inv s" and "run_step fl ipa ev s = Inr s'"
  shows "sys_inv s'"
proof -
  have n: "\<forall>m. OwnerNestingCtr (krn s) m \<noteq> 255" "sys_step fl ipa ev s = Inr s'"
    using assms nesting_all by (auto simp: run_step_def split: if_splits)
  show ?thesis
    using n task1_inv [OF assms(1)] task2_inv [OF assms(1) _ n(1)] task3_inv [OF assms(1) _ n(1)] isr_inv [OF assms(1)]
    using assms(1) by (cases ev) (auto simp: sys_step_def Let_def split: if_splits)
qed

section \<open>The start\<close>

definition start_checked :: "os result" where
  "start_checked = bindR (os_boot [(TaskStart, TASKSTART_PRIO)]) (foldR exec_checked start_calls)"

lemma foldR_checked: "foldR exec_checked cs k = Inr k1 \<Longrightarrow> foldR os_exec cs k = Inr k1"
  by (induction cs arbitrary: k) (auto simp: exec_checked_def bindR_eq_Inr_iff split: if_splits)

lemma start_returns: "\<exists>k. start_checked = Inr k"
proof -
  have "case start_checked of Inr k \<Rightarrow> True | Inl e \<Rightarrow> False" by code_simp
  then show ?thesis by (auto split: sum.splits)
qed

lemma start_fields:
  "case start_kernel of Inl e \<Rightarrow> True | Inr k \<Rightarrow>
    (TaskState k u, Prio k u, PendObjPtr k u) =
      (if u \<le> 3 then OS_TASK_STATE_RDY else OS_TASK_STATE_DEL,
       if u = 3 then 4 else if u = 2 then 3 else if u = 1 then 2 else if u = 0 then 31 else 0, None)"
  "case start_kernel of Inl e \<Rightarrow> True | Inr k \<Rightarrow>
    (OwnerTCBPtr k m, OwnerNestingCtr k m, Ctr k n) = (None, 0, 0)"
  "case start_kernel of Inl e \<Rightarrow> True | Inr k \<Rightarrow>
    (ObjType k (Mutex_Obj m), ObjType k (Sem_Obj n)) = (m < 4, n < 6)"
  "case start_kernel of Inl e \<Rightarrow> True | Inr k \<Rightarrow>
    (OSIntNestingCtr k, OSSchedLockNestingCtr k) = (0, 0)"
  by (code_simp, auto)+ code_simp

lemma start_ok:
  assumes "start_kernel = Inr k"
  shows "kernel_ok k" and "objects_of k = \<lparr>owner = \<lambda>m. None, taken = \<lambda>m. 0, waits = \<lambda>t. None, count = \<lambda>n. 0\<rparr>"
proof -
  obtain k1 where k1: "start_checked = Inr k1" using start_returns by blast
  then obtain k0 where k0: "os_boot [(TaskStart, TASKSTART_PRIO)] = Inr k0" "foldR exec_checked start_calls k0 = Inr k1"
    by (auto simp: start_checked_def bindR_eq_Inr_iff)
  then have e: "k1 = k" using assms foldR_checked by (fastforce simp: start_kernel_def)
  have "os_reach k0" by (rule os_reach.start [OF _ k0(1)]) (simp add: tasks)
  with k0(2) have "os_reach k1"
    by (rule foldR_invariant) (auto simp: exec_checked_def split: if_splits intro: os_reach.call)
  then have g: "good k" using reach_good e by simp
  note f = start_fields [unfolded assms, simplified]
  have "plain k" using f(1) by (simp add: plain_def)
  then show "kernel_ok k" using g f by (simp add: kernel_ok_def tasks)
  show "objects_of k = \<lparr>owner = \<lambda>m. None, taken = \<lambda>m. 0, waits = \<lambda>t. None, count = \<lambda>n. 0\<rparr>"
    using f by (simp add: objects_of_def fun_eq_iff)
qed

lemma start_inv: "sys_start s \<Longrightarrow> sys_inv s"
proof -
  assume a: "sys_start s"
  then have k: "start_kernel = Inr (krn s)" by (simp add: sys_start_def)
  have "claims s t m = 0" for t m
    using a by (simp add: sys_start_def claims_def claim2_def claim3_def held_def)
  then have "claims_ok (objects_of (krn s)) (claims s)" by (simp add: start_ok(2) [OF k] claims_ok_def claim_ok_def)
  then show ?thesis
    using a start_ok [OF k] by (simp add: sys_inv_def sys_start_def waits_ok_def camera_ok_def shooting_def)
qed

lemma reach_inv: "sys_reach fl ipa s \<Longrightarrow> sys_inv s"
  by (induction rule: sys_reach.induct) (auto intro: start_inv step_inv)

section \<open>What the mutexes protect\<close>

text \<open>Calls of the kernel change nothing else.\<close>

lemma call_frames:
  "lock m s = Inr s' \<Longrightarrow> \<exists>k. s' = s\<lparr>krn := k\<rparr>" "unlock m s = Inr s' \<Longrightarrow> \<exists>k. s' = s\<lparr>krn := k\<rparr>"
  "await n s = Inr s' \<Longrightarrow> \<exists>k. s' = s\<lparr>krn := k\<rparr>" "post opt n s = Inr s' \<Longrightarrow> \<exists>k. s' = s\<lparr>krn := k\<rparr>"
  by (auto simp: lock_def unlock_def await_def post_def bindR_eq_Inr_iff)

lemma post_times_frame: "post_times c opt n s = Inr s' \<Longrightarrow> \<exists>k. s' = s\<lparr>krn := k\<rparr>"
proof (induction c arbitrary: s)
  case 0
  then show ?case by (intro exI [of _ "krn s"]) simp
next
  case (Suc c)
  then obtain s1 where "post opt n s = Inr s1" "post_times c opt n s1 = Inr s'" by (auto simp: bindR_eq_Inr_iff)
  then show ?case using Suc.IH [of s1] call_frames(4) by fastforce
qed

lemma use_reader_frame: "use_reader f s = Inr s' \<Longrightarrow> \<exists>k r. s' = s\<lparr>krn := k, reader := r\<rparr>"
proof -
  assume "use_reader f s = Inr s'"
  then obtain r c where "post_times c OS_OPT_POST_1 magnetic_updated_sem (s\<lparr>reader := r\<rparr>) = Inr s'"
    by (auto simp: use_reader_def bindR_eq_Inr_iff)
  from post_times_frame [OF this] obtain k where "s' = s\<lparr>reader := r, krn := k\<rparr>" by blast
  then have "s' = s\<lparr>krn := k, reader := r\<rparr>" by simp
  then show ?thesis by blast
qed

text \<open>While a mail is open or lost, the network task owns the three mutexes of the mail.\<close>

lemma claim3_mail: "m \<in> {bitmap_mutex, id_mutex, email_mutex} \<Longrightarrow> n \<le> claim3 p n m"
  by (auto simp only: claim3_def le_add1 insert_iff empty_iff split: if_splits)

lemma mail_owner:
  assumes i: "sys_inv s" and h: "0 < held s" and m: "m \<in> {bitmap_mutex, id_mutex, email_mutex}"
  shows "OwnerTCBPtr (krn s) m = Some Task3"
proof (rule claimed_owner [OF i])
  have c: "claims s Task3 = claim3 (at3 s) (held s)" by (simp add: claims_def tasks)
  show "0 < claims s Task3 m" using h claim3_mail [OF m, of "held s" "at3 s"] by (simp add: c)
  show "waits (objects_of (krn s)) Task3 \<noteq> Some (Mutex_Obj m)"
  proof
    assume a: "waits (objects_of (krn s)) Task3 = Some (Mutex_Obj m)"
    then have "waitable s Task3 = Some (Mutex_Obj m)" using i by (simp add: sys_inv_def waits_ok_def)
    then have "may_wait3 (at3 s) = Some (Mutex_Obj m)" by (simp add: waitable_def may_wait_def tasks)
    then have "1 < claim3 (at3 s) (held s) m" using h m by (cases "at3 s") (auto simp: claim3_def mutex_ids)
    moreover have "claim_ok (objects_of (krn s)) Task3 m (claims s Task3 m)"
      using i by (simp add: sys_inv_def claims_ok_def)
    ultimately show False using a by (auto simp: c claim_ok_def split: if_splits)
  qed
qed

text \<open>So the card task is not at a place where it has one of them.\<close>

lemma mail_excludes:
  assumes i: "sys_inv s" and h: "0 < held s" and "0 < claim2 (at2 s) m"
    and "OSTCBCurPtr (krn s) = Task2 \<or> in_photo (at2 s)"
  shows "m \<notin> {bitmap_mutex, id_mutex, email_mutex}"
proof
  assume m: "m \<in> {bitmap_mutex, id_mutex, email_mutex}"
  have "waits (objects_of (krn s)) Task2 \<noteq> Some (Mutex_Obj m)"
  proof
    assume a: "waits (objects_of (krn s)) Task2 = Some (Mutex_Obj m)"
    then have "OSTCBCurPtr (krn s) \<noteq> Task2" using inv_current(2) [OF i] by auto
    moreover have "waitable s Task2 = Some (Mutex_Obj m)" using a i by (simp add: sys_inv_def waits_ok_def)
    ultimately show False using assms(4) by (auto simp: waitable_def may_wait_def tasks in_photo_def)
  qed
  moreover have "0 < claims s Task2 m" using assms(3) by (simp add: claims_def)
  ultimately have "OwnerTCBPtr (krn s) m = Some Task2" by (intro claimed_owner [OF i])
  then show False using mail_owner [OF i h m] by (simp add: tasks)
qed

text \<open>What a mail reads, apart from the address and the time, and the doors still to be opened.\<close>

definition mail_data :: "sys \<Rightarrow> u8 list \<times> u8 list \<times> u32" where
  "mail_data s = (card_id s, bitmap_matrix (cam s), base64_size s)"

definition doors_left :: "sys \<Rightarrow> nat" where
  "doors_left s = doors s + of_bool (at2 s = Send_Post \<or> at2 s = Door_Open)"

lemma mail_step1:
  assumes i: "sys_inv s" and h: "0 < held s" and c: "OSTCBCurPtr (krn s) = TaskStart" and "task1_step s = Inr s'"
  shows "mail_data s' = mail_data s \<and> doors_left s' = doors_left s \<and> lost s' = lost s"
proof (cases "at1 s")
  case Line_Pend
  then show ?thesis using assms(4) call_frames(3)
    by (fastforce simp: task1_step_def mail_data_def doors_left_def)
next
  case Line_Process
  have "waits (objects_of (krn s)) TaskStart = None" using inv_current(2) [OF i] c by simp
  then have p: "in_photo (at2 s)" using camera_stays [OF i] Line_Process by (simp add: camera_ok_def)
  then have "0 < claim2 (at2 s) bitmap_mutex" by (auto simp: claim2_def in_photo_def mutex_ids)
  then show ?thesis using mail_excludes [OF i h] p by blast
qed

lemma mail_step2:
  assumes i: "sys_inv s" and h: "0 < held s" and c: "OSTCBCurPtr (krn s) = Task2" and st: "task2_step fl s = Inr s'"
  shows "mail_data s' = mail_data s \<and> doors_left s' \<le> doors_left s \<and> lost s' = lost s"
proof -
  have no: "at2 s \<notin> {Id_Data, Id_Post, Take_Picture, Photo_Pend, Bitmap_Post, Compress, Compress_Post}"
    using mail_excludes [OF i h, of id_mutex] mail_excludes [OF i h, of bitmap_mutex] c
    by (cases "at2 s") (simp_all add: claim2_def mutex_ids)
  note frames = call_frames use_reader_frame
  show ?thesis
    using st no by (cases "at2 s")
      (auto simp: task2_step_def mail_data_def doors_left_def bindR_eq_Inr_iff split: if_splits dest!: frames)
qed

lemma mail_step3:
  assumes "task3_step ipa e a s = Inr s'"
  shows "mail_data s' = mail_data s \<and> doors_left s' = doors_left s \<and> lost s \<le> lost s'"
proof -
  have c: "lock n (s\<lparr>at3 := q\<rparr>) = Inr s' \<Longrightarrow> mail_data s' = mail_data s \<and> doors_left s' = doors_left s \<and> lost s \<le> lost s'"
    "unlock n (s\<lparr>at3 := q\<rparr>) = Inr s' \<Longrightarrow> mail_data s' = mail_data s \<and> doors_left s' = doors_left s \<and> lost s \<le> lost s'" for n q
    by (auto simp: mail_data_def doors_left_def dest!: call_frames)
  have p: "mail_data s' = mail_data s \<and> doors_left s' = doors_left s \<and> lost s \<le> lost s'" if "serve_page uri s = Inr s'" for uri
    using that by (cases rule: serve_page_cases) (simp, erule c, erule c, simp add: mail_data_def doors_left_def)
  have m: "mail_data s' = mail_data s \<and> doors_left s' = doors_left s \<and> lost s \<le> lost s'" if "serve_mail ipa j ev s = Inr s'" for j ev
    using that by (cases rule: serve_mail_cases) (simp_all add: mail_data_def doors_left_def)
  have o: "mail_data (open_mail a s) = mail_data s \<and> doors_left (open_mail a s) = doors_left s \<and> lost s \<le> lost (open_mail a s)"
    by (simp add: open_mail_def mail_data_def doors_left_def Let_def split: option.splits)
  show ?thesis
  proof (cases "at3 s")
    case Poll
    then show ?thesis using assms p m
      by (cases e) (auto simp: task3_step_def mail_data_def doors_left_def bindR_eq_Inr_iff)
  next
    case (Email_Store vals)
    then show ?thesis using assms by (auto simp: task3_step_def mail_data_def doors_left_def bindR_eq_Inr_iff)
  next
    case (Cards_Store n vals)
    then show ?thesis using assms by (auto simp: task3_step_def mail_data_def doors_left_def bindR_eq_Inr_iff)
  next
    case Mail_Pend
    then show ?thesis using assms by (auto simp: task3_step_def mail_data_def doors_left_def bindR_eq_Inr_iff)
  next
    case Mail_Open
    then show ?thesis using assms o by (simp add: task3_step_def)
  qed (use assms in \<open>auto simp: task3_step_def dest!: c\<close>)
qed

lemma mail_isr:
  assumes "isr_step j s = Inr s'"
  shows "mail_data s' = mail_data s \<and> doors_left s' = doors_left s \<and> lost s' = lost s"
proof -
  have v: "vertical_sync_rising c = Inr (c1, cb) \<Longrightarrow> bitmap_matrix c1 = bitmap_matrix c" for c c1 :: "callback camera_state" and cb
    by (auto simp: vertical_sync_rising_def bindR_eq_Inr_iff quick_disable_def quick_enable_def Let_def split: if_splits)
  have r: "horizontal_ref_falling c = Inr c1 \<Longrightarrow> bitmap_matrix c1 = bitmap_matrix c" for c c1 :: "callback camera_state"
    by (auto simp: horizontal_ref_falling_def bindR_eq_Inr_iff quick_disable_def quick_enable_def Let_def split: if_splits)
  have x: "pixel_clock d c = Inr c1 \<Longrightarrow> bitmap_matrix c1 = bitmap_matrix c" for c c1 :: "callback camera_state" and d
    by (auto simp: pixel_clock_def bindR_eq_Inr_iff Let_def DMA_mayor_int_def split: prod.splits if_splits)
  show ?thesis
  proof (cases j)
    case Camera_VSync
    then obtain c cb where c: "vertical_sync_rising (cam s) = Inr (c, cb)"
      "(case cb of None \<Rightarrow> Inr (s\<lparr>cam := c\<rparr>)
        | Some Photo_is_ready \<Rightarrow> post OS_OPT_POST_ALL photo_ready_sem (s\<lparr>cam := c\<rparr>)) = Inr s'"
      using assms by (auto simp: isr_step_def bindR_eq_Inr_iff)
    have "\<exists>k. s' = s\<lparr>cam := c, krn := k\<rparr>"
    proof (cases cb)
      case None
      then have "s' = s\<lparr>cam := c\<rparr>" using c(2) by simp
      then show ?thesis by (intro exI [of _ "krn s"]) simp
    next
      case (Some x)
      then have "post OS_OPT_POST_ALL photo_ready_sem (s\<lparr>cam := c\<rparr>) = Inr s'" using c(2) by (cases x) simp
      from call_frames(4) [OF this] show ?thesis by auto
    qed
    then show ?thesis using v [OF c(1)] by (auto simp: mail_data_def doors_left_def)
  next
    case Camera_HRef
    then obtain c where c: "horizontal_ref_falling (cam s) = Inr c"
        "post_times (semProcessNewLine c) OS_OPT_POST_ALL semProcessNewLine_sem (s\<lparr>cam := c\<lparr>semProcessNewLine := 0\<rparr>\<rparr>) = Inr s'"
      using assms by (auto simp: isr_step_def bindR_eq_Inr_iff)
    then show ?thesis using r [OF c(1)] post_times_frame [OF c(2)] by (auto simp: mail_data_def doors_left_def)
  next
    case (Camera_Pixel d)
    then obtain c where c: "pixel_clock d (cam s) = Inr c" "s' = s\<lparr>cam := c\<rparr>"
      using assms by (auto simp: isr_step_def bindR_eq_Inr_iff)
    then show ?thesis using x [OF c(1)] by (simp add: mail_data_def doors_left_def)
  qed (use assms in \<open>auto simp: isr_step_def mail_data_def doors_left_def I2C_finished_callback_def dest!: use_reader_frame\<close>)
qed

lemma mail_step:
  assumes "sys_inv s" and "0 < held s" and "sys_step fl ipa ev s = Inr s'"
  shows "mail_data s' = mail_data s \<and> doors_left s' \<le> doors_left s \<and> lost s \<le> lost s'"
proof (cases ev)
  case (Run e a)
  then show ?thesis
    using assms(3) mail_step1 [OF assms(1,2)] mail_step2 [OF assms(1,2)] mail_step3
    by (auto simp: sys_step_def Let_def split: if_splits)
next
  case (Interrupt j)
  then show ?thesis using assms(3) mail_isr by (fastforce simp: sys_step_def)
qed

end
