(* ===== verification/Tasks_Run.thy ===== *)
theory Tasks_Run
  imports Tasks_Safe
begin

unbundle bit_operations_syntax

text \<open>
  The whole program: what holds in the states it reaches, and runs that show it. In the runs a card
  of the list passes the reader, the picture is taken and compressed, the door opens and the mail
  is opened, or lost.
\<close>

section \<open>Runs\<close>

definition dma_off :: "cam_fn dma_state" where
  "dma_off = \<lparr>TCD = (\<lambda>i. \<lparr>SADDR = 0, DADDR = 0, SOFF = 0, DOFF = 0, ATTR = 0, NBYTES = 0, CITER = 0,
       BITER = 0, SLAST = 0, DLAST_SGA = 0, CSR = 0\<rparr>),
     ERQ = 0, CHCFG = (\<lambda>i. 0), dma_SCGC6 = 0, dma_SCGC7 = 0, dma_nvic = (\<lambda>i. False),
     dma_irqhandler = Some DMA_mayor_int_fn,
     dma_gpio = \<lparr>PORT_SELECT = (\<lambda>p. \<lparr>PCR = (\<lambda>n. 0), DFER = 0, DFWR = 0, PDDR = 0, PDOR = 0, PDIR = 0\<rparr>),
       SCGC5 = 0, port_pin_interrupt = (\<lambda>p i. None), pin_irq_configured = (\<lambda>p i. 0),
       nvic_enabled = (\<lambda>p. False)\<rparr>\<rparr>"

text \<open>The start, with the picture, the queue of the camera and the account of the mail left open.\<close>

definition sys_example :: "u8 list \<Rightarrow> cam_fn fifo_state \<Rightarrow> auth_data \<Rightarrow> sys" where
  "sys_example bitmap q a =
     \<lparr>krn = (case start_kernel of Inr k \<Rightarrow> k | Inl e \<Rightarrow> os_blank), at1 = Line_Pend, at2 = Card_Init, at3 = Poll,
      reader = magnetic_power_on, card_id = replicate 9 0, id_in_list = False,
      cam = \<lparr>ov7670_state = OV7670_is_busy, semProcessNewLine = 0, picture_requested = False, current_row = 0,
        active_row = False, row_complete = False, picture_ready_callback = None, aux_buffer = [], aux_addr = 0,
        init_addr = 0, bitmap_matrix = bitmap, cam_dma = dma_off, cam_fifo = q, cam_ftm = ftm_power_on\<rparr>,
      base64_size = 0, web = web_example, access_time = replicate 32 0, access_time_file = replicate 32 0, auth = a,
      mails = [], lost = 0, doors = 0\<rparr>"

lemma example_start: "sys_start (sys_example bitmap q a)"
proof -
  obtain k where "start_checked = Inr k" using start_returns by blast
  then obtain k0 where k0: "os_boot [(TaskStart, TASKSTART_PRIO)] = Inr k0" "foldR exec_checked start_calls k0 = Inr k"
    by (auto simp: start_checked_def bindR_eq_Inr_iff)
  from foldR_checked [OF k0(2)] have k: "start_kernel = Inr k" by (simp add: start_kernel_def k0(1))
  show ?thesis by (simp add: sys_start_def sys_example_def k)
qed

text \<open>Rounds of the running task; the stack answers a mail with the outcome of the name look-up.\<close>

definition rounds :: "nat \<Rightarrow> err_t \<Rightarrow> sys_event list" where
  "rounds n err = replicate n (Run No_Event \<lparr>memory1 = True, memory2 = True, resolved = err, control_block = True,
     connecting = ERR_OK, connection = conn_example\<rparr>)"

fun isr_of :: "mag_input \<Rightarrow> sys_event list" where
  "isr_of (Clock_edge p) = [Interrupt (Reader_Clock p)]"
| "isr_of (Enable_edge p) = [Interrupt (Reader_Enable p)]"
| "isr_of _ = []"

definition card_swiped :: "sys_event list" where
  "card_swiped = concat (map isr_of (swipe 5 (track (bytes_of ''60612683'') [] @ [0x37]) 4))"

definition until_compress :: "sys_event list" where
  "until_compress = rounds 5 ERR_OK @ card_swiped @ rounds 11 ERR_OK
     @ [Interrupt Camera_Configured, Interrupt Camera_VSync, Interrupt Camera_VSync] @ rounds 2 ERR_OK"

abbreviation example_runs :: "sys_event list \<Rightarrow> sys \<Rightarrow> sys result" where
  "example_runs \<equiv> foldR (run_step (\<lambda>x. x) [])"

lemma compress_reached:
  "case example_runs until_compress (sys_example B q a) of Inl e \<Rightarrow> False | Inr s \<Rightarrow>
     at2 s = Compress \<and> OSTCBCurPtr (krn s) = Task2 \<and> nesting_ok (krn s)"
  "case example_runs until_compress (sys_example B q a) of Inl e \<Rightarrow> True | Inr s \<Rightarrow> bitmap_matrix (cam s) = B"
  by code_simp+

lemma mail_reached:
  "case example_runs until_compress (sys_example B q a) of Inl e \<Rightarrow> True | Inr s \<Rightarrow>
     (case example_runs (rounds 19 ERR_OK) (compressed (b, n) s) of Inl e \<Rightarrow> False | Inr s1 \<Rightarrow>
        mails s1 \<noteq> [] \<and> (case run_step (\<lambda>x. x) [] (Interrupt Camera_HRef) s1 of Inl e \<Rightarrow> False | Inr s2 \<Rightarrow> True))"
  by code_simp

lemma loss_reached:
  "case example_runs until_compress (sys_example B q a) of Inl e \<Rightarrow> True | Inr s \<Rightarrow>
     (case example_runs (rounds 19 ERR_VAL) (compressed (b, n) s) of Inl e \<Rightarrow> False | Inr s1 \<Rightarrow> lost s1 = 1 \<and> doors s1 = 1 \<and>
      (case example_runs (rounds 2 ERR_OK @ [Interrupt Camera_VSync]) s1 of Inl e \<Rightarrow> False | Inr s2 \<Rightarrow> doors s2 = 1))"
  by code_simp

text \<open>The grey picture is compressed, so the runs go on.\<close>

lemma reach_run: "sys_reach fl ipa s \<Longrightarrow> foldR (run_step fl ipa) evs s = Inr s' \<Longrightarrow> sys_reach fl ipa s'"
  by (rule foldR_invariant [where P = "sys_reach fl ipa"]) (auto intro: sys_reach.step)

lemma example_compresses:
  obtains s b n where "example_runs until_compress (sys_example grey q a) = Inr s" "sys_reach (\<lambda>x. x) [] s"
    "OSTCBCurPtr (krn s) = Task2" "at2 s = Compress" "sys_reach (\<lambda>x. x) [] (compressed (b, n) s)"
proof -
  obtain s where s: "example_runs until_compress (sys_example grey q a) = Inr s" "at2 s = Compress"
      "OSTCBCurPtr (krn s) = Task2" "nesting_ok (krn s)" "bitmap_matrix (cam s) = grey"
    using compress_reached [of grey q a] by (auto split: sum.splits)
  obtain b n where "compress_picture (\<lambda>x. x) grey = Inr (b, n)" using grey_compressed by blast
  then have "run_step (\<lambda>x. x) [] (Run No_Event undefined) s = Inr (compressed (b, n) s)"
    using s(2-5) by (simp add: run_step_def sys_step_def task2_step_def Let_def tasks)
  moreover have r: "sys_reach (\<lambda>x. x) [] s" by (rule reach_run [OF sys_reach.start [OF example_start] s(1)])
  ultimately have "sys_reach (\<lambda>x. x) [] (compressed (b, n) s)" using sys_reach.step by blast
  then show ?thesis using that s r by blast
qed

section \<open>Properties\<close>

text \<open>C19: The mutexes of the program are taken and given back in step. In every state it reaches, a
  mutex that nobody owns has the count zero; an owner is the card task or the network task, and the
  count is the number of calls its place in the code (and, for the network task, the mails that are
  open or lost) says; a task whose place says it has called for a mutex owns it or waits for it.\<close>

theorem mutex_counts:
  assumes "sys_reach fl ipa s"
  shows "(case OwnerTCBPtr (krn s) m of
       None \<Rightarrow> OwnerNestingCtr (krn s) m = 0
     | Some t \<Rightarrow> t \<in> {Task2, Task3} \<and> 0 < claims s t m \<and> unat (OwnerNestingCtr (krn s) m) = claims s t m) \<and>
    (\<forall>t. 0 < claims s t m \<longrightarrow> OwnerTCBPtr (krn s) m = Some t \<or> PendObjPtr (krn s) t = Some (Mutex_Obj m))"
proof -
  have c: "claims_ok (objects_of (krn s)) (claims s)" using reach_inv [OF assms] by (simp add: sys_inv_def)
  then have co: "claim_ok (objects_of (krn s)) t m (claims s t m)" for t by (simp add: claims_ok_def)
  have k: "if OwnerTCBPtr (krn s) m = Some t
      then 0 < claims s t m \<and> unat (OwnerNestingCtr (krn s) m) = claims s t m \<and> PendObjPtr (krn s) t \<noteq> Some (Mutex_Obj m)
      else if PendObjPtr (krn s) t = Some (Mutex_Obj m) then claims s t m = 1 else claims s t m = 0" for t
    using co [of t] by (auto simp: claim_ok_def objects_of_def split: if_splits)
  have z: "OwnerNestingCtr (krn s) m = 0 \<longleftrightarrow> OwnerTCBPtr (krn s) m = None"
    using c by (simp add: claims_ok_def objects_of_def)
  have two: "t \<in> {Task2, Task3}" if "0 < claims s t m" for t using that by (auto simp: claims_def split: if_splits)
  have "OwnerTCBPtr (krn s) m = Some t \<or> PendObjPtr (krn s) t = Some (Mutex_Obj m)" if "0 < claims s t m" for t
    using k [of t] that by (auto split: if_splits)
  moreover have "t \<in> {Task2, Task3} \<and> 0 < claims s t m \<and> unat (OwnerNestingCtr (krn s) m) = claims s t m"
    if "OwnerTCBPtr (krn s) m = Some t" for t
    using k [of t] that two [of t] by simp
  ultimately show ?thesis using z by (auto split: option.split)
qed

lemma mutex_counts_witness:
  "\<exists>s. sys_reach (\<lambda>x. x) [] s \<and> OwnerTCBPtr (krn s) bitmap_mutex = Some Task2 \<and>
     unat (OwnerNestingCtr (krn s) bitmap_mutex) = 1"
proof -
  obtain s where s: "sys_reach (\<lambda>x. x) [] s" "OSTCBCurPtr (krn s) = Task2" "at2 s = Compress"
    using example_compresses by blast
  have "claims s Task2 bitmap_mutex = 1" using s(3) by (simp add: claims_def claim2_def mutex_ids)
  moreover have "PendObjPtr (krn s) Task2 = None"
    using inv_current(2) [OF reach_inv [OF s(1)]] s(2) by (simp add: objects_of_def)
  moreover note all = mutex_counts [OF s(1), of bitmap_mutex]
  ultimately have own: "OwnerTCBPtr (krn s) bitmap_mutex = Some Task2" using spec [OF conjunct2 [OF all], of Task2] by simp
  then show ?thesis using all \<open>claims s Task2 bitmap_mutex = 1\<close> s(1) by (intro exI [of _ s]) simp
qed

text \<open>C6: What a mail reads does not change under it. While a mail session is open, the network task
  owns the mutexes of the card number, the address and the picture, and no step of a task and no
  interrupt changes the card number, the encoded picture or its length.\<close>

theorem open_mail_protected:
  assumes "sys_reach fl ipa s" and "mails s \<noteq> []" and "sys_step fl ipa ev s = Inr s'"
  shows "(\<forall>m \<in> {id_mutex, email_mutex, bitmap_mutex}. OwnerTCBPtr (krn s) m = Some Task3) \<and>
    card_id s' = card_id s \<and> bitmap_matrix (cam s') = bitmap_matrix (cam s) \<and> base64_size s' = base64_size s"
  using mail_owner [OF reach_inv [OF assms(1)]] mail_step [OF reach_inv [OF assms(1)] _ assms(3)] assms(2)
  by (simp add: held_def mail_data_def)

lemma open_mail_protected_witness:
  "\<exists>s s'. sys_reach (\<lambda>x. x) [] s \<and> mails s \<noteq> [] \<and> sys_step (\<lambda>x. x) [] (Interrupt Camera_HRef) s = Inr s' \<and>
     OwnerTCBPtr (krn s) bitmap_mutex = Some Task3"
proof -
  obtain s b n where s: "example_runs until_compress (sys_example grey undefined undefined) = Inr s"
      "sys_reach (\<lambda>x. x) [] (compressed (b, n) s)"
    using example_compresses by blast
  obtain s1 s2 where s1: "example_runs (rounds 19 ERR_OK) (compressed (b, n) s) = Inr s1" "mails s1 \<noteq> []"
      "run_step (\<lambda>x. x) [] (Interrupt Camera_HRef) s1 = Inr s2"
    using mail_reached [where B = grey and q = undefined and a = undefined and b = b and n = n] s(1) by (auto split: sum.splits)
  have r: "sys_reach (\<lambda>x. x) [] s1" by (rule reach_run [OF s(2) s1(1)])
  have "sys_step (\<lambda>x. x) [] (Interrupt Camera_HRef) s1 = Inr s2"
    using s1(3) by (simp add: run_step_def split: if_splits)
  with open_mail_protected [OF r s1(2)] r s1(2) show ?thesis by blast
qed

text \<open>C35: A mail that could not be opened stops the program. \<^verbatim>\<open>send_email\<close> ignores that
  \<^verbatim>\<open>smtp_send_mail_bodycback\<close> failed, the three mutexes stay with the network task for ever, and
  whatever happens afterwards the door opens at most once more: the card task waits for good with
  the next card, whose number is not even stored.\<close>

theorem lost_mail_locks_door:
  assumes "sys_reach fl ipa s" and "0 < lost s" and "foldR (run_step fl ipa) evs s = Inr s'"
  shows "doors s' \<le> doors s + 1 \<and> card_id s' = card_id s \<and>
    (\<forall>m \<in> {id_mutex, email_mutex, bitmap_mutex}. OwnerTCBPtr (krn s') m = Some Task3)"
proof -
  let ?P = "\<lambda>x. sys_inv x \<and> 0 < lost x \<and> mail_data x = mail_data s \<and> doors_left x \<le> doors_left s"
  have "?P s'"
  proof (rule foldR_invariant [OF assms(3), of ?P])
    show "?P s" using reach_inv [OF assms(1)] assms(2) by simp
  next
    fix e x y
    assume p: "?P x" and st: "run_step fl ipa e x = Inr y"
    then have "sys_step fl ipa e x = Inr y" by (simp add: run_step_def split: if_splits)
    moreover have "0 < held x" using p by (simp add: held_def)
    ultimately show "?P y" using mail_step [of x fl ipa e y] step_inv [OF _ st] p by fastforce
  qed
  moreover from this have "OwnerTCBPtr (krn s') m = Some Task3" if "m \<in> {id_mutex, email_mutex, bitmap_mutex}" for m
    using mail_owner [of s' m] that by (auto simp: held_def)
  moreover have "doors s' \<le> doors_left s'" "doors_left s \<le> doors s + 1"
    by (auto simp: doors_left_def of_bool_def)
  ultimately show ?thesis by (auto simp: mail_data_def)
qed

lemma lost_mail_locks_door_witness:
  "\<exists>s s'. sys_reach (\<lambda>x. x) [] s \<and> lost s = 1 \<and>
     example_runs (rounds 2 ERR_OK @ [Interrupt Camera_VSync]) s = Inr s' \<and>
     OwnerTCBPtr (krn s') id_mutex = Some Task3 \<and> doors s' = 1"
proof -
  obtain s b n where s: "example_runs until_compress (sys_example grey undefined undefined) = Inr s"
      "sys_reach (\<lambda>x. x) [] (compressed (b, n) s)"
    using example_compresses by blast
  obtain s1 s2 where s1: "example_runs (rounds 19 ERR_VAL) (compressed (b, n) s) = Inr s1" "lost s1 = 1"
      "example_runs (rounds 2 ERR_OK @ [Interrupt Camera_VSync]) s1 = Inr s2" "doors s2 = 1"
    using loss_reached [where B = grey and q = undefined and a = undefined and b = b and n = n] s(1) by (auto split: sum.splits)
  have r: "sys_reach (\<lambda>x. x) [] s1" by (rule reach_run [OF s(2) s1(1)])
  from lost_mail_locks_door [OF r _ s1(3)] r s1 show ?thesis by auto
qed



end
