(* ===== verification/Tasks_Door.thy ===== *)
theory Tasks_Door
  imports Tasks_Run
begin

text \<open>
  Who opens the door: a run is followed back from the door to the search that granted it and to the
  moment the number was taken from the card reader.
\<close>

section \<open>What the access decision rests on\<close>

definition access_data :: "sys \<Rightarrow> place2 \<times> bool \<times> u8 list \<times> nat" where
  "access_data s = (at2 s, id_in_list s, card_id s, doors s)"

text \<open>Only the card task changes it.\<close>

lemma access_call:
  "lock m (s\<lparr>at3 := p\<rparr>) = Inr s' \<Longrightarrow> access_data s' = access_data s"
  "unlock m (s\<lparr>at3 := p\<rparr>) = Inr s' \<Longrightarrow> access_data s' = access_data s"
  by (auto simp: access_data_def dest!: call_frames)

lemma access_task1: "task1_step s = Inr s' \<Longrightarrow> access_data s' = access_data s"
  by (auto simp: task1_step_def access_data_def bindR_eq_Inr_iff split: place1.splits dest!: call_frames)

lemma access_task3:
  assumes "task3_step ipa e a s = Inr s'"
  shows "access_data s' = access_data s"
proof -
  have p: "access_data s' = access_data s" if "serve_page uri s = Inr s'" for uri
    using that by (cases rule: serve_page_cases) (simp, erule access_call, erule access_call, simp add: access_data_def)
  have m: "access_data s' = access_data s" if "serve_mail ipa j ev s = Inr s'" for j ev
    using that by (cases rule: serve_mail_cases) (simp_all add: access_data_def)
  have o: "access_data (open_mail a s) = access_data s"
    by (simp add: open_mail_def access_data_def Let_def split: option.splits)
  show ?thesis
    using assms p m o
    by (cases "at3 s"; cases e) (auto simp: task3_step_def access_data_def bindR_eq_Inr_iff dest!: call_frames)
qed

lemma access_isr:
  assumes "isr_step j s = Inr s'"
  shows "access_data s' = access_data s"
proof -
  have one: "cb \<noteq> Photo_is_ready \<Longrightarrow> False" for cb by (cases cb) simp
  show ?thesis
    using assms
    by (cases j)
      (auto simp: isr_step_def access_data_def bindR_eq_Inr_iff split: option.splits callback.splits
        dest: one dest!: use_reader_frame call_frames post_times_frame)
qed

lemma access_step:
  assumes "sys_step fl ipa ev s = Inr s'" and "access_data s' \<noteq> access_data s"
  shows "OSTCBCurPtr (krn s) = Task2" "task2_step fl s = Inr s'"
  using assms access_task1 access_task3 access_isr
  by (auto simp: sys_step_def Let_def split: sys_event.splits if_splits)


section \<open>Looking back\<close>

text \<open>\<open>u\<close> is the state of the run after \<open>n\<close> of its events.\<close>

definition passed :: "(rat \<Rightarrow> rat) \<Rightarrow> u8 list \<Rightarrow> sys_event list \<Rightarrow> sys \<Rightarrow> nat \<Rightarrow> sys \<Rightarrow> bool" where
  "passed fl ipa evs s0 n u \<longleftrightarrow> n \<le> length evs \<and> foldR (run_step fl ipa) (take n evs) s0 = Inr u"

lemma passed_snoc: "passed fl ipa evs s0 n u \<Longrightarrow> passed fl ipa (evs @ [e]) s0 n u"
  by (simp add: passed_def)

lemma passed_all: "foldR (run_step fl ipa) evs s0 = Inr s \<Longrightarrow> passed fl ipa (evs @ evs') s0 (length evs) s"
  by (simp add: passed_def)

text \<open>The places at which the card task works with a number it has taken, and with one it has found.\<close>

definition numbered :: "sys \<Rightarrow> bool" where
  "numbered s \<longleftrightarrow> at2 s \<notin> {Card_Init, Card_Pend, Card_State, Id_Pend, Id_Data, Reading_On}"

definition admitted :: "sys \<Rightarrow> bool" where
  "admitted s \<longleftrightarrow> numbered s \<and> at2 s \<notin> {Id_Post, List_Pend, List_Search} \<and> (at2 s = List_Post \<longrightarrow> id_in_list s)"

lemma access_same:
  assumes "access_data s' = access_data s"
  shows "numbered s' = numbered s" "admitted s' = admitted s" "card_id s' = card_id s" "doors s' = doors s"
  using assms by (simp_all add: access_data_def numbered_def admitted_def)

lemma numbered_step2:
  assumes "task2_step fl s = Inr s'" and "numbered s'"
  shows "doors s' = doors s \<and> (numbered s \<and> card_id s' = card_id s \<or> at2 s = Id_Data \<and> card_id s' = get_data_ma (reader s))"
  using assms
  by (cases "at2 s") (auto simp: task2_step_def numbered_def compressed_def bindR_eq_Inr_iff split: if_splits
      dest!: use_reader_frame call_frames)

lemma admitted_step2:
  assumes "task2_step fl s = Inr s'" and "admitted s'"
  shows "doors s' = doors s \<and> card_id s' = card_id s \<and>
    (admitted s \<or> at2 s = List_Search \<and> search_id_in_list (Cards (web s)) (card_id s) = Inr True)"
  using assms
  by (cases "at2 s") (auto simp: task2_step_def numbered_def admitted_def compressed_def bindR_eq_Inr_iff split: if_splits
      dest!: use_reader_frame call_frames)

text \<open>The step that made the number or the decision.\<close>

definition taken_by :: "sys \<Rightarrow> sys \<Rightarrow> bool" where
  "taken_by s v \<longleftrightarrow> OSTCBCurPtr (krn v) = Task2 \<and> at2 v = Id_Data \<and> card_id s = get_data_ma (reader v) \<and> doors s = doors v"

definition granted_by :: "sys \<Rightarrow> sys \<Rightarrow> bool" where
  "granted_by s u \<longleftrightarrow> OSTCBCurPtr (krn u) = Task2 \<and> at2 u = List_Search \<and>
     search_id_in_list (Cards (web u)) (card_id u) = Inr True \<and> card_id s = card_id u \<and> doors s = doors u"

lemma numbered_step:
  assumes "sys_step fl ipa ev s = Inr s'" and "numbered s'"
  shows "numbered s \<and> card_id s' = card_id s \<and> doors s' = doors s \<or> taken_by s' s"
  using access_step [OF assms(1)] access_same [of s' s] numbered_step2 [of fl s s'] assms(2)
  by (auto simp: taken_by_def)

lemma admitted_step:
  assumes "sys_step fl ipa ev s = Inr s'" and "admitted s'"
  shows "admitted s \<and> card_id s' = card_id s \<and> doors s' = doors s \<or> granted_by s' s"
  using access_step [OF assms(1)] access_same [of s' s] admitted_step2 [of fl s s'] assms(2)
  by (auto simp: granted_by_def)

lemma looked_back:
  assumes "sys_start s0" and "foldR (run_step fl ipa) evs s0 = Inr s"
  shows "(numbered s \<longrightarrow> (\<exists>n v. n < length evs \<and> passed fl ipa evs s0 n v \<and> taken_by s v)) \<and>
    (admitted s \<longrightarrow> (\<exists>n u. n < length evs \<and> passed fl ipa evs s0 n u \<and> granted_by s u))"
  using assms(2)
proof (induction evs arbitrary: s rule: rev_induct)
  case Nil
  then show ?case using assms(1) by (simp add: sys_start_def numbered_def admitted_def)
next
  case (snoc e es)
  from snoc.prems obtain s1 where s1: "foldR (run_step fl ipa) es s0 = Inr s1" and st: "run_step fl ipa e s1 = Inr s"
    by (auto simp: foldR_append bindR_eq_Inr_iff)
  from st have st: "sys_step fl ipa e s1 = Inr s" by (simp add: run_step_def split: if_splits)
  have here: "passed fl ipa (es @ [e]) s0 (length es) s1" by (rule passed_all [OF s1])
  have old: "\<exists>n v. n < length (es @ [e]) \<and> passed fl ipa (es @ [e]) s0 n v \<and> P v"
    if "\<exists>n v. n < length es \<and> passed fl ipa es s0 n v \<and> P v" for P
    using that passed_snoc by (metis length_append_singleton less_Suc_eq)
  have new: "\<exists>n v. n < length (es @ [e]) \<and> passed fl ipa (es @ [e]) s0 n v \<and> P v" if "P s1" for P
    using here that by (metis length_append_singleton lessI)
  note ih = snoc.IH [OF s1]
  have "\<exists>n v. n < length (es @ [e]) \<and> passed fl ipa (es @ [e]) s0 n v \<and> taken_by s v" if "numbered s"
    using numbered_step [OF st that]
  proof
    assume "numbered s1 \<and> card_id s = card_id s1 \<and> doors s = doors s1"
    then show ?thesis using old [of "taken_by s"] ih by (simp add: taken_by_def)
  next
    assume "taken_by s s1"
    then show ?thesis by (rule new)
  qed
  moreover have "\<exists>n v. n < length (es @ [e]) \<and> passed fl ipa (es @ [e]) s0 n v \<and> granted_by s v" if "admitted s"
    using admitted_step [OF st that]
  proof
    assume "admitted s1 \<and> card_id s = card_id s1 \<and> doors s = doors s1"
    then show ?thesis using old [of "granted_by s"] ih by (simp add: granted_by_def)
  next
    assume "granted_by s s1"
    then show ?thesis by (rule new)
  qed
  ultimately show ?case by blast
qed

text \<open>A door opens at the place for it only.\<close>

lemma door_place:
  assumes "sys_step fl ipa ev s = Inr s'" and "doors s' \<noteq> doors s"
  shows "OSTCBCurPtr (krn s) = Task2 \<and> at2 s = Door_Open \<and> doors s' = doors s + 1"
proof -
  have "access_data s' \<noteq> access_data s" using assms(2) by (auto simp: access_data_def)
  note st = access_step [OF assms(1) this]
  then show ?thesis using assms(2)
    by (cases "at2 s") (auto simp: task2_step_def compressed_def bindR_eq_Inr_iff split: if_splits
        dest!: use_reader_frame call_frames)
qed


section \<open>Runs that open the door\<close>

lemma compress_round:
  assumes "compress_picture (\<lambda>x. x) (bitmap_matrix (cam s)) = Inr (b, n)" and "at2 s = Compress"
    and "OSTCBCurPtr (krn s) = Task2" and "nesting_ok (krn s)"
  shows "example_runs (rounds 1 err) s = Inr (compressed (b, n) s)"
  using assms by (simp add: rounds_def run_step_def sys_step_def task2_step_def Let_def tasks)

text \<open>The card of the list, as before, and a card that is not in the list, followed by a swipe that fails.\<close>

definition failed_swipe :: "sys_event list" where
  "failed_swipe = [Interrupt (Reader_Enable False), Interrupt (Reader_Enable True)]"

definition unlisted_swiped :: "sys_event list" where
  "unlisted_swiped = concat (map isr_of (swipe 5 (track (bytes_of ''99999999'') [] @ [0x39]) 4))"

definition unlisted_until_compress :: "sys_event list" where
  "unlisted_until_compress = rounds 5 ERR_OK @ unlisted_swiped @ rounds 2 ERR_OK @ failed_swipe @ rounds 9 ERR_OK
     @ [Interrupt Camera_Configured, Interrupt Camera_VSync, Interrupt Camera_VSync] @ rounds 2 ERR_OK"

lemma door_reached:
  "case example_runs until_compress (sys_example B q a) of Inl e \<Rightarrow> True | Inr s \<Rightarrow>
     (case example_runs (rounds 2 ERR_OK) (compressed (b, n) s) of Inl e \<Rightarrow> False | Inr s1 \<Rightarrow> doors s1 = 0 \<and>
      (case example_runs (rounds 1 ERR_OK) s1 of Inl e \<Rightarrow> False | Inr s2 \<Rightarrow> doors s2 = 1))"
  by code_simp

lemma unlisted_reached:
  "case example_runs unlisted_until_compress (sys_example B q a) of Inl e \<Rightarrow> False | Inr s \<Rightarrow>
     at2 s = Compress \<and> OSTCBCurPtr (krn s) = Task2 \<and> nesting_ok (krn s) \<and> card_id s = replicate 9 0"
  "case example_runs unlisted_until_compress (sys_example B q a) of Inl e \<Rightarrow> True | Inr s \<Rightarrow> bitmap_matrix (cam s) = B"
  by code_simp+

lemma unlisted_door_reached:
  "case example_runs unlisted_until_compress (sys_example B q a) of Inl e \<Rightarrow> True | Inr s \<Rightarrow>
     (case example_runs (rounds 3 ERR_OK) (compressed (b, n) s) of Inl e \<Rightarrow> False | Inr s1 \<Rightarrow>
        doors s1 = 1 \<and> card_id s1 = replicate 9 0)"
  by code_simp


section \<open>Properties\<close>

text \<open>C3: The door opens for a listed number only, once for each search. Whatever cards are swiped
  and whatever else happens, a step that opens the door follows a search of the card task that
  found, in the list as it was then and while the task owned its mutex, the number the task had
  taken from the card reader while it owned the mutex of the number, and no door was opened since.\<close>

theorem door_opens_for_listed_number:
  assumes "sys_start s0" and "foldR (run_step fl ipa) evs s0 = Inr s" and "sys_step fl ipa ev s = Inr s'"
    and "doors s' \<noteq> doors s"
  shows "doors s' = doors s + 1 \<and>
    (\<exists>m n v u. m < n \<and> n < length evs \<and>
      foldR (run_step fl ipa) (take m evs) s0 = Inr v \<and> foldR (run_step fl ipa) (take n evs) s0 = Inr u \<and>
      at2 v = Id_Data \<and> OwnerTCBPtr (krn v) id_mutex = Some Task2 \<and> card_id u = get_data_ma (reader v) \<and>
      at2 u = List_Search \<and> OwnerTCBPtr (krn u) id_list_mutex = Some Task2 \<and>
      search_id_in_list (Cards (web u)) (card_id u) = Inr True \<and> doors v = doors s \<and> doors u = doors s)"
proof -
  note p = door_place [OF assms(3,4)]
  have "admitted s" using p by (simp add: admitted_def numbered_def)
  then obtain n u where n: "n < length evs" "passed fl ipa evs s0 n u" "granted_by s u"
    using looked_back [OF assms(1,2)] by blast
  have u: "foldR (run_step fl ipa) (take n evs) s0 = Inr u" using n(2) by (simp add: passed_def)
  have "numbered u" using n(3) by (simp add: granted_by_def numbered_def)
  then obtain m v where m: "m < n" "passed fl ipa (take n evs) s0 m v" "taken_by u v"
    using looked_back [OF assms(1) u] n(1) by auto
  have v: "foldR (run_step fl ipa) (take m evs) s0 = Inr v" using m(1,2) n(1) by (simp add: passed_def min_def)
  have own: "OwnerTCBPtr (krn x) i = Some Task2"
    if "foldR (run_step fl ipa) (take k evs) s0 = Inr x" "OSTCBCurPtr (krn x) = Task2" "0 < claim2 (at2 x) i" for k x i
  proof -
    have i: "sys_inv x" by (rule reach_inv [OF reach_run [OF sys_reach.start [OF assms(1)] that(1)]])
    show ?thesis
      using claimed_owner [OF i, of Task2 i] inv_current(2) [OF i] that(2,3) by (simp add: claims_def)
  qed
  have "OwnerTCBPtr (krn v) id_mutex = Some Task2" "OwnerTCBPtr (krn u) id_list_mutex = Some Task2"
    using m(3) n(3) by (intro own [OF v] own [OF u]; simp add: taken_by_def granted_by_def claim2_def mutex_ids)+
  then have "m < n \<and> n < length evs \<and>
      foldR (run_step fl ipa) (take m evs) s0 = Inr v \<and> foldR (run_step fl ipa) (take n evs) s0 = Inr u \<and>
      at2 v = Id_Data \<and> OwnerTCBPtr (krn v) id_mutex = Some Task2 \<and> card_id u = get_data_ma (reader v) \<and>
      at2 u = List_Search \<and> OwnerTCBPtr (krn u) id_list_mutex = Some Task2 \<and>
      search_id_in_list (Cards (web u)) (card_id u) = Inr True \<and> doors v = doors s \<and> doors u = doors s"
    using m(1,3) n(1,3) u v by (simp add: taken_by_def granted_by_def)
  then show ?thesis using p by blast
qed

lemma door_opens_for_listed_number_witness:
  "\<exists>evs s s'. example_runs evs (sys_example grey undefined undefined) = Inr s \<and>
     example_runs (rounds 1 ERR_OK) s = Inr s' \<and> doors s' = 1 \<and>
     (\<exists>n u. n < length evs \<and> example_runs (take n evs) (sys_example grey undefined undefined) = Inr u \<and> at2 u = List_Search \<and>
       search_id_in_list (Cards (web u)) (card_id u) = Inr True)"
proof -
  let ?s0 = "sys_example grey undefined undefined"
  obtain b n where c: "compress_picture (\<lambda>x. x) grey = Inr (b, n)" using grey_compressed by blast
  obtain s where s: "example_runs until_compress ?s0 = Inr s" "at2 s = Compress" "OSTCBCurPtr (krn s) = Task2"
      "nesting_ok (krn s)" "bitmap_matrix (cam s) = grey"
    using compress_reached [of grey undefined undefined] by (auto split: sum.splits)
  have r: "example_runs (rounds 1 ERR_OK) s = Inr (compressed (b, n) s)"
    by (rule compress_round) (simp_all add: s(2-5) c)
  obtain s1 s2 where d: "example_runs (rounds 2 ERR_OK) (compressed (b, n) s) = Inr s1" "doors s1 = 0"
      "example_runs (rounds 1 ERR_OK) s1 = Inr s2" "doors s2 = 1"
    using door_reached [where B = grey and q = undefined and a = undefined and b = b and n = n] s(1)
    by (auto split: sum.splits)
  let ?evs = "until_compress @ rounds 1 ERR_OK @ rounds 2 ERR_OK"
  have evs: "example_runs ?evs ?s0 = Inr s1" by (simp only: foldR_append s(1) r d(1) bindR.simps)
  have "run_step (\<lambda>x. x) [] (hd (rounds 1 ERR_OK)) s1 = Inr s2"
    using d(3) by (simp add: rounds_def bindR_eq_Inr_iff)
  then have "sys_step (\<lambda>x. x) [] (hd (rounds 1 ERR_OK)) s1 = Inr s2" by (simp add: run_step_def split: if_splits)
  from door_opens_for_listed_number [OF example_start evs this] d evs show ?thesis by fastforce
qed

text \<open>C40: A swipe that fails is an admitted number. When the reader has an error, the number the card
  task gets is nine zero bytes, and the search finds it as soon as one row of the list is empty, as
  most rows of the list of the program are.\<close>

theorem failed_read_admitted:
  assumes "error r \<noteq> NO_ERROR" and "length cards = N_CARDS * ROW" and "k < N_CARDS"
    and "\<forall>j \<in> {1..<ID_SIZE}. row_of cards k ! j = 0"
  shows "get_data_ma r = replicate ROW 0 \<and> search_id_in_list cards (get_data_ma r) = Inr True"
proof -
  have z: "get_data_ma r = replicate ROW 0" using assms(1) by (simp add: get_data_ma_def get_data_def ROW_def)
  have "row_matches cards (replicate ROW 0) k"
    unfolding row_matches_def
  proof
    fix j
    assume j: "j \<in> {1..<ID_SIZE}"
    then have r: "j < ROW" by (simp add: ROW_def)
    have "row_of cards k ! j = 0" using assms(4) j by (rule bspec)
    then show "replicate ROW 0 ! j = cards ! (k * ROW + j)" using r nth_row_of [OF assms(2,3) r] by simp
  qed
  then show ?thesis using search_spec [of cards "replicate ROW 0"] assms(2,3) unfolding z by (auto simp: ROW_def)
qed

lemma failed_read_admitted_witness:
  "search_id_in_list initial_Cards (get_data_ma (magnetic_power_on\<lparr>error := PARITY_ERROR\<rparr>)) = Inr True"
proof -
  have "\<forall>j \<in> {1..<ID_SIZE}. row_of initial_Cards 4 ! j = 0"
    by (auto simp: compared_indices row_of_def initial_Cards_def card_row_def ROW_def ID_SIZE_def bytes_of_def)
  moreover have "4 < N_CARDS" by (simp add: N_CARDS_def)
  moreover have "error (magnetic_power_on\<lparr>error := PARITY_ERROR\<rparr>) \<noteq> NO_ERROR" by simp
  ultimately show ?thesis using failed_read_admitted [OF _ length_initial_Cards] by blast
qed


end
