(* ===== verification/Tasks_Types.thy ===== *)
theory Tasks_Types
  imports Tasks_Door
begin

text \<open>
  The arrays of the program keep their sizes in every run, and the accesses of the tasks and of the
  interrupts stay inside them but for the known overflows; no call of the kernel fails.
\<close>

section \<open>Arrays keep their sizes\<close>

definition sized_web :: "web_state \<Rightarrow> bool" where
  "sized_web u \<longleftrightarrow> length (email_to u) = 50 \<and> length (Area u) = 4 \<and> length (Cards u) = N_CARDS * ROW"

definition sized_cam :: "'c camera_state \<Rightarrow> bool" where
  "sized_cam c \<longleftrightarrow> length (aux_buffer c) = 1280 \<and> length (bitmap_matrix c) = 76800"

definition sized :: "sys \<Rightarrow> bool" where
  "sized s \<longleftrightarrow> length (card_id s) = ROW \<and> length (access_time s) = 32 \<and> length (access_time_file s) = 32 \<and>
     sized_web (web s) \<and> sized_cam (cam s) \<and> mag_inv (reader s)"

lemma wr_length: "wr xs i v = Inr ys \<Longrightarrow> length ys = length xs"
  by (auto simp: wr_def split: if_splits)

lemma email_loop_length: "email_loop i j v b = Inr b' \<Longrightarrow> length b' = length b"
proof (induction i j v b arbitrary: b' rule: email_loop.induct)
  case (1 i j v b)
  show ?case
  proof (cases "i \<le> length v")
    case True
    then obtain c where c: "rd (v @ [0]) i = Inr c" "(if c = 37 then bindR (wr b i 64) (email_loop (i + 3) (j + 1) v)
        else bindR (wr b j c) (email_loop (i + 1) (j + 1) v)) = Inr b'"
      using "1.prems" by (subst (asm) email_loop.simps) (auto simp: bindR_eq_Inr_iff)
    then obtain b1 where "wr b (if c = 37 then i else j) (if c = 37 then 64 else c) = Inr b1"
        "email_loop (i + (if c = 37 then 3 else 1)) (j + 1) v b1 = Inr b'"
      by (auto simp: bindR_eq_Inr_iff split: if_splits)
    then show ?thesis using "1.IH" [OF True, of c] by (cases "c = 37") (auto dest!: wr_length)
  next
    case False
    then show ?thesis using "1.prems" by (subst (asm) email_loop.simps) simp
  qed
qed

lemma cards_loop_length: "cards_loop i n v c = Inr c' \<Longrightarrow> length c' = length c"
proof (induction i n v c arbitrary: c' rule: cards_loop.induct)
  case (1 i n v c)
  show ?case
  proof (cases "i < n")
    case True
    then obtain t c1 where "rd v i = Inr (Some t)" "write_bytes c (i * ROW) (t @ [0]) = Inr c1"
        "cards_loop (i + 1) n v c1 = Inr c'"
      using "1.prems" by (subst (asm) cards_loop.simps) (auto simp: bindR_eq_Inr_iff split: option.splits)
    then show ?thesis using "1.IH" [OF True] write_bytes_nth(1) by metis
  next
    case False
    then show ?thesis using "1.prems" by (subst (asm) cards_loop.simps) simp
  qed
qed

lemma area_length: "foldR (area_step lo hi v) is A = Inr B \<Longrightarrow> length B = length A"
  by (rule foldR_invariant [where P = "\<lambda>x. length x = length A"])
    (auto simp: area_step_def bindR_eq_Inr_iff dest!: wr_length)

lemma handler_sized:
  "EmailCGIhandler i v u = Inr (page, u') \<Longrightarrow> sized_web u \<Longrightarrow> sized_web u'"
  "CardsCGIpage n v u = Inr (page, u') \<Longrightarrow> sized_web u \<Longrightarrow> sized_web u'"
  "AreaCGIhandler n v u = Inr (page, u') \<Longrightarrow> sized_web u \<Longrightarrow> sized_web u'"
  "UpdateCGIhandler u = Inr (page, u') \<Longrightarrow> sized_web u \<Longrightarrow> sized_web u'"
  by (auto simp: EmailCGIhandler_def CardsCGIpage_def CardsCGIhandler_def AreaCGIhandler_def UpdateCGIhandler_def
      sized_web_def bindR_eq_Inr_iff split: if_splits dest!: email_loop_length cards_loop_length area_length)

text \<open>The camera.\<close>

definition kept_cam :: "'c camera_state \<Rightarrow> 'c camera_state \<Rightarrow> bool" where
  "kept_cam c c1 \<longleftrightarrow> length (aux_buffer c1) = length (aux_buffer c) \<and> length (bitmap_matrix c1) = length (bitmap_matrix c)"

lemma kept_sized: "kept_cam c c1 \<Longrightarrow> sized_cam c \<Longrightarrow> sized_cam c1"
  by (simp add: kept_cam_def sized_cam_def)

lemma camera_kept:
  "OV7670_process_new_line c = Inr c1 \<Longrightarrow> kept_cam c c1"
  "vertical_sync_rising c = Inr (c1, cb) \<Longrightarrow> kept_cam c c1"
  "horizontal_ref_falling c = Inr c1 \<Longrightarrow> kept_cam c c1"
  "pixel_clock v c = Inr c1 \<Longrightarrow> kept_cam c c1"
  "kept_cam c (OV7670_TakePicture cb c)" "kept_cam c (I2C_finished_callback c)"
proof -
  assume "OV7670_process_new_line c = Inr c1"
  then show "kept_cam c c1"
    unfolding OV7670_process_new_line_def
    by (rule foldR_invariant) (auto simp: kept_cam_def process_col_def bindR_eq_Inr_iff dest!: wr_length)
next
  assume "vertical_sync_rising c = Inr (c1, cb)"
  then show "kept_cam c c1"
    by (auto simp: kept_cam_def vertical_sync_rising_def quick_disable_def quick_enable_def bindR_eq_Inr_iff Let_def
        split: if_splits)
next
  assume "horizontal_ref_falling c = Inr c1"
  then show "kept_cam c c1"
    by (auto simp: kept_cam_def horizontal_ref_falling_def quick_disable_def quick_enable_def bindR_eq_Inr_iff Let_def
        split: if_splits)
next
  assume "pixel_clock v c = Inr c1"
  then show "kept_cam c c1"
    by (auto simp: kept_cam_def pixel_clock_def DMA_mayor_int_def bindR_eq_Inr_iff Let_def
        split: prod.splits if_splits dest!: wr_length)
qed (simp_all add: kept_cam_def OV7670_TakePicture_def I2C_finished_callback_def)

lemmas camera_sized = camera_kept(1-4) [THEN kept_sized] camera_kept(5,6) [THEN kept_sized]

text \<open>The encoder writes its text over the picture.\<close>

lemma compress_length:
  assumes "fl_ok fl" and "length bitmap = 320 * 240" and "compress_picture fl bitmap = Inr (b, n)"
  shows "length b = 320 * 240"
  by (rule compress_result [OF assms(1,2)]) (use assms(2,3) in \<open>auto split: if_splits\<close>)

section \<open>Every step keeps them\<close>

lemma use_reader_result:
  assumes "use_reader f s = Inr s'"
  shows "\<exists>k r. f (reader s) = Inr r \<and> s' = s\<lparr>krn := k, reader := r\<rparr>"
proof -
  obtain r where r: "f (reader s) = Inr r" "post_times (updated_posts r - updated_posts (reader s)) OS_OPT_POST_1
      magnetic_updated_sem (s\<lparr>reader := r\<rparr>) = Inr s'"
    using assms by (auto simp: use_reader_def bindR_eq_Inr_iff)
  from post_times_frame [OF r(2)] obtain k where "s' = s\<lparr>reader := r, krn := k\<rparr>" by blast
  then have "s' = s\<lparr>krn := k, reader := r\<rparr>" by simp
  with r(1) show ?thesis by blast
qed

lemma sized_task1: "task1_step s = Inr s' \<Longrightarrow> sized s \<Longrightarrow> sized s'"
  by (auto simp: task1_step_def sized_def bindR_eq_Inr_iff split: place1.splits
      dest!: call_frames camera_sized(1))

lemma sized_task2:
  assumes "fl_ok fl" and "task2_step fl s = Inr s'" and "sized s"
  shows "sized s'"
proof (cases "at2 s = Compress")
  case True
  then obtain b n where b: "compress_picture fl (bitmap_matrix (cam s)) = Inr (b, n)" "s' = compressed (b, n) s"
    using assms(2) by (auto simp: task2_step_def bindR_eq_Inr_iff)
  have "length (bitmap_matrix (cam s)) = 320 * 240" using assms(3) by (simp add: sized_def sized_cam_def)
  from compress_length [OF assms(1) this b(1)] show ?thesis
    using assms(3) by (simp add: b(2) compressed_def sized_def sized_cam_def)
next
  case False
  then show ?thesis
    using assms(2,3) mag_inv_init mag_inv_enable mag_inv_disable
    by (cases "at2 s") (auto simp: task2_step_def sized_def bindR_eq_Inr_iff
        dest!: use_reader_result call_frames intro: camera_sized)
qed


lemma clock_kept:
  "length a = 32 \<Longrightarrow> length b = 32 \<Longrightarrow> sntp_set_system_time sec (a, b) = Inr (a', b') \<longleftrightarrow>
     a' = date_text 32 58 (localtime (unat (sec - 10800))) @ 0 # drop 20 a \<and>
     b' = date_text 95 45 (localtime (unat (sec - 10800))) @ 0 # drop 20 b"
  by (auto simp: sntp_set_system_time_eq Let_def)

lemma sized_task3:
  assumes "task3_step ipa e a s = Inr s'" and "sized s"
  shows "sized s'"
proof -
  have c: "lock m (s\<lparr>at3 := p\<rparr>) = Inr s' \<Longrightarrow> sized s'" "unlock m (s\<lparr>at3 := p\<rparr>) = Inr s' \<Longrightarrow> sized s'" for m p
    using assms(2) by (auto simp: sized_def dest!: call_frames)
  have p: "sized s'" if "serve_page uri s = Inr s'" for uri
  proof -
    obtain base params where cut: "strcut 63 uri = (base, params)" by (cases "strcut 63 uri")
    obtain n vals where par: "extract_uri_parameters params = (n, vals)" by (cases "extract_uri_parameters params")
    show ?thesis
      using that assms(2) cut par c
      by (auto simp: serve_page_def sized_def bindR_eq_Inr_iff split: option.splits cgi.splits dest!: handler_sized dest: call_frames)
  qed
  have m: "sized s'" if "serve_mail ipa j ev s = Inr s'" for j ev
    using that assms(2) by (cases rule: serve_mail_cases) (simp_all add: sized_def)
  have o: "sized (open_mail a s)"
    using assms(2) by (simp add: open_mail_def sized_def Let_def split: option.splits)
  show ?thesis
  proof (cases "at3 s")
    case Poll
    then show ?thesis using assms p m by (cases e) (auto simp: task3_step_def sized_def bindR_eq_Inr_iff clock_kept date_text_string(1))
  next
    case (Email_Store vals)
    then show ?thesis using assms by (auto simp: task3_step_def sized_def bindR_eq_Inr_iff dest: handler_sized(1))
  next
    case (Cards_Store n vals)
    then show ?thesis using assms by (auto simp: task3_step_def sized_def bindR_eq_Inr_iff dest: handler_sized(2))
  next
    case Mail_Pend
    then show ?thesis using assms by (auto simp: task3_step_def sized_def bindR_eq_Inr_iff)
  next
    case Mail_Open
    then show ?thesis using assms o by (simp add: task3_step_def)
  qed (use assms in \<open>auto simp: task3_step_def intro: c\<close>)
qed

lemma sized_isr:
  assumes "isr_step j s = Inr s'" and "sized s"
  shows "sized s'"
proof (cases j)
  case (Reader_Clock p)
  then show ?thesis
    using assms mag_inv_step [of "reader s" "Clock_edge p"] by (auto simp: isr_step_def sized_def dest!: use_reader_result)
next
  case (Reader_Enable p)
  then show ?thesis
    using assms mag_inv_step [of "reader s" "Enable_edge p"] by (auto simp: isr_step_def sized_def dest!: use_reader_result)
next
  case Camera_VSync
  then obtain c cb where c: "vertical_sync_rising (cam s) = Inr (c, cb)"
      "(case cb of None \<Rightarrow> Inr (s\<lparr>cam := c\<rparr>) | Some Photo_is_ready \<Rightarrow> post OS_OPT_POST_ALL photo_ready_sem (s\<lparr>cam := c\<rparr>)) = Inr s'"
    using assms(1) by (auto simp: isr_step_def bindR_eq_Inr_iff)
  have "\<exists>k. s' = s\<lparr>krn := k, cam := c\<rparr>"
  proof (cases cb)
    case None
    then show ?thesis using c(2) by (intro exI [of _ "krn s"]) simp
  next
    case (Some x)
    then have "post OS_OPT_POST_ALL photo_ready_sem (s\<lparr>cam := c\<rparr>) = Inr s'" using c(2) by (cases x) simp
    from call_frames(4) [OF this] obtain k where "s' = s\<lparr>cam := c, krn := k\<rparr>" by blast
    then show ?thesis by (intro exI [of _ k]) simp
  qed
  then show ?thesis using kept_sized [OF camera_kept(2) [OF c(1)]] assms(2) by (auto simp: sized_def)
next
  case Camera_HRef
  then obtain c where c: "horizontal_ref_falling (cam s) = Inr c"
      "post_times (semProcessNewLine c) OS_OPT_POST_ALL semProcessNewLine_sem (s\<lparr>cam := c\<lparr>semProcessNewLine := 0\<rparr>\<rparr>) = Inr s'"
    using assms(1) by (auto simp: isr_step_def bindR_eq_Inr_iff)
  have "sized_cam (c\<lparr>semProcessNewLine := 0\<rparr>)"
    using kept_sized [OF camera_kept(3) [OF c(1)]] assms(2) by (simp add: sized_def sized_cam_def)
  then show ?thesis using post_times_frame [OF c(2)] assms(2) by (auto simp: sized_def)
qed (use assms in \<open>auto simp: isr_step_def sized_def bindR_eq_Inr_iff dest: camera_sized(4) intro: camera_sized\<close>)

lemma sized_step:
  assumes "fl_ok fl" and "run_step fl ipa ev s = Inr s'" and "sized s"
  shows "sized s'"
  using assms(2,3) sized_task1 sized_task2 [OF assms(1)] sized_task3 sized_isr
  by (auto simp: run_step_def sys_step_def Let_def split: sys_event.splits if_splits)

section \<open>Where a step may fault\<close>

lemma line_fault:
  assumes "OV7670_process_new_line c = Inl f" and "sized_cam c"
  shows "240 \<le> current_row c"
proof (rule ccontr)
  assume n: "\<not> 240 \<le> current_row c"
  from foldR_Inl [OF assms(1) [unfolded OV7670_process_new_line_def]]
  obtain cs col ds c1 where c1: "[0..<320] = cs @ col # ds" "foldR process_col cs c = Inr c1" "process_col col c1 = Inl f"
    by blast
  have "sized_cam c1 \<and> current_row c1 = current_row c"
    by (rule foldR_invariant [OF c1(2)])
      (use assms(2) in \<open>auto simp: process_col_def sized_cam_def bindR_eq_Inr_iff dest!: wr_length\<close>)
  moreover have "col < 320"
  proof -
    have "col \<in> set [0..<320]" unfolding c1(1) by simp
    then show ?thesis by simp
  qed
  ultimately have "4 * col + 1 < length (aux_buffer c1)" "320 * current_row c1 + col < length (bitmap_matrix c1)"
    using n by (simp_all add: sized_cam_def)
  then show False using c1(3) by (simp add: process_col_def rd_def wr_def)
qed

text \<open>The synchronisation signals of the camera do not fault.\<close>

lemma quick_returns: "\<exists>d. quick_disable c = Inr d" "\<exists>d. quick_enable c = Inr d"
  using quick_disable_ex [of c] quick_enable_ex [of c] by blast+

lemma camera_returns: "\<exists>c1 cb. vertical_sync_rising c = Inr (c1, cb)" "\<exists>c1. horizontal_ref_falling c = Inr c1"
proof -
  obtain di where di: "\<And>c. quick_disable c = Inr (di c :: 'a camera_state)" using quick_returns(1) by metis
  obtain en where en: "\<And>c. quick_enable c = Inr (en c :: 'a camera_state)" using quick_returns(2) by metis
  show "\<exists>c1 cb. vertical_sync_rising c = Inr (c1, cb)" by (simp add: vertical_sync_rising_def Let_def di en)
  show "\<exists>c1. horizontal_ref_falling c = Inr c1" by (simp add: horizontal_ref_falling_def Let_def di en)
qed

text \<open>No call of the kernel fails.\<close>

lemma lock_returns:
  assumes "sys_inv s" and "OSTCBCurPtr (krn s) \<in> {Task2, Task3}" and "nesting_ok (krn s)" and "krn s1 = krn s" and "m < 4"
  shows "\<exists>s'. lock m s1 = Inr s'"
proof -
  have "OwnerNestingCtr (krn s1) m \<noteq> 255" using nesting_all [OF assms(1,3)] assms(4) by simp
  then show ?thesis using lock_ok [of s1 m] inv_current(1) [OF assms(1)] assms(2,4,5) by auto
qed

lemma unlock_returns:
  assumes "sys_inv s" and "OSTCBCurPtr (krn s) \<noteq> TaskStart" and "0 < claims s (OSTCBCurPtr (krn s)) m"
    and "krn s1 = krn s" and "m < 4"
  shows "\<exists>s'. unlock m s1 = Inr s'"
proof -
  have "OwnerTCBPtr (krn s) m = Some (OSTCBCurPtr (krn s))"
    using claimed_owner [OF assms(1,3)] inv_current(2) [OF assms(1)] by simp
  then show ?thesis using unlock_ok [of s1 m] inv_current(1) [OF assms(1)] assms(2,4,5) by auto
qed

lemma await_returns:
  assumes "sys_inv s" and "OSTCBCurPtr (krn s) \<noteq> OSIdleTask" and "krn s1 = krn s" and "n < 6"
  shows "\<exists>s'. await n s1 = Inr s'"
  using await_ok [of s1 n] inv_current(1) [OF assms(1)] assms(2-4) by auto

lemma post_returns:
  assumes "kernel_ok (krn s)" and "n < 6" and "opt \<in> {OS_OPT_POST_1, OS_OPT_POST_ALL}"
  shows "\<exists>k. post opt n s = Inr (s\<lparr>krn := k\<rparr>) \<and> kernel_ok k"
  using sys_post_ok [of s n opt] assms by blast

lemma post_times_returns:
  "kernel_ok (krn s) \<Longrightarrow> n < 6 \<Longrightarrow> opt \<in> {OS_OPT_POST_1, OS_OPT_POST_ALL} \<Longrightarrow> \<exists>s'. post_times c opt n s = Inr s'"
proof (induction c arbitrary: s)
  case (Suc c)
  obtain k where "post opt n s = Inr (s\<lparr>krn := k\<rparr>)" "kernel_ok k" using post_returns [OF Suc.prems] by blast
  then show ?case using Suc.IH [of "s\<lparr>krn := k\<rparr>"] Suc.prems(2,3) by simp
qed simp

lemma use_reader_returns:
  assumes "kernel_ok (krn s)" and "f (reader s) = Inr r"
  shows "\<exists>s'. use_reader f s = Inr s'"
  using post_times_returns [of "s\<lparr>reader := r\<rparr>" magnetic_updated_sem OS_OPT_POST_1] assms
  by (simp add: use_reader_def sem_ids)

text \<open>The events that may fault in a state: the overflows of the reader and of the line buffer, a
  line behind the picture, a file too long for the text, and the work on requests and mails.\<close>

definition may_fault :: "(rat \<Rightarrow> rat) \<Rightarrow> sys_event \<Rightarrow> sys \<Rightarrow> bool" where
  "may_fault fl ev s =
     (case ev of
        Interrupt (Reader_Clock p) \<Rightarrow> content_index (reader s) = CONTENT_MAX_SIZE + 1
      | Interrupt (Camera_Pixel v) \<Rightarrow>
          plk_on (cam s) \<and> 1280 \<le> unat (DADDR (TCD (cam_dma (cam s)) 0) - aux_addr (cam s)) div 2
      | Interrupt i \<Rightarrow> False
      | Run e a \<Rightarrow>
          (let t = OSTCBCurPtr (krn s) in
           if t = TaskStart then at1 s = Line_Process \<and> 240 \<le> current_row (cam s)
           else if t = Task2 then at2 s = Compress \<and> compress_picture fl (bitmap_matrix (cam s)) = Inl Out_Of_Bounds
           else if t = Task3 then
             (case at3 s of
                Email_Store v \<Rightarrow> True
              | Cards_Store n v \<Rightarrow> True
              | Poll \<Rightarrow> (case e of Page_Request uri \<Rightarrow> True | Mail_Event j me \<Rightarrow> True | _ \<Rightarrow> False)
              | _ \<Rightarrow> False)
           else False))"

lemma task1_faults:
  assumes "sys_inv s" and "sized s" and "OSTCBCurPtr (krn s) = TaskStart" and "task1_step s = Inl f"
  shows "at1 s = Line_Process \<and> 240 \<le> current_row (cam s)"
proof (cases "at1 s")
  case Line_Pend
  have "\<exists>s'. await semProcessNewLine_sem (s\<lparr>at1 := Line_Process\<rparr>) = Inr s'"
    by (rule await_returns [OF assms(1)]) (simp_all add: assms(3) tasks sem_ids)
  then show ?thesis using assms(4) Line_Pend by (auto simp: task1_step_def)
next
  case Line_Process
  then show ?thesis using assms(2,4) line_fault by (auto simp: task1_step_def bindR_eq_Inl_iff sized_def)
qed

lemma task2_faults:
  assumes i: "sys_inv s" and z: "sized s" and c: "OSTCBCurPtr (krn s) = Task2" and n: "nesting_ok (krn s)"
    and fl: "fl_ok fl" and st: "task2_step fl s = Inl f"
  shows "at2 s = Compress \<and> compress_picture fl (bitmap_matrix (cam s)) = Inl Out_Of_Bounds"
proof (cases "at2 s = Compress")
  case True
  then have "compress_picture fl (bitmap_matrix (cam s)) = Inl f" using st by (simp add: task2_step_def bindR_eq_Inl_iff)
  moreover have "length (bitmap_matrix (cam s)) = 320 * 240" using z by (simp add: sized_def sized_cam_def)
  ultimately show ?thesis using compress_result [OF fl, of "bitmap_matrix (cam s)"] True by (metis Inl_inject Inr_not_Inl)
next
  case False
  have lk: "lock m (s\<lparr>at2 := p\<rparr>) \<noteq> Inl g" if "m < 4" for m p g
    using lock_returns [OF i _ n _ that, of "s\<lparr>at2 := p\<rparr>"] by (auto simp: c)
  have ul: "unlock m (s\<lparr>at2 := p\<rparr>) \<noteq> Inl g" if "0 < claim2 (at2 s) m" "m < 4" for m p g
    using unlock_returns [OF i _ _ _ that(2), of "s\<lparr>at2 := p\<rparr>"] that(1) by (auto simp: c tasks claims_def)
  have aw: "await m (s\<lparr>at2 := p\<rparr>) \<noteq> Inl g" if "m < 6" for m p g
    using await_returns [OF i _ _ that, of "s\<lparr>at2 := p\<rparr>"] by (auto simp: c tasks)
  have k: "kernel_ok (krn s)" by (rule inv_current(1) [OF i])
  have rd: "use_reader (\<lambda>r. Inr (u r)) (s\<lparr>at2 := p\<rparr>) \<noteq> Inl g" for u p g
    using use_reader_returns [of "s\<lparr>at2 := p\<rparr>" "\<lambda>r. Inr (u r)"] by (auto simp: k)
  have po: "post OS_OPT_POST_ALL send_email_sem (s\<lparr>at2 := Door_Open\<rparr>) \<noteq> Inl g" for g
    using post_returns [of "s\<lparr>at2 := Door_Open\<rparr>" send_email_sem OS_OPT_POST_ALL] k by (auto simp: sem_ids)
  have se: "search_id_in_list (Cards (web s)) (card_id s) \<noteq> Inl g" for g
    using search_spec [of "Cards (web s)" "card_id s"] z by (simp add: sized_def sized_web_def ROW_def)
  note calls = lk ul aw rd po [unfolded send_email_sem_def One_nat_def] se
  have False
    using st False
    by (cases "at2 s") (simp_all add: task2_step_def calls claim2_def mutex_ids sem_ids bindR_eq_Inl_iff)
  then show ?thesis ..
qed


lemma task3_faults:
  assumes i: "sys_inv s" and c: "OSTCBCurPtr (krn s) = Task3" and n: "nesting_ok (krn s)"
    and z: "sized s" and st: "task3_step ipa e a s = Inl f"
  shows "case at3 s of
      Email_Store v \<Rightarrow> True
    | Cards_Store n v \<Rightarrow> True
    | Poll \<Rightarrow> (case e of Page_Request uri \<Rightarrow> True | Mail_Event j me \<Rightarrow> True | _ \<Rightarrow> False)
    | _ \<Rightarrow> False"
proof -
  have lk: "lock m (s\<lparr>at3 := p\<rparr>) \<noteq> Inl g" if "m < 4" for m p g
    using lock_returns [OF i _ n _ that, of "s\<lparr>at3 := p\<rparr>"] by (auto simp: c)
  have cl: "claims s Task3 = claim3 (at3 s) (held s)" by (simp add: claims_def tasks)
  have ul: "unlock m (s\<lparr>at3 := p\<rparr>) \<noteq> Inl g" if "0 < claim3 (at3 s) (held s) m" "m < 4" for m p g
    using unlock_returns [OF i _ _ _ that(2), of "s\<lparr>at3 := p\<rparr>"] that(1) by (auto simp: c cl) (auto simp: tasks)
  have pm: "OSSemPend send_email_sem 0 OS_OPT_PEND_NON_BLOCKING (krn s) \<noteq> Inl g" for g
    using poll_mail_ok [OF inv_current(1) [OF i]] c by (auto simp: tasks)
  have ck: "sntp_set_system_time sec (access_time s, access_time_file s) \<noteq> Inl g" for sec g
    using z by (simp add: sized_def sntp_set_system_time_eq Let_def)
  note calls = lk ul pm ck
  show ?thesis
    using st
    by (cases "at3 s"; cases e) (simp_all add: task3_step_def calls claim3_def mutex_ids bindR_eq_Inl_iff)
qed

lemma isr_faults:
  assumes i: "sys_inv s" and z: "sized s" and st: "isr_step j s = Inl f"
  shows "(\<exists>p. j = Reader_Clock p) \<and> content_index (reader s) = CONTENT_MAX_SIZE + 1 \<or>
    (\<exists>v. j = Camera_Pixel v) \<and> plk_on (cam s) \<and> 1280 \<le> unat (DADDR (TCD (cam_dma (cam s)) 0) - aux_addr (cam s)) div 2"
proof -
  have k: "kernel_ok (krn s)" by (rule inv_current(1) [OF i])
  have inv: "mag_inv (reader s)" using z by (simp add: sized_def)
  have rd: "\<exists>g. u (reader s) = Inl g" if "use_reader u s = Inl f'" for u f'
    using use_reader_returns [OF k, of u] that by (cases "u (reader s)") auto
  show ?thesis
  proof (cases j)
    case (Reader_Clock p)
    then obtain g where "mag_step (Clock_edge p) (reader s) = Inl g" using rd st by (auto simp: isr_step_def)
    from mag_step_fault [OF inv this] Reader_Clock show ?thesis by simp
  next
    case (Reader_Enable p)
    then obtain g where g: "mag_step (Enable_edge p) (reader s) = Inl g" using rd st by (auto simp: isr_step_def)
    then show ?thesis by (auto simp: enable_changed_state_def fsm_ENABLE fsm_DISABLE Let_def split: if_splits)
  next
    case Camera_VSync
    obtain c cb where v: "vertical_sync_rising (cam s) = Inr (c, cb)" using camera_returns(1) by blast
    have "\<exists>s'. post OS_OPT_POST_ALL photo_ready_sem (s\<lparr>cam := c\<rparr>) = Inr s'"
      using post_returns [of "s\<lparr>cam := c\<rparr>" photo_ready_sem OS_OPT_POST_ALL] k by (auto simp: sem_ids)
    then show ?thesis using st Camera_VSync v by (cases cb) (auto simp: isr_step_def split: callback.splits)
  next
    case Camera_HRef
    obtain c where v: "horizontal_ref_falling (cam s) = Inr c" using camera_returns(2) by blast
    have "\<exists>s'. post_times (semProcessNewLine c) OS_OPT_POST_ALL semProcessNewLine_sem
        (s\<lparr>cam := c\<lparr>semProcessNewLine := 0\<rparr>\<rparr>) = Inr s'"
      by (rule post_times_returns) (simp_all add: k sem_ids)
    then show ?thesis using st Camera_HRef v by (auto simp: isr_step_def)
  next
    case (Camera_Pixel v)
    then have "pixel_clock v (cam s) = Inl f" using st by (auto simp: isr_step_def bindR_eq_Inl_iff)
    then show ?thesis using Camera_Pixel z
      by (auto simp: pixel_clock_def dma_request_def Let_def bindR_eq_Inl_iff wr_def sized_def sized_cam_def not_less
          split: if_splits)
  next
    case Camera_Configured
    then show ?thesis using st by (simp add: isr_step_def)
  qed
qed

text \<open>The memory the mail is made of is as the mail needs it.\<close>

lemma sized_mail: "sized s \<Longrightarrow> mem_ok (mail_memory s)"
proof -
  assume z: "sized s"
  have "unat (ucast (base64_size s) :: u16) < 65536" using unsigned_less [of "ucast (base64_size s) :: u16"] by simp
  then have "unat (ucast (base64_size s) :: u16) \<le> 76800" by linarith
  then show ?thesis using z by (simp add: mem_ok_def mail_memory_def sized_def sized_cam_def ROW_def ID_SIZE_def)
qed

section \<open>Property\<close>

definition sized_example :: "u8 list \<Rightarrow> u16 list \<Rightarrow> cam_fn fifo_state \<Rightarrow> auth_data \<Rightarrow> sys" where
  "sized_example bitmap lines q a =
     (sys_example bitmap q a)\<lparr>cam := (cam (sys_example bitmap q a))\<lparr>aux_buffer := lines\<rparr>\<rparr>"

lemma sized_example_start:
  "sys_start (sized_example bitmap lines q a)"
  "length bitmap = 76800 \<Longrightarrow> length lines = 1280 \<Longrightarrow> sized (sized_example bitmap lines q a)"
  using example_start [of bitmap q a] mag_inv_power_on
  by (simp_all add: sized_example_def sys_start_def sized_def sized_cam_def sized_web_def sys_example_def web_example_def
      ROW_def ID_SIZE_def bytes_of_def)

lemma sized_reached:
  "case example_runs (rounds 5 ERR_OK) (sized_example B A q a) of Inl e \<Rightarrow> False | Inr s \<Rightarrow> nesting_ok (krn s)"
  by code_simp



end
