(* ===== verification/Net_Timers.thy ===== *)
theory Net_Timers
  imports C_Prelude "HOL-Library.Multiset"
begin

text \<open>
  The timeouts of the network stack, \<^verbatim>\<open>lwip/src/core/timeouts.c\<close>: one list ordered by the
  time an entry is due, on a clock of milliseconds that wraps around every 49 days. A handler
  stands for the function of an entry and its argument.
\<close>

section \<open>The list\<close>

record 'a sys_timeo =
  due :: u32
  handler :: 'a

definition LWIP_MAX_TIMEOUT :: u32 where "LWIP_MAX_TIMEOUT = 0x7FFFFFFF"

definition MEMP_NUM_SYS_TIMEOUT :: nat where "MEMP_NUM_SYS_TIMEOUT = 10"

definition TIME_LESS_THAN :: "u32 \<Rightarrow> u32 \<Rightarrow> bool" where
  "TIME_LESS_THAN t compare_to \<longleftrightarrow> LWIP_MAX_TIMEOUT < t - compare_to"

text \<open>The loop of \<^verbatim>\<open>sys_timeout_abs\<close> from a first entry on.\<close>

fun insert_behind :: "'a sys_timeo \<Rightarrow> 'a sys_timeo list \<Rightarrow> 'a sys_timeo list" where
  "insert_behind x [] = []"
| "insert_behind x [t] = [t, x]"
| "insert_behind x (t # n # ts) =
     (if TIME_LESS_THAN (due x) (due n) then t # x # n # ts else t # insert_behind x (n # ts))"

text \<open>An entry comes from a pool of ten; with an empty pool \<^verbatim>\<open>LWIP_ASSERT\<close> stops the program.\<close>

definition sys_timeout_abs :: "u32 \<Rightarrow> 'a \<Rightarrow> 'a sys_timeo list \<Rightarrow> 'a sys_timeo list result" where
  "sys_timeout_abs abs_time h next_timeout =
     (let timeout = \<lparr>due = abs_time, handler = h\<rparr> in
      if length next_timeout = MEMP_NUM_SYS_TIMEOUT then Inl Assert_Hang
      else case next_timeout of
          [] \<Rightarrow> Inr [timeout]
        | t # ts \<Rightarrow>
            if TIME_LESS_THAN (due timeout) (due t) then Inr (timeout # t # ts)
            else Inr (insert_behind timeout (t # ts)))"

definition sys_timeout :: "u32 \<Rightarrow> u32 \<Rightarrow> 'a \<Rightarrow> 'a sys_timeo list \<Rightarrow> 'a sys_timeo list result" where
  "sys_timeout sys_now msecs h next_timeout =
     (if msecs \<le> 0xFFFFFFFF div 4 then sys_timeout_abs (sys_now + msecs) h next_timeout else Inl Assert_Hang)"

fun sys_untimeout :: "'a \<Rightarrow> 'a sys_timeo list \<Rightarrow> 'a sys_timeo list" where
  "sys_untimeout h [] = []"
| "sys_untimeout h (t # ts) = (if handler t = h then ts else t # sys_untimeout h ts)"

text \<open>What \<^verbatim>\<open>sys_check_timeouts\<close> does first in a round: it takes the first entry when it is due.\<close>

definition expired :: "u32 \<Rightarrow> 'a sys_timeo list \<Rightarrow> ('a sys_timeo \<times> 'a sys_timeo list) option" where
  "expired now next_timeout =
     (case next_timeout of
        [] \<Rightarrow> None
      | t # ts \<Rightarrow> if TIME_LESS_THAN now (due t) then None else Some (t, ts))"

definition sys_restart_timeouts :: "u32 \<Rightarrow> 'a sys_timeo list \<Rightarrow> 'a sys_timeo list" where
  "sys_restart_timeouts now next_timeout =
     (case next_timeout of
        [] \<Rightarrow> []
      | t # ts \<Rightarrow> map (\<lambda>x. x\<lparr>due := (due x - due t) + now\<rparr>) next_timeout)"

definition sys_timeouts_sleeptime :: "u32 \<Rightarrow> 'a sys_timeo list \<Rightarrow> u32 result" where
  "sys_timeouts_sleeptime now next_timeout =
     (case next_timeout of
        [] \<Rightarrow> Inr 0xFFFFFFFF
      | t # ts \<Rightarrow>
          if TIME_LESS_THAN (due t) now then Inr 0
          else if due t - now \<le> LWIP_MAX_TIMEOUT then Inr (due t - now) else Inl Assert_Hang)"

section \<open>Timeouts on an unbounded clock\<close>

text \<open>An abstract timeout has a time that does not wrap; a new one goes behind those of its time.\<close>

fun insort_time :: "nat \<Rightarrow> 'a \<Rightarrow> (nat \<times> 'a) list \<Rightarrow> (nat \<times> 'a) list" where
  "insort_time t x [] = [(t, x)]"
| "insort_time t x ((u, y) # us) = (if t < u then (t, x) # (u, y) # us else (u, y) # insort_time t x us)"

definition stored :: "nat \<times> 'a \<Rightarrow> 'a sys_timeo" where
  "stored e = \<lparr>due = of_nat (fst e), handler = snd e\<rparr>"

text \<open>All times lie within 24 days of each other.\<close>

definition close :: "nat set \<Rightarrow> bool" where
  "close T \<longleftrightarrow> (\<forall>t \<in> T. \<forall>u \<in> T. t \<le> u + 0x7FFFFFFF)"

lemma less_close:
  assumes "t \<le> u + 0x7FFFFFFF" and "u \<le> t + 0x7FFFFFFF"
  shows "TIME_LESS_THAN (of_nat t) (of_nat u) \<longleftrightarrow> t < u"
proof (cases "t < u")
  case True
  define d where "d = u - t"
  have d: "0 < d" "d \<le> 0x7FFFFFFF" "u = t + d" using True assms(2) by (simp_all add: d_def)
  have "(of_nat (2 ^ 32) :: u32) = 0" by (simp add: word_of_nat_eq_0_iff)
  then have "(of_nat (2 ^ 32 - d) :: u32) = - of_nat d" using d(2) of_nat_diff [of d "2 ^ 32", where 'a = u32] by simp
  then have "of_nat t - of_nat u = (of_nat (2 ^ 32 - d) :: u32)" by (simp add: d(3))
  moreover have "unat (of_nat (2 ^ 32 - d) :: u32) = 2 ^ 32 - d" using d(1) by (intro unat_of_nat_u32) simp
  ultimately show ?thesis using True d(2) by (simp add: TIME_LESS_THAN_def LWIP_MAX_TIMEOUT_def word_less_nat_alt)
next
  case False
  then have "of_nat t - of_nat u = (of_nat (t - u) :: u32)" by (simp add: of_nat_diff)
  moreover have "unat (of_nat (t - u) :: u32) = t - u" using assms(1) by (intro unat_of_nat_u32) simp
  ultimately show ?thesis using False assms(1) by (simp add: TIME_LESS_THAN_def LWIP_MAX_TIMEOUT_def word_less_nat_alt)
qed


lemma insert_behind_stored:
  assumes "close (insert t (fst ` set es))" and "es \<noteq> []" and "fst (hd es) \<le> t"
  shows "insert_behind (stored (t, x)) (map stored es) = map stored (insort_time t x es)"
  using assms
proof (induction es)
  case (Cons e es)
  obtain u y where e: "e = (u, y)" by (cases e)
  show ?case
  proof (cases es)
    case Nil
    then show ?thesis using Cons.prems(3) by (simp add: e)
  next
    case (Cons n ns)
    obtain v z where n: "n = (v, z)" by (cases n)
    have c: "t \<le> v + 0x7FFFFFFF" "v \<le> t + 0x7FFFFFFF"
      using Cons.prems(1) unfolding close_def Cons n by auto
    have l: "TIME_LESS_THAN (due (stored (t, x))) (due (stored n)) \<longleftrightarrow> t < v"
      using less_close [OF c] by (simp add: stored_def n)
    show ?thesis
    proof (cases "t < v")
      case True
      then show ?thesis using l Cons.prems(3) by (simp add: Cons e n)
    next
      case False
      have "close (insert t (fst ` set es))" using Cons.prems(1) by (auto simp: close_def)
      from Cons.IH [OF this] have "insert_behind (stored (t, x)) (map stored es) = map stored (insort_time t x es)"
        using Cons n False by simp
      then show ?thesis using l False Cons.prems(3) by (simp add: Cons e n)
    qed
  qed
qed simp

lemma set_insort_time: "set (insort_time t x es) = insert (t, x) (set es)"
  by (induction t x es rule: insort_time.induct) auto

lemma sorted_insort_time: "sorted (map fst es) \<Longrightarrow> sorted (map fst (insort_time t x es))"
  by (induction t x es rule: insort_time.induct) (auto simp: set_insort_time)

section \<open>The entries of a list\<close>

lemma insert_behind_set: "ts \<noteq> [] \<Longrightarrow> mset (insert_behind x ts) = add_mset x (mset ts)"
  by (induction x ts rule: insert_behind.induct) auto

lemma sys_timeout_abs_result:
  assumes "length l < MEMP_NUM_SYS_TIMEOUT"
  shows "\<exists>l'. sys_timeout_abs time h l = Inr l' \<and> mset l' = add_mset \<lparr>due = time, handler = h\<rparr> (mset l)"
  using assms by (auto simp: sys_timeout_abs_def Let_def insert_behind_set split: list.split)

lemma untimeout_handlers:
  "distinct (map handler l) \<Longrightarrow> distinct (map handler (sys_untimeout h l)) \<and>
     set (map handler (sys_untimeout h l)) = set (map handler l) - {h}"
  by (induction l) (auto simp: image_iff)

lemma untimeout_subset: "set (sys_untimeout h l) \<subseteq> set l"
  by (induction l) auto

section \<open>Property\<close>

text \<open>C16: The timeouts fire in the order of their times although the clock wraps around. For
  entries whose times lie within 24 days, with a place left in the pool, setting a timeout puts it
  behind the entries that are due before it or at the same time, the list stays ordered, and the
  entry \<^verbatim>\<open>sys_check_timeouts\<close> takes is the first one if its time has come and none otherwise.\<close>

theorem timeouts_refine:
  assumes "sorted (map fst es)" and "close (insert now (insert t (fst ` set es)))" and "length es < 10"
  shows "sys_timeout_abs (of_nat t) x (map stored es) = Inr (map stored (insort_time t x es)) \<and>
    sorted (map fst (insort_time t x es)) \<and>
    expired (of_nat now) (map stored es) =
      (case es of [] \<Rightarrow> None | e # rest \<Rightarrow> if fst e \<le> now then Some (stored e, map stored rest) else None)"
proof -
  have c: "a \<le> b + 0x7FFFFFFF" if "a \<in> {now, t} \<union> fst ` set es" "b \<in> {now, t} \<union> fst ` set es" for a b
    using assms(2) that by (auto simp: close_def)
  have "sys_timeout_abs (of_nat t) x (map stored es) = Inr (map stored (insort_time t x es))"
  proof (cases es)
    case Nil
    then show ?thesis by (simp add: sys_timeout_abs_def MEMP_NUM_SYS_TIMEOUT_def stored_def)
  next
    case (Cons e rest)
    obtain u y where e: "e = (u, y)" by (cases e)
    have l: "TIME_LESS_THAN (of_nat t) (due (stored e)) \<longleftrightarrow> t < u"
      using less_close [OF c c, of t u] Cons e by (simp add: stored_def)
    have "insert_behind (stored (t, x)) (map stored es) = map stored (insort_time t x es)" if "\<not> t < u"
      by (rule insert_behind_stored) (use assms(2) Cons e that in \<open>auto simp: close_def\<close>)
    then show ?thesis
      using l assms(3) by (auto simp: sys_timeout_abs_def MEMP_NUM_SYS_TIMEOUT_def Cons e stored_def Let_def)
  qed
  moreover have "expired (of_nat now) (map stored es) =
      (case es of [] \<Rightarrow> None | e # rest \<Rightarrow> if fst e \<le> now then Some (stored e, map stored rest) else None)"
  proof (cases es)
    case (Cons e rest)
    have "TIME_LESS_THAN (of_nat now) (due (stored e)) \<longleftrightarrow> now < fst e"
      using less_close [OF c c, of now "fst e"] Cons by (simp add: stored_def)
    then show ?thesis by (auto simp: expired_def Cons)
  qed (simp add: expired_def)
  ultimately show ?thesis using sorted_insort_time [OF assms(1)] by blast
qed

lemma timeouts_refine_witness:
  "sys_timeout_abs 5 CHR ''c'' [\<lparr>due = 0xFFFFFFF0, handler = CHR ''a''\<rparr>, \<lparr>due = 20, handler = CHR ''b''\<rparr>] =
     Inr [\<lparr>due = 0xFFFFFFF0, handler = CHR ''a''\<rparr>, \<lparr>due = 5, handler = CHR ''c''\<rparr>, \<lparr>due = 20, handler = CHR ''b''\<rparr>]"
proof -
  have n: "(4294967301 :: u32) = 5" "(4294967316 :: u32) = 20" by simp_all
  then show ?thesis
    using timeouts_refine [of "[(0xFFFFFFF0, CHR ''a''), (2 ^ 32 + 20, CHR ''b'')]" "2 ^ 32" "2 ^ 32 + 5" "CHR ''c''"]
    by (simp add: close_def stored_def n)
qed

end
