(* ===== verification/Sntp.thy ===== *)
theory Sntp
  imports Net_Timers Clock Smtp
begin

unbundle bit_operations_syntax

text \<open>
  The time client, \<^verbatim>\<open>lwip/src/apps/sntp/sntp.c\<close>, as the program builds it (one server, given by
  name, no check of the answers), with the timers of the stack that run beside it and the part of
  \<^verbatim>\<open>source/main.c\<close> that starts it when the interface has its address. The stack around it is
  asked: the clock \<^verbatim>\<open>sys_now\<close>, the name server, the memory for a packet.
\<close>

section \<open>State\<close>

text \<open>The cyclic timers have the numbers of the table \<^verbatim>\<open>lwip_cyclic_timers\<close>.\<close>

datatype net_handler = Cyclic_Timer nat | Tcp_Timer | Sntp_Request | Sntp_Retry

definition cyclic_interval :: "u32 list" where
  "cyclic_interval = [250, 1000, 1000, 60000, 500, 1000]"

text \<open>
  \<open>dns_callbacks\<close> counts the queries the name server still has to answer, \<open>requests\<close> are the
  addresses a request was sent to, \<open>texts\<close> the arrays \<^verbatim>\<open>access_time\<close> and
  \<^verbatim>\<open>access_time_file\<close>.
\<close>

record net =
  next_timeout :: "net_handler sys_timeo list"
  current_timeout_due_time :: u32
  tcpip_tcp_timer_active :: bool
  sntp_opmode :: u8
  sntp_pcb :: bool
  server_name :: "u8 list option"
  server_addr :: u32
  reachability :: u8
  sntp_retry_timeout :: u32
  dns_callbacks :: nat
  requests :: "u32 list"
  texts :: "u8 list \<times> u8 list"
  initializated :: bool
  dhcp_last_state :: nat

text \<open>What the stack answers while a handler runs.\<close>

record stack_now =
  sys_now :: u32
  tcp_pcbs :: bool
  dns_err :: err_t
  dns_addr :: u32
  pbuf_there :: bool
  lwip_rand :: u32

section \<open>Timers\<close>

definition set_timeout :: "stack_now \<Rightarrow> u32 \<Rightarrow> net_handler \<Rightarrow> net \<Rightarrow> net result" where
  "set_timeout e msecs h s =
     bindR (sys_timeout (sys_now e) msecs h (next_timeout s)) (\<lambda>l. Inr (s\<lparr>next_timeout := l\<rparr>))"

definition clear_timeout :: "net_handler \<Rightarrow> net \<Rightarrow> net" where
  "clear_timeout h s = s\<lparr>next_timeout := sys_untimeout h (next_timeout s)\<rparr>"

text \<open>A cyclic timer does its work and sets itself again.\<close>

definition lwip_cyclic_timer :: "stack_now \<Rightarrow> nat \<Rightarrow> net \<Rightarrow> net result" where
  "lwip_cyclic_timer e i s =
     (let now = sys_now e; interval = cyclic_interval ! i; next_time = current_timeout_due_time s + interval in
      bindR (sys_timeout_abs (if TIME_LESS_THAN next_time now then now + interval else next_time)
          (Cyclic_Timer i) (next_timeout s)) (\<lambda>l.
      Inr (s\<lparr>next_timeout := l\<rparr>)))"

definition tcpip_tcp_timer :: "stack_now \<Rightarrow> net \<Rightarrow> net result" where
  "tcpip_tcp_timer e s =
     (if tcp_pcbs e then set_timeout e (cyclic_interval ! 0) Tcp_Timer s else Inr (s\<lparr>tcpip_tcp_timer_active := False\<rparr>))"

definition tcp_timer_needed :: "stack_now \<Rightarrow> net \<Rightarrow> net result" where
  "tcp_timer_needed e s =
     (if \<not> tcpip_tcp_timer_active s \<and> tcp_pcbs e
      then set_timeout e (cyclic_interval ! 0) Tcp_Timer (s\<lparr>tcpip_tcp_timer_active := True\<rparr>) else Inr s)"

text \<open>The timer of TCP is started on demand.\<close>

definition sys_timeouts_init :: "stack_now \<Rightarrow> net \<Rightarrow> net result" where
  "sys_timeouts_init e s =
     foldR (\<lambda>i. set_timeout e (cyclic_interval ! i) (Cyclic_Timer i)) [1..<length cyclic_interval] s"

section \<open>The client\<close>

definition SNTP_RECV_TIMEOUT :: u32 where "SNTP_RECV_TIMEOUT = 15000"
definition SNTP_UPDATE_DELAY :: u32 where "SNTP_UPDATE_DELAY = 70000"
definition SNTP_RETRY_TIMEOUT :: u32 where "SNTP_RETRY_TIMEOUT = SNTP_RECV_TIMEOUT"
definition SNTP_RETRY_TIMEOUT_MAX :: u32 where "SNTP_RETRY_TIMEOUT_MAX = SNTP_RETRY_TIMEOUT * 10"
definition DIFF_SEC_1970_2036 :: u32 where "DIFF_SEC_1970_2036 = 2085978496"
definition SNTP_MSG_LEN :: nat where "SNTP_MSG_LEN = 48"
definition SNTP_OPMODE_POLL :: u8 where "SNTP_OPMODE_POLL = 0"
definition SNTP_OPMODE_LISTENONLY :: u8 where "SNTP_OPMODE_LISTENONLY = 1"

definition sntp_retry :: "stack_now \<Rightarrow> net \<Rightarrow> net result" where
  "sntp_retry e s =
     bindR (set_timeout e (sntp_retry_timeout s) Sntp_Request (clear_timeout Sntp_Request s)) (\<lambda>s1.
       let new_retry_timeout = push_bit 1 (sntp_retry_timeout s1) in
       Inr (s1\<lparr>sntp_retry_timeout :=
         (if new_retry_timeout \<le> SNTP_RETRY_TIMEOUT_MAX \<and> sntp_retry_timeout s1 < new_retry_timeout
          then new_retry_timeout else SNTP_RETRY_TIMEOUT_MAX)\<rparr>))"

definition sntp_send_request :: "stack_now \<Rightarrow> u32 \<Rightarrow> net \<Rightarrow> net result" where
  "sntp_send_request e addr s =
     (if pbuf_there e
      then set_timeout e SNTP_RECV_TIMEOUT Sntp_Retry
             (clear_timeout Sntp_Retry (s\<lparr>reachability := push_bit 1 (reachability s), requests := requests s @ [addr]\<rparr>))
      else set_timeout e SNTP_RETRY_TIMEOUT Sntp_Request (clear_timeout Sntp_Request s))"

definition sntp_dns_found :: "stack_now \<Rightarrow> u32 option \<Rightarrow> net \<Rightarrow> net result" where
  "sntp_dns_found e ipaddr s =
     (case ipaddr of
        Some a \<Rightarrow> sntp_send_request e a (s\<lparr>server_addr := a\<rparr>)
      | None \<Rightarrow> sntp_retry e s)"

definition sntp_request :: "stack_now \<Rightarrow> net \<Rightarrow> net result" where
  "sntp_request e s =
     (let (err, addr, s1) =
        (case server_name s of
           Some name \<Rightarrow> (dns_err e, dns_addr e, if dns_err e = ERR_OK then s\<lparr>server_addr := dns_addr e\<rparr>
                                              else s\<lparr>server_addr := 0\<rparr>)
         | None \<Rightarrow> (if server_addr s = 0 then ERR_ARG else ERR_OK, server_addr s, s)) in
      if err = ERR_INPROGRESS then Inr (s1\<lparr>dns_callbacks := dns_callbacks s1 + 1\<rparr>)
      else if err = ERR_OK then sntp_send_request e addr s1
      else set_timeout e SNTP_RETRY_TIMEOUT Sntp_Retry (clear_timeout Sntp_Retry s1))"

definition lwip_ntohl :: "u8 list \<Rightarrow> u32" where
  "lwip_ntohl bs = foldl (\<lambda>n b. push_bit 8 n OR ucast b) 0 bs"

definition sntp_process :: "u8 list \<Rightarrow> net \<Rightarrow> net result" where
  "sntp_process xmit_sec s =
     bindR (sntp_set_system_time (lwip_ntohl xmit_sec + DIFF_SEC_1970_2036) (texts s)) (\<lambda>t. Inr (s\<lparr>texts := t\<rparr>))"

datatype sntp_err = Sntp_Ok | Sntp_Kod | Sntp_Ignore

text \<open>A packet of the client's connection.\<close>

definition sntp_recv :: "stack_now \<Rightarrow> u8 list \<Rightarrow> net \<Rightarrow> net result" where
  "sntp_recv e p s =
     (let err =
        (if length p = SNTP_MSG_LEN then
           let mode = p ! 0 AND 7 in
           if sntp_opmode s = SNTP_OPMODE_POLL \<and> mode = 4 \<or> sntp_opmode s = SNTP_OPMODE_LISTENONLY \<and> mode = 5
           then if p ! 1 = 0 then Sntp_Kod else Sntp_Ok
           else Sntp_Ignore
         else Sntp_Ignore) in
      case err of
        Sntp_Ok \<Rightarrow>
          bindR (sntp_process (take 4 (drop 40 p)) s) (\<lambda>s1.
            let s2 = s1\<lparr>reachability := reachability s1 OR 1\<rparr> in
            if sntp_opmode s2 = SNTP_OPMODE_POLL
            then set_timeout e SNTP_UPDATE_DELAY Sntp_Request
              ((clear_timeout Sntp_Request (clear_timeout Sntp_Retry s2))\<lparr>sntp_retry_timeout := SNTP_RETRY_TIMEOUT\<rparr>)
            else Inr s2)
      | Sntp_Kod \<Rightarrow> if sntp_opmode s = SNTP_OPMODE_POLL then sntp_retry e s else Inr s
      | Sntp_Ignore \<Rightarrow> Inr s)"

text \<open>The client is started once; the first request is delayed by up to five seconds.\<close>

definition sntp_setoperatingmode :: "u8 \<Rightarrow> net \<Rightarrow> net result" where
  "sntp_setoperatingmode mode s =
     (if mode \<le> SNTP_OPMODE_LISTENONLY \<and> \<not> sntp_pcb s then Inr (s\<lparr>sntp_opmode := mode\<rparr>) else Inl Assert_Hang)"

definition sntp_setservername :: "nat \<Rightarrow> u8 list option \<Rightarrow> net \<Rightarrow> net" where
  "sntp_setservername i name s = (if i < 1 then s\<lparr>server_name := name\<rparr> else s)"

definition sntp_init :: "stack_now \<Rightarrow> net \<Rightarrow> net result" where
  "sntp_init e s =
     (if sntp_pcb s then Inr s
      else let s1 = s\<lparr>sntp_pcb := True\<rparr> in
        if sntp_opmode s1 = SNTP_OPMODE_POLL
        then set_timeout e (lwip_rand e mod 5000) Sntp_Request (s1\<lparr>sntp_retry_timeout := SNTP_RETRY_TIMEOUT\<rparr>)
        else Inr s1)"

definition sntp_stop :: "net \<Rightarrow> net" where
  "sntp_stop s =
     (if sntp_pcb s then (clear_timeout Sntp_Retry (clear_timeout Sntp_Request (s\<lparr>reachability := 0\<rparr>)))\<lparr>sntp_pcb := False\<rparr>
      else s)"

definition sntp_example_init :: "stack_now \<Rightarrow> net \<Rightarrow> net result" where
  "sntp_example_init e s =
     (if initializated s then Inr s
      else bindR (sntp_setoperatingmode SNTP_OPMODE_POLL s) (\<lambda>s1.
        bindR (sntp_init e (sntp_setservername 0 (Some (bytes_of ''pool.ntp.org'')) s1)) (\<lambda>s2.
        Inr (s2\<lparr>initializated := True\<rparr>))))"

text \<open>The states of the address client; the program knows all but two of them.\<close>

definition DHCP_STATE_OFF :: nat where "DHCP_STATE_OFF = 0"
definition DHCP_STATE_PERMANENT :: nat where "DHCP_STATE_PERMANENT = 9"
definition DHCP_STATE_BOUND :: nat where "DHCP_STATE_BOUND = 10"
definition DHCP_STATE_RELEASING :: nat where "DHCP_STATE_RELEASING = 11"
definition DHCP_STATE_BACKING_OFF :: nat where "DHCP_STATE_BACKING_OFF = 12"

definition print_dhcp_state :: "stack_now \<Rightarrow> nat option \<Rightarrow> net \<Rightarrow> net result" where
  "print_dhcp_state e dhcp s =
     (case dhcp of
        None \<Rightarrow> Inr (s\<lparr>dhcp_last_state := DHCP_STATE_OFF\<rparr>)
      | Some st \<Rightarrow>
          if dhcp_last_state s \<noteq> st then
            let s1 = s\<lparr>dhcp_last_state := st\<rparr> in
            if DHCP_STATE_BACKING_OFF < st \<or> st = DHCP_STATE_PERMANENT \<or> st = DHCP_STATE_RELEASING then Inl Assert_Hang
            else if st = DHCP_STATE_BOUND then sntp_example_init e s1
            else Inr s1
          else Inr s)"

section \<open>A round of the timers\<close>

fun run_handler :: "stack_now \<Rightarrow> net_handler \<Rightarrow> net \<Rightarrow> net result" where
  "run_handler e (Cyclic_Timer i) s = lwip_cyclic_timer e i s"
| "run_handler e Tcp_Timer s = tcpip_tcp_timer e s"
| "run_handler e Sntp_Request s = sntp_request e s"
| "run_handler e Sntp_Retry s = sntp_retry e s"

text \<open>
  The loop ends when the first entry is not due at the time \<open>now\<close> it started at; the list holds
  what the stack answers to each handler, and a loop that goes on longer than it does not return.
\<close>

fun sys_check_timeouts :: "u32 \<Rightarrow> stack_now list \<Rightarrow> net \<Rightarrow> net result" where
  "sys_check_timeouts now [] s = (if expired now (next_timeout s) = None then Inr s else Inl Assert_Hang)"
| "sys_check_timeouts now (e # es) s =
     (case expired now (next_timeout s) of
        None \<Rightarrow> Inr s
      | Some (t, ts) \<Rightarrow>
          bindR (run_handler e (handler t) (s\<lparr>next_timeout := ts, current_timeout_due_time := due t\<rparr>))
            (sys_check_timeouts now es))"


section \<open>The program and the client\<close>

text \<open>What happens to the client: a round of the timers, a packet of its connection, an answer of the
  name server, a connection that needs the timer of TCP, a look at the address client.\<close>

datatype net_input =
    Check_Timeouts u32 "stack_now list" | Packet stack_now "u8 list" | Dns_Answer stack_now "u32 option"
  | Tcp_Needed stack_now | Dhcp_State stack_now "nat option"

definition net_step :: "net_input \<Rightarrow> net \<Rightarrow> net result" where
  "net_step i s =
     (case i of
        Check_Timeouts now es \<Rightarrow> sys_check_timeouts now es s
      | Packet e p \<Rightarrow> if sntp_pcb s then sntp_recv e p s else Inr s
      | Dns_Answer e a \<Rightarrow>
          if 0 < dns_callbacks s then sntp_dns_found e a (s\<lparr>dns_callbacks := dns_callbacks s - 1\<rparr>) else Inr s
      | Tcp_Needed e \<Rightarrow> tcp_timer_needed e s
      | Dhcp_State e d \<Rightarrow> print_dhcp_state e d s)"

definition net_blank :: net where
  "net_blank = \<lparr>next_timeout = [], current_timeout_due_time = 0, tcpip_tcp_timer_active = False, sntp_opmode = 0,
     sntp_pcb = False, server_name = None, server_addr = 0, reachability = 0, sntp_retry_timeout = 0,
     dns_callbacks = 0, requests = [], texts = (replicate 32 0, replicate 32 0), initializated = False,
     dhcp_last_state = 0\<rparr>"

inductive net_reach :: "net \<Rightarrow> bool" where
  start: "sys_timeouts_init e net_blank = Inr s \<Longrightarrow> net_reach s"
| step: "net_reach s \<Longrightarrow> net_step i s = Inr s' \<Longrightarrow> net_reach s'"

section \<open>What is pending\<close>

definition pending :: "net \<Rightarrow> net_handler set" where
  "pending s = set (map handler (next_timeout s))"

definition client :: "net_handler set" where "client = {Sntp_Request, Sntp_Retry}"

definition cyclic :: "net_handler set" where "cyclic = Cyclic_Timer ` {1..<6}"

definition net_ok :: "net \<Rightarrow> bool" where
  "net_ok s \<longleftrightarrow> distinct (map handler (next_timeout s)) \<and> pending s \<subseteq> insert Tcp_Timer (cyclic \<union> client) \<and>
     length (fst (texts s)) = 32 \<and> length (snd (texts s)) = 32 \<and>
     (sntp_pcb s \<longrightarrow> sntp_opmode s = SNTP_OPMODE_POLL \<and> 15000 \<le> sntp_retry_timeout s \<and> sntp_retry_timeout s \<le> 150000)"

text \<open>The client will do something again.\<close>

definition asking :: "net \<Rightarrow> bool" where
  "asking s \<longleftrightarrow> Sntp_Request \<in> pending s \<or> Sntp_Retry \<in> pending s \<or> 0 < dns_callbacks s"

definition net_inv :: "net \<Rightarrow> bool" where
  "net_inv s \<longleftrightarrow> net_ok s \<and> cyclic \<subseteq> pending s \<and> (Tcp_Timer \<in> pending s \<longleftrightarrow> tcpip_tcp_timer_active s) \<and>
     sntp_pcb s = initializated s \<and> (if sntp_pcb s then asking s else pending s \<inter> client = {} \<and> dns_callbacks s = 0)"

lemma pending_simps [simp]:
  "pending (s\<lparr>sntp_retry_timeout := a\<rparr>) = pending s" "pending (s\<lparr>dns_callbacks := n\<rparr>) = pending s"
  "pending (s\<lparr>tcpip_tcp_timer_active := b\<rparr>) = pending s" "pending (s\<lparr>server_addr := a\<rparr>) = pending s"
  "pending (s\<lparr>texts := t\<rparr>) = pending s" "pending (s\<lparr>reachability := r\<rparr>) = pending s"
  "pending (s\<lparr>sntp_pcb := b\<rparr>) = pending s" "pending (s\<lparr>sntp_opmode := r\<rparr>) = pending s"
  "pending (s\<lparr>server_name := nm\<rparr>) = pending s" "pending (s\<lparr>initializated := b\<rparr>) = pending s"
  "pending (s\<lparr>dhcp_last_state := n\<rparr>) = pending s" "pending (s\<lparr>requests := q\<rparr>) = pending s"
  "pending (s\<lparr>current_timeout_due_time := a\<rparr>) = pending s"
  by (simp_all add: pending_def)

lemma pool_place:
  assumes "net_ok s"
  shows "length (next_timeout s) \<le> 8"
proof -
  have "length (next_timeout s) = card (pending s)"
    using assms distinct_card [of "map handler (next_timeout s)"] by (simp add: net_ok_def pending_def)
  also have "\<dots> \<le> card (insert Tcp_Timer (cyclic \<union> client))"
    using assms by (intro card_mono) (auto simp: net_ok_def cyclic_def client_def)
  also have "\<dots> \<le> 8"
  proof -
    have e: "cyclic = {Cyclic_Timer 1, Cyclic_Timer 2, Cyclic_Timer 3, Cyclic_Timer 4, Cyclic_Timer 5}"
      by (auto simp: cyclic_def)
    show ?thesis unfolding e client_def by simp
  qed
  finally show ?thesis .
qed

lemma place_abs:
  assumes "net_ok s" and "h \<notin> pending s" and "h \<in> insert Tcp_Timer (cyclic \<union> client)"
  shows "\<exists>l. sys_timeout_abs time h (next_timeout s) = Inr l \<and> mset l = add_mset \<lparr>due = time, handler = h\<rparr> (mset (next_timeout s)) \<and>
    net_ok (s\<lparr>next_timeout := l\<rparr>) \<and> pending (s\<lparr>next_timeout := l\<rparr>) = insert h (pending s)"
proof -
  have "length (next_timeout s) < MEMP_NUM_SYS_TIMEOUT" using pool_place [OF assms(1)] by (simp add: MEMP_NUM_SYS_TIMEOUT_def)
  then obtain l where l: "sys_timeout_abs time h (next_timeout s) = Inr l"
      "mset l = add_mset \<lparr>due = time, handler = h\<rparr> (mset (next_timeout s))"
    using sys_timeout_abs_result [of "next_timeout s" time h] by blast
  have m: "mset (map handler l) = mset (h # map handler (next_timeout s))" by (simp add: l(2))
  have "set (map handler l) = insert h (pending s)" using mset_eq_setD [OF m] by (simp add: pending_def)
  then have p: "pending (s\<lparr>next_timeout := l\<rparr>) = insert h (pending s)" by (simp add: pending_def)
  have "distinct (map handler l)"
    using mset_eq_imp_distinct_iff [OF m] assms(1,2) by (simp add: net_ok_def pending_def)
  then have "net_ok (s\<lparr>next_timeout := l\<rparr>)" using assms(1,3) p by (simp add: net_ok_def)
  then show ?thesis using l p by blast
qed

lemma place:
  assumes "net_ok s" and "h \<notin> pending s" and "h \<in> insert Tcp_Timer (cyclic \<union> client)" and "msecs \<le> 150000"
  shows "\<exists>l. set_timeout e msecs h s = Inr (s\<lparr>next_timeout := l\<rparr>) \<and>
    mset l = add_mset \<lparr>due = sys_now e + msecs, handler = h\<rparr> (mset (next_timeout s)) \<and>
    net_ok (s\<lparr>next_timeout := l\<rparr>) \<and> pending (s\<lparr>next_timeout := l\<rparr>) = insert h (pending s)"
proof -
  have "msecs \<le> 0xFFFFFFFF div 4" using assms(4) by (rule order_trans) simp
  then show ?thesis
    using place_abs [OF assms(1-3), of "sys_now e + msecs"] by (auto simp: set_timeout_def sys_timeout_def)
qed

lemma cleared:
  assumes "net_ok s"
  shows "net_ok (clear_timeout h s)" "pending (clear_timeout h s) = pending s - {h}"
  using assms untimeout_handlers [of "next_timeout s" h] by (auto simp: net_ok_def clear_timeout_def pending_def)


section \<open>How much is due\<close>

text \<open>An entry that is overdue counts twice, one that is due just now once.\<close>

definition weight :: "u32 \<Rightarrow> net_handler sys_timeo \<Rightarrow> nat" where
  "weight now t = (if TIME_LESS_THAN (due t) now then 2 else if due t = now then 1 else 0)"

definition load :: "u32 \<Rightarrow> net \<Rightarrow> nat" where
  "load now s = sum_list (map (weight now) (next_timeout s))"

lemma load_simps [simp]:
  "load now (s\<lparr>sntp_retry_timeout := a\<rparr>) = load now s" "load now (s\<lparr>dns_callbacks := n\<rparr>) = load now s"
  "load now (s\<lparr>tcpip_tcp_timer_active := b\<rparr>) = load now s" "load now (s\<lparr>server_addr := a\<rparr>) = load now s"
  "load now (s\<lparr>texts := t\<rparr>) = load now s" "load now (s\<lparr>reachability := r\<rparr>) = load now s"
  "load now (s\<lparr>requests := q\<rparr>) = load now s" "load now (s\<lparr>current_timeout_due_time := a\<rparr>) = load now s"
  by (simp_all add: load_def)

lemma load_place:
  assumes "mset l = add_mset x (mset (next_timeout s))"
  shows "load now (s\<lparr>next_timeout := l\<rparr>) = weight now x + load now s"
proof -
  have "sum_list (map (weight now) l) = sum_mset (image_mset (weight now) (mset l))" by (simp flip: sum_mset_sum_list)
  also have "\<dots> = weight now x + sum_list (map (weight now) (next_timeout s))"
    unfolding assms by (simp flip: sum_mset_sum_list)
  finally show ?thesis by (simp add: load_def)
qed

lemma load_clear: "load now (clear_timeout h s) \<le> load now s"
proof -
  have "sum_list (map (weight now) (sys_untimeout h l)) \<le> sum_list (map (weight now) l)" for l by (induction l) auto
  then show ?thesis by (simp add: load_def clear_timeout_def)
qed

text \<open>Times near \<open>now\<close> on an unbounded clock.\<close>

lemma near_clock:
  fixes now :: u32
  obtains N where "now = of_nat N" "2 ^ 32 \<le> N"
  by (rule that [of "unat now + 2 ^ 32"]) (simp_all add: word_of_nat_eq_0_iff)

lemma weight_near:
  assumes "T \<le> N + 0x7FFFFFFF" and "N \<le> T + 0x7FFFFFFF"
  shows "weight (of_nat N) \<lparr>due = of_nat T, handler = h\<rparr> = (if T < N then 2 else if T = N then 1 else 0)"
proof -
  have "TIME_LESS_THAN (of_nat T) (of_nat N) \<longleftrightarrow> T < N" "TIME_LESS_THAN (of_nat N) (of_nat T) \<longleftrightarrow> N < T"
    by (rule less_close; use assms in simp)+
  moreover have "\<not> TIME_LESS_THAN (of_nat N) (of_nat N)" by (simp add: TIME_LESS_THAN_def)
  ultimately have "(of_nat T :: u32) = of_nat N \<Longrightarrow> T = N" by (metis linorder_neqE_nat)
  then show ?thesis using \<open>TIME_LESS_THAN (of_nat T) (of_nat N) \<longleftrightarrow> T < N\<close> by (auto simp: weight_def)
qed

definition soon :: "u32 \<Rightarrow> stack_now \<Rightarrow> bool" where
  "soon now e \<longleftrightarrow> sys_now e - now \<le> 0x3FFFFFFF"

lemma soon_near:
  assumes "soon now e" and "now = of_nat N"
  shows "\<exists>x \<le> 0x3FFFFFFF. sys_now e = of_nat (N + x)"
proof (intro exI conjI)
  show "unat (sys_now e - now) \<le> 0x3FFFFFFF" using assms(1) by (simp add: soon_def word_le_nat_alt)
  show "sys_now e = of_nat (N + unat (sys_now e - now))" by (simp add: assms(2))
qed

lemma weight_later:
  assumes "soon now e" and "250 \<le> m" and "m \<le> 150000"
  shows "weight now \<lparr>due = sys_now e + m, handler = h\<rparr> = 0"
proof -
  obtain N where N: "now = of_nat N" using near_clock by metis
  obtain x where x: "x \<le> 0x3FFFFFFF" "sys_now e = of_nat (N + x)" using soon_near [OF assms(1) N] by blast
  have m: "250 \<le> unat m" "unat m \<le> 150000" using assms(2,3) by (simp_all add: word_le_nat_alt)
  have "sys_now e + m = of_nat (N + x + unat m)" by (simp add: x(2))
  moreover have "weight (of_nat N) \<lparr>due = of_nat (N + x + unat m), handler = h\<rparr> = 0"
    using weight_near [of "N + x + unat m" N h] x(1) m by simp
  ultimately show ?thesis by (simp add: N)
qed

text \<open>An entry is not overdue by more than twelve days.\<close>

definition not_late :: "u32 \<Rightarrow> net_handler sys_timeo \<Rightarrow> bool" where
  "not_late now t \<longleftrightarrow> TIME_LESS_THAN now (due t) \<or> now - due t \<le> 0x3FFFFFFF"

definition fine :: "u32 \<Rightarrow> net \<Rightarrow> bool" where
  "fine now s \<longleftrightarrow> (\<forall>t \<in> set (next_timeout s). not_late now t)"

lemma fine_simps [simp]:
  "fine now (s\<lparr>sntp_retry_timeout := a\<rparr>) = fine now s" "fine now (s\<lparr>dns_callbacks := n\<rparr>) = fine now s"
  "fine now (s\<lparr>tcpip_tcp_timer_active := b\<rparr>) = fine now s" "fine now (s\<lparr>server_addr := a\<rparr>) = fine now s"
  "fine now (s\<lparr>texts := t\<rparr>) = fine now s" "fine now (s\<lparr>reachability := r\<rparr>) = fine now s"
  "fine now (s\<lparr>requests := q\<rparr>) = fine now s" "fine now (s\<lparr>current_timeout_due_time := a\<rparr>) = fine now s"
  by (simp_all add: fine_def)

lemma fine_place:
  assumes "mset l = add_mset x (mset (next_timeout s))"
  shows "fine now (s\<lparr>next_timeout := l\<rparr>) \<longleftrightarrow> not_late now x \<and> fine now s"
  using mset_eq_setD [of l "x # next_timeout s"] assms by (auto simp: fine_def)

lemma fine_clear: "fine now s \<Longrightarrow> fine now (clear_timeout h s)"
  using untimeout_subset [of h "next_timeout s"] by (auto simp: fine_def clear_timeout_def)

lemma later_not_late:
  assumes "soon now e" and "250 \<le> m" and "m \<le> 150000"
  shows "not_late now \<lparr>due = sys_now e + m, handler = h\<rparr>"
proof -
  obtain N where N: "now = of_nat N" using near_clock by metis
  obtain x where x: "x \<le> 0x3FFFFFFF" "sys_now e = of_nat (N + x)" using soon_near [OF assms(1) N] by blast
  have m: "250 \<le> unat m" "unat m \<le> 150000" using assms(2,3) by (simp_all add: word_le_nat_alt)
  have "TIME_LESS_THAN (of_nat N) (of_nat (N + x + unat m)) \<longleftrightarrow> N < N + x + unat m"
    by (rule less_close) (use x(1) m in simp_all)
  then show ?thesis using m by (simp add: not_late_def N x(2))
qed

section \<open>What the operations keep\<close>

text \<open>Relation between the states around an operation of the client.\<close>

definition kept_net :: "stack_now \<Rightarrow> net \<Rightarrow> net \<Rightarrow> bool" where
  "kept_net e s s' \<longleftrightarrow> net_ok s' \<and> sntp_pcb s' = sntp_pcb s \<and> tcpip_tcp_timer_active s' = tcpip_tcp_timer_active s \<and>
     initializated s' = initializated s \<and> pending s' - client = pending s - client \<and>
     (\<forall>now. soon now e \<longrightarrow> load now s' \<le> load now s \<and> (fine now s \<longrightarrow> fine now s'))"

text \<open>Clearing a timeout of the client and setting one.\<close>

lemma replace_kept:
  assumes "net_ok s" and "h \<in> client" and "250 \<le> m" and "m \<le> 150000"
  shows "\<exists>l. set_timeout e m h (clear_timeout h s) = Inr (s\<lparr>next_timeout := l\<rparr>) \<and> kept_net e s (s\<lparr>next_timeout := l\<rparr>) \<and>
    pending (s\<lparr>next_timeout := l\<rparr>) = insert h (pending s)"
proof -
  let ?c = "clear_timeout h s"
  have c: "net_ok ?c" "pending ?c = pending s - {h}" using cleared [OF assms(1)] by simp_all
  obtain l where l: "set_timeout e m h ?c = Inr (?c\<lparr>next_timeout := l\<rparr>)"
      "mset l = add_mset \<lparr>due = sys_now e + m, handler = h\<rparr> (mset (next_timeout ?c))"
      "net_ok (?c\<lparr>next_timeout := l\<rparr>)" "pending (?c\<lparr>next_timeout := l\<rparr>) = insert h (pending s)"
    using place [OF c(1), of h m e] assms(2,4) c(2) by (auto simp: client_def)
  have s: "?c\<lparr>next_timeout := l\<rparr> = s\<lparr>next_timeout := l\<rparr>" by (simp add: clear_timeout_def)
  have "load now (s\<lparr>next_timeout := l\<rparr>) \<le> load now s \<and> (fine now s \<longrightarrow> fine now (s\<lparr>next_timeout := l\<rparr>))" if "soon now e" for now
    using load_place [OF l(2), of now] load_clear [of now h s] weight_later [OF that assms(3,4), of h]
      fine_place [OF l(2), of now] fine_clear [of now s h] later_not_late [OF that assms(3,4), of h] unfolding s by simp
  then show ?thesis
    using l(1,3,4) assms(2) unfolding s kept_net_def by (intro exI [of _ l]) auto
qed

lemma retry_texts: "sntp_retry e s = Inr s' \<Longrightarrow> texts s' = texts s"
  by (auto simp: sntp_retry_def set_timeout_def clear_timeout_def Let_def bindR_eq_Inr_iff)

lemma retry_kept:
  assumes "net_ok s" and "sntp_pcb s"
  shows "\<exists>s'. sntp_retry e s = Inr s' \<and> kept_net e s s' \<and> Sntp_Request \<in> pending s' \<and> dns_callbacks s' = dns_callbacks s"
proof -
  have r: "sntp_retry_timeout s \<le> 150000" "15000 \<le> sntp_retry_timeout s" using assms by (simp_all add: net_ok_def)
  then have "250 \<le> sntp_retry_timeout s" by (simp add: word_le_nat_alt)
  then obtain l where l: "set_timeout e (sntp_retry_timeout s) Sntp_Request (clear_timeout Sntp_Request s) = Inr (s\<lparr>next_timeout := l\<rparr>)"
      "kept_net e s (s\<lparr>next_timeout := l\<rparr>)" "pending (s\<lparr>next_timeout := l\<rparr>) = insert Sntp_Request (pending s)"
    using replace_kept [OF assms(1), of Sntp_Request _ e] r(1) by (auto simp: client_def)
  let ?n = "push_bit 1 (sntp_retry_timeout s)"
  let ?t = "if ?n \<le> SNTP_RETRY_TIMEOUT_MAX \<and> sntp_retry_timeout s < ?n then ?n else SNTP_RETRY_TIMEOUT_MAX"
  let ?s = "s\<lparr>next_timeout := l, sntp_retry_timeout := ?t\<rparr>"
  have t: "15000 \<le> ?t" "?t \<le> 150000"
    using r by (auto simp: SNTP_RETRY_TIMEOUT_MAX_def SNTP_RETRY_TIMEOUT_def SNTP_RECV_TIMEOUT_def)
  have "sntp_retry e s = Inr ?s" using l(1) by (simp add: sntp_retry_def Let_def)
  moreover have "kept_net e s ?s" using l(2) t by (simp add: kept_net_def net_ok_def)
  moreover have "Sntp_Request \<in> pending ?s" using l(3) by simp
  ultimately show ?thesis by (intro exI [of _ ?s]) simp
qed


lemma kept_trans: "kept_net e s s1 \<Longrightarrow> kept_net e s1 s2 \<Longrightarrow> kept_net e s s2"
  unfolding kept_net_def by (metis order_trans)

lemma kept_refl: "net_ok s \<Longrightarrow> kept_net e s s"
  by (simp add: kept_net_def)

lemma clear_kept: "net_ok s \<Longrightarrow> h \<in> client \<Longrightarrow> kept_net e s (clear_timeout h s)"
  using cleared [of s h] load_clear [of _ h s] fine_clear [of _ s h]
  by (auto simp: kept_net_def) (auto simp: clear_timeout_def)

lemma kept_fields:
  "net_ok s \<Longrightarrow> kept_net e s (s\<lparr>reachability := r, requests := q\<rparr>)"
  "net_ok s \<Longrightarrow> kept_net e s (s\<lparr>server_addr := a\<rparr>)"
  "net_ok s \<Longrightarrow> kept_net e s (s\<lparr>dns_callbacks := n\<rparr>)"
  by (simp_all add: kept_net_def net_ok_def)

lemma send_kept:
  assumes "net_ok s"
  shows "\<exists>s'. sntp_send_request e a s = Inr s' \<and> kept_net e s s' \<and> pending s' \<inter> client \<noteq> {}"
proof (cases "pbuf_there e")
  case True
  let ?s = "s\<lparr>reachability := push_bit 1 (reachability s), requests := requests s @ [a]\<rparr>"
  note k = kept_fields(1) [OF assms, where e = e and r = "push_bit 1 (reachability s)" and q = "requests s @ [a]"]
  then have "net_ok ?s" by (simp add: kept_net_def)
  from replace_kept [OF this, of Sntp_Retry SNTP_RECV_TIMEOUT e]
  obtain l where l: "set_timeout e SNTP_RECV_TIMEOUT Sntp_Retry (clear_timeout Sntp_Retry ?s) = Inr (?s\<lparr>next_timeout := l\<rparr>)"
      "kept_net e ?s (?s\<lparr>next_timeout := l\<rparr>)" "pending (?s\<lparr>next_timeout := l\<rparr>) = insert Sntp_Retry (pending ?s)"
    by (auto simp: client_def SNTP_RECV_TIMEOUT_def)
  then show ?thesis
    using True kept_trans [OF k l(2)] l(3) by (intro exI [of _ "?s\<lparr>next_timeout := l\<rparr>"]) (simp add: sntp_send_request_def client_def)
next
  case False
  from replace_kept [OF assms, of Sntp_Request SNTP_RETRY_TIMEOUT e]
  obtain l where "set_timeout e SNTP_RETRY_TIMEOUT Sntp_Request (clear_timeout Sntp_Request s) = Inr (s\<lparr>next_timeout := l\<rparr>)"
      "kept_net e s (s\<lparr>next_timeout := l\<rparr>)" "pending (s\<lparr>next_timeout := l\<rparr>) = insert Sntp_Request (pending s)"
    by (auto simp: client_def SNTP_RETRY_TIMEOUT_def SNTP_RECV_TIMEOUT_def)
  then show ?thesis
    using False by (intro exI [of _ "s\<lparr>next_timeout := l\<rparr>"]) (simp add: sntp_send_request_def client_def)
qed

lemma asking_client: "pending s \<inter> client \<noteq> {} \<Longrightarrow> asking s"
  by (auto simp: asking_def client_def)

lemma dns_found_kept:
  assumes "net_ok s" and "sntp_pcb s"
  shows "\<exists>s'. sntp_dns_found e a s = Inr s' \<and> kept_net e s s' \<and> asking s'"
proof (cases a)
  case None
  obtain s' where "sntp_retry e s = Inr s'" "kept_net e s s'" "Sntp_Request \<in> pending s'" using retry_kept [OF assms] by blast
  then show ?thesis by (simp add: sntp_dns_found_def None asking_def)
next
  case (Some ip)
  note k = kept_fields(2) [OF assms(1), of e ip]
  then have "net_ok (s\<lparr>server_addr := ip\<rparr>)" by (simp add: kept_net_def)
  from send_kept [OF this, of e ip] show ?thesis
    using kept_trans [OF k] asking_client by (auto simp: sntp_dns_found_def Some)
qed

lemma request_kept:
  assumes "net_ok s"
  shows "\<exists>s'. sntp_request e s = Inr s' \<and> kept_net e s s' \<and> asking s'"
proof -
  define r where "r = (case server_name s of
      Some name \<Rightarrow> (dns_err e, dns_addr e, if dns_err e = ERR_OK then s\<lparr>server_addr := dns_addr e\<rparr> else s\<lparr>server_addr := 0\<rparr>)
    | None \<Rightarrow> (if server_addr s = 0 then ERR_ARG else ERR_OK, server_addr s, s))"
  obtain err addr s1 where r1: "r = (err, addr, s1)" by (cases r)
  have k: "kept_net e s s1"
    using r1 kept_fields(2) [OF assms] kept_refl [OF assms] by (auto simp: r_def split: option.splits if_splits)
  then have ok: "net_ok s1" by (simp add: kept_net_def)
  have q: "sntp_request e s = (if err = ERR_INPROGRESS then Inr (s1\<lparr>dns_callbacks := dns_callbacks s1 + 1\<rparr>)
      else if err = ERR_OK then sntp_send_request e addr s1
      else set_timeout e SNTP_RETRY_TIMEOUT Sntp_Retry (clear_timeout Sntp_Retry s1))"
    unfolding sntp_request_def r_def [symmetric] r1 by simp
  consider "err = ERR_INPROGRESS" | "err = ERR_OK" | "err \<noteq> ERR_INPROGRESS" "err \<noteq> ERR_OK" by blast
  then show ?thesis
  proof cases
    case 1
    then show ?thesis using q kept_trans [OF k kept_fields(3) [OF ok]] by (simp add: asking_def)
  next
    case 2
    then show ?thesis using q send_kept [OF ok, of e addr] kept_trans [OF k] asking_client by auto
  next
    case 3
    from replace_kept [OF ok, of Sntp_Retry SNTP_RETRY_TIMEOUT e]
    obtain l where "set_timeout e SNTP_RETRY_TIMEOUT Sntp_Retry (clear_timeout Sntp_Retry s1) = Inr (s1\<lparr>next_timeout := l\<rparr>)"
        "kept_net e s1 (s1\<lparr>next_timeout := l\<rparr>)" "pending (s1\<lparr>next_timeout := l\<rparr>) = insert Sntp_Retry (pending s1)"
      by (auto simp: client_def SNTP_RETRY_TIMEOUT_def SNTP_RECV_TIMEOUT_def)
    then show ?thesis using q 3 kept_trans [OF k] by (auto simp: asking_def)
  qed
qed

text \<open>A packet: the three outcomes.\<close>

definition accepted :: "u8 list \<Rightarrow> bool" where
  "accepted p \<longleftrightarrow> length p = SNTP_MSG_LEN \<and> p ! 0 AND 7 = 4 \<and> p ! 1 \<noteq> 0"

definition kiss_of_death :: "u8 list \<Rightarrow> bool" where
  "kiss_of_death p \<longleftrightarrow> length p = SNTP_MSG_LEN \<and> p ! 0 AND 7 = 4 \<and> p ! 1 = 0"

lemma recv_cases:
  assumes "sntp_opmode s = SNTP_OPMODE_POLL"
  shows "sntp_recv e p s =
    (if accepted p then bindR (sntp_process (take 4 (drop 40 p)) s) (\<lambda>s1.
        set_timeout e SNTP_UPDATE_DELAY Sntp_Request (clear_timeout Sntp_Request (clear_timeout Sntp_Retry
          (s1\<lparr>reachability := reachability s1 OR 1, sntp_retry_timeout := SNTP_RETRY_TIMEOUT\<rparr>))))
     else if kiss_of_death p then sntp_retry e s else Inr s)"
proof -
  have m: "sntp_process x s = Inr s1 \<Longrightarrow> sntp_opmode s1 = SNTP_OPMODE_POLL" for x s1
    using assms by (auto simp: sntp_process_def bindR_eq_Inr_iff)
  have c: "(clear_timeout h s1)\<lparr>sntp_retry_timeout := r\<rparr> = clear_timeout h (s1\<lparr>sntp_retry_timeout := r\<rparr>)" for h s1 r
    by (simp add: clear_timeout_def)
  have o: "SNTP_OPMODE_POLL \<noteq> SNTP_OPMODE_LISTENONLY" by (simp add: SNTP_OPMODE_POLL_def SNTP_OPMODE_LISTENONLY_def)
  show ?thesis
    using m assms o
    by (cases "sntp_process (take 4 (drop 40 p)) s")
      (auto simp: sntp_recv_def accepted_def kiss_of_death_def Let_def c)
qed

lemma sntp_process_result:
  assumes "length (fst (texts s)) = 32" and "length (snd (texts s)) = 32"
  shows "\<exists>t. sntp_process x s = Inr (s\<lparr>texts := t\<rparr>) \<and> length (fst t) = 32 \<and> length (snd t) = 32 \<and>
    read_time (c_str (fst t)) = unat (lwip_ntohl x + DIFF_SEC_1970_2036 - 10800)"
proof -
  obtain a b where ab: "texts s = (a, b)" by (cases "texts s")
  have l: "length a = 32" "length b = 32" using assms ab by simp_all
  obtain a' b' where "sntp_set_system_time (lwip_ntohl x + DIFF_SEC_1970_2036) (a, b) = Inr (a', b')"
      "length a' = 32" "length b' = 32" "read_time (c_str a') = unat (lwip_ntohl x + DIFF_SEC_1970_2036 - 10800)"
    using clock_text_result [OF l] by blast
  then show ?thesis by (intro exI [of _ "(a', b')"]) (simp add: sntp_process_def ab)
qed

lemma recv_kept:
  assumes "net_ok s" and "sntp_pcb s" and "asking s"
  shows "\<exists>s'. sntp_recv e p s = Inr s' \<and> kept_net e s s' \<and> asking s' \<and>
    (if accepted p then read_time (c_str (fst (texts s'))) = unat (lwip_ntohl (take 4 (drop 40 p)) + DIFF_SEC_1970_2036 - 10800) \<and>
       Sntp_Request \<in> pending s' \<and> Sntp_Retry \<notin> pending s'
     else texts s' = texts s)"
proof -
  have o: "sntp_opmode s = SNTP_OPMODE_POLL" using assms(1,2) by (simp add: net_ok_def)
  consider "accepted p" | "\<not> accepted p" "kiss_of_death p" | "\<not> accepted p" "\<not> kiss_of_death p" by blast
  then show ?thesis
  proof cases
    case 1
    obtain t where t: "sntp_process (take 4 (drop 40 p)) s = Inr (s\<lparr>texts := t\<rparr>)" "length (fst t) = 32" "length (snd t) = 32"
        "read_time (c_str (fst t)) = unat (lwip_ntohl (take 4 (drop 40 p)) + DIFF_SEC_1970_2036 - 10800)"
      using sntp_process_result [of s "take 4 (drop 40 p)"] assms(1) unfolding net_ok_def by blast
    let ?s = "s\<lparr>texts := t, reachability := reachability s OR 1, sntp_retry_timeout := SNTP_RETRY_TIMEOUT\<rparr>"
    have k: "kept_net e s ?s"
      using assms(1) t(2,3) by (simp add: kept_net_def net_ok_def SNTP_RETRY_TIMEOUT_def SNTP_RECV_TIMEOUT_def)
    then have k1: "kept_net e s (clear_timeout Sntp_Retry ?s)"
      using kept_trans [OF k clear_kept] by (simp add: kept_net_def client_def)
    then have ok: "net_ok (clear_timeout Sntp_Retry ?s)" "net_ok ?s" using k by (simp_all add: kept_net_def)
    from replace_kept [OF ok(1), of Sntp_Request SNTP_UPDATE_DELAY e]
    obtain l where l: "set_timeout e SNTP_UPDATE_DELAY Sntp_Request (clear_timeout Sntp_Request (clear_timeout Sntp_Retry ?s)) =
          Inr ((clear_timeout Sntp_Retry ?s)\<lparr>next_timeout := l\<rparr>)"
        "kept_net e (clear_timeout Sntp_Retry ?s) ((clear_timeout Sntp_Retry ?s)\<lparr>next_timeout := l\<rparr>)"
        "pending ((clear_timeout Sntp_Retry ?s)\<lparr>next_timeout := l\<rparr>) = insert Sntp_Request (pending (clear_timeout Sntp_Retry ?s))"
      by (auto simp: client_def SNTP_UPDATE_DELAY_def)
    let ?r = "(clear_timeout Sntp_Retry ?s)\<lparr>next_timeout := l\<rparr>"
    have "sntp_recv e p s = Inr ?r" using 1 t(1) l(1) by (simp add: recv_cases [OF o])
    moreover have "kept_net e s ?r" by (rule kept_trans [OF k1 l(2)])
    moreover have "Sntp_Request \<in> pending ?r" "Sntp_Retry \<notin> pending ?r"
      using l(3) cleared(2) [OF ok(2), of Sntp_Retry] by simp_all
    moreover have "texts ?r = t" by (simp add: clear_timeout_def)
    ultimately show ?thesis using 1 t(4) by (intro exI [of _ ?r]) (simp add: asking_def)
  next
    case 2
    obtain s' where s': "sntp_retry e s = Inr s'" "kept_net e s s'" "Sntp_Request \<in> pending s'"
      using retry_kept [OF assms(1,2)] by blast
    then show ?thesis using 2 by (auto simp: recv_cases [OF o] asking_def retry_texts)
  next
    case 3
    then show ?thesis using assms kept_refl by (simp add: recv_cases [OF o])
  qed
qed


section \<open>The handlers of the timers\<close>

text \<open>An entry that is due is taken out of the list.\<close>

definition taken :: "net_handler sys_timeo \<Rightarrow> net_handler sys_timeo list \<Rightarrow> net \<Rightarrow> net" where
  "taken t ts s = s\<lparr>next_timeout := ts, current_timeout_due_time := due t\<rparr>"

lemma expired_Some: "expired now l = Some (t, ts) \<longleftrightarrow> l = t # ts \<and> \<not> TIME_LESS_THAN now (due t)"
  by (auto simp: expired_def split: list.splits)

lemma taken_out:
  assumes "net_ok s" and "next_timeout s = t # ts"
  shows "net_ok (taken t ts s)" "pending s = insert (handler t) (pending (taken t ts s))" "handler t \<notin> pending (taken t ts s)"
    "load now s = weight now t + load now (taken t ts s)"
  using assms by (auto simp: taken_def net_ok_def pending_def load_def)

lemma due_near:
  assumes "\<not> TIME_LESS_THAN now (due t)" and "now = of_nat N" and "2 ^ 32 \<le> N"
  shows "unat (now - due t) \<le> 0x7FFFFFFF" "due t = of_nat (N - unat (now - due t))"
    "weight now t = (if unat (now - due t) = 0 then 1 else 2)"
proof -
  show a: "unat (now - due t) \<le> 0x7FFFFFFF"
    using assms(1) by (simp add: TIME_LESS_THAN_def LWIP_MAX_TIMEOUT_def not_less word_le_nat_alt)
  then have le: "unat (now - due t) \<le> N" using assms(3) by simp
  show d: "due t = of_nat (N - unat (now - due t))" unfolding of_nat_diff [OF le] by (simp add: assms(2))
  have t: "t = \<lparr>due = of_nat (N - unat (now - due t)), handler = handler t\<rparr>" using d by (cases t) simp
  show "weight now t = (if unat (now - due t) = 0 then 1 else 2)"
    using weight_near [of "N - unat (now - due t)" N "handler t"] a le
    unfolding t [symmetric] assms(2) [symmetric] by (auto split: if_splits)
qed

lemma due_weight:
  assumes "\<not> TIME_LESS_THAN now (due t)"
  shows "0 < weight now t"
proof -
  obtain N where "now = of_nat N" "2 ^ 32 \<le> N" using near_clock by metis
  from due_near(3) [OF assms this] show ?thesis by simp
qed

lemma cyclic_interval_bounds:
  assumes "i \<in> {1..<6}"
  shows "250 \<le> unat (cyclic_interval ! i)" "unat (cyclic_interval ! i) \<le> 60000"
proof -
  have "i = 1 \<or> i = 2 \<or> i = 3 \<or> i = 4 \<or> i = 5" using assms by auto
  then show "250 \<le> unat (cyclic_interval ! i)" "unat (cyclic_interval ! i) \<le> 60000"
    by (elim disjE; simp add: cyclic_interval_def)+
qed

lemma cyclic_weight:
  assumes "soon now e" and "\<not> TIME_LESS_THAN now (due t)" and "not_late now t" and "i \<in> {1..<6}"
  shows "weight now \<lparr>due = (if TIME_LESS_THAN (due t + cyclic_interval ! i) (sys_now e) then sys_now e + cyclic_interval ! i
      else due t + cyclic_interval ! i), handler = h\<rparr> < weight now t"
proof -
  let ?v = "cyclic_interval ! i"
  note v = cyclic_interval_bounds [OF assms(4)]
  obtain N where N: "now = of_nat N" "2 ^ 32 \<le> N" using near_clock by metis
  obtain x where x: "x \<le> 0x3FFFFFFF" "sys_now e = of_nat (N + x)" using soon_near [OF assms(1) N(1)] by blast
  define a where "a = unat (now - due t)"
  have a: "a \<le> 0x3FFFFFFF" using assms(2,3) by (simp add: a_def not_late_def word_le_nat_alt)
  note dn = due_near [OF assms(2) N, folded a_def]
  note t = dn(2) and w = dn(3)
  have nt: "due t + ?v = of_nat (N - a + unat ?v)" by (simp add: t)
  have l: "TIME_LESS_THAN (due t + ?v) (sys_now e) \<longleftrightarrow> N - a + unat ?v < N + x"
    unfolding nt x(2) by (rule less_close; use a x(1) v N(2) in linarith)
  show ?thesis
  proof (cases "N - a + unat ?v < N + x")
    case True
    have "250 \<le> ?v" "?v \<le> 150000" using v by (simp_all add: word_le_nat_alt)
    from weight_later [OF assms(1) this] show ?thesis using l True w by simp
  next
    case False
    have "weight now \<lparr>due = due t + ?v, handler = h\<rparr> = (if N - a + unat ?v < N then 2 else if N - a + unat ?v = N then 1 else 0)"
      unfolding nt N(1) by (rule weight_near; use a v N(2) in linarith)
    then show ?thesis using l False w v a N(2) by auto
  qed
qed


lemma cyclic_not_late:
  assumes "soon now e" and "\<not> TIME_LESS_THAN now (due t)" and "not_late now t" and "i \<in> {1..<6}"
  shows "not_late now \<lparr>due = (if TIME_LESS_THAN (due t + cyclic_interval ! i) (sys_now e) then sys_now e + cyclic_interval ! i
      else due t + cyclic_interval ! i), handler = h\<rparr>"
proof -
  let ?d = "if TIME_LESS_THAN (due t + cyclic_interval ! i) (sys_now e) then sys_now e + cyclic_interval ! i
      else due t + cyclic_interval ! i"
  have "weight now \<lparr>due = ?d, handler = h\<rparr> < 2"
  proof -
    obtain N where "now = of_nat N" "2 ^ 32 \<le> N" using near_clock by metis
    from due_near(3) [OF assms(2) this] have "weight now t \<le> 2" by simp
    then show ?thesis using cyclic_weight [OF assms, of h] by linarith
  qed
  then have "\<not> TIME_LESS_THAN ?d now" by (auto simp: weight_def split: if_splits)
  then have d: "?d - now \<le> 0x7FFFFFFF" by (simp add: TIME_LESS_THAN_def LWIP_MAX_TIMEOUT_def not_less)
  show ?thesis
  proof (cases "?d = now")
    case True
    then show ?thesis unfolding not_late_def by simp
  next
    case False
    obtain N where N: "now = of_nat N" using near_clock by metis
    define k where "k = unat (?d - now)"
    have "0 < k" "k \<le> 0x7FFFFFFF" using False d by (simp_all add: k_def word_le_nat_alt unat_gt_0)
    moreover have "?d = of_nat (N + k)" by (simp add: k_def N)
    ultimately have "TIME_LESS_THAN now ?d" using less_close [of N "N + k"] by (simp add: N)
    then show ?thesis unfolding not_late_def by simp
  qed
qed

lemma inv_kept:
  assumes "kept_net e s s'" and "cyclic \<subseteq> pending s" and "Tcp_Timer \<in> pending s \<longleftrightarrow> tcpip_tcp_timer_active s"
    and "sntp_pcb s" and "initializated s" and "asking s'"
  shows "net_inv s'"
proof -
  have d: "cyclic \<inter> client = {}" "Tcp_Timer \<notin> client" by (auto simp: cyclic_def client_def)
  have "pending s' - client = pending s - client" using assms(1) by (simp add: kept_net_def)
  then have "x \<in> pending s' \<longleftrightarrow> x \<in> pending s" if "x \<notin> client" for x using that by blast
  then show ?thesis using assms d by (auto simp: net_inv_def kept_net_def)
qed

lemma handler_round:
  assumes i: "net_inv s" and x: "expired now (next_timeout s) = Some (t, ts)"
  shows "\<exists>s'. run_handler e (handler t) (taken t ts s) = Inr s' \<and> net_inv s' \<and>
    (soon now e \<and> fine now s \<longrightarrow> load now s' < load now s \<and> fine now s')"
proof -
  let ?s = "taken t ts s"
  have l: "next_timeout s = t # ts" "\<not> TIME_LESS_THAN now (due t)" using x by (simp_all add: expired_Some)
  have ok: "net_ok s" using i by (simp add: net_inv_def)
  note o = taken_out [OF ok l(1)]
  have f: "fine now s \<Longrightarrow> fine now ?s \<and> not_late now t" using l(1) by (auto simp: fine_def taken_def)
  have w: "load now ?s < load now s" using due_weight [OF l(2)] o(4) by simp
  have u: "handler t \<in> insert Tcp_Timer (cyclic \<union> client)" using ok o(2) by (auto simp: net_ok_def)
  have same: "sntp_pcb ?s = sntp_pcb s" "initializated ?s = initializated s"
    "tcpip_tcp_timer_active ?s = tcpip_tcp_timer_active s" "current_timeout_due_time ?s = due t" "dns_callbacks ?s = dns_callbacks s"
    by (simp_all add: taken_def)
  have by_kept: "net_inv s' \<and> (soon now e \<and> fine now s \<longrightarrow> load now s' < load now s \<and> fine now s')"
    if "kept_net e ?s s'" "asking s'" "handler t \<in> client" for s'
  proof -
    have "sntp_pcb s" using i that(3) o(2) by (auto simp: net_inv_def split: if_splits)
    moreover have "cyclic \<subseteq> pending ?s" "Tcp_Timer \<in> pending ?s \<longleftrightarrow> Tcp_Timer \<in> pending s"
      using i o(2) that(3) by (auto simp: net_inv_def cyclic_def client_def)
    ultimately have "net_inv s'" using i that(1,2) same by (intro inv_kept [of e ?s]) (auto simp: net_inv_def)
    then show ?thesis using that(1) w f unfolding kept_net_def by (meson le_less_trans)
  qed
  show ?thesis
  proof (cases "handler t")
    case (Cyclic_Timer j)
    have j: "j \<in> {1..<6}" using u Cyclic_Timer by (auto simp: cyclic_def client_def)
    let ?time = "if TIME_LESS_THAN (due t + cyclic_interval ! j) (sys_now e) then sys_now e + cyclic_interval ! j
      else due t + cyclic_interval ! j"
    obtain m where m: "sys_timeout_abs ?time (handler t) (next_timeout ?s) = Inr m"
        "mset m = add_mset \<lparr>due = ?time, handler = handler t\<rparr> (mset (next_timeout ?s))"
        "net_ok (?s\<lparr>next_timeout := m\<rparr>)" "pending (?s\<lparr>next_timeout := m\<rparr>) = insert (handler t) (pending ?s)"
      using place_abs [OF o(1,3) u] by blast
    have "net_inv (?s\<lparr>next_timeout := m\<rparr>)"
      using i m(3,4) same o(2) by (auto simp: net_inv_def asking_def)
    moreover have "load now (?s\<lparr>next_timeout := m\<rparr>) < load now s" if "soon now e" "fine now s"
      using load_place [OF m(2), of now] cyclic_weight [OF that(1) l(2) _ j, of "handler t"] f [OF that(2)] o(4) by simp
    moreover have "fine now (?s\<lparr>next_timeout := m\<rparr>)" if "soon now e" "fine now s"
      using fine_place [OF m(2), of now] cyclic_not_late [OF that(1) l(2) _ j, of "handler t"] f [OF that(2)] by simp
    moreover have "run_handler e (handler t) ?s = Inr (?s\<lparr>next_timeout := m\<rparr>)"
      using m(1) same(4) by (simp add: Cyclic_Timer lwip_cyclic_timer_def Let_def)
    ultimately show ?thesis by blast
  next
    case Tcp_Timer
    show ?thesis
    proof (cases "tcp_pcbs e")
      case True
      have v: "cyclic_interval ! 0 = 250" by (simp add: cyclic_interval_def)
      obtain m where m: "set_timeout e 250 Tcp_Timer ?s = Inr (?s\<lparr>next_timeout := m\<rparr>)"
          "mset m = add_mset \<lparr>due = sys_now e + 250, handler = Tcp_Timer\<rparr> (mset (next_timeout ?s))"
          "net_ok (?s\<lparr>next_timeout := m\<rparr>)" "pending (?s\<lparr>next_timeout := m\<rparr>) = insert Tcp_Timer (pending ?s)"
        using place [OF o(1), of Tcp_Timer 250 e] o(3) Tcp_Timer by auto
      have "net_inv (?s\<lparr>next_timeout := m\<rparr>)"
        using i m(3,4) same o(2) Tcp_Timer by (auto simp: net_inv_def asking_def)
      moreover have "load now (?s\<lparr>next_timeout := m\<rparr>) < load now s" if "soon now e"
        using load_place [OF m(2), of now] weight_later [OF that, of 250 Tcp_Timer] w by simp
      moreover have "fine now (?s\<lparr>next_timeout := m\<rparr>)" if "soon now e" "fine now s"
        using fine_place [OF m(2), of now] later_not_late [OF that(1), of 250 Tcp_Timer] f [OF that(2)] by simp
      moreover have "run_handler e (handler t) ?s = Inr (?s\<lparr>next_timeout := m\<rparr>)"
        using m(1) True v by (simp add: Tcp_Timer tcpip_tcp_timer_def)
      ultimately show ?thesis by blast
    next
      case False
      let ?r = "?s\<lparr>tcpip_tcp_timer_active := False\<rparr>"
      have "net_ok ?r" using o(1) by (simp add: net_ok_def)
      then have "net_inv ?r" using i same o(2,3) Tcp_Timer by (auto simp: net_inv_def asking_def cyclic_def)
      then show ?thesis
        using False w f by (intro exI [of _ ?r]) (simp add: Tcp_Timer tcpip_tcp_timer_def)
    qed
  next
    case Sntp_Request
    then show ?thesis using request_kept [OF o(1), of e] by_kept by (auto simp: client_def)
  next
    case Sntp_Retry
    have "sntp_pcb ?s" using i Sntp_Retry o(2) same(1) by (auto simp: net_inv_def client_def split: if_splits)
    from retry_kept [OF o(1) this, of e] show ?thesis using by_kept Sntp_Retry by (auto simp: client_def asking_def)
  qed
qed


section \<open>Every state of the program\<close>

lemma check_inv:
  "net_inv s \<Longrightarrow> sys_check_timeouts now es s = Inr s' \<Longrightarrow> net_inv s'"
proof (induction es arbitrary: s)
  case Nil
  then show ?case by (simp split: if_splits)
next
  case (Cons e es)
  show ?case
  proof (cases "expired now (next_timeout s)")
    case None
    then show ?thesis using Cons.prems by simp
  next
    case (Some x)
    obtain t ts where x: "x = (t, ts)" by (cases x)
    obtain s1 where "run_handler e (handler t) (taken t ts s) = Inr s1" "net_inv s1"
      using handler_round [OF Cons.prems(1)] Some x by blast
    then show ?thesis using Cons.IH [of s1] Cons.prems(2) by (simp add: Some x taken_def)
  qed
qed

lemma check_returns:
  "net_inv s \<Longrightarrow> fine now s \<Longrightarrow> \<forall>e \<in> set es. soon now e \<Longrightarrow> load now s \<le> length es \<Longrightarrow>
     \<exists>s'. sys_check_timeouts now es s = Inr s' \<and> expired now (next_timeout s') = None"
proof (induction es arbitrary: s)
  case Nil
  have "expired now (next_timeout s) = None"
  proof (rule ccontr)
    assume "expired now (next_timeout s) \<noteq> None"
    then obtain t ts where x: "next_timeout s = t # ts" "\<not> TIME_LESS_THAN now (due t)"
      using expired_Some [of now "next_timeout s"] by auto
    then show False using due_weight [OF x(2)] Nil.prems(4) by (simp add: load_def)
  qed
  then show ?case by simp
next
  case (Cons e es)
  show ?case
  proof (cases "expired now (next_timeout s)")
    case None
    then show ?thesis by simp
  next
    case (Some x)
    obtain t ts where x: "x = (t, ts)" by (cases x)
    obtain s1 where s1: "run_handler e (handler t) (taken t ts s) = Inr s1" "net_inv s1"
        "soon now e \<and> fine now s \<longrightarrow> load now s1 < load now s \<and> fine now s1"
      using handler_round [OF Cons.prems(1)] Some x by blast
    then show ?thesis using Cons.IH [of s1] Cons.prems(2-4) by (simp add: Some x taken_def)
  qed
qed

lemma load_bound: "net_ok s \<Longrightarrow> load now s \<le> 16"
proof -
  assume "net_ok s"
  then have "length (next_timeout s) \<le> 8" by (rule pool_place)
  moreover
  have "sum_list (map (weight now) l) \<le> 2 * length l" for l by (induction l) (auto simp: weight_def)
  from this [of "next_timeout s"] have "load now s \<le> 2 * length (next_timeout s)" by (simp add: load_def)
  ultimately show ?thesis by linarith
qed

lemma init_timeouts:
  "n \<le> 6 \<Longrightarrow> foldR (\<lambda>i. set_timeout e (cyclic_interval ! i) (Cyclic_Timer i)) [1..<n] net_blank = Inr s \<Longrightarrow>
     net_ok s \<and> pending s = Cyclic_Timer ` {1..<n} \<and> (\<exists>l. s = net_blank\<lparr>next_timeout := l\<rparr>)"
proof (induction n arbitrary: s)
  case 0
  then show ?case by (auto simp: net_ok_def pending_def net_blank_def intro!: exI [of _ "[]"])
next
  case (Suc n)
  show ?case
  proof (cases "n = 0")
    case True
    then show ?thesis using Suc.prems by (auto simp: net_ok_def pending_def net_blank_def intro!: exI [of _ "[]"])
  next
    case False
    then obtain s1 where s1: "foldR (\<lambda>i. set_timeout e (cyclic_interval ! i) (Cyclic_Timer i)) [1..<n] net_blank = Inr s1"
        "set_timeout e (cyclic_interval ! n) (Cyclic_Timer n) s1 = Inr s"
      using Suc.prems(2) by (auto simp: foldR_append bindR_eq_Inr_iff)
    have ih: "net_ok s1" "pending s1 = Cyclic_Timer ` {1..<n}" "\<exists>l. s1 = net_blank\<lparr>next_timeout := l\<rparr>"
      using Suc.IH [OF _ s1(1)] Suc.prems(1) by simp_all
    have n: "n \<in> {1..<6}" using False Suc.prems(1) by simp
    have "cyclic_interval ! n \<le> 150000" using cyclic_interval_bounds(2) [OF n] by (simp add: word_le_nat_alt)
    moreover have "Cyclic_Timer n \<notin> pending s1" using ih(2) by auto
    ultimately obtain l where "set_timeout e (cyclic_interval ! n) (Cyclic_Timer n) s1 = Inr (s1\<lparr>next_timeout := l\<rparr>)"
        "net_ok (s1\<lparr>next_timeout := l\<rparr>)" "pending (s1\<lparr>next_timeout := l\<rparr>) = insert (Cyclic_Timer n) (pending s1)"
      using place [OF ih(1), of "Cyclic_Timer n" "cyclic_interval ! n" e] n ih(2) by (auto simp: cyclic_def)
    moreover have "{1..<Suc n} = insert n {1..<n}" using False by auto
    ultimately show ?thesis using s1(2) ih(2,3) by auto
  qed
qed

lemma start_net_inv: "sys_timeouts_init e net_blank = Inr s \<Longrightarrow> net_inv s"
proof -
  assume "sys_timeouts_init e net_blank = Inr s"
  moreover have "length cyclic_interval = 6" by (simp add: cyclic_interval_def)
  ultimately have "foldR (\<lambda>i. set_timeout e (cyclic_interval ! i) (Cyclic_Timer i)) [1..<6] net_blank = Inr s"
    by (simp only: sys_timeouts_init_def)
  from init_timeouts [OF _ this] obtain l where "net_ok s" "pending s = cyclic" "s = net_blank\<lparr>next_timeout := l\<rparr>"
    by (auto simp: cyclic_def)
  then show ?thesis by (auto simp: net_inv_def net_blank_def cyclic_def client_def)
qed

lemma example_init_inv:
  assumes "net_inv s"
  shows "\<exists>s'. sntp_example_init e s = Inr s' \<and> net_inv s'"
proof (cases "initializated s")
  case True
  then show ?thesis using assms by (simp add: sntp_example_init_def)
next
  case False
  then have i: "\<not> sntp_pcb s" "pending s \<inter> client = {}" "net_ok s" using assms by (auto simp: net_inv_def)
  let ?s = "s\<lparr>sntp_opmode := SNTP_OPMODE_POLL, sntp_pcb := True, server_name := Some (bytes_of ''pool.ntp.org''),
    sntp_retry_timeout := SNTP_RETRY_TIMEOUT\<rparr>"
  have ok: "net_ok ?s" using i(3) by (simp add: net_ok_def pending_def SNTP_RETRY_TIMEOUT_def SNTP_RECV_TIMEOUT_def)
  have p: "pending ?s = pending s" by (simp add: pending_def)
  have "unat (lwip_rand e mod 5000) < 5000" by (simp add: unat_mod)
  then have "lwip_rand e mod 5000 \<le> 150000" by (simp add: word_le_nat_alt)
  then obtain l where l: "set_timeout e (lwip_rand e mod 5000) Sntp_Request ?s = Inr (?s\<lparr>next_timeout := l\<rparr>)"
      "net_ok (?s\<lparr>next_timeout := l\<rparr>)" "pending (?s\<lparr>next_timeout := l\<rparr>) = insert Sntp_Request (pending s)"
    using place [OF ok, of Sntp_Request "lwip_rand e mod 5000" e] i(2) p by (auto simp: client_def)
  let ?r = "(?s\<lparr>next_timeout := l\<rparr>)\<lparr>initializated := True\<rparr>"
  have o: "SNTP_OPMODE_POLL \<le> SNTP_OPMODE_LISTENONLY" by (simp add: SNTP_OPMODE_POLL_def)
  have c: "s\<lparr>sntp_opmode := SNTP_OPMODE_POLL, server_name := nm, sntp_pcb := True, sntp_retry_timeout := r\<rparr> =
      s\<lparr>sntp_opmode := SNTP_OPMODE_POLL, sntp_pcb := True, server_name := nm, sntp_retry_timeout := r\<rparr>" for nm r
    by (cases s) simp
  have "sntp_example_init e s = Inr ?r"
    using l(1) False i(1) o by (simp add: sntp_example_init_def sntp_setoperatingmode_def sntp_setservername_def sntp_init_def Let_def c)
  moreover have "net_inv ?r"
    using assms l(2,3) False by (auto simp: net_inv_def net_ok_def asking_def client_def cyclic_def)
  ultimately show ?thesis by blast
qed

lemma net_step_inv:
  assumes i: "net_inv s" and st: "net_step inp s = Inr s'"
  shows "net_inv s'"
proof (cases inp)
  case (Check_Timeouts now es)
  then show ?thesis using i st check_inv by (simp add: net_step_def)
next
  case (Packet e p)
  show ?thesis
  proof (cases "sntp_pcb s")
    case True
    have "net_ok s" "asking s" using i True by (simp_all add: net_inv_def)
    from recv_kept [OF this(1) True this(2)] obtain s1 where s1: "sntp_recv e p s = Inr s1" "kept_net e s s1" "asking s1" by blast
    have "net_inv s1" by (rule inv_kept [OF s1(2) _ _ True _ s1(3)]) (use i True in \<open>simp_all add: net_inv_def\<close>)
    then show ?thesis using st Packet True s1(1) by (simp add: net_step_def)
  next
    case False
    then show ?thesis using st Packet i by (simp add: net_step_def)
  qed
next
  case (Dns_Answer e a)
  show ?thesis
  proof (cases "0 < dns_callbacks s")
    case True
    let ?s = "s\<lparr>dns_callbacks := dns_callbacks s - 1\<rparr>"
    have p: "sntp_pcb s" using i True by (auto simp: net_inv_def split: if_splits)
    then have ok: "net_ok ?s" "sntp_pcb ?s" using i by (simp_all add: net_inv_def net_ok_def)
    obtain s1 where s1: "sntp_dns_found e a ?s = Inr s1" "kept_net e ?s s1" "asking s1" using dns_found_kept [OF ok] by blast
    have "net_inv s1" by (rule inv_kept [OF s1(2) _ _ ok(2) _ s1(3)]) (use i p in \<open>simp_all add: net_inv_def\<close>)
    then show ?thesis using st Dns_Answer True s1(1) by (simp add: net_step_def)
  next
    case False
    then show ?thesis using st Dns_Answer i by (simp add: net_step_def)
  qed
next
  case (Tcp_Needed e)
  show ?thesis
  proof (cases "\<not> tcpip_tcp_timer_active s \<and> tcp_pcbs e")
    case True
    let ?s = "s\<lparr>tcpip_tcp_timer_active := True\<rparr>"
    have v: "cyclic_interval ! 0 = 250" by (simp add: cyclic_interval_def)
    have ok: "net_ok ?s" using i by (simp add: net_inv_def net_ok_def)
    obtain l where "set_timeout e 250 Tcp_Timer ?s = Inr (?s\<lparr>next_timeout := l\<rparr>)" "net_ok (?s\<lparr>next_timeout := l\<rparr>)"
        "pending (?s\<lparr>next_timeout := l\<rparr>) = insert Tcp_Timer (pending s)"
      using place [OF ok, of Tcp_Timer 250 e] i True by (auto simp: net_inv_def)
    then show ?thesis
      using st Tcp_Needed True i v by (auto simp: net_step_def tcp_timer_needed_def net_inv_def asking_def client_def)
  next
    case False
    then show ?thesis using st Tcp_Needed i by (auto simp: net_step_def tcp_timer_needed_def)
  qed
next
  case (Dhcp_State e d)
  have a: "asking (s\<lparr>dhcp_last_state := k\<rparr>) = asking s" for k by (simp add: asking_def)
  have n: "net_inv (s\<lparr>dhcp_last_state := k\<rparr>)" for k using i by (simp add: net_inv_def net_ok_def a)
  then show ?thesis
    using st Dhcp_State i example_init_inv [OF n, of e]
    by (auto simp: net_step_def print_dhcp_state_def Let_def split: option.splits if_splits) (metis Inr_inject)
qed

lemma net_reach_inv: "net_reach s \<Longrightarrow> net_inv s"
  by (induction rule: net_reach.induct) (auto intro: start_net_inv net_step_inv)


section \<open>Properties\<close>

definition stack_example :: stack_now where
  "stack_example = \<lparr>sys_now = 0xFFFFFFF0, tcp_pcbs = True, dns_err = ERR_INPROGRESS, dns_addr = 0, pbuf_there = True,
     lwip_rand = 7\<rparr>"

definition net_example :: "net result" where
  "net_example = bindR (sys_timeouts_init stack_example net_blank) (net_step (Dhcp_State stack_example (Some 10)))"

definition server_packet :: "u8 list" where
  "server_packet = [0x24, 1] @ replicate 38 0 @ [0xE5, 0xBB, 0x85, 0x46] @ replicate 4 0"

lemma example_net:
  "case net_example of Inl f \<Rightarrow> False | Inr s \<Rightarrow> sntp_pcb s \<and> due (hd (next_timeout s)) = 0xFFFFFFF7 \<and>
     list_all (not_late 0x1F4) (next_timeout s) \<and>
     (case net_step (Check_Timeouts 0xFFFFFFF8 [stack_example, stack_example]) s of Inl f \<Rightarrow> False | Inr s1 \<Rightarrow>
        sntp_pcb s1 \<and> dns_callbacks s1 = 1 \<and> length (next_timeout s1) = 5)"
  by code_simp

lemma example_net_reach: "net_example = Inr s \<Longrightarrow> net_reach s"
  by (auto simp: net_example_def bindR_eq_Inr_iff intro: net_reach.intros)

text \<open>C14: Once started, the time client never stops asking. In every state the stack reaches, a
  started client has a request or a retry among the timeouts or waits for the name server, and
  doubles its retry time up to 150 seconds; no timeout is set twice, every cyclic timer is set, and
  of the ten places of the pool at most eight are in use.\<close>

theorem sntp_keeps_asking:
  assumes "net_reach s"
  shows "(sntp_pcb s \<longrightarrow> (Sntp_Request \<in> handler ` set (next_timeout s) \<or> Sntp_Retry \<in> handler ` set (next_timeout s) \<or>
      0 < dns_callbacks s) \<and> sntp_retry_timeout s \<in> {15000..150000}) \<and>
    distinct (map handler (next_timeout s)) \<and> length (next_timeout s) \<le> 8 \<and>
    (\<forall>i \<in> {1..<6}. Cyclic_Timer i \<in> handler ` set (next_timeout s))"
  using net_reach_inv [OF assms] pool_place [of s]
  by (auto simp: net_inv_def net_ok_def asking_def pending_def cyclic_def)

lemma sntp_keeps_asking_witness:
  "\<exists>s. net_reach s \<and> sntp_pcb s \<and> length (next_timeout s) = 5 \<and> dns_callbacks s = 1 \<and> sntp_retry_timeout s \<in> {15000..150000}"
proof -
  obtain s s1 where s: "net_example = Inr s" "net_step (Check_Timeouts 0xFFFFFFF8 [stack_example, stack_example]) s = Inr s1"
      "sntp_pcb s1" "dns_callbacks s1 = 1" "length (next_timeout s1) = 5"
    using example_net by (auto split: sum.splits)
  have r: "net_reach s1" by (rule net_reach.step [OF example_net_reach [OF s(1)] s(2)])
  show ?thesis using sntp_keeps_asking [OF r] r s(3-5) by blast
qed

text \<open>C17: A round of the timers ends. When no entry is overdue by more than twelve days and the clock
  does not run on further than that during the round, \<^verbatim>\<open>sys_check_timeouts\<close> returns after at
  most sixteen handlers, although each of them may set itself again, without running out of places,
  and nothing is due then.\<close>

theorem check_timeouts_returns:
  assumes "net_reach s" and "\<forall>t \<in> set (next_timeout s). not_late now t" and "\<forall>e \<in> set es. soon now e" and "16 \<le> length es"
  shows "\<exists>s'. sys_check_timeouts now es s = Inr s' \<and> expired now (next_timeout s') = None"
proof -
  have i: "net_inv s" by (rule net_reach_inv [OF assms(1)])
  then have "load now s \<le> length es" using load_bound [of s now] assms(4) by (simp add: net_inv_def)
  then show ?thesis using check_returns [OF i _ assms(3)] assms(2) by (simp add: fine_def)
qed

lemma check_timeouts_returns_witness:
  "\<exists>s s'. net_reach s \<and> expired 0x1F4 (next_timeout s) \<noteq> None \<and>
     sys_check_timeouts 0x1F4 (replicate 16 (stack_example\<lparr>sys_now := 0x1F4\<rparr>)) s = Inr s' \<and> expired 0x1F4 (next_timeout s') = None"
proof -
  obtain s where s: "net_example = Inr s" "due (hd (next_timeout s)) = 0xFFFFFFF7" "list_all (not_late 0x1F4) (next_timeout s)"
    using example_net by (auto split: sum.splits)
  have r: "net_reach s" by (rule example_net_reach [OF s(1)])
  then have "next_timeout s \<noteq> []" using net_reach_inv [OF r] by (auto simp: net_inv_def pending_def cyclic_def)
  then have "expired 0x1F4 (next_timeout s) \<noteq> None"
    using s(2) by (cases "next_timeout s") (simp_all add: expired_def TIME_LESS_THAN_def LWIP_MAX_TIMEOUT_def)
  moreover have "\<exists>s'. sys_check_timeouts 0x1F4 (replicate 16 (stack_example\<lparr>sys_now := 0x1F4\<rparr>)) s = Inr s' \<and>
      expired 0x1F4 (next_timeout s') = None"
    by (rule check_timeouts_returns [OF r]) (use s(3) in \<open>simp_all add: list_all_iff soon_def\<close>)
  ultimately show ?thesis using r by blast
qed

text \<open>C15: Which packet sets the time, and to what. The texts of the access change with a packet of
  48 bytes in the server mode whose stratum is not zero, and with no other; then they say the time
  of the packet, in seconds since 1900 of either era, less three hours, and the next request is the
  only timeout of the client. Nothing else of the packet is looked at.\<close>

theorem packet_sets_time:
  assumes "net_reach s" and "sntp_pcb s"
  shows "\<exists>s'. sntp_recv e p s = Inr s' \<and>
    (if length p = 48 \<and> p ! 0 AND 7 = 4 \<and> p ! 1 \<noteq> 0
     then (\<forall>t. lwip_ntohl (take 4 (drop 40 p)) = of_nat t \<and> 2208999600 \<le> t \<and> t < 2208999600 + 2 ^ 32 \<longrightarrow>
         read_time (c_str (fst (texts s'))) + 2208999600 = t) \<and>
       Sntp_Request \<in> handler ` set (next_timeout s') \<and> Sntp_Retry \<notin> handler ` set (next_timeout s')
     else texts s' = texts s)"
proof -
  have "net_ok s" "asking s" using net_reach_inv [OF assms(1)] assms(2) by (simp_all add: net_inv_def)
  from recv_kept [OF this(1) assms(2) this(2)] obtain s' where s': "sntp_recv e p s = Inr s'"
      "if accepted p then read_time (c_str (fst (texts s'))) = unat (lwip_ntohl (take 4 (drop 40 p)) + DIFF_SEC_1970_2036 - 10800) \<and>
         Sntp_Request \<in> pending s' \<and> Sntp_Retry \<notin> pending s'
       else texts s' = texts s" by blast
  have u: "unat (of_nat t + DIFF_SEC_1970_2036 - 10800) + 2208999600 = t" if "2208999600 \<le> t" "t < 2208999600 + 2 ^ 32" for t
  proof -
    have c: "DIFF_SEC_1970_2036 - 10800 = - 2208999600" by code_simp
    have "(of_nat t :: u32) + DIFF_SEC_1970_2036 - 10800 = of_nat t + (DIFF_SEC_1970_2036 - 10800)" by simp
    also have "\<dots> = of_nat (t - 2208999600)" unfolding c using that(1) by (simp add: of_nat_diff)
    finally have e: "(of_nat t :: u32) + DIFF_SEC_1970_2036 - 10800 = of_nat (t - 2208999600)" .
    have v: "unat (of_nat (t - 2208999600) :: u32) = t - 2208999600" using that by (intro unat_of_nat_u32) simp
    show ?thesis unfolding e v using that(1) by (rule le_add_diff_inverse2)
  qed
  show ?thesis
    using s' u by (intro exI [of _ s']) (auto simp: accepted_def SNTP_MSG_LEN_def pending_def)
qed

lemma packet_sets_time_witness:
  "\<exists>s s'. net_reach s \<and> sntp_recv stack_example server_packet s = Inr s' \<and> read_time (c_str (fst (texts s'))) = 1645272214"
proof -
  obtain s where s: "net_example = Inr s" "sntp_pcb s" using example_net by (auto split: sum.splits)
  have r: "net_reach s" by (rule example_net_reach [OF s(1)])
  have t: "lwip_ntohl (take 4 (drop 40 server_packet)) = 3854271814" by code_simp
  have p: "length server_packet = 48" "server_packet ! 0 AND 7 = 4" "server_packet ! 1 \<noteq> 0"
    by (simp_all add: server_packet_def)
  from packet_sets_time [OF r s(2), of stack_example server_packet] p
  obtain s' where s': "sntp_recv stack_example server_packet s = Inr s'"
      "\<And>t. lwip_ntohl (take 4 (drop 40 server_packet)) = of_nat t \<Longrightarrow> 2208999600 \<le> t \<Longrightarrow> t < 2208999600 + 2 ^ 32 \<Longrightarrow>
         read_time (c_str (fst (texts s'))) + 2208999600 = t"
    by auto
  have "read_time (c_str (fst (texts s'))) + 2208999600 = 3854271814"
    by (rule s'(2)) (simp_all add: t)
  then have "read_time (c_str (fst (texts s'))) = 1645272214" by simp
  then show ?thesis using r s'(1) by blast
qed

end
