(* ===== verification/Spec2Isabelle.thy ===== *)
theory Spec2Isabelle
  imports Led Tasks_Types Sntp
begin

text \<open>
  The firmware of an access control system on a FRDM-K64F board (\<^verbatim>\<open>Final Project\<close>). A magnetic
  card is read, its number is looked up in a list, a picture is taken with an OV7670 camera,
  compressed to JPEG, encoded to Base64 and mailed, and the door is opened; a web page edits the
  list and the address. Three tasks of the uC/OS-III kernel do this: \<^verbatim>\<open>TaskStart\<close> stores the lines
  of the camera, \<^verbatim>\<open>Task2\<close> serves the cards, \<^verbatim>\<open>Task3\<close> polls the network stack, whose callbacks
  serve the web pages and the mail. Interrupts run the card reader, the signals of the camera, the
  I2C bus and the timers.

  \<^bold>\<open>Conventions\<close> (\<^verbatim>\<open>C_Prelude\<close>). A computation that can go wrong has the type \<open>'a result\<close>: \<open>Inl\<close>
  is a fault of the C program (an access outside an array, a null pointer, a failed assertion,
  which hangs), \<open>Inr\<close> a value. Integers are words of the width of the source where their size
  matters and natural numbers where the source keeps them small; an array is a list, read by \<open>rd\<close>
  and written by \<open>wr\<close>, which fault outside it. Static variables are the fields of a record per
  file, named as in the source; callbacks and interrupt handlers are constructors of a datatype
  of function names. The hardware is the part of the registers the drivers touch.

  \<^bold>\<open>Theories and files\<close> (under \<^verbatim>\<open>source/\<close> if nothing else is said).
  \<^item> \<^verbatim>\<open>Magnetic\<close>, \<^verbatim>\<open>Magnetic_Swipe\<close>: \<^verbatim>\<open>magnetic.c\<close>, the reader: its event tables, actions, handlers and
    services. An invariant ties each state to the characters stored so far; a swipe of a valid
    track ends in valid data, and valid data is always a track with sentinels and checksum.
  \<^item> \<^verbatim>\<open>Cards\<close>: \<^verbatim>\<open>magnetic_app.c\<close>, \<^verbatim>\<open>array_compare.c\<close>, \<^verbatim>\<open>id_identification.c\<close>, \<^verbatim>\<open>CardsCGIhandler\<close> of
    \<^verbatim>\<open>main.c\<close>: the card number, the search in the list and its edition.
  \<^item> \<^verbatim>\<open>Timer\<close>: \<^verbatim>\<open>timer.c\<close>; the tick handler refines a specification by remaining times.
  \<^item> \<^verbatim>\<open>I2C\<close>, \<^verbatim>\<open>I2C_Fifo\<close>: \<^verbatim>\<open>I2C_Driver.c\<close>, \<^verbatim>\<open>I2C_FIFO_driver.c\<close>; transfers byte by byte, and the
    queue of messages, which refines a list.
  \<^item> \<^verbatim>\<open>Gpio\<close>, \<^verbatim>\<open>Ftm\<close>, \<^verbatim>\<open>Led\<close>, \<^verbatim>\<open>Dma\<close>: \<^verbatim>\<open>gpio.c\<close>, \<^verbatim>\<open>FTM.c\<close>, \<^verbatim>\<open>Led_DRV.c\<close>, \<^verbatim>\<open>DMA.c\<close>: what the
    services leave in the registers, which pins the interrupt dispatch serves, where a DMA row goes.
  \<^item> \<^verbatim>\<open>Camera\<close>: \<^verbatim>\<open>OV7670.c\<close>; the interrupt handlers, the line task and the sensor's signals: a full
    frame ends with the picture in the bitmap and one callback.
  \<^item> \<^verbatim>\<open>Jpec_Buf\<close>, \<^verbatim>\<open>Jpec_Bits\<close>, \<^verbatim>\<open>Jpec_Tables\<close>, \<^verbatim>\<open>Jpec_Huff\<close>, \<^verbatim>\<open>Jpec_Enc\<close>, \<^verbatim>\<open>Jpec_Run\<close>: \<^verbatim>\<open>jpec-master/src\<close>
    (\<^verbatim>\<open>buf.c\<close>, \<^verbatim>\<open>huff.c\<close>, \<^verbatim>\<open>conf.c\<close>, \<^verbatim>\<open>enc.c\<close>), the JPEG encoder; \<^verbatim>\<open>Jpec_Decode\<close> is a decoder after
    the JPEG standard, the reference the encoder is proved against.
  \<^item> \<^verbatim>\<open>Base64\<close>: \<^verbatim>\<open>base64.c\<close> against the definition of RFC 4648.
  \<^item> \<^verbatim>\<open>Compress\<close>: \<^verbatim>\<open>compress_and_send_photo\<close> of \<^verbatim>\<open>main.c\<close>, the two put together: the length of a file is
    bounded block by block, so the text fits a word, and fits the picture up to 57600 bytes.
  \<^item> \<^verbatim>\<open>Web_Config\<close>: the other page handlers of \<^verbatim>\<open>main.c\<close>, and the two routines of
    \<^verbatim>\<open>lwip/src/apps/httpd/httpd.c\<close> that reach them.
  \<^item> \<^verbatim>\<open>Mail_Body\<close>, \<^verbatim>\<open>Smtp\<close>: \<^verbatim>\<open>my_smtp_bodydh_fn\<close> of \<^verbatim>\<open>main.c\<close> and \<^verbatim>\<open>lwip/src/apps/smtp/smtp.c\<close>, the
    mail session: the bytes it sends, its result, what happens when its memory changes.
  \<^item> \<^verbatim>\<open>Os_Kernel\<close>, \<^verbatim>\<open>Os_Invariant\<close>, \<^verbatim>\<open>Os_Objects\<close>, \<^verbatim>\<open>Os_Services\<close>: \<^verbatim>\<open>os_core.c\<close>, \<^verbatim>\<open>os_prio.c\<close>,
    \<^verbatim>\<open>os_sem.c\<close>, \<^verbatim>\<open>os_mutex.c\<close>, \<^verbatim>\<open>os_task.c\<close> of uC/OS-III: ready list, wait lists, semaphores, mutexes
    with priority inheritance; their invariant, that every service returns, and the scheduling rule.
    \<^verbatim>\<open>Os_Objects\<close> forgets lists and priorities: owner and count of a mutex, counter of a semaphore,
    what a task waits for; the services refine the operations on these.
  \<^item> \<^verbatim>\<open>Os_Claims\<close>: what a task knows of a mutex from the calls it has made.
  \<^item> \<^verbatim>\<open>Tasks\<close>, \<^verbatim>\<open>Tasks_Inv\<close>, \<^verbatim>\<open>Tasks_Safe\<close>, \<^verbatim>\<open>Tasks_Run\<close>: the three tasks of \<^verbatim>\<open>main.c\<close> over all of the above,
    as steps between calls of the kernel and interrupts. The invariant ties the places of the tasks
    to the mutexes, the waiting tasks and the phase of the camera; the theorems say that a picture
    is complete when it is used, that an open mail is protected, and what a lost mail does.
  \<^item> \<^verbatim>\<open>Tasks_Door\<close>: runs of the tasks, and who opens the door: the last look into the list found the
    number; but a failed reading gives a number of zeros, which an empty row of the list admits.
    \<^verbatim>\<open>Tasks_Types\<close>: the arrays of the program keep their
    sizes, and no step makes another fault than the ones it names.
  \<^item> \<^verbatim>\<open>Clock\<close>: \<^verbatim>\<open>sntp_set_system_time\<close> of \<^verbatim>\<open>main.c\<close>, the texts of the time; read back they say it.
  \<^item> \<^verbatim>\<open>Net_Timers\<close>: \<^verbatim>\<open>lwip/src/core/timeouts.c\<close>, the list of timeouts on a clock that wraps around; it
    refines one on a clock that does not.
  \<^item> \<^verbatim>\<open>Sntp\<close>: the timers of the stack, \<^verbatim>\<open>lwip/src/apps/sntp/sntp.c\<close> and \<^verbatim>\<open>print_dhcp_state\<close>,
    \<^verbatim>\<open>sntp_example_init\<close> of \<^verbatim>\<open>main.c\<close>: the invariant of the pending timeouts, that a round ends, and
    which packets set the time.

  \<^bold>\<open>How the parts meet.\<close> The reader and the camera post semaphores from interrupts: their models count
  the posts, and the steps of \<^verbatim>\<open>Tasks\<close> hand them to the kernel. \<^verbatim>\<open>Task2\<close> calls the search of \<^verbatim>\<open>Cards\<close>
  on the list that \<^verbatim>\<open>Web_Config\<close> edits, takes the picture of \<^verbatim>\<open>Camera\<close>, and runs \<^verbatim>\<open>Compress\<close> on it;
  \<^verbatim>\<open>Task3\<close> opens sessions of \<^verbatim>\<open>Smtp\<close> that read what \<^verbatim>\<open>Task2\<close> has left in the shared arrays. The
  time client of \<^verbatim>\<open>Sntp\<close> calls \<^verbatim>\<open>sntp_set_system_time\<close> of \<^verbatim>\<open>Clock\<close>; in \<^verbatim>\<open>Tasks\<close> this call is an event of
  \<^verbatim>\<open>Task3\<close> with any time.

  \<^bold>\<open>Loops, bounds and fuel.\<close> One definition has fuel: \<open>sys_check_timeouts\<close> goes on as long as the list of
  what the stack answers to its handlers; sixteen are proved to be enough. Loops over an array are recursions with a
  termination proof or folds; the loop of \<^verbatim>\<open>OS_TaskChangePrio\<close>, which follows owners of mutexes, is a
  \<open>while_option\<close> proved to end in every reachable state of the kernel, also when tasks wait for each
  other in a circle. Assumptions on sizes stand in the theorems: a mutex is taken less than 255 times
  at once, the lengths of strings are below the width of their counters.

  \<^bold>\<open>Parameters.\<close> The rounding of floating-point numbers is a function \<open>fl\<close> with \<open>fl_ok\<close>:
  up to a million it errs by at most a millionth of the value and one more. What the network stack
  answers (room, outcomes of writes and closes, names, connections), the values the sensor sends,
  the bits of the card and the events of each round are arbitrary inputs.

  \<^bold>\<open>Not modelled.\<close> The network stack \<^verbatim>\<open>lwip\<close> beside its timeouts, the vendor drivers, CMSIS and the start-up code are
  other people's code or register writes without decisions. Of the kernel, time limits, deletion,
  suspension, queues, flags, timers and statistics are not used by the program; stacks and the task
  switch are assembly. Console messages and the
  start-up of the peripherals of \<^verbatim>\<open>main\<close> are left out. The interrupts of the program do not announce
  themselves to the kernel, and a post in a handler reschedules at once in the model; on the
  processor the switch happens at the end of the handler. The card reader, the I2C bus and the
  timers run on the same processor but share no data with the tasks beyond what the steps use.
\<close>

end
